(* ===== verification/Prelude.thy ===== *)
theory Prelude
  imports Main "HOL-Library.Word"
begin

text \<open>
  Shared vocabulary of the development: the fixed-width integer types of the C++ code, the
  outcome type of an operation, the \<open>REQUIRE\<close> macro of \<open>attos/cpu.h\<close>, \<open>round_up\<close>, and the
  generic lemmas on words, lists and outcomes that the component theories share.

  An operation of the code either returns or does not. It does not return when it reaches
  \<open>fatal_error\<close> (a failed \<open>REQUIRE\<close>, a \<open>FATAL_ERROR\<close>), when it reads or writes outside the object
  it is given (undefined in C++; made visible here), or when one of its loops never ends. The three
  are the constructors of \<open>fault\<close>; \<open>fault + 'a\<close> is the type of an outcome.
\<close>

unbundle bit_operations_syntax

section \<open>Integers and outcomes\<close>

type_synonym u8 = "8 word"
type_synonym u16 = "16 word"
type_synonym u32 = "32 word"
type_synonym u64 = "64 word"

datatype fault =
    Fatal string   \<comment> \<open>\<open>fatal_error\<close> was called with this detail\<close>
  | Wild string    \<comment> \<open>an access outside the object named\<close>
  | No_return      \<comment> \<open>the fuel of a loop was used up\<close>

type_synonym 'a res = "fault + 'a"

definition require :: "bool \<Rightarrow> string \<Rightarrow> 'a res \<Rightarrow> 'a res" where
  "require c detail k = (if c then k else Inl (Fatal detail))"

definition in_object :: "bool \<Rightarrow> string \<Rightarrow> 'a res \<Rightarrow> 'a res" where
  "in_object c what k = (if c then k else Inl (Wild what))"

definition andThen :: "'a res \<Rightarrow> ('a \<Rightarrow> 'b res) \<Rightarrow> 'b res" where
  "andThen r f = (case r of Inl e \<Rightarrow> Inl e | Inr x \<Rightarrow> f x)"

definition round_up :: "u64 \<Rightarrow> u64 \<Rightarrow> u64" where
  "round_up val align = (if val mod align \<noteq> 0 then val + align - val mod align else val)"

named_theorems res_simps \<open>unfolding of outcomes\<close>

lemma andThen_Inl [simp, res_simps]: "andThen (Inl e) f = Inl e"
  by (simp add: andThen_def)

lemma andThen_Inr [simp, res_simps]: "andThen (Inr x) f = f x"
  by (simp add: andThen_def)

lemma andThen_eq_Inr [res_simps]:
  "andThen r f = Inr y \<longleftrightarrow> (\<exists>x. r = Inr x \<and> f x = Inr y)"
  by (cases r) simp_all

lemma andThen_assoc: "andThen (andThen r f) g = andThen r (\<lambda>x. andThen (f x) g)"
  by (cases r) simp_all

lemma require_True [simp, res_simps]: "require True d k = k"
  by (simp add: require_def)

lemma require_False [simp, res_simps]: "require False d k = Inl (Fatal d)"
  by (simp add: require_def)

lemma require_eq_Inr [res_simps]: "require c d k = Inr y \<longleftrightarrow> c \<and> k = Inr y"
  by (simp add: require_def)

lemma in_object_True [simp, res_simps]: "in_object True d k = k"
  by (simp add: in_object_def)

lemma in_object_False [simp, res_simps]: "in_object False d k = Inl (Wild d)"
  by (simp add: in_object_def)

lemma in_object_eq_Inr [res_simps]: "in_object c d k = Inr y \<longleftrightarrow> c \<and> k = Inr y"
  by (simp add: in_object_def)

lemma require_cong [cong]: "c = c' \<Longrightarrow> (c' \<Longrightarrow> k = k') \<Longrightarrow> require c d k = require c' d k'"
  by (simp add: require_def)

lemma in_object_cong [cong]: "c = c' \<Longrightarrow> (c' \<Longrightarrow> k = k') \<Longrightarrow> in_object c d k = in_object c' d k'"
  by (simp add: in_object_def)

text \<open>A counted loop \<open>for (i = lo; i < lo + n; ++i)\<close> over a state.\<close>

fun for_range :: "nat \<Rightarrow> nat \<Rightarrow> (nat \<Rightarrow> 's \<Rightarrow> 's res) \<Rightarrow> 's \<Rightarrow> 's res" where
  "for_range lo 0 f s = Inr s"
| "for_range lo (Suc n) f s = andThen (f lo s) (for_range (Suc lo) n f)"

lemma for_range_skip: "(\<And>i. lo \<le> i \<Longrightarrow> i < lo + n \<Longrightarrow> f i s = Inr s) \<Longrightarrow> for_range lo n f s = Inr s"
  by (induction n arbitrary: lo) simp_all

lemma for_range_snoc: "for_range lo (Suc n) f s = andThen (for_range lo n f s) (f (lo + n))"
proof (induction n arbitrary: lo s)
  case 0
  then show ?case by (cases "f lo s") simp_all
next
  case (Suc n)
  have "for_range (Suc lo) (Suc n) f = (\<lambda>x. andThen (for_range (Suc lo) n f x) (f (Suc lo + n)))"
    by (rule ext) (rule Suc.IH)
  then show ?case by (simp only: for_range.simps(2) [of lo] andThen_assoc add_Suc_right add_Suc)
qed

lemma for_range_inv:
  assumes "\<And>i st. lo \<le> i \<Longrightarrow> i < lo + n \<Longrightarrow> P i st \<Longrightarrow> \<exists>st'. f i st = Inr st' \<and> P (Suc i) st'" "P lo st"
  shows "\<exists>st'. for_range lo n f st = Inr st' \<and> P (lo + n) st'"
  using assms
proof (induction n arbitrary: lo st)
  case (Suc n)
  obtain st1 where "f lo st = Inr st1" "P (Suc lo) st1" using Suc.prems(1) [of lo st] Suc.prems(2) by auto
  then show ?case using Suc.IH [of "Suc lo" st1] Suc.prems(1) by simp
qed simp

lemma andThen_cong [fundef_cong]: "r = r' \<Longrightarrow> (\<And>x. r' = Inr x \<Longrightarrow> f x = g x) \<Longrightarrow> andThen r f = andThen r' g"
  by (cases r') simp_all

section \<open>Words\<close>

named_theorems word_nat \<open>from words to natural numbers\<close>

lemmas [word_nat] = word_less_nat_alt word_le_nat_alt word_unat_eq_iff

lemma u64_range: "unat (x :: u64) < 18446744073709551616"
  using unsigned_less [of x] by simp

lemma u64_add [word_nat]:
  "unat (x :: u64) + unat y < 18446744073709551616 \<Longrightarrow> unat (x + y) = unat x + unat y"
  by (simp add: unat_add_lem [THEN iffD1])

lemma u64_sub [word_nat]: "y \<le> x \<Longrightarrow> unat (x - y) = unat x - unat (y :: u64)"
  by (rule unat_sub)

lemma u64_eqI: "unat x = unat y \<Longrightarrow> x = (y :: u64)"
  by (simp add: word_unat_eq_iff)

lemma unat_of_nat_u64: "n < 18446744073709551616 \<Longrightarrow> unat (of_nat n :: u64) = n"
  by (simp add: unat_of_nat take_bit_eq_mod)

lemma sint_u64: "sint (w :: u64) = (if unat w < 9223372036854775808 then int (unat w) else int (unat w) - 18446744073709551616)"
proof -
  have b: "- 9223372036854775808 \<le> sint w" "sint w < 9223372036854775808"
    using sint_greater_eq [of w] sint_less [of w] by simp_all
  have u: "int (unat w) = sint w mod 18446744073709551616"
    by (simp add: uint_nat [symmetric] uint_sint take_bit_eq_mod)
  show ?thesis
  proof (cases "0 \<le> sint w")
    case True
    then have "int (unat w) = sint w" using b u by simp
    moreover from this have "unat w < 9223372036854775808" using b(2) by linarith
    ultimately show ?thesis by presburger
  next
    case False
    then have "sint w mod 18446744073709551616 = sint w + 18446744073709551616"
      using b by (subst mod_add_self2 [symmetric], intro mod_pos_pos_trivial) auto
    then have "int (unat w) = sint w + 18446744073709551616" using u by presburger
    moreover from this have "\<not> unat w < 9223372036854775808" using b(1) by linarith
    ultimately show ?thesis by presburger
  qed
qed

lemma round_up_aligned [simp]: "val mod align = 0 \<Longrightarrow> round_up val align = val"
  by (simp add: round_up_def)

lemma round_up_unat:
  assumes fits: "unat val + unat align < 18446744073709551616" and pos: "align \<noteq> 0"
  shows "unat (round_up val align) =
           (if unat val mod unat align = 0 then unat val
            else unat val + unat align - unat val mod unat align)"
proof -
  have m: "unat (val mod align) = unat val mod unat align"
    by (simp add: unat_mod)
  have z: "val mod align = 0 \<longleftrightarrow> unat val mod unat align = 0"
    by (simp add: word_unat_eq_iff m)
  have le: "val mod align \<le> val + align"
    using fits by (simp add: word_le_nat_alt m u64_add trans_le_add1)
  show ?thesis
    using fits by (simp add: round_up_def z u64_sub [OF le] m u64_add)
qed

lemma round_up_bounds:
  assumes fits: "unat val + unat align < 18446744073709551616" and pos: "align \<noteq> 0"
  shows "unat val \<le> unat (round_up val align)"
    and "unat align dvd unat (round_up val align)"
    and "unat (round_up val align) < unat val + unat align"
proof -
  have al: "0 < unat align" using pos by (simp add: unat_gt_0)
  have lt: "unat val mod unat align < unat align" using al by simp
  note eq = round_up_unat [OF fits pos]
  show "unat val \<le> unat (round_up val align)" using lt unfolding eq by auto
  show "unat (round_up val align) < unat val + unat align" using lt al unfolding eq by auto
  show "unat align dvd unat (round_up val align)"
  proof (cases "unat val mod unat align = 0")
    case True
    then show ?thesis unfolding eq by auto
  next
    case False
    have "unat val + unat align - unat val mod unat align
            = unat align * (unat val div unat align) + unat align"
      using minus_mod_eq_mult_div [of "unat val" "unat align"] mod_less_eq_dividend [of "unat val" "unat align"]
      by linarith
    then show ?thesis using False unfolding eq by simp
  qed
qed

end
