(* ===== verification/Allocator.thy ===== *)
theory Allocator
  imports Prelude
begin

text \<open>
  The interface between the kernel's heap and its clients: what \<open>kalloc\<close> and \<open>kfree\<close> promise
  (\<open>attos/containers.h\<close> declares them). A block is an address and a size, as natural numbers;
  \<open>owns s P\<close> says that in the state \<open>s\<close> of the heap the clients own exactly the blocks \<open>P\<close>.
\<close>

type_synonym block = "nat \<times> nat"

definition block_range :: "block \<Rightarrow> nat set" where
  "block_range b = {fst b ..< fst b + snd b}"

definition live_range :: "block set \<Rightarrow> nat set" where
  "live_range L = (\<Union>b \<in> L. block_range b)"

lemma live_range_simps [simp]:
  "live_range {} = {}" "live_range (insert b L) = block_range b \<union> live_range L"
  by (auto simp: live_range_def)

text \<open>The block that starts at \<open>p\<close>, and all the others.\<close>

definition others :: "u64 \<Rightarrow> block set \<Rightarrow> block set" where
  "others p P = {b \<in> P. fst b \<noteq> unat p}"

lemma others_insert [simp]: "others p (insert (unat p, k) P) = others p P"
  by (auto simp: others_def)

locale allocator =
  fixes alloc :: "'s \<Rightarrow> u64 \<Rightarrow> (u64 \<times> 's) res"
    and release :: "'s \<Rightarrow> u64 \<Rightarrow> 's res"
    and owns :: "'s \<Rightarrow> block set \<Rightarrow> bool"
  assumes alloc_owns: "owns s P \<Longrightarrow> unat n < 9223372036854775808 \<Longrightarrow> alloc s n = Inr (p, s') \<Longrightarrow>
      \<exists>k \<ge> unat n. owns s' (insert (unat p, k) P) \<and> p \<noteq> 0 \<and> (\<forall>b \<in> P. fst b \<noteq> unat p)"
    and alloc_fault: "owns s P \<Longrightarrow> unat n < 9223372036854775808 \<Longrightarrow> alloc s n = Inl e \<Longrightarrow>
      e = Fatal ''Could not satisfy allocation request''"
    and release_owns: "owns s P \<Longrightarrow> (unat p, k) \<in> P \<Longrightarrow>
      \<exists>s'. release s p = Inr s' \<and> owns s' (P - {(unat p, k)})"
begin

text \<open>A block that is allocated and freed again leaves the ownership as it was.\<close>

lemma alloc_release:
  assumes "owns s P" "unat n < 9223372036854775808" "alloc s n = Inr (p, s')"
  shows "\<exists>s''. release s' p = Inr s'' \<and> owns s'' P"
proof -
  obtain k where k: "owns s' (insert (unat p, k) P)" "\<forall>b \<in> P. fst b \<noteq> unat p"
    using alloc_owns [OF assms] by blast
  then have "insert (unat p, k) P - {(unat p, k)} = P" by force
  then show ?thesis using release_owns [OF k(1), of p k] by auto
qed

end

end
