(* ===== verification/SimpleHeap.thy ===== *)
theory SimpleHeap
  imports Allocator
begin

text \<open>
  The kernel's heaps (\<open>attos/mem.h\<close>, \<open>attos/mem.cpp\<close>). \<open>simple_heap\<close> keeps its free blocks in a
  singly linked list whose nodes live inside the free memory itself; \<open>default_heap\<close> puts a 16-byte
  header with the size and a cookie in front of each block.

  Memory is a store of 8-byte cells: \<open>m a\<close> is the \<open>uint64_t\<close> at address \<open>a\<close>. A \<open>free_node\<close> at \<open>a\<close> has
  its \<open>size\<close> in the cell \<open>a\<close> and its \<open>next\<close> in the cell \<open>a + 8\<close>. A \<open>free_node**\<close> is a \<open>link\<close>: the head
  field of the heap or the next field of a node.

  The first half of the theory is the code; the second half is its abstraction, a sorted list of
  (address, size) pairs of natural numbers, with the refinement lemmas from one to the other.
\<close>

section \<open>The code\<close>

type_synonym mem = "u64 \<Rightarrow> u64"

record simple_heap =
  hbase :: u64
  hend :: u64
  hfree :: u64

definition end_of_list :: u64 where
  "end_of_list = NOT 0"

definition sizeof_free_node :: u64 where
  "sizeof_free_node = 16"

datatype link = Head | Next_of u64

fun load_link :: "mem \<Rightarrow> simple_heap \<Rightarrow> link \<Rightarrow> u64" where
  "load_link m h Head = hfree h"
| "load_link m h (Next_of a) = m (a + 8)"

fun store_link :: "mem \<Rightarrow> simple_heap \<Rightarrow> link \<Rightarrow> u64 \<Rightarrow> mem \<times> simple_heap" where
  "store_link m h Head v = (m, h\<lparr>hfree := v\<rparr>)"
| "store_link m h (Next_of a) v = (m(a + 8 := v), h)"

text \<open>The number of nodes a well-formed list of this heap can have, plus one: the fuel of its loops.\<close>

definition heap_fuel :: "simple_heap \<Rightarrow> nat" where
  "heap_fuel h = Suc (Suc (unat (hend h - hbase h) div 16))"

fun coalesce_from :: "nat \<Rightarrow> mem \<Rightarrow> u64 \<Rightarrow> mem res" where
  "coalesce_from 0 m f = Inl No_return"
| "coalesce_from (Suc n) m f =
     (if f \<noteq> end_of_list \<and> m (f + 8) \<noteq> end_of_list \<and> f + m f = m (f + 8) then
        let m1 = m(f := m f + m (m (f + 8)));
            m2 = m1(f + 8 := m1 (m1 (f + 8) + 8))
        in coalesce_from n m2 f
      else Inr m)"

fun insert_scan :: "nat \<Rightarrow> mem \<Rightarrow> u64 \<Rightarrow> u64 \<Rightarrow> u64 res" where
  "insert_scan 0 m new_free prev = Inl No_return"
| "insert_scan (Suc n) m new_free prev =
     (if m (prev + 8) \<noteq> end_of_list \<and> m (prev + 8) < new_free
      then insert_scan n m new_free (m (prev + 8)) else Inr prev)"

definition insert_free :: "mem \<Rightarrow> simple_heap \<Rightarrow> u64 \<Rightarrow> u64 \<Rightarrow> (mem \<times> simple_heap) res" where
  "insert_free m h ptr sz =
     (let new_free = ptr;
          m1 = m(new_free := sz, new_free + 8 := end_of_list)
      in if hfree h = end_of_list \<or> hfree h > new_free then
           let m2 = m1(new_free + 8 := hfree h);
               h2 = h\<lparr>hfree := new_free\<rparr>
           in andThen (coalesce_from (heap_fuel h) m2 (hfree h2)) (\<lambda>m3. Inr (m3, h2))
         else
           andThen (insert_scan (heap_fuel h) m1 new_free (hfree h)) (\<lambda>prev.
             let m2 = m1(new_free + 8 := m1 (prev + 8));
                 m3 = m2(prev + 8 := new_free)
             in andThen (coalesce_from (heap_fuel h) m3 prev) (\<lambda>m4. Inr (m4, h))))"

definition simple_heap_new :: "mem \<Rightarrow> u64 \<Rightarrow> u64 \<Rightarrow> (mem \<times> simple_heap) res" where
  "simple_heap_new m base len =
     require (len \<ge> sizeof_free_node) ''length >= sizeof(free_node)'' (
     require (len mod sizeof_free_node = 0) ''length % sizeof(free_node) == 0'' (
       insert_free m \<lparr>hbase = base, hend = base + len, hfree = end_of_list\<rparr> base len))"

text \<open>The destructor only checks that everything came back.\<close>

definition simple_heap_destroy :: "mem \<Rightarrow> simple_heap \<Rightarrow> unit res" where
  "simple_heap_destroy m h =
     require (hfree h = hbase h \<and> m (hfree h) = hend h - hbase h)
       ''free_ == base_ && free_->size == end_ - base_'' (Inr ())"

fun alloc_scan :: "nat \<Rightarrow> mem \<Rightarrow> simple_heap \<Rightarrow> u64 \<Rightarrow> link \<Rightarrow> link res" where
  "alloc_scan 0 m h sz fp = Inl No_return"
| "alloc_scan (Suc n) m h sz fp =
     (let p = load_link m h fp in
      if p \<noteq> end_of_list \<and> m p < sz then alloc_scan n m h sz (Next_of p) else Inr fp)"

definition simple_heap_alloc :: "mem \<Rightarrow> simple_heap \<Rightarrow> u64 \<Rightarrow> (u64 \<times> mem \<times> simple_heap) res" where
  "simple_heap_alloc m h sz =
     andThen (alloc_scan (heap_fuel h) m h sz Head) (\<lambda>fp.
       let p = load_link m h fp in
       require (p \<noteq> end_of_list) ''Could not satisfy allocation request'' (
         let next_free = p + sz div sizeof_free_node * sizeof_free_node;
             free_size = m p - sz
         in if free_size \<noteq> 0 then
              let m1 = m(next_free := free_size);
                  m2 = m1(next_free + 8 := m1 (load_link m1 h fp + 8))
              in Inr (p, store_link m2 h fp next_free)
            else Inr (p, store_link m h fp (m (p + 8)))))"

definition simple_heap_free :: "mem \<Rightarrow> simple_heap \<Rightarrow> u64 \<Rightarrow> u64 \<Rightarrow> (mem \<times> simple_heap) res" where
  "simple_heap_free m h ptr sz =
     require (ptr \<ge> hbase h \<and> ptr + sz \<le> hend h) ''ptr >= base_ && ptr + size <= end_'' (
       insert_free m h ptr sz)"

text \<open>\<open>default_heap\<close>: a size and a cookie in front of every block.\<close>

definition heap_align :: u64 where
  "heap_align = 16"

definition default_heap_alloc :: "mem \<Rightarrow> simple_heap \<Rightarrow> u64 \<Rightarrow> (u64 \<times> mem \<times> simple_heap) res" where
  "default_heap_alloc m h size0 =
     (let sz = round_up (size0 + heap_align) heap_align in
      andThen (simple_heap_alloc m h sz) (\<lambda>(ptr, m1, h1).
        let m2 = m1(ptr := sz);
            m3 = m2(ptr + 8 := ptr)
        in Inr (ptr + heap_align, m3, h1)))"

definition default_heap_free :: "mem \<Rightarrow> simple_heap \<Rightarrow> u64 \<Rightarrow> (mem \<times> simple_heap) res" where
  "default_heap_free m h ptr =
     (let p = ptr - heap_align;
          sz = m p
      in require (m (p + 8) = p) ''reinterpret_cast<const uint64_t*>(p)[1] == reinterpret_cast<uint64_t>(p)'' (
           simple_heap_free (m(p + 8 := 0)) h p sz))"

text \<open>Evaluation on concrete heaps.\<close>

lemma coalesce_from_numeral [simp]:
  "coalesce_from (numeral k) m f =
     (if f \<noteq> end_of_list \<and> m (f + 8) \<noteq> end_of_list \<and> f + m f = m (f + 8) then
        let m1 = m(f := m f + m (m (f + 8)));
            m2 = m1(f + 8 := m1 (m1 (f + 8) + 8))
        in coalesce_from (pred_numeral k) m2 f
      else Inr m)"
  by (simp add: numeral_eq_Suc)

lemma insert_scan_numeral [simp]:
  "insert_scan (numeral k) m new_free prev =
     (if m (prev + 8) \<noteq> end_of_list \<and> m (prev + 8) < new_free
      then insert_scan (pred_numeral k) m new_free (m (prev + 8)) else Inr prev)"
  by (simp add: numeral_eq_Suc)

lemma alloc_scan_numeral [simp]:
  "alloc_scan (numeral k) m h sz fp =
     (let p = load_link m h fp in
      if p \<noteq> end_of_list \<and> m p < sz then alloc_scan (pred_numeral k) m h sz (Next_of p) else Inr fp)"
  by (simp add: numeral_eq_Suc)

lemmas heap_eval = simple_heap_new_def insert_free_def heap_fuel_def end_of_list_def sizeof_free_node_def
  simple_heap_alloc_def simple_heap_free_def Let_def

section \<open>The abstract heap: a sorted list of free blocks\<close>

fun blocks_in :: "nat \<Rightarrow> nat \<Rightarrow> block list \<Rightarrow> bool" where
  "blocks_in lo hi [] \<longleftrightarrow> lo \<le> hi"
| "blocks_in lo hi ((a, s) # bs) \<longleftrightarrow> lo \<le> a \<and> 0 < s \<and> 16 dvd s \<and> blocks_in (a + s) hi bs"

text \<open>First fit.\<close>

fun take_fit :: "nat \<Rightarrow> block list \<Rightarrow> (nat \<times> block list) option" where
  "take_fit n [] = None"
| "take_fit n ((a, s) # bs) =
     (if s < n then map_option (\<lambda>(r, bs'). (r, (a, s) # bs')) (take_fit n bs)
      else Some (a, if s = n then bs else (a + n, s - n) # bs))"

text \<open>\<open>merge_front\<close> joins the first block with the blocks that follow it without a gap.\<close>

fun merge_front :: "block list \<Rightarrow> block list" where
  "merge_front ((a, s) # (b, t) # bs) =
     (if a + s = b then merge_front ((a, s + t) # bs) else (a, s) # (b, t) # bs)"
| "merge_front bs = bs"

fun insert_after :: "block \<Rightarrow> block list \<Rightarrow> block list" where
  "insert_after x [] = [x]"
| "insert_after x (p # bs) =
     (if bs \<noteq> [] \<and> fst (hd bs) < fst x then p # insert_after x bs else merge_front (p # x # bs))"

definition put_block :: "block \<Rightarrow> block list \<Rightarrow> block list" where
  "put_block x bs =
     (if bs = [] \<or> fst (hd bs) > fst x then merge_front (x # bs) else insert_after x bs)"

definition free_bytes :: "block list \<Rightarrow> nat" where
  "free_bytes bs = sum_list (map snd bs)"

definition free_range :: "block list \<Rightarrow> nat set" where
  "free_range bs = (\<Union>b \<in> set bs. block_range b)"

text \<open>The list in memory that starts at \<open>p\<close> and ends at \<open>q\<close> is the list of blocks.\<close>

fun chain :: "mem \<Rightarrow> u64 \<Rightarrow> block list \<Rightarrow> u64 \<Rightarrow> bool" where
  "chain m p [] q \<longleftrightarrow> p = q"
| "chain m p ((a, s) # bs) q \<longleftrightarrow>
     unat p = a \<and> unat (m p) = s \<and> chain m (m (p + 8)) bs q"

definition heap_rep :: "mem \<Rightarrow> simple_heap \<Rightarrow> block list \<Rightarrow> bool" where
  "heap_rep m h bs \<longleftrightarrow>
     hbase h \<le> hend h \<and>
     blocks_in (unat (hbase h)) (unat (hend h)) bs \<and> chain m (hfree h) bs end_of_list"


section \<open>Facts about block lists\<close>

lemma blocks_in_le: "blocks_in lo hi bs \<Longrightarrow> lo \<le> hi"
  by (induction lo hi bs rule: blocks_in.induct) auto

lemma blocks_in_mono: "blocks_in lo hi bs \<Longrightarrow> lo' \<le> lo \<Longrightarrow> blocks_in lo' hi bs"
  by (cases bs) auto

lemma blocks_in_append:
  "blocks_in lo hi (xs @ ys) \<longleftrightarrow> (\<exists>mid. blocks_in lo mid xs \<and> blocks_in mid hi ys)"
proof (induction xs arbitrary: lo)
  case Nil
  then show ?case using blocks_in_le blocks_in_mono by auto
next
  case (Cons b xs)
  then show ?case by (cases b) auto
qed

lemma blocks_in_range:
  "blocks_in lo hi bs \<Longrightarrow> b \<in> set bs \<Longrightarrow> lo \<le> fst b \<and> fst b + snd b \<le> hi \<and> 16 \<le> snd b"
proof (induction lo hi bs rule: blocks_in.induct)
  case (2 lo hi a s bs)
  then show ?case using blocks_in_le dvd_imp_le by fastforce
qed simp

lemma blocks_in_free_range: "blocks_in lo hi bs \<Longrightarrow> free_range bs \<subseteq> {lo ..< hi}"
  using blocks_in_range by (fastforce simp: free_range_def block_range_def)

lemma free_range_simps [simp]:
  "free_range [] = {}" "free_range (b # bs) = block_range b \<union> free_range bs"
  "free_range (xs @ ys) = free_range xs \<union> free_range ys"
  by (auto simp: free_range_def)

lemma free_bytes_simps [simp]:
  "free_bytes [] = 0" "free_bytes (b # bs) = snd b + free_bytes bs"
  "free_bytes (xs @ ys) = free_bytes xs + free_bytes ys"
  by (auto simp: free_bytes_def)

lemma blocks_in_disjoint_tail:
  "blocks_in lo hi ((a, s) # bs) \<Longrightarrow> block_range (a, s) \<inter> free_range bs = {}"
  using blocks_in_free_range [of "a + s" hi bs] by (auto simp: block_range_def)

lemma length_blocks: "blocks_in lo hi bs \<Longrightarrow> 16 * length bs \<le> hi - lo"
proof (induction lo hi bs rule: blocks_in.induct)
  case (2 lo hi a s bs)
  then have "16 * length bs \<le> hi - (a + s)" and "lo \<le> a" and "16 \<le> s" and "a + s \<le> hi"
    using blocks_in_le dvd_imp_le by auto
  then show ?case by simp
qed simp

section \<open>Facts about lists in memory\<close>

lemma chain_append:
  "chain m p (xs @ ys) q \<longleftrightarrow> (\<exists>r. chain m p xs r \<and> chain m r ys q)"
  by (induction m p xs q rule: chain.induct) auto

lemma unat_header_cells:
  assumes "unat (p :: u64) + s \<le> hi" "hi < 18446744073709551616" "16 \<le> s"
  shows "unat (p + 8) = unat p + 8" "p + 8 \<noteq> p"
proof -
  show u: "unat (p + 8) = unat p + 8" using assms by (simp add: u64_add)
  show "p + 8 \<noteq> p" using u by (metis add_eq_self_zero zero_neq_numeral)
qed

text \<open>Writes outside the free memory, and writes to other nodes, leave the list alone.\<close>

lemma chain_upd:
  assumes "blocks_in lo hi bs" "hi < 18446744073709551616" "unat w \<notin> free_range bs"
  shows "chain (m(w := v)) p bs q \<longleftrightarrow> chain m p bs q"
  using assms
proof (induction bs arbitrary: lo p)
  case (Cons b bs)
  obtain a s where b: "b = (a, s)" by (cases b)
  have sz: "16 \<le> s" "a + s \<le> hi" using blocks_in_range [OF Cons.prems(1), of b] b by auto
  have w: "unat w \<noteq> a" "unat w \<noteq> a + 8"
    using Cons.prems(3) sz by (auto simp: b block_range_def)
  have IH: "chain (m(w := v)) p bs q \<longleftrightarrow> chain m p bs q" for p
    by (rule Cons.IH [of "a + s"]) (use Cons.prems b in auto)
  show ?case
  proof (cases "unat p = a")
    case True
    then have "unat (p + 8) = a + 8" using unat_header_cells(1) [of p s hi] sz Cons.prems(2) by simp
    then have "(m(w := v)) p = m p" "(m(w := v)) (p + 8) = m (p + 8)" using w True by auto
    then show ?thesis by (simp add: b IH del: fun_upd_apply)
  next
    case False
    then show ?thesis by (simp add: b)
  qed
qed simp

text \<open>A memory that agrees on all the free memory has the same list.\<close>

lemma chain_agree:
  assumes "blocks_in lo hi bs" "hi < 18446744073709551616"
    and "\<And>w. unat w \<in> free_range bs \<Longrightarrow> m' w = m w"
  shows "chain m' p bs q \<longleftrightarrow> chain m p bs q"
  using assms
proof (induction bs arbitrary: lo p)
  case (Cons b bs)
  obtain a s where b: "b = (a, s)" by (cases b)
  have sz: "16 \<le> s" "a + s \<le> hi" using blocks_in_range [OF Cons.prems(1), of b] b by auto
  have IH: "\<And>p. chain m' p bs q \<longleftrightarrow> chain m p bs q"
    using Cons.IH Cons.prems by (auto simp: b)
  show ?case
  proof (cases "unat p = a")
    case True
    then have "unat (p + 8) = a + 8" using unat_header_cells(1) [of p s hi] sz Cons.prems(2) by simp
    then have "m' p = m p" "m' (p + 8) = m (p + 8)"
      using Cons.prems(3) [of p] Cons.prems(3) [of "p + 8"] True sz by (auto simp: b block_range_def)
    then show ?thesis using IH by (simp add: b)
  qed (simp add: b)
qed simp

lemma unat_end_of_list: "unat end_of_list = 18446744073709551615"
  by (simp add: end_of_list_def unsigned_minus_1_eq_mask mask_eq_exp_minus_1)

lemma chain_start:
  assumes "chain m p ((a, s) # bs) q" "blocks_in lo hi ((a, s) # bs)" "hi < 18446744073709551616"
  shows "p \<noteq> end_of_list"
  using assms blocks_in_range [OF assms(2), of "(a, s)"] by (auto simp: unat_end_of_list)


section \<open>Links: where a prefix of the list ends\<close>

definition link_after :: "block list \<Rightarrow> link" where
  "link_after xs = (if xs = [] then Head else Next_of (of_nat (fst (last xs))))"

lemma link_after_Nil [simp]: "link_after [] = Head"
  by (simp add: link_after_def)

lemma link_after_snoc [simp]: "link_after (xs @ [(a, s)]) = Next_of (of_nat a)"
  by (simp add: link_after_def)

lemma chain_last:
  assumes "chain m p (xs @ [(a, s)]) r"
  shows "chain m p xs (of_nat a) \<and> unat (of_nat a :: u64) = a \<and> unat (m (of_nat a)) = s \<and> m (of_nat a + 8) = r"
  using assms by (auto simp: chain_append)

lemma load_link_after:
  "chain m (hfree h) xs r \<Longrightarrow> load_link m h (link_after xs) = r"
proof (cases xs rule: rev_cases)
  case (snoc us b)
  then show "chain m (hfree h) xs r \<Longrightarrow> load_link m h (link_after xs) = r"
    using chain_last by (cases b) fastforce
qed simp

lemma store_link_after:
  assumes st: "store_link m h (link_after xs) v = (m', h')"
    and ch: "chain m (hfree h) xs r" and bl: "blocks_in lo hi xs" and hi: "hi < 18446744073709551616"
  shows "chain m' (hfree h') xs v"
    and "\<And>w. unat w \<notin> free_range xs \<Longrightarrow> m' w = m w"
    and "hbase h' = hbase h" and "hend h' = hend h"
proof -
  have "chain m' (hfree h') xs v \<and> (\<forall>w. unat w \<notin> free_range xs \<longrightarrow> m' w = m w) \<and>
        hbase h' = hbase h \<and> hend h' = hend h"
  proof (cases xs rule: rev_cases)
    case Nil
    then show ?thesis using st by auto
  next
    case (snoc us b)
    obtain a s where b: "b = (a, s)" by (cases b)
    let ?p = "of_nat a :: u64"
    have l: "chain m (hfree h) us ?p" "unat ?p = a" "unat (m ?p) = s" "m (?p + 8) = r"
      using chain_last [of m "hfree h" us a s r] ch snoc b by auto
    obtain mid where mid: "blocks_in lo mid us" "blocks_in mid hi [(a, s)]"
      using bl snoc b blocks_in_append by blast
    have sz: "16 \<le> s" "a + s \<le> hi" "mid \<le> a"
      using blocks_in_range [OF mid(2), of "(a, s)"] mid(2) by auto
    have u: "unat (?p + 8) = a + 8" "?p + 8 \<noteq> ?p"
      using unat_header_cells [of ?p s hi] l(2) sz hi by auto
    have out: "unat (?p + 8) \<notin> free_range us"
      using blocks_in_free_range [OF mid(1)] sz u by fastforce
    have m': "m' = m(?p + 8 := v)" "h' = h" using st snoc b by auto
    have "chain m' (hfree h) us ?p"
      using chain_upd [OF mid(1) _ out, of m v "hfree h" ?p] l(1) mid(2) hi sz m' by simp
    moreover have "m' ?p = m ?p" "m' (?p + 8) = v" using m' u by auto
    ultimately have "chain m' (hfree h') xs v"
      using snoc b l m'(2) by (auto simp: chain_append simp del: fun_upd_apply)
    moreover have "m' w = m w" if "unat w \<notin> free_range xs" for w
    proof -
      have "unat w \<noteq> a + 8" using that snoc b sz by (auto simp: block_range_def)
      then show ?thesis using u m' by auto
    qed
    ultimately show ?thesis using m' by auto
  qed
  then show "chain m' (hfree h') xs v" "\<And>w. unat w \<notin> free_range xs \<Longrightarrow> m' w = m w"
    "hbase h' = hbase h" "hend h' = hend h" by auto
qed

section \<open>Allocation refines first fit\<close>

lemma alloc_scan_steps:
  assumes "chain m (hfree h) (us @ bs) end_of_list" "blocks_in lo hi (us @ bs)"
    "hi < 18446744073709551616" "length bs < n"
  shows "\<exists>xs ys. bs = xs @ ys \<and> (\<forall>b \<in> set xs. snd b < unat sz) \<and>
           (ys = [] \<or> unat sz \<le> snd (hd ys)) \<and>
           alloc_scan n m h sz (link_after us) = Inr (link_after (us @ xs))"
  using assms
proof (induction bs arbitrary: us n)
  case Nil
  then obtain k where n: "n = Suc k" by (cases n) auto
  have "load_link m h (link_after us) = end_of_list"
    using load_link_after Nil.prems(1) by simp
  then show ?case using n by simp
next
  case (Cons b bs)
  obtain a s where b: "b = (a, s)" by (cases b)
  obtain k where n: "n = Suc k" using Cons.prems(4) by (cases n) auto
  obtain r where r: "chain m (hfree h) us r" "chain m r ((a, s) # bs) end_of_list"
    using Cons.prems(1) chain_append b by blast
  obtain mid where "blocks_in mid hi ((a, s) # bs)" using Cons.prems(2) blocks_in_append b by blast
  then have ne: "r \<noteq> end_of_list" using chain_start r(2) Cons.prems(3) by blast
  have ld: "load_link m h (link_after us) = r" using load_link_after r(1) by blast
  show ?case
  proof (cases "s < unat sz")
    case True
    have "\<exists>xs ys. bs = xs @ ys \<and> (\<forall>b \<in> set xs. snd b < unat sz) \<and> (ys = [] \<or> unat sz \<le> snd (hd ys)) \<and>
           alloc_scan k m h sz (link_after (us @ [(a, s)])) = Inr (link_after ((us @ [(a, s)]) @ xs))"
      using Cons.IH [of "us @ [(a, s)]" k] Cons.prems n b by auto
    then obtain xs ys where xs: "bs = xs @ ys" "\<forall>b \<in> set xs. snd b < unat sz" "ys = [] \<or> unat sz \<le> snd (hd ys)"
       "alloc_scan k m h sz (Next_of (of_nat a)) = Inr (link_after (us @ (a, s) # xs))" by auto
    have "r = of_nat a" using r(2) by auto
    then have "alloc_scan n m h sz (link_after us) = Inr (link_after (us @ (a, s) # xs))"
      using n ld ne r(2) True xs(4) by (simp add: Let_def word_less_nat_alt)
    then show ?thesis using xs True b by (intro exI [of _ "(a, s) # xs"] exI [of _ ys]) auto
  next
    case False
    then have "alloc_scan n m h sz (link_after us) = Inr (link_after us)"
      using n ld r(2) by (simp add: Let_def word_less_nat_alt)
    then show ?thesis using False b by (intro exI [of _ "[]"] exI [of _ "b # bs"]) auto
  qed
qed

lemma take_fit_append:
  "\<forall>b \<in> set xs. snd b < n \<Longrightarrow>
     take_fit n (xs @ ys) = map_option (\<lambda>(r, bs'). (r, xs @ bs')) (take_fit n ys)"
proof (induction xs)
  case Nil
  then show ?case by (cases "take_fit n ys") auto
next
  case (Cons b xs)
  then show ?case by (cases b; cases "take_fit n ys") auto
qed

lemma heap_fuel_enough: "heap_rep m h bs \<Longrightarrow> length bs + 1 < heap_fuel h"
proof -
  assume rep: "heap_rep m h bs"
  then have "16 * length bs \<le> unat (hend h) - unat (hbase h)"
    using length_blocks by (auto simp: heap_rep_def)
  moreover have "unat (hend h - hbase h) = unat (hend h) - unat (hbase h)"
    using rep by (simp add: heap_rep_def u64_sub)
  ultimately show ?thesis by (simp add: heap_fuel_def)
qed

lemma simple_heap_alloc_None:
  assumes rep: "heap_rep m h bs" and none: "take_fit (unat sz) bs = None"
  shows "simple_heap_alloc m h sz = Inl (Fatal ''Could not satisfy allocation request'')"
proof -
  have ch: "chain m (hfree h) ([] @ bs) end_of_list"
    and bl: "blocks_in (unat (hbase h)) (unat (hend h)) ([] @ bs)"
    using rep by (auto simp: heap_rep_def)
  obtain xs ys where xs: "bs = xs @ ys" "\<forall>b \<in> set xs. snd b < unat sz" "ys = [] \<or> unat sz \<le> snd (hd ys)"
     "alloc_scan (heap_fuel h) m h sz Head = Inr (link_after xs)"
    using alloc_scan_steps [OF ch bl u64_range, of "heap_fuel h" sz] heap_fuel_enough [OF rep] by auto
  have "ys = []"
  proof (rule ccontr)
    assume "ys \<noteq> []"
    then obtain a s zs where ys: "ys = (a, s) # zs" by (cases ys) auto
    then have "take_fit (unat sz) bs \<noteq> None"
      using xs take_fit_append [OF xs(2), of ys] by auto
    then show False using none by simp
  qed
  then have "load_link m h (link_after xs) = end_of_list"
    using load_link_after xs(1) ch by auto
  then show ?thesis using xs(4) by (simp add: simple_heap_alloc_def)
qed


text \<open>What the representation says about one block of the list.\<close>

lemma blocks_in_mono_hi: "blocks_in lo mid bs \<Longrightarrow> mid \<le> hi \<Longrightarrow> blocks_in lo hi bs"
  by (induction lo mid bs rule: blocks_in.induct) auto

lemma heap_rep_block:
  assumes rep: "heap_rep m h (xs @ (a, s) # zs)"
  obtains p where "chain m (hfree h) xs p" "unat p = a" "unat (m p) = s"
    "chain m (m (p + 8)) zs end_of_list" "load_link m h (link_after xs) = p" "p \<noteq> end_of_list"
    "unat (p + 8) = a + 8" "p + 8 \<noteq> p"
    "blocks_in (unat (hbase h)) a xs" "blocks_in (a + s) (unat (hend h)) zs"
    "16 \<le> s" "16 dvd s" "a + s \<le> unat (hend h)"
proof -
  note hi = u64_range [of "hend h"]
  obtain p where p: "chain m (hfree h) xs p" "chain m p ((a, s) # zs) end_of_list"
    using rep by (auto simp: heap_rep_def chain_append)
  obtain mid where mid: "blocks_in (unat (hbase h)) mid xs" "blocks_in mid (unat (hend h)) ((a, s) # zs)"
    using rep blocks_in_append by (auto simp: heap_rep_def)
  have sz: "16 \<le> s" "a + s \<le> unat (hend h)" "mid \<le> a" "16 dvd s"
    using blocks_in_range [OF mid(2), of "(a, s)"] mid(2) by auto
  show thesis
  proof (rule that [of p])
    show "p \<noteq> end_of_list" using chain_start [OF p(2) mid(2) hi] .
    show "load_link m h (link_after xs) = p" using load_link_after p(1) by blast
    show "blocks_in (unat (hbase h)) a xs" using mid(1) sz(3) by (rule blocks_in_mono_hi)
    show "unat (p + 8) = a + 8" "p + 8 \<noteq> p"
      using unat_header_cells [of p s "unat (hend h)"] p(2) sz hi by auto
  qed (use p mid sz in auto)
qed

lemma free_range_before: "blocks_in lo a xs \<Longrightarrow> x \<in> free_range xs \<Longrightarrow> x < a"
  using blocks_in_free_range by fastforce

lemma free_range_after: "blocks_in a hi xs \<Longrightarrow> x \<in> free_range xs \<Longrightarrow> a \<le> x"
  using blocks_in_free_range by fastforce

text \<open>The block at the link is used up: it is unlinked.\<close>

lemma unlink_block:
  assumes rep: "heap_rep m h (xs @ (a, s) # zs)"
    and st: "store_link m h (link_after xs) (m (of_nat a + 8)) = (m', h')"
  shows "heap_rep m' h' (xs @ zs) \<and> hbase h' = hbase h \<and> hend h' = hend h \<and>
         (\<forall>w. unat w \<notin> free_range xs \<longrightarrow> m' w = m w)"
proof -
  obtain p where p: "chain m (hfree h) xs p" "unat p = a" "chain m (m (p + 8)) zs end_of_list"
      "blocks_in (unat (hbase h)) a xs" "blocks_in (a + s) (unat (hend h)) zs" "a + s \<le> unat (hend h)"
    using heap_rep_block [OF rep] by metis
  have pa: "of_nat a = p" using p(2) by auto
  have a: "a < 18446744073709551616" using p(6) u64_range [of "hend h"] by simp
  note sl = store_link_after [OF st p(1) p(4) a]
  have "m' w = m w" if "unat w \<in> free_range zs" for w
    using sl(2) free_range_before [OF p(4)] free_range_after [OF p(5) that] by fastforce
  then have "chain m' (m (p + 8)) zs end_of_list"
    using chain_agree [OF p(5) u64_range] p(3) by blast
  then have "chain m' (hfree h') (xs @ zs) end_of_list"
    using sl(1) pa by (auto simp: chain_append)
  moreover have "blocks_in (unat (hbase h)) (unat (hend h)) (xs @ zs)"
    using p(4) blocks_in_mono [OF p(5), of a] by (auto simp: blocks_in_append)
  ultimately show ?thesis using rep sl by (auto simp: heap_rep_def)
qed

text \<open>The rest of the block at the link stays free: a node is written there and linked in its place.\<close>

lemma shrink_block:
  assumes rep: "heap_rep m h (xs @ (a, s) # zs)"
    and n: "n < s" "16 \<le> n" "16 dvd n" "16 dvd s" and q: "unat q = a + n" and v: "unat v = s - n"
    and m2: "m2 = m(q := v, q + 8 := m (of_nat a + 8))"
    and st: "store_link m2 h (link_after xs) q = (m', h')"
  shows "load_link (m(q := v)) h (link_after xs) = of_nat a"
    and "heap_rep m' h' (xs @ (a + n, s - n) # zs) \<and> hbase h' = hbase h \<and> hend h' = hend h \<and>
         (\<forall>w. unat w \<notin> free_range (xs @ [(a, s)]) \<longrightarrow> m' w = m w)"
proof -
  obtain p where p: "chain m (hfree h) xs p" "unat p = a" "chain m (m (p + 8)) zs end_of_list"
      "blocks_in (unat (hbase h)) a xs" "blocks_in (a + s) (unat (hend h)) zs" "a + s \<le> unat (hend h)"
    using heap_rep_block [OF rep] by metis
  have pa: "of_nat a = p" using p(2) by auto
  have a: "a < 18446744073709551616" using p(6) u64_range [of "hend h"] by simp
  have rem: "16 dvd s - n" "16 \<le> s - n"
    using n dvd_diff_nat dvd_imp_le [of 16 "s - n"] by auto
  have q8: "unat (q + 8) = a + n + 8" "q + 8 \<noteq> q"
    using unat_header_cells [of q "s - n" "unat (hend h)"] q p(6) rem n u64_range [of "hend h"] by auto
  have out: "unat q \<notin> free_range xs" "unat (q + 8) \<notin> free_range xs"
    using free_range_before [OF p(4)] q q8 by fastforce+
  have "chain (m(q := v)) (hfree h) xs p" using p(1) chain_upd [OF p(4) a out(1)] by simp
  then show "load_link (m(q := v)) h (link_after xs) = of_nat a"
    using load_link_after pa by blast
  have "chain m2 (hfree h) xs p"
    using p(1) chain_upd [OF p(4) a out(1)] chain_upd [OF p(4) a out(2)] by (simp add: m2)
  note sl = store_link_after [OF st this p(4) a]
  have keep: "m' w = m w" if "unat w \<notin> free_range xs" "w \<noteq> q" "w \<noteq> q + 8" for w
    using sl(2) that by (simp add: m2)
  have m'q: "m' q = v" "m' (q + 8) = m (p + 8)" using sl(2) out q8 pa by (auto simp: m2)
  have "m' w = m w" if "unat w \<in> free_range zs" for w
  proof (rule keep)
    have ge: "a + s \<le> unat w" using free_range_after [OF p(5) that] .
    then show "unat w \<notin> free_range xs" using free_range_before [OF p(4)] by fastforce
    show "w \<noteq> q" "w \<noteq> q + 8" using ge q q8 n rem by auto
  qed
  then have "chain m' (m (p + 8)) zs end_of_list"
    using chain_agree [OF p(5) u64_range] p(3) by blast
  then have "chain m' (hfree h') (xs @ (a + n, s - n) # zs) end_of_list"
    using sl(1) q v m'q by (auto simp: chain_append)
  moreover have "blocks_in (unat (hbase h)) (unat (hend h)) (xs @ (a + n, s - n) # zs)"
    using p(4,5) rem n by (auto simp: blocks_in_append intro!: exI [of _ a])
  moreover have "m' w = m w" if "unat w \<notin> free_range (xs @ [(a, s)])" for w
    by (rule keep) (use that q q8 rem n in \<open>auto simp: block_range_def\<close>)
  ultimately show "heap_rep m' h' (xs @ (a + n, s - n) # zs) \<and> hbase h' = hbase h \<and> hend h' = hend h \<and>
         (\<forall>w. unat w \<notin> free_range (xs @ [(a, s)]) \<longrightarrow> m' w = m w)"
    using rep sl by (auto simp: heap_rep_def)
qed

lemma whole_nodes: "16 dvd unat sz \<Longrightarrow> sz div sizeof_free_node * sizeof_free_node = sz"
proof (rule u64_eqI)
  assume "16 dvd unat sz"
  moreover have "unat (sz div 16 * 16) = unat sz div 16 * 16"
    using u64_range [of sz] by (simp add: unat_word_ariths unat_div)
  ultimately show "unat (sz div sizeof_free_node * sizeof_free_node) = unat sz"
    by (simp add: sizeof_free_node_def)
qed

lemma simple_heap_alloc_Some:
  assumes rep: "heap_rep m h bs" and some: "take_fit (unat sz) bs = Some (a, bs')"
    and pos: "0 < unat sz" and al: "16 dvd unat sz"
  shows "\<exists>p m' h'. simple_heap_alloc m h sz = Inr (p, m', h') \<and> unat p = a \<and>
           heap_rep m' h' bs' \<and> hbase h' = hbase h \<and> hend h' = hend h \<and>
           (\<forall>w. unat w \<notin> free_range bs \<longrightarrow> m' w = m w)"
proof -
  have ch: "chain m (hfree h) ([] @ bs) end_of_list"
    and bl: "blocks_in (unat (hbase h)) (unat (hend h)) ([] @ bs)"
    using rep by (auto simp: heap_rep_def)
  obtain xs ys where xs: "bs = xs @ ys" "\<forall>b \<in> set xs. snd b < unat sz" "ys = [] \<or> unat sz \<le> snd (hd ys)"
     "alloc_scan (heap_fuel h) m h sz Head = Inr (link_after xs)"
    using alloc_scan_steps [OF ch bl u64_range, of "heap_fuel h" sz] heap_fuel_enough [OF rep] by auto
  have "ys \<noteq> []" using some xs take_fit_append [OF xs(2), of "[]"] by auto
  then obtain a0 s zs where ys: "ys = (a0, s) # zs" "unat sz \<le> s" using xs(3) by (cases ys) auto
  have a: "a0 = a" and bs': "bs' = xs @ (if s = unat sz then zs else (a + unat sz, s - unat sz) # zs)"
    using some xs(1) take_fit_append [OF xs(2), of ys] ys by (auto split: if_splits)
  have bs: "bs = xs @ (a, s) # zs" using xs(1) ys a by simp
  obtain p where p: "unat p = a" "unat (m p) = s" "load_link m h (link_after xs) = p"
      "p \<noteq> end_of_list" "16 \<le> s" "16 dvd s" "a + s \<le> unat (hend h)" "unat (p + 8) = a + 8"
    using heap_rep_block [OF rep [unfolded bs]] by metis
  have pa: "of_nat a = p" using p(1) by auto
  have fs: "unat (m p - sz) = s - unat sz" using p(2) ys(2) by (simp add: u64_sub word_le_nat_alt)
  show ?thesis
  proof (cases "s = unat sz")
    case True
    obtain m' h' where st: "store_link m h (link_after xs) (m (of_nat a + 8)) = (m', h')" by fastforce
    have "m p - sz = 0" using fs True by (simp add: word_unat_eq_iff)
    then have "simple_heap_alloc m h sz = Inr (p, m', h')"
      using xs(4) p(3,4) st pa by (simp add: simple_heap_alloc_def)
    then show ?thesis
      using unlink_block [OF rep [unfolded bs] st] bs bs' True p(1) by auto
  next
    case False
    then have lt: "unat sz < s" and nz: "m p - sz \<noteq> 0"
      using ys(2) fs by (auto simp: word_unat_eq_iff)
    let ?q = "p + sz"
    have q: "unat ?q = a + unat sz" using p u64_range [of "hend h"] lt by (simp add: u64_add)
    have sz16: "16 \<le> unat sz" using al pos dvd_imp_le by blast
    define m2 where "m2 = m(?q := m p - sz, ?q + 8 := m (p + 8))"
    obtain m' h' where st: "store_link m2 h (link_after xs) ?q = (m', h')" by fastforce
    note sb = shrink_block [OF rep [unfolded bs] lt sz16 al p(6) q fs _ st]
    have "p + 8 \<noteq> ?q"
      using p(8) q sz16 by (auto simp: word_unat_eq_iff)
    then have "simple_heap_alloc m h sz = Inr (p, m', h')"
      using xs(4) p(3,4) nz st sb(1) pa by (simp add: simple_heap_alloc_def whole_nodes [OF al] m2_def)
    then show ?thesis
      using sb(2) bs bs' False p(1) pa by (auto simp: m2_def)
  qed
qed


section \<open>Freeing refines ordered insertion with merging\<close>

lemma merge_front_blocks_in: "blocks_in lo hi bs \<Longrightarrow> blocks_in lo hi (merge_front bs)"
  by (induction bs rule: merge_front.induct) (auto simp: add.assoc)

lemma merge_front_range:
  "blocks_in lo hi bs \<Longrightarrow> free_range (merge_front bs) = free_range bs"
proof (induction bs arbitrary: lo rule: merge_front.induct)
  case (1 a s b t bs)
  show ?case
  proof (cases "a + s = b")
    case True
    then have "block_range (a, s + t) = block_range (a, s) \<union> block_range (b, t)"
      by (auto simp: block_range_def)
    moreover have "blocks_in lo hi ((a, s + t) # bs)" using 1(2) by (auto simp: True [symmetric] add.assoc)
    ultimately show ?thesis using "1.IH" [OF True, of lo] True by auto
  qed simp
qed auto

lemma merge_front_bytes [simp]: "free_bytes (merge_front bs) = free_bytes bs"
  by (induction bs rule: merge_front.induct) auto

lemma merge_front_Cons: "merge_front ((a, s) # bs) = (a, snd (hd (merge_front ((a, s) # bs)))) # tl (merge_front ((a, s) # bs))"
proof (induction "length bs" arbitrary: s bs)
  case (Suc n)
  then obtain b t cs where "bs = (b, t) # cs" by (cases bs) auto
  then show ?case using Suc.hyps(1) [of cs "s + t"] Suc.hyps(2) by auto
qed simp

lemma coalesce_from_correct:
  assumes "chain m p ((a, s) # bs) end_of_list" "blocks_in lo hi ((a, s) # bs)"
    "hi < 18446744073709551616" "length bs < n"
  shows "\<exists>m'. coalesce_from n m p = Inr m' \<and> chain m' p (merge_front ((a, s) # bs)) end_of_list \<and>
           (\<forall>w. w \<noteq> p \<longrightarrow> w \<noteq> p + 8 \<longrightarrow> m' w = m w)"
  using assms
proof (induction n arbitrary: m s bs)
  case (Suc n)
  have p: "p \<noteq> end_of_list" using chain_start Suc.prems by blast
  have pa: "unat p = a" "unat (m p) = s" using Suc.prems(1) by auto
  have sz: "16 \<le> s" "a + s \<le> hi" using blocks_in_range [OF Suc.prems(2), of "(a, s)"] by auto
  have p8: "p + 8 \<noteq> p" "unat (p + 8) = a + 8" using unat_header_cells [of p s hi] pa sz Suc.prems(3) by auto
  show ?case
  proof (cases bs)
    case Nil
    then have "coalesce_from (Suc n) m p = Inr m" using Suc.prems(1) by simp
    then show ?thesis using Nil Suc.prems(1) by auto
  next
    case (Cons c cs)
    obtain b t where c: "c = (b, t)" by (cases c)
    let ?q = "m (p + 8)"
    have q: "unat ?q = b" "unat (m ?q) = t" "chain m (m (?q + 8)) cs end_of_list"
      using Suc.prems(1) Cons c by auto
    have bl: "a + s \<le> b" "16 \<le> t" "16 dvd t" "b + t \<le> hi" "blocks_in (b + t) hi cs" "16 dvd s" "lo \<le> a"
      using Suc.prems(2) Cons c blocks_in_range [OF Suc.prems(2), of "(b, t)"] by auto
    have qe: "?q \<noteq> end_of_list" using q(1) bl Suc.prems(3) by (auto simp: unat_end_of_list)
    have adj: "p + m p = ?q \<longleftrightarrow> a + s = b"
      using pa q sz Suc.prems(3) by (simp add: word_unat_eq_iff u64_add)
    show ?thesis
    proof (cases "a + s = b")
      case False
      then have "coalesce_from (Suc n) m p = Inr m" using adj by simp
      then show ?thesis using False Cons c Suc.prems(1) by auto
    next
      case True
      define m1 where "m1 = m(p := m p + m ?q)"
      define m2 where "m2 = m1(p + 8 := m1 (m1 (p + 8) + 8))"
      have step: "coalesce_from (Suc n) m p = coalesce_from n m2 p"
        using True adj p qe by (simp add: m1_def m2_def Let_def del: fun_upd_apply)
      have q8: "unat (?q + 8) = b + 8" using unat_header_cells(1) [of ?q t hi] q bl Suc.prems(3) by auto
      have cells: "m2 p = m p + m ?q" "m2 (p + 8) = m (?q + 8)"
        using p8 q8 pa bl sz by (auto simp: m1_def m2_def word_unat_eq_iff)
      have keep: "m2 w = m w" if "w \<noteq> p" "w \<noteq> p + 8" for w using that by (simp add: m1_def m2_def)
      have "chain m2 (m (?q + 8)) cs end_of_list"
      proof -
        have "m2 w = m w" if "unat w \<in> free_range cs" for w
        proof (rule keep)
          have "b + t \<le> unat w" using free_range_after [OF bl(5) that] .
          then show "w \<noteq> p" "w \<noteq> p + 8" using pa p8 bl sz by auto
        qed
        then show ?thesis using chain_agree [OF bl(5) Suc.prems(3)] q(3) by blast
      qed
      then have "chain m2 p ((a, s + t) # cs) end_of_list"
        using cells pa q bl Suc.prems(3) True by (simp add: u64_add)
      moreover have "blocks_in lo hi ((a, s + t) # cs)"
        using bl by (auto simp: True [symmetric] add.assoc)
      ultimately obtain m' where m': "coalesce_from n m2 p = Inr m'"
          "chain m' p (merge_front ((a, s + t) # cs)) end_of_list"
          "\<forall>w. w \<noteq> p \<longrightarrow> w \<noteq> p + 8 \<longrightarrow> m' w = m2 w"
        using Suc.IH [of m2 "s + t" cs] Suc.prems(3,4) Cons by auto
      then show ?thesis using step True Cons c keep by auto
    qed
  qed
qed simp

lemma insert_scan_steps:
  assumes "chain m (of_nat a) ((a, s) # bs) end_of_list" "blocks_in lo hi ((a, s) # bs)"
    "hi < 18446744073709551616" "length bs < n"
  shows "\<exists>us b t ys. (a, s) # bs = us @ (b, t) # ys \<and>
           (\<forall>c \<in> set (tl (us @ [(b, t)])). fst c < unat new_free) \<and> (ys = [] \<or> unat new_free \<le> fst (hd ys)) \<and>
           insert_scan n m new_free (of_nat a) = Inr (of_nat b)"
  using assms
proof (induction n arbitrary: a s bs lo)
  case (Suc n)
  let ?p = "of_nat a :: u64"
  show ?case
  proof (cases bs)
    case Nil
    then show ?thesis using Suc.prems(1) by (intro exI [of _ "[]"]) auto
  next
    case (Cons c cs)
    obtain b t where c: "c = (b, t)" by (cases c)
    have ch: "chain m (m (?p + 8)) ((b, t) # cs) end_of_list" using Suc.prems(1) Cons c by auto
    have bl: "blocks_in (a + s) hi ((b, t) # cs)" using Suc.prems(2) Cons c by auto
    have ne: "m (?p + 8) \<noteq> end_of_list" using chain_start [OF ch bl Suc.prems(3)] .
    have pb: "m (?p + 8) = of_nat b" "unat (m (?p + 8)) = b" using ch by auto
    show ?thesis
    proof (cases "b < unat new_free")
      case False
      then have "insert_scan (Suc n) m new_free ?p = Inr ?p"
        using pb by (simp add: word_less_nat_alt)
      then show ?thesis using False Cons c by (intro exI [of _ "[]"]) auto
    next
      case True
      then have step: "insert_scan (Suc n) m new_free ?p = insert_scan n m new_free (of_nat b)"
        using ne pb by (simp add: word_less_nat_alt)
      have "\<exists>us b' t' ys. (b, t) # cs = us @ (b', t') # ys \<and>
           (\<forall>c \<in> set (tl (us @ [(b', t')])). fst c < unat new_free) \<and> (ys = [] \<or> unat new_free \<le> fst (hd ys)) \<and>
           insert_scan n m new_free (of_nat b) = Inr (of_nat b')"
        using Suc.IH [of b t cs "a + s"] ch bl Suc.prems(3,4) pb Cons by auto
      then obtain us b' t' ys where IH: "(b, t) # cs = us @ (b', t') # ys"
           "\<forall>c \<in> set (tl (us @ [(b', t')])). fst c < unat new_free" "ys = [] \<or> unat new_free \<le> fst (hd ys)"
           "insert_scan n m new_free (of_nat b) = Inr (of_nat b')" by blast
      have "\<forall>c \<in> set (us @ [(b', t')]). fst c < unat new_free"
        using IH(1,2) True by (cases us) auto
      then show ?thesis using step IH Cons c by (intro exI [of _ "(a, s) # us"] exI [of _ b'] exI [of _ t'] exI [of _ ys]) auto
    qed
  qed
qed simp

lemma insert_after_append:
  "us \<noteq> [] \<Longrightarrow> \<forall>c \<in> set (tl us @ [(b, t)]). fst c < fst x \<Longrightarrow>
     insert_after x (us @ (b, t) # ys) = us @ insert_after x ((b, t) # ys)"
proof (induction us rule: list_nonempty_induct)
  case (cons u us)
  then show ?case by (cases us) auto
qed simp


lemma ranges_disjoint_le:
  "block_range (a, s) \<inter> block_range (b, t) = {} \<Longrightarrow> 0 < s \<Longrightarrow> 0 < t \<Longrightarrow> a \<le> b \<Longrightarrow> a + s \<le> b"
  by (rule ccontr) (auto simp: block_range_def disjoint_iff)

lemma blocks_in_Cons_gap:
  assumes "blocks_in lo hi ys" "block_range (a, s) \<inter> free_range ys = {}" "0 < s" "16 dvd s"
    "lo' \<le> a" "a + s \<le> hi" "ys = [] \<or> a \<le> fst (hd ys)"
  shows "blocks_in lo' hi ((a, s) # ys)"
proof (cases ys)
  case (Cons c cs)
  obtain b t where c: "c = (b, t)" by (cases c)
  have "a + s \<le> b"
    using assms Cons c ranges_disjoint_le [of a s b t] by auto
  then show ?thesis using assms Cons c by auto
qed (use assms in auto)

lemma insert_free_head:
  assumes rep: "heap_rep m h bs" and pos: "0 < unat sz" and al: "16 dvd unat sz"
    and rng: "unat (hbase h) \<le> unat ptr" "unat ptr + unat sz \<le> unat (hend h)"
    and dis: "block_range (unat ptr, unat sz) \<inter> free_range bs = {}"
    and hd: "bs = [] \<or> unat ptr < fst (hd bs)"
  shows "\<exists>m' h'. insert_free m h ptr sz = Inr (m', h') \<and> heap_rep m' h' (merge_front ((unat ptr, unat sz) # bs)) \<and>
           hbase h' = hbase h \<and> hend h' = hend h \<and>
           (\<forall>w. unat w \<notin> block_range (unat ptr, unat sz) \<longrightarrow> m' w = m w)"
proof -
  let ?b = "(unat ptr, unat sz)" and ?lo = "unat (hbase h)" and ?hi = "unat (hend h)"
  note hi = u64_range [of "hend h"]
  have ch: "chain m (hfree h) bs end_of_list" and bl: "blocks_in ?lo ?hi bs"
    using rep by (auto simp: heap_rep_def)
  have sz16: "16 \<le> unat sz" using al pos dvd_imp_le by blast
  have p8: "unat (ptr + 8) = unat ptr + 8" "ptr + 8 \<noteq> ptr"
    using unat_header_cells [of ptr "unat sz" ?hi] rng hi sz16 by auto
  have out: "unat ptr \<notin> free_range bs" "unat (ptr + 8) \<notin> free_range bs"
    using dis p8 sz16 by (auto simp: block_range_def disjoint_iff)
  have test: "hfree h = end_of_list \<or> hfree h > ptr"
    using hd ch by (cases bs) (auto simp: word_less_nat_alt)
  define m2 where "m2 = m(ptr := sz, ptr + 8 := end_of_list, ptr + 8 := hfree h)"
  have cells: "m2 ptr = sz" "m2 (ptr + 8) = hfree h" using p8 by (auto simp: m2_def)
  have "chain m2 (hfree h) bs end_of_list"
    using chain_upd [OF bl hi out(1)] chain_upd [OF bl hi out(2)] ch by (simp add: m2_def)
  then have ch2: "chain m2 ptr (?b # bs) end_of_list" using cells by simp
  have bl2: "blocks_in ?lo ?hi (?b # bs)"
    using blocks_in_Cons_gap [OF bl dis pos al] rng hd by force
  obtain m3 where m3: "coalesce_from (heap_fuel h) m2 ptr = Inr m3"
      "chain m3 ptr (merge_front (?b # bs)) end_of_list"
      "\<forall>w. w \<noteq> ptr \<longrightarrow> w \<noteq> ptr + 8 \<longrightarrow> m3 w = m2 w"
    using coalesce_from_correct [OF ch2 bl2 hi, of "heap_fuel h"] heap_fuel_enough [OF rep] by auto
  have "insert_free m h ptr sz = Inr (m3, h\<lparr>hfree := ptr\<rparr>)"
    using test m3(1) by (simp add: insert_free_def Let_def m2_def)
  moreover have "heap_rep m3 (h\<lparr>hfree := ptr\<rparr>) (merge_front (?b # bs))"
    using rep m3(2) merge_front_blocks_in [OF bl2] by (simp add: heap_rep_def)
  moreover have "m3 w = m w" if "unat w \<notin> block_range ?b" for w
  proof -
    have "w \<noteq> ptr" "w \<noteq> ptr + 8" using that p8 sz16 by (auto simp: block_range_def)
    then show ?thesis using m3(3) by (auto simp: m2_def)
  qed
  ultimately show ?thesis by auto
qed

text \<open>The node is linked in after \<open>b\<close> and the blocks from \<open>b\<close> on are merged.\<close>

lemma link_in_after:
  assumes rep: "heap_rep m h (us @ (b, t) # ys)" and pos: "0 < unat sz" and al: "16 dvd unat sz"
    and rng: "unat ptr + unat sz \<le> unat (hend h)"
    and dis: "block_range (unat ptr, unat sz) \<inter> free_range (us @ (b, t) # ys) = {}"
    and pos_in: "b \<le> unat ptr" "ys = [] \<or> unat ptr \<le> fst (hd ys)"
    and m3: "m3 = m(ptr := sz, ptr + 8 := m (of_nat b + 8), of_nat b + 8 := ptr)"
  shows "\<exists>m4. coalesce_from (heap_fuel h) m3 (of_nat b) = Inr m4 \<and>
           heap_rep m4 h (us @ merge_front ((b, t) # (unat ptr, unat sz) # ys)) \<and>
           (\<forall>w. unat w \<notin> free_range (us @ [(b, t)]) \<union> block_range (unat ptr, unat sz) \<longrightarrow> m4 w = m w)"
proof -
  let ?x = "(unat ptr, unat sz)" and ?lo = "unat (hbase h)" and ?hi = "unat (hend h)"
  note hi = u64_range [of "hend h"]
  obtain p where p: "chain m (hfree h) us p" "unat p = b" "unat (m p) = t" "chain m (m (p + 8)) ys end_of_list"
    "unat (p + 8) = b + 8" "p + 8 \<noteq> p" "blocks_in ?lo b us" "blocks_in (b + t) ?hi ys" "16 \<le> t" "16 dvd t"
    "b + t \<le> ?hi"
    using heap_rep_block [OF rep] by metis
  have pb: "of_nat b = p" using p(2) by auto
  have b: "b < 18446744073709551616" using p(11) hi by simp
  have sz16: "16 \<le> unat sz" using al pos dvd_imp_le by blast
  have p8: "unat (ptr + 8) = unat ptr + 8" "ptr + 8 \<noteq> ptr"
    using unat_header_cells [of ptr "unat sz" ?hi] rng hi sz16 by auto
  have gap: "b + t \<le> unat ptr"
    using ranges_disjoint_le [of b t "unat ptr" "unat sz"] dis pos_in p(9) pos by auto
  have blx: "blocks_in (b + t) ?hi (?x # ys)"
    using blocks_in_Cons_gap [OF p(8) _ pos al gap rng pos_in(2)] dis by auto
  then have bl: "blocks_in b ?hi ((b, t) # ?x # ys)" using p(9,10) by simp
  have cells: "m3 ptr = sz" "m3 (ptr + 8) = m (p + 8)" "m3 p = m p" "m3 (p + 8) = ptr"
    using p8 p gap by (auto simp: m3 pb word_unat_eq_iff)
  have keep: "m3 w = m w" if "w \<noteq> ptr" "w \<noteq> ptr + 8" "w \<noteq> p + 8" for w
    using that by (simp add: m3 pb)
  have beyond: "w \<noteq> ptr" "w \<noteq> ptr + 8" if "unat w < b \<or> unat ptr + unat sz \<le> unat w" for w
    using that p8 gap sz16 by auto
  have "m3 w = m w" if "unat w \<in> free_range ys" for w
    using keep beyond that free_range_after [of "unat ptr + unat sz" ?hi ys] blx p(5) gap sz16 by force
  then have "chain m3 (m (p + 8)) ys end_of_list" using chain_agree [OF p(8) hi] p(4) by blast
  then have ch: "chain m3 p ((b, t) # ?x # ys) end_of_list" using cells p(2,3) by simp
  have fuel: "length (?x # ys) < heap_fuel h" using heap_fuel_enough [OF rep] by simp
  obtain m4 where m4: "coalesce_from (heap_fuel h) m3 p = Inr m4"
      "chain m4 p (merge_front ((b, t) # ?x # ys)) end_of_list"
      "\<forall>w. w \<noteq> p \<longrightarrow> w \<noteq> p + 8 \<longrightarrow> m4 w = m3 w"
    using coalesce_from_correct [OF ch bl hi fuel] by auto
  have "m4 w = m w" if "unat w \<in> free_range us" for w
    using m4(3) keep beyond free_range_before [OF p(7) that] p(2,5) by force
  then have "chain m4 (hfree h) us p" using chain_agree [OF p(7) b] p(1) by blast
  then have "chain m4 (hfree h) (us @ merge_front ((b, t) # ?x # ys)) end_of_list"
    using m4(2) chain_append by blast
  moreover have "blocks_in ?lo ?hi (us @ merge_front ((b, t) # ?x # ys))"
    using p(7) merge_front_blocks_in [OF bl] blocks_in_append by blast
  moreover have "m4 w = m w" if "unat w \<notin> free_range (us @ [(b, t)]) \<union> block_range ?x" for w
  proof -
    have "w \<noteq> p" "w \<noteq> p + 8" "w \<noteq> ptr" "w \<noteq> ptr + 8"
      using that p(2,5,9) p8 sz16 by (auto simp: block_range_def)
    then show ?thesis using m4(3) keep by auto
  qed
  ultimately show ?thesis using rep m4(1) pb by (auto simp: heap_rep_def)
qed

lemma insert_free_correct:
  assumes rep: "heap_rep m h bs" and pos: "0 < unat sz" and al: "16 dvd unat sz"
    and rng: "unat (hbase h) \<le> unat ptr" "unat ptr + unat sz \<le> unat (hend h)"
    and dis: "block_range (unat ptr, unat sz) \<inter> free_range bs = {}"
  shows "\<exists>m' h'. insert_free m h ptr sz = Inr (m', h') \<and> heap_rep m' h' (put_block (unat ptr, unat sz) bs) \<and>
           hbase h' = hbase h \<and> hend h' = hend h \<and>
           (\<forall>w. unat w \<notin> free_range bs \<union> block_range (unat ptr, unat sz) \<longrightarrow> m' w = m w)"
proof (cases "bs = [] \<or> unat ptr < fst (hd bs)")
  case True
  then show ?thesis
    using insert_free_head [OF rep pos al rng dis True] by (auto simp: put_block_def)
next
  case False
  let ?x = "(unat ptr, unat sz)"
  note hi = u64_range [of "hend h"]
  obtain a s cs where bs: "bs = (a, s) # cs" using False by (cases bs) auto
  have ch: "chain m (hfree h) bs end_of_list" and bl: "blocks_in (unat (hbase h)) (unat (hend h)) bs"
    using rep by (auto simp: heap_rep_def)
  have sz16: "16 \<le> unat sz" using al pos dvd_imp_le by blast
  have p8: "unat (ptr + 8) = unat ptr + 8"
    using unat_header_cells [of ptr "unat sz" "unat (hend h)"] rng hi sz16 by auto
  have out: "unat ptr \<notin> free_range bs" "unat (ptr + 8) \<notin> free_range bs"
    using dis p8 sz16 by (auto simp: block_range_def disjoint_iff)
  define m1 where "m1 = m(ptr := sz, ptr + 8 := end_of_list)"
  have ch1: "chain m1 (hfree h) bs end_of_list"
    using chain_upd [OF bl hi out(1)] chain_upd [OF bl hi out(2)] ch by (simp add: m1_def)
  have fa: "hfree h = of_nat a" "unat (hfree h) = a" using ch bs by auto
  have notest: "\<not> (hfree h = end_of_list \<or> hfree h > ptr)"
    using False bs fa chain_start [of m "hfree h"] ch bl hi by (auto simp: word_less_nat_alt)
  obtain us b t ys where d: "bs = us @ (b, t) # ys"
      "\<forall>c \<in> set (tl (us @ [(b, t)])). fst c < unat ptr" "ys = [] \<or> unat ptr \<le> fst (hd ys)"
      "insert_scan (heap_fuel h) m1 ptr (hfree h) = Inr (of_nat b)"
    using insert_scan_steps [OF ch1 [unfolded bs fa(1)] bl [unfolded bs] hi, of "heap_fuel h" ptr]
      heap_fuel_enough [OF rep] bs fa(1) by fastforce
  have b: "b \<le> unat ptr" using d(1,2) False bs by (cases us) auto
  have rep1: "heap_rep m1 h (us @ (b, t) # ys)"
    using rep ch1 d(1) by (simp add: heap_rep_def)
  define m3 where "m3 = m1(ptr + 8 := m1 (of_nat b + 8), of_nat b + 8 := ptr)"
  have m3: "m3 = m1(ptr := sz, ptr + 8 := m1 (of_nat b + 8), of_nat b + 8 := ptr)"
    using p8 by (auto simp: m3_def m1_def fun_eq_iff)
  obtain m4 where m4: "coalesce_from (heap_fuel h) m3 (of_nat b) = Inr m4"
      "heap_rep m4 h (us @ merge_front ((b, t) # ?x # ys))"
      "\<forall>w. unat w \<notin> free_range (us @ [(b, t)]) \<union> block_range ?x \<longrightarrow> m4 w = m1 w"
    using link_in_after [OF rep1 pos al rng(2) dis [unfolded d(1)] b d(3) m3] by auto
  have "insert_free m h ptr sz = Inr (m4, h)"
    using notest d(4) m4(1) by (simp add: insert_free_def Let_def m1_def [symmetric] m3_def [symmetric])
  moreover have "put_block ?x bs = us @ merge_front ((b, t) # ?x # ys)"
  proof (cases us)
    case Nil
    then show ?thesis using d(1,3) False by (auto simp: put_block_def)
  next
    case (Cons u us')
    then have "insert_after ?x bs = us @ insert_after ?x ((b, t) # ys)"
      using d(1,2) insert_after_append [of us b t ?x ys] by simp
    then show ?thesis using d(3) False by (auto simp: put_block_def)
  qed
  moreover have "m4 w = m w" if "unat w \<notin> free_range bs \<union> block_range ?x" for w
  proof -
    have "m4 w = m1 w" using m4(3) that d(1) by auto
    moreover have "w \<noteq> ptr" "w \<noteq> ptr + 8" using that p8 sz16 by (auto simp: block_range_def)
    ultimately show ?thesis by (simp add: m1_def)
  qed
  ultimately show ?thesis using m4(2) by auto
qed


section \<open>Ownership: the free blocks and the live blocks share out the heap\<close>

definition front_merged :: "nat \<Rightarrow> block list \<Rightarrow> bool" where
  "front_merged lo bs \<longleftrightarrow> (case bs of (a, s) # (b, t) # _ \<Rightarrow> a = lo \<longrightarrow> a + s \<noteq> b | _ \<Rightarrow> True)"

definition block_ok :: "nat \<Rightarrow> nat \<Rightarrow> block \<Rightarrow> bool" where
  "block_ok lo hi b \<longleftrightarrow> 0 < snd b \<and> 16 dvd snd b \<and> lo \<le> fst b \<and> fst b + snd b \<le> hi"

definition shares :: "nat \<Rightarrow> nat \<Rightarrow> block list \<Rightarrow> block set \<Rightarrow> bool" where
  "shares lo hi bs L \<longleftrightarrow>
     blocks_in lo hi bs \<and> front_merged lo bs \<and> (\<forall>b \<in> L. block_ok lo hi b) \<and>
     (\<forall>b \<in> L. \<forall>c \<in> L. b \<noteq> c \<longrightarrow> block_range b \<inter> block_range c = {}) \<and>
     live_range L \<inter> free_range bs = {} \<and> live_range L \<union> free_range bs = {lo ..< hi}"

lemma front_merged_merge: "front_merged lo (merge_front bs)"
  by (induction bs rule: merge_front.induct) (auto simp: front_merged_def)

lemma take_fit_decomp:
  "take_fit n bs = Some (a, bs') \<Longrightarrow>
     \<exists>xs s zs. bs = xs @ (a, s) # zs \<and> n \<le> s \<and>
       bs' = xs @ (if s = n then zs else (a + n, s - n) # zs)"
proof (induction bs arbitrary: bs')
  case (Cons b bs)
  obtain a0 s0 where b: "b = (a0, s0)" by (cases b)
  show ?case
  proof (cases "s0 < n")
    case True
    then obtain bs1 where "take_fit n bs = Some (a, bs1)" "bs' = (a0, s0) # bs1"
      using Cons.prems b by auto
    then obtain xs s zs where "bs = xs @ (a, s) # zs" "n \<le> s"
        "bs1 = xs @ (if s = n then zs else (a + n, s - n) # zs)" using Cons.IH by blast
    then show ?thesis using \<open>bs' = (a0, s0) # bs1\<close> b by (intro exI [of _ "(a0, s0) # xs"]) auto
  next
    case False
    then show ?thesis using Cons.prems b by (intro exI [of _ "[]"]) auto
  qed
qed simp

lemma front_merged_shrink:
  assumes "blocks_in lo hi (xs @ (a, s) # zs)" "front_merged lo (xs @ (a, s) # zs)" "0 < n" "n \<le> s"
  shows "front_merged lo (xs @ (if s = n then zs else (a + n, s - n) # zs))"
proof (cases xs)
  case Nil
  then show ?thesis using assms by (auto simp: front_merged_def split: list.splits)
next
  case (Cons x xs')
  obtain c r where x: "x = (c, r)" by (cases x)
  show ?thesis
  proof (cases xs')
    case Nil
    then show ?thesis using assms Cons x
      by (cases zs) (auto simp: front_merged_def)
  next
    case (Cons y ys)
    then show ?thesis using assms \<open>xs = x # xs'\<close> by (auto simp: front_merged_def)
  qed
qed

lemma shares_alloc:
  assumes sh: "shares lo hi bs L" and tf: "take_fit n bs = Some (a, bs')" and n: "0 < n" "16 dvd n"
  shows "shares lo hi bs' (insert (a, n) L)" and "block_range (a, n) \<subseteq> free_range bs"
proof -
  obtain xs s zs where d: "bs = xs @ (a, s) # zs" "n \<le> s"
      "bs' = xs @ (if s = n then zs else (a + n, s - n) # zs)"
    using take_fit_decomp [OF tf] by blast
  have bl: "blocks_in lo hi (xs @ (a, s) # zs)" and fm: "front_merged lo (xs @ (a, s) # zs)"
    using sh d(1) by (auto simp: shares_def)
  obtain mid where mid: "blocks_in lo mid xs" "mid \<le> a" "16 dvd s" "blocks_in (a + s) hi zs"
    using bl by (auto simp: blocks_in_append)
  have bl': "blocks_in lo hi bs'"
  proof (cases "s = n")
    case True
    then show ?thesis using d(3) mid blocks_in_mono [OF mid(4), of mid] blocks_in_append by auto
  next
    case False
    then show ?thesis using d mid n dvd_diff_nat [of 16 s n] by (auto simp: blocks_in_append intro!: exI [of _ mid])
  qed
  have split: "block_range (a, s) = block_range (a, n) \<union> block_range (a + n, s - n)"
    using d(2) by (auto simp: block_range_def)
  have emp: "block_range (a + n, s - n) = {}" if "s = n" using that by (simp add: block_range_def)
  have fr: "free_range bs = free_range bs' \<union> block_range (a, n)"
    using d(1,3) split emp by auto
  have "block_range (a, n) \<inter> free_range xs = {}"
    using free_range_before [OF mid(1)] mid(2) by (fastforce simp: block_range_def)
  moreover have "block_range (a, n) \<inter> free_range zs = {}"
    using free_range_after [OF mid(4)] d(2) by (fastforce simp: block_range_def)
  moreover have "block_range (a, n) \<inter> block_range (a + n, s - n) = {}" by (auto simp: block_range_def)
  ultimately have dis: "block_range (a, n) \<inter> free_range bs' = {}" using d(3) by auto
  have rng: "block_range (a, n) \<subseteq> {lo ..< hi}" using fr blocks_in_free_range [of lo hi bs] bl d(1) by auto
  have ok: "block_ok lo hi (a, n)"
    using blocks_in_range [OF bl, of "(a, s)"] d(2) n by (auto simp: block_ok_def)
  show "block_range (a, n) \<subseteq> free_range bs" using fr by auto
  have old: "block_range (a, n) \<inter> block_range c = {}" if "c \<in> L" for c
    using that sh fr by (auto simp: shares_def live_range_def)
  show "shares lo hi bs' (insert (a, n) L)"
    unfolding shares_def
    using bl' front_merged_shrink [OF bl fm n(1) d(2)] d(3) ok sh fr dis old
    by (auto simp: shares_def Int_Un_distrib2 Int_commute)
qed

lemma merge_front_head [simp]: "fst (hd (merge_front (b # bs))) = fst b" "merge_front (b # bs) \<noteq> []"
proof -
  obtain t cs where "merge_front (b # bs) = (fst b, t) # cs"
    using merge_front_Cons [of "fst b" "snd b" bs] by (metis prod.collapse)
  then show "fst (hd (merge_front (b # bs))) = fst b" "merge_front (b # bs) \<noteq> []" by simp_all
qed

lemma insert_after_Nil [simp]: "insert_after x bs \<noteq> []"
  by (cases bs) auto

lemma insert_after_head: "bs \<noteq> [] \<Longrightarrow> fst (hd (insert_after x bs)) = fst (hd bs)"
  by (cases bs) auto

lemma put_block_seam: "front_merged lo bs \<Longrightarrow> front_merged lo (put_block x bs)"
proof (cases "bs = [] \<or> fst (hd bs) > fst x")
  case False
  then obtain p cs where bs: "bs = p # cs" by (cases bs) auto
  assume fm: "front_merged lo bs"
  show ?thesis
  proof (cases "cs \<noteq> [] \<and> fst (hd cs) < fst x")
    case True
    then obtain q ds where cs: "cs = q # ds" by (cases cs) auto
    obtain q' ds' where ia: "insert_after x cs = q' # ds'"
      by (cases "insert_after x cs") simp_all
    then have "fst q' = fst q" using insert_after_head [of cs x] cs by simp
    then show ?thesis
      using fm False True bs cs ia by (auto simp: put_block_def front_merged_def split: prod.splits)
  next
    case False
    then show ?thesis using \<open>\<not> (bs = [] \<or> fst (hd bs) > fst x)\<close> bs front_merged_merge
      by (auto simp: put_block_def)
  qed
qed (auto simp: put_block_def front_merged_merge)

lemma insert_after_props:
  assumes "blocks_in lo hi bs" "block_range x \<inter> free_range bs = {}" "0 < snd x" "16 dvd snd x"
    "fst x + snd x \<le> hi" "bs \<noteq> []" "fst (hd bs) \<le> fst x"
  shows "blocks_in lo hi (insert_after x bs) \<and> free_range (insert_after x bs) = free_range bs \<union> block_range x"
  using assms
proof (induction x bs arbitrary: lo rule: insert_after.induct)
  case (2 x p bs)
  obtain a s where p: "p = (a, s)" by (cases p)
  obtain b t where x: "x = (b, t)" by (cases x)
  have gap: "a + s \<le> b"
    using ranges_disjoint_le [of a s b t] 2(2-) p x by auto
  show ?case
  proof (cases "bs \<noteq> [] \<and> fst (hd bs) < fst x")
    case True
    then show ?thesis using "2.IH" [of "a + s"] 2(2-) p by auto
  next
    case False
    have "blocks_in (a + s) hi ((b, t) # bs)"
      by (rule blocks_in_Cons_gap [of "a + s" hi bs]) (use 2(2-) p x False gap in auto)
    then have "blocks_in lo hi (p # x # bs)" using 2(2) p x by auto
    then show ?thesis
      using False merge_front_blocks_in merge_front_range [of lo hi "p # x # bs"] by auto
  qed
qed simp

lemma put_block_props:
  assumes "blocks_in lo hi bs" "block_range x \<inter> free_range bs = {}" "block_ok lo hi x"
  shows "blocks_in lo hi (put_block x bs) \<and> free_range (put_block x bs) = free_range bs \<union> block_range x"
proof (cases "bs = [] \<or> fst (hd bs) > fst x")
  case True
  have "blocks_in lo hi (x # bs)"
    using blocks_in_Cons_gap [OF assms(1), of "fst x" "snd x" lo] assms True by (auto simp: block_ok_def)
  then show ?thesis
    using True merge_front_blocks_in merge_front_range [of lo hi "x # bs"] by (auto simp: put_block_def)
next
  case False
  then show ?thesis
    using insert_after_props [of lo hi bs x] assms by (auto simp: put_block_def block_ok_def)
qed

lemma shares_free:
  assumes sh: "shares lo hi bs L" and b: "b \<in> L"
  shows "shares lo hi (put_block b bs) (L - {b})" and "block_range b \<inter> free_range bs = {}"
proof -
  have L: "live_range L = block_range b \<union> live_range (L - {b})"
    using b by (metis insert_Diff live_range_simps(2))
  show dis: "block_range b \<inter> free_range bs = {}" using sh L by (auto simp: shares_def)
  have ok: "block_ok lo hi b" using sh b by (auto simp: shares_def)
  have rest: "block_range b \<inter> live_range (L - {b}) = {}"
    using sh b unfolding shares_def live_range_def by blast
  show "shares lo hi (put_block b bs) (L - {b})"
    using put_block_props [OF _ dis ok] put_block_seam [of lo bs b] sh L rest
    unfolding shares_def by (auto simp: Int_Un_distrib Int_Un_distrib2)
qed

text \<open>With nothing live, the free list is one block, the whole heap.\<close>

lemma shares_drained:
  assumes sh: "shares lo hi bs {}" and lt: "lo < hi"
  shows "bs = [(lo, hi - lo)]"
proof -
  have bl: "blocks_in lo hi bs" and fm: "front_merged lo bs" and fr: "free_range bs = {lo ..< hi}"
    using sh by (auto simp: shares_def)
  obtain a s cs where bs: "bs = (a, s) # cs" using fr lt by (cases bs) auto
  have bl2: "blocks_in (a + s) hi cs" and pos: "0 < s" "lo \<le> a" using bl bs by auto
  have "lo \<in> block_range (a, s) \<union> free_range cs" using fr lt bs by auto
  then have a: "a = lo" using free_range_after [OF bl2, of lo] pos by (auto simp: block_range_def)
  have "cs = []"
  proof (rule ccontr)
    assume "cs \<noteq> []"
    then obtain b t ds where cs: "cs = (b, t) # ds" by (cases cs) auto
    have gap: "a + s < b" using fm bl2 bs cs a by (auto simp: front_merged_def)
    have "b + t \<le> hi" "0 < t" using blocks_in_range [OF bl2, of "(b, t)"] cs by auto
    then have "a + s \<in> {lo ..< hi}" using gap a by auto
    then have "a + s \<in> free_range cs" using fr bs by (auto simp: block_range_def)
    then have "b \<le> a + s"
      using free_range_after [of b hi cs "a + s"] bl2 cs by auto
    then show False using gap by simp
  qed
  then have "{lo ..< lo + s} = {lo ..< hi}" using fr bs a by (simp add: block_range_def)
  then have "s = hi - lo" using pos(1) lt by (metis add_diff_cancel_left' ivl_subset le_antisym less_imp_le order_refl trans_less_add1)
  then show ?thesis using bs a \<open>cs = []\<close> by simp
qed


section \<open>Using the heap\<close>

text \<open>
  The worlds a client can reach: it constructs the heap on a range that does not wrap around,
  allocates whole nodes, frees what it owns, and writes to what it owns. \<open>L\<close> is the set of live
  blocks.
\<close>

inductive heap_reach :: "mem \<Rightarrow> simple_heap \<Rightarrow> block set \<Rightarrow> bool" where
  construct: "simple_heap_new m base len = Inr (m', h) \<Longrightarrow>
     unat base + unat len < 18446744073709551616 \<Longrightarrow> heap_reach m' h {}"
| allocate: "heap_reach m h L \<Longrightarrow> simple_heap_alloc m h sz = Inr (p, m', h') \<Longrightarrow>
     0 < unat sz \<Longrightarrow> 16 dvd unat sz \<Longrightarrow> heap_reach m' h' (insert (unat p, unat sz) L)"
| release: "heap_reach m h L \<Longrightarrow> (unat p, unat sz) \<in> L \<Longrightarrow>
     simple_heap_free m h p sz = Inr (m', h') \<Longrightarrow> heap_reach m' h' (L - {(unat p, unat sz)})"
| client_write: "heap_reach m h L \<Longrightarrow>
     (\<And>w. unat w \<notin> live_range L \<Longrightarrow> m' w = m w) \<Longrightarrow> heap_reach m' h L"

definition heap_owns :: "mem \<Rightarrow> simple_heap \<Rightarrow> block list \<Rightarrow> block set \<Rightarrow> bool" where
  "heap_owns m h bs L \<longleftrightarrow>
     hbase h < hend h \<and> heap_rep m h bs \<and> shares (unat (hbase h)) (unat (hend h)) bs L"

lemma simple_heap_new_owns:
  assumes new: "simple_heap_new m base len = Inr (m', h)"
    and fits: "unat base + unat len < 18446744073709551616"
  shows "heap_owns m' h [(unat base, unat len)] {}" and "hbase h = base" "hend h = base + len"
proof -
  let ?h = "\<lparr>hbase = base, hend = base + len, hfree = end_of_list\<rparr>"
  have len: "16 \<le> unat len" "16 dvd unat len"
    using new by (auto simp: simple_heap_new_def res_simps sizeof_free_node_def word_nat unat_mod dvd_eq_mod_eq_0)
  have e: "unat (base + len) = unat base + unat len" using fits by (simp add: u64_add)
  have rep: "heap_rep m ?h []" using e by (simp add: heap_rep_def word_le_nat_alt)
  obtain m2 h2 where "insert_free m ?h base len = Inr (m2, h2)" and
      r: "heap_rep m2 h2 (merge_front [(unat base, unat len)])" "hbase h2 = base" "hend h2 = base + len"
    using insert_free_head [OF rep, of len base] len e by auto
  then have eq: "m2 = m'" "h2 = h"
    using new by (auto simp: simple_heap_new_def res_simps)
  show "hbase h = base" "hend h = base + len" using r eq by auto
  show "heap_owns m' h [(unat base, unat len)] {}"
    using r eq e len by (auto simp: heap_owns_def shares_def front_merged_def block_range_def word_less_nat_alt)
qed

lemma heap_owns_alloc:
  assumes own: "heap_owns m h bs L" and sz: "0 < unat sz" "16 dvd unat sz"
    and tf: "take_fit (unat sz) bs = Some (a, bs')"
  shows "\<exists>p m' h'. simple_heap_alloc m h sz = Inr (p, m', h') \<and> unat p = a \<and>
           heap_owns m' h' bs' (insert (a, unat sz) L) \<and> hbase h' = hbase h \<and> hend h' = hend h \<and>
           (\<forall>w. unat w \<in> live_range L \<longrightarrow> m' w = m w)"
proof -
  have rep: "heap_rep m h bs" and sh: "shares (unat (hbase h)) (unat (hend h)) bs L"
    using own by (auto simp: heap_owns_def)
  obtain p m' h' where "simple_heap_alloc m h sz = Inr (p, m', h')" "unat p = a"
      "heap_rep m' h' bs'" "hbase h' = hbase h" "hend h' = hend h" "\<forall>w. unat w \<notin> free_range bs \<longrightarrow> m' w = m w"
    using simple_heap_alloc_Some [OF rep tf sz] by blast
  then show ?thesis
    using shares_alloc(1) [OF sh tf sz] own sh by (fastforce simp: heap_owns_def shares_def)
qed

lemma heap_owns_free:
  assumes own: "heap_owns m h bs L" and b: "(unat p, unat sz) \<in> L"
  shows "\<exists>m' h'. simple_heap_free m h p sz = Inr (m', h') \<and>
           heap_owns m' h' (put_block (unat p, unat sz) bs) (L - {(unat p, unat sz)}) \<and>
           hbase h' = hbase h \<and> hend h' = hend h \<and>
           (\<forall>w. unat w \<in> live_range (L - {(unat p, unat sz)}) \<longrightarrow> m' w = m w)"
proof -
  have rep: "heap_rep m h bs" and sh: "shares (unat (hbase h)) (unat (hend h)) bs L"
    using own by (auto simp: heap_owns_def)
  have ok: "block_ok (unat (hbase h)) (unat (hend h)) (unat p, unat sz)"
    using sh b by (auto simp: shares_def)
  then have sz: "0 < unat sz" "16 dvd unat sz" "unat (hbase h) \<le> unat p" "unat p + unat sz \<le> unat (hend h)"
    by (auto simp: block_ok_def)
  note sf = shares_free [OF sh b]
  obtain m' h' where r: "insert_free m h p sz = Inr (m', h')" "heap_rep m' h' (put_block (unat p, unat sz) bs)"
      "hbase h' = hbase h" "hend h' = hend h"
      "\<forall>w. unat w \<notin> free_range bs \<union> block_range (unat p, unat sz) \<longrightarrow> m' w = m w"
    using insert_free_correct [OF rep sz sf(2)] by blast
  have "simple_heap_free m h p sz = Inr (m', h')"
    using sz r(1) u64_range [of "hend h"] by (simp add: simple_heap_free_def word_le_nat_alt u64_add)
  moreover have "m' w = m w" if w: "unat w \<in> live_range (L - {(unat p, unat sz)})" for w
  proof -
    obtain c where c: "c \<in> L" "c \<noteq> (unat p, unat sz)" "unat w \<in> block_range c"
      using w unfolding live_range_def by blast
    then have "unat w \<notin> block_range (unat p, unat sz)" using sh b by (fastforce simp: shares_def)
    moreover have "unat w \<notin> free_range bs" using sh c by (auto simp: shares_def live_range_def)
    ultimately show ?thesis using r(5) by auto
  qed
  ultimately show ?thesis using r sf(1) own by (auto simp: heap_owns_def)
qed

lemma heap_owns_client:
  assumes own: "heap_owns m h bs L" and w: "\<And>w. unat w \<notin> live_range L \<Longrightarrow> m' w = m w"
  shows "heap_owns m' h bs L"
proof -
  have "blocks_in (unat (hbase h)) (unat (hend h)) bs" "live_range L \<inter> free_range bs = {}"
    using own by (auto simp: heap_owns_def shares_def)
  then have "chain m' (hfree h) bs end_of_list \<longleftrightarrow> chain m (hfree h) bs end_of_list"
    using w by (intro chain_agree [OF _ u64_range]) auto
  then show ?thesis using own by (simp add: heap_owns_def heap_rep_def)
qed

lemma heap_reach_owns: "heap_reach m h L \<Longrightarrow> \<exists>bs. heap_owns m h bs L"
proof (induction rule: heap_reach.induct)
  case (construct m base len m' h)
  then show ?case using simple_heap_new_owns by blast
next
  case (allocate m h L sz p m' h')
  then obtain bs where own: "heap_owns m h bs L" by blast
  then have rep: "heap_rep m h bs" by (simp add: heap_owns_def)
  obtain a bs' where "take_fit (unat sz) bs = Some (a, bs')"
    using simple_heap_alloc_None [OF rep, of sz] allocate.hyps(2) by (cases "take_fit (unat sz) bs") auto
  then show ?case using heap_owns_alloc [OF own allocate.hyps(3,4)] allocate.hyps(2) by fastforce
next
  case (release m h L p sz m' h')
  then show ?case using heap_owns_free [of m h _ L p sz] by fastforce
next
  case (client_write m h L m')
  then show ?case using heap_owns_client by blast
qed

lemma take_fit_None: "take_fit n bs = None \<longleftrightarrow> (\<forall>b \<in> set bs. snd b < n)"
  by (induction n bs rule: take_fit.induct) (auto split: if_splits)

text \<open>A heap of 4096 bytes at address 4096, as it is when it is new and after one allocation of 32 bytes.\<close>

definition demo_new :: "mem \<times> simple_heap" where
  "demo_new = projr (simple_heap_new (\<lambda>_. 0) 4096 4096)"

definition demo_used :: "mem \<times> simple_heap" where
  "demo_used = snd (projr (simple_heap_alloc (fst demo_new) (snd demo_new) 32))"

lemma demo_new_eq: "simple_heap_new (\<lambda>_. 0) 4096 4096 = Inr (fst demo_new, snd demo_new)"
  by (simp add: demo_new_def heap_eval)

lemma demo_new_val:
  "fst demo_new = (\<lambda>_. 0)(4096 := 4096, 4104 := end_of_list)"
  "snd demo_new = \<lparr>hbase = 4096, hend = 8192, hfree = 4096\<rparr>"
  by (simp_all add: demo_new_def heap_eval)

lemma demo_used_eq: "simple_heap_alloc (fst demo_new) (snd demo_new) 32 = Inr (4096, fst demo_used, snd demo_used)"
  by (simp add: demo_used_def demo_new_val heap_eval)

lemma demo_new_reach: "heap_reach (fst demo_new) (snd demo_new) {}"
  by (rule heap_reach.construct [OF demo_new_eq]) simp

lemma demo_used_reach: "heap_reach (fst demo_used) (snd demo_used) {(4096, 32)}"
  using heap_reach.allocate [OF demo_new_reach demo_used_eq] by simp

text \<open>C4: in every reachable world the live blocks lie inside the heap, do not overlap each other, and
  overlap no block of the free list the allocator walks.\<close>

theorem heap_live_blocks_disjoint:
  assumes "heap_reach m h L"
  shows "\<exists>bs. chain m (hfree h) bs end_of_list \<and>
           (\<forall>b \<in> L. unat (hbase h) \<le> fst b \<and> fst b + snd b \<le> unat (hend h) \<and> block_range b \<inter> free_range bs = {} \<and>
             (\<forall>c \<in> L. b \<noteq> c \<longrightarrow> block_range b \<inter> block_range c = {}))"
proof -
  obtain bs where own: "heap_owns m h bs L" using heap_reach_owns [OF assms] by blast
  have "block_range b \<inter> free_range bs = {}" if "b \<in> L" for b
    using own that by (auto simp: heap_owns_def shares_def live_range_def)
  then show ?thesis
    using own by (intro exI [of _ bs]) (auto simp: heap_owns_def heap_rep_def shares_def block_ok_def)
qed

theorem heap_live_blocks_disjoint_witness:
  "\<exists>bs. chain (fst demo_used) (hfree (snd demo_used)) bs end_of_list \<and> block_range (4096, 32) \<inter> free_range bs = {}"
  using heap_live_blocks_disjoint [OF demo_used_reach] by auto



text \<open>C6: freeing a live block of a reachable world always returns (its loops end and its range check
  holds), leaves every other live byte alone, and makes the block's bytes part of the free list.\<close>

theorem heap_free_total:
  assumes "heap_reach m h L" "(unat p, unat sz) \<in> L"
  shows "\<exists>m' h' bs. simple_heap_free m h p sz = Inr (m', h') \<and> chain m' (hfree h') bs end_of_list \<and>
           block_range (unat p, unat sz) \<subseteq> free_range bs \<and>
           (\<forall>w. unat w \<in> live_range (L - {(unat p, unat sz)}) \<longrightarrow> m' w = m w)"
proof -
  obtain bs where own: "heap_owns m h bs L" using heap_reach_owns [OF assms(1)] by blast
  then have sh: "shares (unat (hbase h)) (unat (hend h)) bs L" by (simp add: heap_owns_def)
  have "block_range (unat p, unat sz) \<subseteq> free_range (put_block (unat p, unat sz) bs)"
    using put_block_props shares_free(2) [OF sh assms(2)] sh assms(2) by (fastforce simp: shares_def)
  then show ?thesis using heap_owns_free [OF own assms(2)] by (fastforce simp: heap_owns_def heap_rep_def)
qed

theorem heap_free_total_witness:
  "\<exists>m' h' bs. simple_heap_free (fst demo_used) (snd demo_used) 4096 32 = Inr (m', h') \<and>
     chain m' (hfree h') bs end_of_list \<and> block_range (4096, 32) \<subseteq> free_range bs"
  using heap_free_total [OF demo_used_reach, of 4096 32] by auto

text \<open>the check in the destructor of \<open>simple_heap\<close> passes whenever every block was freed: although
  \<open>coalesce_from\<close> merges forwards only, the blocks always join up again into one.\<close>

theorem heap_drained_destroy:
  assumes "heap_reach m h {}"
  shows "simple_heap_destroy m h = Inr ()"
proof -
  obtain bs where own: "heap_owns m h bs {}" using heap_reach_owns [OF assms] by blast
  then have "bs = [(unat (hbase h), unat (hend h) - unat (hbase h))]"
    using shares_drained by (auto simp: heap_owns_def word_less_nat_alt)
  then have "unat (hfree h) = unat (hbase h)" "unat (m (hfree h)) = unat (hend h - hbase h)"
    using own by (auto simp: heap_owns_def heap_rep_def u64_sub word_less_nat_alt word_le_nat_alt)
  then show ?thesis by (simp add: simple_heap_destroy_def word_unat_eq_iff)
qed

theorem heap_drained_destroy_witness: "simple_heap_destroy (fst demo_new) (snd demo_new) = Inr ()"
  by (rule heap_drained_destroy [OF demo_new_reach])

section \<open>Where the code falls short of its comments\<close>

datatype heap_call = Alloc u64 | Free u64 u64

fun heap_calls :: "mem \<Rightarrow> simple_heap \<Rightarrow> heap_call list \<Rightarrow> (u64 list \<times> mem \<times> simple_heap) res" where
  "heap_calls m h [] = Inr ([], m, h)"
| "heap_calls m h (Alloc n # cs) =
     andThen (simple_heap_alloc m h n) (\<lambda>(p, m1, h1).
       andThen (heap_calls m1 h1 cs) (\<lambda>(ps, m2, h2). Inr (p # ps, m2, h2)))"
| "heap_calls m h (Free p n # cs) =
     andThen (simple_heap_free m h p n) (\<lambda>(m1, h1). heap_calls m1 h1 cs)"

definition seam_calls :: "heap_call list" where
  "seam_calls = [Alloc 16, Alloc 16, Alloc 16, Alloc 16, Free 4096 16, Free 4144 16, Free 4128 16]"

text \<open>the comment says that blocks are coalesced on free; a block that is freed between an allocated
  predecessor and a free successor is not. Here the list ends with two touching free blocks of 16 bytes
  and a request for 32 bytes is refused.\<close>

theorem heap_free_leaves_seam:
  "case andThen (simple_heap_new (\<lambda>_. 0) 4096 64) (\<lambda>(m, h). heap_calls m h seam_calls) of
     Inr (ps, m, h) \<Rightarrow> chain m (hfree h) [(4096, 16), (4128, 16), (4144, 16)] end_of_list \<and>
        simple_heap_alloc m h 32 = Inl (Fatal ''Could not satisfy allocation request'')
   | Inl e \<Rightarrow> False"
  by (simp add: seam_calls_def heap_eval)

text \<open>a request of less than a node (16 bytes) returns memory that stays in the free list, since the
  remainder node is placed at \<open>size / sizeof(free_node)\<close> nodes, that is at the block itself.\<close>

theorem heap_small_alloc_stays_free:
  assumes "heap_rep m h ((a, s) # bs)" "0 < unat sz" "unat sz < 16" "unat sz < s"
  shows "\<exists>m' h'. simple_heap_alloc m h sz = Inr (hfree h, m', h') \<and> hfree h' = hfree h"
proof -
  have ch: "chain m (hfree h) ((a, s) # bs) end_of_list"
    and bl: "blocks_in (unat (hbase h)) (unat (hend h)) ((a, s) # bs)"
    using assms(1) by (auto simp: heap_rep_def)
  have h: "unat (hfree h) = a" "unat (m (hfree h)) = s" "hfree h \<noteq> end_of_list"
    using ch chain_start [OF ch bl u64_range] by auto
  obtain k where "heap_fuel h = Suc k" by (simp add: heap_fuel_def)
  then have scan: "alloc_scan (heap_fuel h) m h sz Head = Inr Head"
    using h assms by (simp add: Let_def word_less_nat_alt)
  have q: "sz div sizeof_free_node * sizeof_free_node = 0"
  proof -
    have "sz div 16 = 0" using assms(3) by (simp add: word_unat_eq_iff unat_div)
    then show ?thesis by (simp add: sizeof_free_node_def)
  qed
  have "m (hfree h) - sz \<noteq> 0"
  proof -
    have "unat (m (hfree h) - sz) = s - unat sz" using h assms(4) by (simp add: u64_sub word_le_nat_alt)
    then show ?thesis using assms(4) by auto
  qed
  then show ?thesis
    using scan h q by (simp add: simple_heap_alloc_def Let_def)
qed

theorem heap_small_alloc_stays_free_witness:
  "\<exists>m' h'. simple_heap_alloc (fst demo_new) (snd demo_new) 8 = Inr (4096, m', h') \<and> hfree h' = 4096"
proof -
  have "heap_rep (fst demo_new) (snd demo_new) [(4096, 4096)]" by (simp add: heap_rep_def demo_new_val end_of_list_def)
  moreover have "hfree (snd demo_new) = 4096" by (simp add: demo_new_val)
  ultimately show ?thesis using heap_small_alloc_stays_free [of "fst demo_new" "snd demo_new" 4096 4096 "[]" 8] by simp
qed

section \<open>The heap with headers\<close>

text \<open>What \<open>default_heap\<close> adds: each live block starts with its size and its own address. \<open>P\<close> is the set of
  payloads, the part of each live block behind the header.\<close>

definition payload :: "block \<Rightarrow> block" where
  "payload b = (fst b + 16, snd b - 16)"

definition headed :: "mem \<Rightarrow> block \<Rightarrow> bool" where
  "headed m b \<longleftrightarrow> 16 \<le> snd b \<and> unat (m (of_nat (fst b))) = snd b \<and> unat (m (of_nat (fst b) + 8)) = fst b"

definition dheap_owns :: "mem \<times> simple_heap \<Rightarrow> block set \<Rightarrow> bool" where
  "dheap_owns s P \<longleftrightarrow>
     (\<exists>bs L. heap_owns (fst s) (snd s) bs L \<and> (\<forall>b \<in> L. headed (fst s) b) \<and> P = payload ` L)"

lemma dheap_ownsI:
  "heap_owns m h bs L \<Longrightarrow> (\<And>b. b \<in> L \<Longrightarrow> headed m b) \<Longrightarrow> dheap_owns (m, h) (payload ` L)"
  unfolding dheap_owns_def by (rule exI [of _ bs], rule exI [of _ L]) simp

lemma live_block_facts:
  assumes own: "heap_owns m h bs L" and b: "(a, k) \<in> L"
  shows "unat (of_nat a :: u64) = a" "unat (of_nat a + 8 :: u64) = a + 8" "16 \<le> k"
    "a + k < 18446744073709551616"
proof -
  have ok: "block_ok (unat (hbase h)) (unat (hend h)) (a, k)" using own b by (auto simp: heap_owns_def shares_def)
  then show k: "16 \<le> k" using dvd_imp_le by (auto simp: block_ok_def)
  show lt: "a + k < 18446744073709551616" using ok u64_range [of "hend h"] by (auto simp: block_ok_def)
  show u: "unat (of_nat a :: u64) = a" using lt by (simp add: unat_of_nat_u64)
  show "unat (of_nat a + 8 :: u64) = a + 8" using u lt k by (simp add: u64_add)
qed

lemma headed_keep:
  assumes own: "heap_owns m h bs L" and b: "b \<in> L" and hd: "headed m b"
    and keep: "\<And>w. unat w \<in> {fst b ..< fst b + 16} \<Longrightarrow> m' w = m w"
  shows "headed m' b"
proof -
  obtain a k where ak: "b = (a, k)" by (cases b)
  note f = live_block_facts [OF own b [unfolded ak]]
  have "m' (of_nat a) = m (of_nat a)" "m' (of_nat a + 8) = m (of_nat a + 8)"
    using keep [of "of_nat a"] keep [of "of_nat a + 8"] f ak by auto
  then show ?thesis using hd ak by (simp add: headed_def)
qed

lemma header_in_live: "b \<in> L \<Longrightarrow> headed m b \<Longrightarrow> w \<in> {fst b ..< fst b + 16} \<Longrightarrow> w \<in> live_range L"
  by (auto simp: live_range_def block_range_def headed_def intro!: bexI [of _ b])

lemma payload_sub:
  assumes "\<And>b. b \<in> L \<Longrightarrow> headed m b"
  shows "live_range (payload ` L) \<subseteq> live_range L"
proof -
  have "block_range (payload b) \<subseteq> block_range b" for b
    by (auto simp: block_range_def payload_def)
  then show ?thesis by (auto simp: live_range_def)
qed

lemma padded_size:
  assumes "unat n < 9223372036854775808"
  shows "unat n + 16 \<le> unat (round_up (n + heap_align) heap_align)"
    "16 dvd unat (round_up (n + heap_align) heap_align)" "0 < unat (round_up (n + heap_align) heap_align)"
proof -
  have u: "unat (n + heap_align) = unat n + 16" using assms by (simp add: heap_align_def u64_add)
  then have "unat (n + heap_align) + unat heap_align < 18446744073709551616" "heap_align \<noteq> 0"
    using assms by (simp_all add: heap_align_def)
  note r = round_up_bounds [OF this]
  show "unat n + 16 \<le> unat (round_up (n + heap_align) heap_align)" using r(1) u by simp
  then show "0 < unat (round_up (n + heap_align) heap_align)" by simp
  show "16 dvd unat (round_up (n + heap_align) heap_align)" using r(2) by (simp add: heap_align_def)
qed

lemma default_heap_alloc_owns:
  assumes own: "dheap_owns (m, h) P" and n: "unat n < 9223372036854775808"
    and al: "default_heap_alloc m h n = Inr (p, m', h')"
  shows "\<exists>k \<ge> unat n. dheap_owns (m', h') (insert (unat p, k) P) \<and> unat p + k < 18446744073709551616 \<and>
           block_range (unat p, k) \<inter> live_range P = {} \<and> (\<forall>w. unat w \<in> live_range P \<longrightarrow> m' w = m w) \<and>
           16 \<le> unat p \<and> (\<forall>b \<in> P. fst b \<noteq> unat p)"
proof -
  define sz where "sz = round_up (n + heap_align) heap_align"
  note sz = padded_size [OF n, folded sz_def]
  obtain bs L where L: "heap_owns m h bs L" "\<forall>b \<in> L. headed m b" "P = payload ` L"
    using own by (auto simp: dheap_owns_def)
  obtain q m1 h1 where sa: "simple_heap_alloc m h sz = Inr (q, m1, h1)"
      and res: "p = q + 16" "m' = m1(q := sz, q + 8 := q)" "h' = h1"
    using al unfolding default_heap_alloc_def sz_def [symmetric] Let_def
    by (auto simp: res_simps heap_align_def)
  have rep: "heap_rep m h bs" and sh: "shares (unat (hbase h)) (unat (hend h)) bs L"
    using L(1) by (auto simp: heap_owns_def)
  obtain a bs' where tf: "take_fit (unat sz) bs = Some (a, bs')"
    using simple_heap_alloc_None [OF rep, of sz] sa by (cases "take_fit (unat sz) bs") auto
  then have q: "unat q = a" and own1: "heap_owns m1 h1 bs' (insert (unat q, unat sz) L)"
      and keep: "\<And>w. unat w \<in> live_range L \<Longrightarrow> m1 w = m w"
    using heap_owns_alloc [OF L(1) sz(3,2) tf] sa by auto
  have new: "block_range (unat q, unat sz) \<inter> live_range L = {}"
    using shares_alloc(2) [OF sh tf sz(3,2)] sh q by (auto simp: shares_def)
  note f = live_block_facts [OF own1, of "unat q" "unat sz", simplified]
  have up: "unat p = unat q + 16" using res(1) f by (simp add: u64_add)
  have q8: "unat (q + 8) = unat q + 8" "q + 8 \<noteq> q" using f(2) by (auto simp: word_unat_eq_iff)
  have mq: "m' w = m1 w" if "unat w \<notin> block_range (unat q, unat sz)" for w
    using that res(2) q8 f(3) by (auto simp: block_range_def)
  have ml: "m' w = m w" if "unat w \<in> live_range L" for w
  proof -
    have "unat w \<notin> block_range (unat q, unat sz)" using that new by blast
    then show ?thesis using mq keep that by simp
  qed
  have own': "heap_owns m' h' bs' (insert (unat q, unat sz) L)"
    using heap_owns_client [OF own1, of m'] mq res(3) by auto
  have "headed m' (unat q, unat sz)" using res(2) q8 f(3) by (simp add: headed_def)
  moreover have "headed m' b" if "b \<in> L" for b
    using headed_keep [OF L(1) that] L(2) that ml header_in_live by blast
  ultimately have d: "dheap_owns (m', h') (insert (unat p, unat sz - 16) P)"
    using own' L(3) up unfolding dheap_owns_def by (intro exI [of _ bs'] exI [of _ "insert (unat q, unat sz) L"]) (auto simp: payload_def)
  have sub: "live_range P \<subseteq> live_range L"
    unfolding L(3) by (rule payload_sub [of _ m]) (use L(2) in blast)
  have "block_range (unat p, unat sz - 16) \<subseteq> block_range (unat q, unat sz)"
    using up by (auto simp: block_range_def)
  moreover have "fst b \<noteq> unat p" if b: "b \<in> P" for b
  proof
    assume eq: "fst b = unat p"
    obtain a0 s0 where as: "(a0, s0) \<in> L" "b = payload (a0, s0)" using b L(3) by auto
    then have "a0 = unat q" "16 \<le> s0" using eq up L(2) by (auto simp: payload_def headed_def)
    then have "unat q \<in> live_range L" using as(1) by (force simp: live_range_def block_range_def)
    moreover have "unat q \<in> block_range (unat q, unat sz)" using f(3) by (auto simp: block_range_def)
    ultimately show False using new by blast
  qed
  ultimately show ?thesis
    using d sz(1) f up new sub ml by (intro exI [of _ "unat sz - 16"]) auto
qed

lemma default_heap_alloc_fault:
  assumes own: "dheap_owns (m, h) P" and n: "unat n < 9223372036854775808"
    and al: "default_heap_alloc m h n = Inl e"
  shows "e = Fatal ''Could not satisfy allocation request''"
proof -
  define sz where "sz = round_up (n + heap_align) heap_align"
  note sz = padded_size [OF n, folded sz_def]
  obtain bs L where L: "heap_owns m h bs L" using own by (auto simp: dheap_owns_def)
  then have rep: "heap_rep m h bs" by (simp add: heap_owns_def)
  have sa: "simple_heap_alloc m h sz = Inl e"
    using al by (cases "simple_heap_alloc m h sz") (auto simp: default_heap_alloc_def sz_def [symmetric] Let_def)
  then show ?thesis
    using simple_heap_alloc_None [OF rep, of sz] heap_owns_alloc [OF L sz(3,2)]
    by (cases "take_fit (unat sz) bs") fastforce+
qed

lemma default_heap_free_owns:
  assumes own: "dheap_owns (m, h) P" and p: "(unat p, k) \<in> P"
  shows "\<exists>m' h'. default_heap_free m h p = Inr (m', h') \<and> dheap_owns (m', h') (P - {(unat p, k)}) \<and>
           (\<forall>w. unat w \<in> live_range (P - {(unat p, k)}) \<longrightarrow> m' w = m w)"
proof -
  obtain bs L where L: "heap_owns m h bs L" "\<forall>b \<in> L. headed m b" "P = payload ` L"
    using own by (auto simp: dheap_owns_def)
  obtain a s where as: "(a, s) \<in> L" "unat p = a + 16" "k = s - 16"
    using p L(3) by (auto simp: payload_def)
  note f = live_block_facts [OF L(1) as(1)]
  define q where "q = p - heap_align"
  have q: "unat q = a" using as(2) by (simp add: q_def heap_align_def u64_sub word_le_nat_alt)
  have qa: "of_nat a = q" using q by auto
  have hd: "unat (m q) = s" "m (q + 8) = q"
    using L(2) as(1) qa q by (auto simp: headed_def word_unat_eq_iff)
  define m1 where "m1 = m(q + 8 := 0)"
  have q8: "unat (q + 8) = a + 8" "q + 8 \<noteq> q" using f(2) qa q by (auto simp: word_unat_eq_iff)
  have in_b: "unat (q + 8) \<in> block_range (a, s)" using q8 f(3) by (auto simp: block_range_def)
  have own1: "heap_owns m1 h bs L"
  proof (rule heap_owns_client [OF L(1)])
    fix w :: u64 assume "unat w \<notin> live_range L"
    then show "m1 w = m w" using in_b as(1) by (auto simp: m1_def live_range_def)
  qed
  have b: "(unat q, unat (m q)) \<in> L" using q hd as(1) by simp
  obtain m' h' where r: "simple_heap_free m1 h q (m q) = Inr (m', h')"
      "heap_owns m' h' (put_block (a, s) bs) (L - {(a, s)})"
      "\<forall>w. unat w \<in> live_range (L - {(a, s)}) \<longrightarrow> m' w = m1 w"
    using heap_owns_free [OF own1 b] q hd by auto
  have fr: "default_heap_free m h p = Inr (m', h')"
    using r(1) hd by (simp add: default_heap_free_def Let_def q_def [symmetric] m1_def)
  have dis: "block_range (a, s) \<inter> live_range (L - {(a, s)}) = {}"
    using L(1) as(1) unfolding heap_owns_def shares_def live_range_def by blast
  have keep: "m' w = m w" if "unat w \<in> live_range (L - {(a, s)})" for w
    using that r(3) dis in_b by (auto simp: m1_def disjoint_iff)
  have pk: "(unat p, k) = payload (a, s)" using as by (simp add: payload_def)
  have "inj_on payload L"
  proof (rule inj_onI)
    fix b c assume bc: "b \<in> L" "c \<in> L" "payload b = payload c"
    then have "16 \<le> snd b" "16 \<le> snd c" using L(2) by (auto simp: headed_def)
    then show "b = c" using bc(3) by (intro prod_eqI) (auto simp: payload_def)
  qed
  then have P': "P - {(unat p, k)} = payload ` (L - {(a, s)})"
    unfolding L(3) pk using as(1) by (simp add: inj_on_image_set_diff [of payload L])
  have "headed m' b" if b: "b \<in> L - {(a, s)}" for b
  proof -
    have "b \<in> L" "headed m b" using b L(2) by auto
    then show ?thesis
      using headed_keep [OF L(1)] keep header_in_live [OF b] by blast
  qed
  then have "dheap_owns (m', h') (P - {(unat p, k)})"
    unfolding P' using dheap_ownsI [OF r(2)] by simp
  moreover have "live_range (payload ` (L - {(a, s)})) \<subseteq> live_range (L - {(a, s)})"
    by (rule payload_sub [of _ m]) (use L(2) in blast)
  then have "m' w = m w" if "unat w \<in> live_range (P - {(unat p, k)})" for w
    using that keep unfolding P' by blast
  ultimately show ?thesis using fr by blast
qed

lemma demo_new_dheap: "dheap_owns demo_new {}"
  using simple_heap_new_owns(1) [OF demo_new_eq] dheap_ownsI [of "fst demo_new" "snd demo_new" _ "{}"] by simp

text \<open>Clients may write to their payloads.\<close>

lemma dheap_owns_client:
  assumes own: "dheap_owns (m, h) P" and w: "\<And>w. unat w \<notin> live_range P \<Longrightarrow> m' w = m w"
  shows "dheap_owns (m', h) P"
proof -
  obtain bs L where L: "heap_owns m h bs L" "\<forall>b \<in> L. headed m b" "P = payload ` L"
    using own by (auto simp: dheap_owns_def)
  have sub: "live_range P \<subseteq> live_range L"
    unfolding L(3) by (rule payload_sub [of _ m]) (use L(2) in blast)
  have sep: "w \<notin> live_range P" if b: "b \<in> L" and wb: "w \<in> {fst b ..< fst b + 16}" for b w
  proof -
    have in_b: "w \<in> block_range b" using wb L(2) b by (auto simp: block_range_def headed_def)
    have "w \<notin> block_range (payload c)" if c: "c \<in> L" for c
    proof (cases "c = b")
      case False
      then have "block_range c \<inter> block_range b = {}" using L(1) b c by (auto simp: heap_owns_def shares_def)
      then have "w \<notin> block_range c" using in_b by blast
      then show ?thesis by (auto simp: block_range_def payload_def)
    qed (use wb in \<open>auto simp: block_range_def payload_def\<close>)
    then show ?thesis using L(3) by (auto simp: live_range_def)
  qed
  have hd: "headed m' b" if b: "b \<in> L" for b
    using headed_keep [OF L(1) b] L(2) b w sep [OF b] by blast
  have "heap_owns m' h bs L"
    using heap_owns_client [OF L(1)] w sub by blast
  then show ?thesis unfolding L(3) using dheap_ownsI [OF _ hd] by simp
qed

section \<open>The kernel's allocator\<close>

text \<open>\<open>kalloc\<close> and \<open>kfree\<close> of \<open>kernel/mm.cpp\<close> go to the \<open>default_heap\<close> of the kernel's memory manager.\<close>

definition kalloc :: "mem \<times> simple_heap \<Rightarrow> u64 \<Rightarrow> (u64 \<times> mem \<times> simple_heap) res" where
  "kalloc s n = default_heap_alloc (fst s) (snd s) n"

definition kfree :: "mem \<times> simple_heap \<Rightarrow> u64 \<Rightarrow> (mem \<times> simple_heap) res" where
  "kfree s p = default_heap_free (fst s) (snd s) p"

interpretation kheap: allocator kalloc kfree dheap_owns
proof
  fix s s' :: "mem \<times> simple_heap" and P n and p :: u64
  assume *: "dheap_owns s P" "unat n < 9223372036854775808" "kalloc s n = Inr (p, s')"
  obtain m h m' h' where s: "s = (m, h)" "s' = (m', h')" by (cases s; cases s')
  show "\<exists>k \<ge> unat n. dheap_owns s' (insert (unat p, k) P) \<and> p \<noteq> 0 \<and> (\<forall>b \<in> P. fst b \<noteq> unat p)"
    using default_heap_alloc_owns [of m h P n p m' h'] * s by (fastforce simp: kalloc_def)
next
  fix s :: "mem \<times> simple_heap" and P n e
  assume "dheap_owns s P" "unat n < 9223372036854775808" "kalloc s n = Inl e"
  then show "e = Fatal ''Could not satisfy allocation request''"
    using default_heap_alloc_fault by (cases s) (auto simp: kalloc_def)
next
  fix s :: "mem \<times> simple_heap" and P k and p :: u64
  assume "dheap_owns s P" "(unat p, k) \<in> P"
  then show "\<exists>s'. kfree s p = Inr s' \<and> dheap_owns s' (P - {(unat p, k)})"
    using default_heap_free_owns by (cases s) (fastforce simp: kfree_def)
qed

end
