(* ===== verification/Containers.thy ===== *)
theory Containers
  imports SimpleHeap
begin

text \<open>
  \<open>kvector\<close> of \<open>attos/containers.h\<close>: a growing array in memory from \<open>kalloc\<close>. The three pointers of the
  class are the address \<open>kv_begin\<close> (0 is the null pointer), the number of elements (\<open>end_ - begin_\<close>) and
  the capacity (\<open>real_end_ - begin_\<close>). The elements themselves are values in a list; the memory they
  occupy is the block at \<open>kv_begin\<close>, which the operations get from \<open>alloc\<close> and give back to \<open>release\<close>
  (\<open>kalloc\<close> and \<open>kfree\<close> in the kernel). \<open>tsz\<close> is \<open>sizeof(T)\<close>.

  The lemmas about memory are proved once, in the locale \<open>allocator\<close>, and hold for the kernel's heap
  through its interpretation \<open>kheap\<close>.
\<close>

section \<open>The code\<close>

record 'a kvector =
  kv_begin :: u64
  kv_elems :: "'a list"
  kv_cap :: u64

definition kv_null :: "'a kvector" where
  "kv_null = \<lparr>kv_begin = 0, kv_elems = [], kv_cap = 0\<rparr>"

definition kv_size :: "'a kvector \<Rightarrow> u64" where
  "kv_size v = of_nat (length (kv_elems v))"

definition kv_empty :: "'a kvector \<Rightarrow> bool" where
  "kv_empty v \<longleftrightarrow> kv_size v = 0"

definition kv_front :: "'a kvector \<Rightarrow> 'a res" where
  "kv_front v = in_object (kv_elems v \<noteq> []) ''*begin_'' (Inr (hd (kv_elems v)))"

definition kv_back :: "'a kvector \<Rightarrow> 'a res" where
  "kv_back v = in_object (kv_elems v \<noteq> []) ''*(end_-1)'' (Inr (last (kv_elems v)))"

definition kv_index :: "'a kvector \<Rightarrow> nat \<Rightarrow> 'a res" where
  "kv_index v i = in_object (i < length (kv_elems v)) ''*(begin_ + index)'' (Inr (kv_elems v ! i))"

definition kv_clear :: "('s \<Rightarrow> u64 \<Rightarrow> 's res) \<Rightarrow> 's \<Rightarrow> 'a kvector \<Rightarrow> ('s \<times> 'a kvector) res" where
  "kv_clear release s v =
     (if kv_begin v \<noteq> 0 then andThen (release s (kv_begin v)) (\<lambda>s'. Inr (s', kv_null))
      else Inr (s, kv_null))"

definition kv_reserve ::
  "('s \<Rightarrow> u64 \<Rightarrow> (u64 \<times> 's) res) \<Rightarrow> ('s \<Rightarrow> u64 \<Rightarrow> 's res) \<Rightarrow> u64 \<Rightarrow> 's \<Rightarrow> 'a kvector \<Rightarrow> u64 \<Rightarrow> ('s \<times> 'a kvector) res" where
  "kv_reserve alloc release tsz s v new_capacity =
     (if kv_cap v \<ge> new_capacity then Inr (s, v)
      else andThen (alloc s (tsz * new_capacity)) (\<lambda>(new_ptr, s1).
             andThen (kv_clear release s1 v) (\<lambda>(s2, v2).
               Inr (s2, v2\<lparr>kv_begin := new_ptr, kv_elems := kv_elems v, kv_cap := new_capacity\<rparr>))))"

definition kv_ensure_room ::
  "('s \<Rightarrow> u64 \<Rightarrow> (u64 \<times> 's) res) \<Rightarrow> ('s \<Rightarrow> u64 \<Rightarrow> 's res) \<Rightarrow> u64 \<Rightarrow> 's \<Rightarrow> 'a kvector \<Rightarrow> u64 \<Rightarrow> ('s \<times> 'a kvector) res" where
  "kv_ensure_room alloc release tsz s v required_size =
     (if required_size > kv_cap v
      then kv_reserve alloc release tsz s v (max required_size (if kv_cap v \<noteq> 0 then 2 * kv_cap v else 10))
      else Inr (s, v))"

definition kv_push_back ::
  "('s \<Rightarrow> u64 \<Rightarrow> (u64 \<times> 's) res) \<Rightarrow> ('s \<Rightarrow> u64 \<Rightarrow> 's res) \<Rightarrow> u64 \<Rightarrow> 's \<Rightarrow> 'a kvector \<Rightarrow> 'a \<Rightarrow> ('s \<times> 'a kvector) res" where
  "kv_push_back alloc release tsz s v elem =
     andThen (kv_ensure_room alloc release tsz s v (kv_size v + 1)) (\<lambda>(s1, v1).
       Inr (s1, v1\<lparr>kv_elems := kv_elems v1 @ [elem]\<rparr>))"

text \<open>\<open>insert\<close> works at the end only (\<open>__debugbreak\<close> otherwise).\<close>

definition kv_insert ::
  "('s \<Rightarrow> u64 \<Rightarrow> (u64 \<times> 's) res) \<Rightarrow> ('s \<Rightarrow> u64 \<Rightarrow> 's res) \<Rightarrow> u64 \<Rightarrow> 's \<Rightarrow> 'a kvector \<Rightarrow> nat \<Rightarrow> 'a list \<Rightarrow> ('s \<times> 'a kvector) res" where
  "kv_insert alloc release tsz s v at xs =
     require (at = length (kv_elems v)) ''__debugbreak'' (
       andThen (kv_ensure_room alloc release tsz s v (kv_size v + of_nat (length xs))) (\<lambda>(s1, v1).
         Inr (s1, v1\<lparr>kv_elems := kv_elems v1 @ xs\<rparr>)))"

text \<open>\<open>erase\<close> moves each later element down by one, in place, and then drops the last slot.\<close>

function kv_move_down :: "'a list \<Rightarrow> nat \<Rightarrow> 'a list" where
  "kv_move_down xs i = (if i + 1 < length xs then kv_move_down (xs[i := xs ! (i + 1)]) (i + 1) else xs)"
  by pat_completeness auto
termination by (relation "measure (\<lambda>(xs, i). length xs - i)") auto

declare kv_move_down.simps [simp del]

definition kv_erase :: "'a kvector \<Rightarrow> nat \<Rightarrow> 'a kvector res" where
  "kv_erase v i =
     in_object (i < length (kv_elems v)) ''elem->~T()'' (
       Inr (v\<lparr>kv_elems := butlast (kv_move_down (kv_elems v) i)\<rparr>))"

definition kv_pop_back :: "'a kvector \<Rightarrow> 'a kvector res" where
  "kv_pop_back v = in_object (kv_elems v \<noteq> []) ''end_-1'' (kv_erase v (length (kv_elems v) - 1))"

definition kv_resize ::
  "('s \<Rightarrow> u64 \<Rightarrow> (u64 \<times> 's) res) \<Rightarrow> ('s \<Rightarrow> u64 \<Rightarrow> 's res) \<Rightarrow> u64 \<Rightarrow> 'a \<Rightarrow> 's \<Rightarrow> 'a kvector \<Rightarrow> u64 \<Rightarrow> ('s \<times> 'a kvector) res" where
  "kv_resize alloc release tsz deflt s v new_size =
     (if new_size \<le> kv_size v then Inr (s, v\<lparr>kv_elems := take (unat new_size) (kv_elems v)\<rparr>)
      else andThen (kv_ensure_room alloc release tsz s v new_size) (\<lambda>(s1, v1).
             Inr (s1, v1\<lparr>kv_elems := kv_elems v1 @ replicate (unat new_size - length (kv_elems v1)) deflt\<rparr>)))"

text \<open>The constructor from a range, the assignments (copying assigns a temporary, whose destructor frees
  what it got in the swap) and the destructor.\<close>

definition kv_from_range ::
  "('s \<Rightarrow> u64 \<Rightarrow> (u64 \<times> 's) res) \<Rightarrow> ('s \<Rightarrow> u64 \<Rightarrow> 's res) \<Rightarrow> u64 \<Rightarrow> 's \<Rightarrow> 'a list \<Rightarrow> ('s \<times> 'a kvector) res" where
  "kv_from_range alloc release tsz s xs = kv_insert alloc release tsz s kv_null 0 xs"

definition kv_move_assign :: "'a kvector \<Rightarrow> 'a kvector \<Rightarrow> 'a kvector \<times> 'a kvector" where
  "kv_move_assign this other = (other, this)"

definition kv_move_new :: "'a kvector \<Rightarrow> 'a kvector \<times> 'a kvector" where
  "kv_move_new other = (other, kv_null)"

definition kv_copy_assign ::
  "('s \<Rightarrow> u64 \<Rightarrow> (u64 \<times> 's) res) \<Rightarrow> ('s \<Rightarrow> u64 \<Rightarrow> 's res) \<Rightarrow> u64 \<Rightarrow> 's \<Rightarrow> 'a kvector \<Rightarrow> 'a kvector \<Rightarrow> ('s \<times> 'a kvector) res" where
  "kv_copy_assign alloc release tsz s this other =
     andThen (kv_clear release s this) (\<lambda>(s1, this1).
       andThen (kv_from_range alloc release tsz s1 (kv_elems other)) (\<lambda>(s2, temp).
         case kv_move_assign this1 temp of (this2, temp2) \<Rightarrow>
           andThen (kv_clear release s2 temp2) (\<lambda>(s3, _). Inr (s3, this2))))"

definition kv_destroy :: "('s \<Rightarrow> u64 \<Rightarrow> 's res) \<Rightarrow> 's \<Rightarrow> 'a kvector \<Rightarrow> 's res" where
  "kv_destroy release s v = andThen (kv_clear release s v) (\<lambda>(s1, _). Inr s1)"

section \<open>Elements\<close>

lemma kv_move_down_eq:
  "i < length xs \<Longrightarrow> butlast (kv_move_down xs i) = take i xs @ drop (i + 1) xs"
proof (induction xs i rule: kv_move_down.induct)
  case (1 xs i)
  show ?case
  proof (cases "i + 1 < length xs")
    case True
    let ?ys = "xs[i := xs ! (i + 1)]"
    have "butlast (kv_move_down ?ys (i + 1)) = take (i + 1) ?ys @ drop (i + 2) ?ys"
      using "1.IH" True by simp
    also have "take (i + 1) ?ys = take i xs @ [xs ! (i + 1)]"
      using True by (simp add: take_Suc_conv_app_nth)
    also have "drop (i + 2) ?ys = drop (i + 2) xs" by simp
    also have "(take i xs @ [xs ! (i + 1)]) @ drop (i + 2) xs = take i xs @ drop (i + 1) xs"
      using True by (simp add: Cons_nth_drop_Suc [symmetric])
    finally show ?thesis using True by (simp add: kv_move_down.simps [of xs i])
  next
    case False
    then have "i = length xs - 1" using "1.prems" by simp
    then show ?thesis using False "1.prems" by (subst kv_move_down.simps) (simp add: butlast_conv_take)
  qed
qed

lemma kv_erase_eq:
  "i < length (kv_elems v) \<Longrightarrow> kv_erase v i = Inr (v\<lparr>kv_elems := take i (kv_elems v) @ drop (i + 1) (kv_elems v)\<rparr>)"
  by (simp add: kv_erase_def kv_move_down_eq)

text \<open>\<open>erase\<close> removes exactly the element it is given and keeps the order of the others; outside the
  vector it is undefined.\<close>

theorem kv_erase_removes:
  "kv_erase v i =
     (if i < length (kv_elems v)
      then Inr (v\<lparr>kv_elems := take i (kv_elems v) @ drop (i + 1) (kv_elems v)\<rparr>)
      else Inl (Wild ''elem->~T()''))"
  by (simp add: kv_erase_eq) (simp add: kv_erase_def)

lemma kv_pop_back_eq:
  "kv_elems v \<noteq> [] \<Longrightarrow> kv_pop_back v = Inr (v\<lparr>kv_elems := butlast (kv_elems v)\<rparr>)"
  by (simp add: kv_pop_back_def kv_erase_eq butlast_conv_take)

section \<open>Memory\<close>

text \<open>The elements fit in the capacity and the capacity in the block that the vector owns.\<close>

definition owned_block :: "block set \<Rightarrow> u64 \<Rightarrow> nat \<Rightarrow> bool" where
  "owned_block P p k \<longleftrightarrow> (unat p, k) \<in> P \<and> (\<forall>j. (unat p, j) \<in> P \<longrightarrow> j = k)"

lemma owned_block_mem: "owned_block P p k \<Longrightarrow> (unat p, k) \<in> P"
  by (simp add: owned_block_def)

lemma owned_block_others: "owned_block P p k \<Longrightarrow> P - {(unat p, k)} = others p P"
proof -
  assume o: "owned_block P p k"
  have "b \<in> P - {(unat p, k)} \<longleftrightarrow> b \<in> others p P" for b
  proof (cases "fst b = unat p")
    case True
    then show ?thesis using o by (cases b) (auto simp: owned_block_def others_def)
  next
    case False
    then show ?thesis by (auto simp: others_def)
  qed
  then show ?thesis by blast
qed

lemma owned_block_insert:
  "owned_block P q j \<Longrightarrow> p \<noteq> q \<Longrightarrow> owned_block (insert (unat p, k) P) q j"
  by (auto simp: owned_block_def word_unat_eq_iff)

lemma owned_block_fresh:
  "\<forall>b \<in> P. fst b \<noteq> unat p \<Longrightarrow> owned_block (insert (unat p, k) P) p k"
  unfolding owned_block_def by fastforce

definition kv_inv :: "u64 \<Rightarrow> block set \<Rightarrow> 'a kvector \<Rightarrow> bool" where
  "kv_inv tsz P v \<longleftrightarrow>
     (if kv_begin v = 0 then kv_elems v = [] \<and> kv_cap v = 0
      else (\<exists>k. owned_block P (kv_begin v) k \<and>
              unat tsz * unat (kv_cap v) \<le> k \<and> length (kv_elems v) \<le> unat (kv_cap v)))"

definition kv_others :: "block set \<Rightarrow> 'a kvector \<Rightarrow> block set" where
  "kv_others P v = (if kv_begin v = 0 then P else others (kv_begin v) P)"

lemma kv_inv_null [simp]: "kv_inv tsz P kv_null"
  by (simp add: kv_inv_def kv_null_def)

lemma kv_others_null [simp]: "kv_others P kv_null = P"
  by (simp add: kv_others_def kv_null_def)

lemma kv_others_elems [simp]: "kv_others P (v\<lparr>kv_elems := xs\<rparr>) = kv_others P v"
  by (simp add: kv_others_def)

lemma kv_inv_elems:
  "kv_inv tsz P v \<Longrightarrow> length xs \<le> unat (kv_cap v) \<Longrightarrow> kv_inv tsz P (v\<lparr>kv_elems := xs\<rparr>)"
  by (auto simp: kv_inv_def)

lemma kv_inv_cap: "kv_inv tsz P v \<Longrightarrow> length (kv_elems v) \<le> unat (kv_cap v)"
  by (auto simp: kv_inv_def split: if_splits)

lemma kv_size_unat: "kv_inv tsz P v \<Longrightarrow> unat (kv_size v) = length (kv_elems v)"
  using kv_inv_cap [of tsz P v] u64_range [of "kv_cap v"] by (simp add: kv_size_def unat_of_nat_u64)

text \<open>Growing: the elements stay, the old block goes back, no other block is touched, and the only way
  to fail is the heap being exhausted.\<close>

definition grown :: "('s \<Rightarrow> block set \<Rightarrow> bool) \<Rightarrow> u64 \<Rightarrow> block set \<Rightarrow> 'a kvector \<Rightarrow> u64 \<Rightarrow> ('s \<times> 'a kvector) res \<Rightarrow> bool" where
  "grown owns tsz P v n r \<longleftrightarrow> (case r of
     Inl e \<Rightarrow> e = Fatal ''Could not satisfy allocation request''
   | Inr (s', v') \<Rightarrow> kv_elems v' = kv_elems v \<and> n \<le> kv_cap v' \<and>
       (\<exists>P'. owns s' P' \<and> kv_inv tsz P' v' \<and> kv_others P' v' = kv_others P v))"

context allocator
begin

lemma kv_clear_owns:
  assumes "owns s P" "kv_inv tsz P v"
  shows "\<exists>s'. kv_clear release s v = Inr (s', kv_null) \<and> owns s' (kv_others P v)"
proof (cases "kv_begin v = 0")
  case False
  then obtain k where k: "owned_block P (kv_begin v) k"
    using assms(2) by (auto simp: kv_inv_def)
  then have eq: "P - {(unat (kv_begin v), k)} = kv_others P v"
    using False by (simp add: kv_others_def owned_block_others)
  obtain s' where "release s (kv_begin v) = Inr s'" "owns s' (kv_others P v)"
    using release_owns [OF assms(1) owned_block_mem [OF k]] unfolding eq by blast
  then show ?thesis using False by (simp add: kv_clear_def)
qed (use assms in \<open>simp add: kv_clear_def kv_others_def\<close>)

lemma kv_reserve_grown:
  assumes own: "owns s P" and inv: "kv_inv tsz P v" and n: "unat tsz * unat n < 9223372036854775808"
    and room: "length (kv_elems v) \<le> unat n"
  shows "grown owns tsz P v n (kv_reserve alloc release tsz s v n)"
proof (cases "n \<le> kv_cap v")
  case True
  then show ?thesis using own inv by (auto simp: grown_def kv_reserve_def)
next
  case False
  have u: "unat (tsz * n) = unat tsz * unat n" using n by (simp add: unat_mult_lem [THEN iffD1])
  show ?thesis
  proof (cases "alloc s (tsz * n)")
    case (Inl e)
    then show ?thesis using False alloc_fault [OF own _ Inl] n u by (simp add: kv_reserve_def grown_def)
  next
    case (Inr r)
    obtain p s1 where r: "r = (p, s1)" by (cases r)
    obtain k where k: "k \<ge> unat tsz * unat n" "owns s1 (insert (unat p, k) P)" "p \<noteq> 0" "\<forall>b \<in> P. fst b \<noteq> unat p"
      using alloc_owns [OF own _ Inr [unfolded r]] n u by auto
    have ne: "p \<noteq> kv_begin v" if "kv_begin v \<noteq> 0"
      using inv that k(4) owned_block_mem by (fastforce simp: kv_inv_def)
    have inv1: "kv_inv tsz (insert (unat p, k) P) v"
      using inv ne owned_block_insert by (fastforce simp: kv_inv_def split: if_splits)
    obtain s2 where s2: "kv_clear release s1 v = Inr (s2, kv_null)" "owns s2 (kv_others (insert (unat p, k) P) v)"
      using kv_clear_owns [OF k(2) inv1] by blast
    let ?v = "kv_null\<lparr>kv_begin := p, kv_elems := kv_elems v, kv_cap := n\<rparr>"
    have P': "kv_others (insert (unat p, k) P) v = insert (unat p, k) (kv_others P v)"
      using ne by (auto simp: kv_others_def others_def word_unat_eq_iff)
    have fresh: "\<forall>b \<in> kv_others P v. fst b \<noteq> unat p"
      using k(4) by (auto simp: kv_others_def others_def)
    have "kv_reserve alloc release tsz s v n = Inr (s2, ?v)"
      using False Inr r s2(1) by (simp add: kv_reserve_def)
    moreover have "kv_inv tsz (insert (unat p, k) (kv_others P v)) ?v"
      using k(1,3) room owned_block_fresh [OF fresh, of k] by (auto simp: kv_inv_def)
    moreover have "kv_others (insert (unat p, k) (kv_others P v)) ?v = kv_others P v"
      using k(3) fresh by (auto simp: kv_others_def others_def)
    ultimately show ?thesis using s2(2) unfolding P' grown_def by fastforce
  qed
qed

lemma kv_ensure_room_grown:
  assumes own: "owns s P" and inv: "kv_inv tsz P v"
    and n: "unat tsz * unat n < 4611686018427387904" "unat tsz * 10 < 4611686018427387904"
      "0 < unat tsz"
    and room: "length (kv_elems v) \<le> unat n"
  shows "grown owns tsz P v n (kv_ensure_room alloc release tsz s v n)"
proof (cases "kv_cap v < n")
  case False
  then show ?thesis using own inv by (auto simp: grown_def kv_ensure_room_def)
next
  case True
  define k where "k = max n (if kv_cap v \<noteq> 0 then 2 * kv_cap v else 10)"
  have cap: "unat (kv_cap v) < unat n" using True by (simp add: word_less_nat_alt)
  have "unat n \<le> unat tsz * unat n" using n(3) by simp
  then have "unat n < 4611686018427387904" using n(1) by linarith
  then have two: "unat (2 * kv_cap v) = 2 * unat (kv_cap v)"
    using cap unat_mult_lem [of 2 "kv_cap v"] by simp
  have le: "n \<le> k" by (simp add: k_def)
  have "unat k \<le> max (2 * unat n) 10"
    using cap two by (auto simp: k_def max_def)
  then have "unat tsz * unat k \<le> unat tsz * max (2 * unat n) 10" by simp
  also have "\<dots> < 9223372036854775808"
    using n(1,2) unfolding max_def by (simp add: mult.commute)
  finally have "grown owns tsz P v k (kv_reserve alloc release tsz s v k)"
    using kv_reserve_grown [OF own inv] room le by (simp add: word_le_nat_alt)
  then show ?thesis
    using True le by (auto simp: grown_def kv_ensure_room_def k_def [symmetric] split: sum.splits)
qed

end

text \<open>An operation that sets the elements to \<open>xs\<close>, keeps the invariant and leaves the blocks of everybody
  else alone, or fails because the heap is exhausted.\<close>

definition kv_becomes :: "('s \<Rightarrow> block set \<Rightarrow> bool) \<Rightarrow> u64 \<Rightarrow> block set \<Rightarrow> 'a list \<Rightarrow> ('s \<times> 'a kvector) res \<Rightarrow> bool" where
  "kv_becomes owns tsz R xs r \<longleftrightarrow> (case r of
     Inl e \<Rightarrow> e = Fatal ''Could not satisfy allocation request''
   | Inr (s', v') \<Rightarrow> kv_elems v' = xs \<and> (\<exists>P'. owns s' P' \<and> kv_inv tsz P' v' \<and> kv_others P' v' = R))"

text \<open>Sizes for which the byte counts do not wrap, doubling included.\<close>

definition kv_sizes :: "u64 \<Rightarrow> nat \<Rightarrow> bool" where
  "kv_sizes tsz n \<longleftrightarrow> 0 < unat tsz \<and> unat tsz * n < 4611686018427387904 \<and> unat tsz * 10 < 4611686018427387904"

lemma kv_sizes_lt: "kv_sizes tsz n \<Longrightarrow> n < 4611686018427387904"
proof -
  assume k: "kv_sizes tsz n"
  then have "n \<le> unat tsz * n" by (simp add: kv_sizes_def)
  also have "\<dots> < 4611686018427387904" using k by (simp add: kv_sizes_def)
  finally show ?thesis .
qed

lemma kv_sizes_unat: "kv_sizes tsz n \<Longrightarrow> unat (of_nat n :: u64) = n"
  using kv_sizes_lt [of tsz n] by (simp add: unat_of_nat_u64)

lemma kv_sizes_mono: "kv_sizes tsz n \<Longrightarrow> m \<le> n \<Longrightarrow> kv_sizes tsz m"
  unfolding kv_sizes_def by (meson le_less_trans mult_le_mono2)

lemma grown_becomes:
  assumes "grown owns tsz P v n r" "length xs \<le> unat n"
  shows "kv_becomes owns tsz (kv_others P v) xs (andThen r (\<lambda>(s1, v1). Inr (s1, v1\<lparr>kv_elems := f (kv_elems v1)\<rparr>)))
           \<longleftrightarrow> (case r of Inl e \<Rightarrow> True | Inr _ \<Rightarrow> f (kv_elems v) = xs)"
proof (cases r)
  case (Inr y)
  obtain s1 v1 where y: "y = (s1, v1)" by (cases y)
  obtain P' where P': "kv_elems v1 = kv_elems v" "n \<le> kv_cap v1" "owns s1 P'" "kv_inv tsz P' v1"
    "kv_others P' v1 = kv_others P v"
    using assms(1) by (auto simp: grown_def Inr y)
  have "kv_inv tsz P' (v1\<lparr>kv_elems := xs\<rparr>)"
    using kv_inv_elems [OF P'(4)] assms(2) P'(2) by (simp add: word_le_nat_alt)
  moreover have "kv_others P' (v1\<lparr>kv_elems := xs\<rparr>) = kv_others P v"
    using P'(5) by simp
  ultimately show ?thesis using P'(1,3) by (auto simp: Inr y kv_becomes_def)
qed (use assms in \<open>simp add: grown_def kv_becomes_def\<close>)

context allocator
begin

lemma kv_ensure_room_sizes:
  assumes "owns s P" "kv_inv tsz P v" "kv_sizes tsz n" "length (kv_elems v) \<le> n"
  shows "grown owns tsz P v (of_nat n) (kv_ensure_room alloc release tsz s v (of_nat n))"
  using kv_ensure_room_grown [OF assms(1,2), of "of_nat n"] kv_sizes_unat [OF assms(3)] assms(3,4)
  by (simp add: kv_sizes_def)

lemma kv_insert_becomes:
  assumes "owns s P" "kv_inv tsz P v" "kv_sizes tsz (length (kv_elems v) + length xs)"
  shows "kv_becomes owns tsz (kv_others P v) (kv_elems v @ xs)
           (kv_insert alloc release tsz s v (length (kv_elems v)) xs)"
proof -
  have sz: "kv_size v + of_nat (length xs) = of_nat (length (kv_elems v) + length xs)"
    by (simp add: kv_size_def)
  have len: "length (kv_elems v @ xs) \<le> unat (of_nat (length (kv_elems v) + length xs) :: u64)"
    using kv_sizes_unat [OF assms(3)] by simp
  show ?thesis
    unfolding kv_insert_def sz require_True
    using grown_becomes [OF kv_ensure_room_sizes [OF assms] len, of "\<lambda>ys. ys @ xs"]
    by (simp split: sum.splits)
qed

lemma kv_push_back_becomes:
  assumes "owns s P" "kv_inv tsz P v" "kv_sizes tsz (length (kv_elems v) + 1)"
  shows "kv_becomes owns tsz (kv_others P v) (kv_elems v @ [x]) (kv_push_back alloc release tsz s v x)"
proof -
  have "kv_push_back alloc release tsz s v x = kv_insert alloc release tsz s v (length (kv_elems v)) [x]"
    by (simp add: kv_push_back_def kv_insert_def)
  then show ?thesis using kv_insert_becomes [OF assms(1,2), of "[x]"] assms(3) by simp
qed

lemma kv_resize_becomes:
  assumes "owns s P" "kv_inv tsz P v" "kv_sizes tsz (unat n)"
  shows "kv_becomes owns tsz (kv_others P v)
           (take (unat n) (kv_elems v) @ replicate (unat n - length (kv_elems v)) d)
           (kv_resize alloc release tsz d s v n)"
proof (cases "n \<le> kv_size v")
  case True
  then have le: "unat n \<le> length (kv_elems v)"
    using kv_size_unat [OF assms(2)] by (simp add: word_le_nat_alt)
  then show ?thesis
    using assms(1) kv_inv_elems [OF assms(2), of "take (unat n) (kv_elems v)"] kv_inv_cap [OF assms(2)] True
    by (auto simp: kv_resize_def kv_becomes_def kv_others_def)
next
  case False
  then have gt: "length (kv_elems v) < unat n"
    using kv_size_unat [OF assms(2)] by (simp add: word_le_nat_alt)
  have g: "grown owns tsz P v n (kv_ensure_room alloc release tsz s v n)"
    using kv_ensure_room_sizes [OF assms(1,2,3)] gt by simp
  show ?thesis
    using False gt
    grown_becomes [OF g, of "kv_elems v @ replicate (unat n - length (kv_elems v)) d"
        "\<lambda>ys. ys @ replicate (unat n - length ys) d"]
    by (simp add: kv_resize_def split: sum.splits)
qed

lemma kv_from_range_becomes:
  assumes "owns s P" "kv_sizes tsz (length xs)"
  shows "kv_becomes owns tsz P xs (kv_from_range alloc release tsz s xs)"
  using kv_insert_becomes [OF assms(1) kv_inv_null [of tsz P], of xs] assms(2)
  by (simp add: kv_from_range_def kv_null_def kv_others_def)

lemma kv_destroy_owns:
  assumes "owns s P" "kv_inv tsz P v"
  shows "\<exists>s'. kv_destroy release s v = Inr s' \<and> owns s' (kv_others P v)"
  using kv_clear_owns [OF assms] by (auto simp: kv_destroy_def)

lemma kv_copy_assign_becomes:
  assumes "owns s P" "kv_inv tsz P this" "kv_sizes tsz (length (kv_elems other))"
  shows "kv_becomes owns tsz (kv_others P this) (kv_elems other) (kv_copy_assign alloc release tsz s this other)"
proof -
  obtain s1 where s1: "kv_clear release s this = Inr (s1, kv_null)" "owns s1 (kv_others P this)"
    using kv_clear_owns [OF assms(1,2)] by blast
  have b: "kv_becomes owns tsz (kv_others P this) (kv_elems other) (kv_from_range alloc release tsz s1 (kv_elems other))"
    by (rule kv_from_range_becomes [OF s1(2) assms(3)])
  have "kv_copy_assign alloc release tsz s this other = kv_from_range alloc release tsz s1 (kv_elems other)"
    unfolding kv_copy_assign_def s1(1) andThen_Inr
    by (cases "kv_from_range alloc release tsz s1 (kv_elems other)")
      (auto simp: kv_move_assign_def kv_clear_def kv_null_def)
  then show ?thesis using b by simp
qed

end

section \<open>On the kernel's heap\<close>


lemmas kv_eval = kv_from_range_def kv_insert_def kv_ensure_room_def kv_reserve_def kv_clear_def kv_null_def kv_size_def
  kalloc_def kfree_def default_heap_alloc_def default_heap_free_def heap_align_def round_up_def demo_new_val heap_eval

text \<open>A vector of 8-byte elements on a new heap.\<close>

lemma demo_sizes: "n < 1000 \<Longrightarrow> kv_sizes 8 n"
  by (simp add: kv_sizes_def)


text \<open>copy assignment makes the target equal to its source, whatever it held before, and neither
  leaks the old elements' block nor frees one it does not own.\<close>

theorem kv_copy_assign_copies:
  assumes "dheap_owns w P" "kv_inv tsz P this" "kv_sizes tsz (length (kv_elems other))"
  shows "kv_becomes dheap_owns tsz (kv_others P this) (kv_elems other) (kv_copy_assign kalloc kfree tsz w this other)"
  by (rule kheap.kv_copy_assign_becomes [OF assms])

theorem kv_copy_assign_copies_witness:
  "kv_becomes dheap_owns 8 {} [1, 2, 3 :: u64]
     (kv_copy_assign kalloc kfree 8 demo_new kv_null \<lparr>kv_begin = 64, kv_elems = [1, 2, 3], kv_cap = 10\<rparr>)"
  using kv_copy_assign_copies [OF demo_new_dheap kv_inv_null, of 8 "\<lparr>kv_begin = 64, kv_elems = [1, 2, 3], kv_cap = 10\<rparr>"]
    demo_sizes by simp

text \<open>C10: a vector that is built, resized and destroyed leaves the heap's ownership as it found it.\<close>

theorem kv_life_no_leak:
  assumes "dheap_owns w P" "kv_sizes tsz (length xs)" "kv_sizes tsz (unat n)"
    and "kv_from_range kalloc kfree tsz w xs = Inr (w1, v1)"
    and "kv_resize kalloc kfree tsz d w1 v1 n = Inr (w2, v2)"
  shows "kv_elems v2 = take (unat n) xs @ replicate (unat n - length xs) d \<and>
         (\<exists>w3. kv_destroy kfree w2 v2 = Inr w3 \<and> dheap_owns w3 P)"
proof -
  obtain P1 where P1: "kv_elems v1 = xs" "dheap_owns w1 P1" "kv_inv tsz P1 v1" "kv_others P1 v1 = P"
    using kheap.kv_from_range_becomes [OF assms(1,2)] by (auto simp: assms(4) kv_becomes_def)
  obtain P2 where "kv_elems v2 = take (unat n) xs @ replicate (unat n - length xs) d"
    "dheap_owns w2 P2" "kv_inv tsz P2 v2" "kv_others P2 v2 = P"
    using kheap.kv_resize_becomes [OF P1(2,3) assms(3), of d] by (auto simp: assms(5) kv_becomes_def P1)
  then show ?thesis using kheap.kv_destroy_owns by metis
qed

definition demo_vec :: "(mem \<times> simple_heap) \<times> u64 kvector" where
  "demo_vec = projr (kv_from_range kalloc kfree 8 demo_new [1, 2, 3])"

lemma demo_vec_eq: "kv_from_range kalloc kfree 8 demo_new [1, 2, 3] = Inr (fst demo_vec, snd demo_vec)"
  and demo_vec_val: "kv_elems (snd demo_vec) = [1, 2, 3]" "kv_cap (snd demo_vec) = 10"
  by (simp_all add: demo_vec_def kv_eval)

theorem kv_life_no_leak_witness:
  "\<exists>w v. kv_resize kalloc kfree 8 0 (fst demo_vec) (snd demo_vec) 5 = Inr (w, v) \<and> kv_elems v = [1, 2, 3] @ replicate 2 0 \<and>
     (\<exists>w'. kv_destroy kfree w v = Inr w' \<and> dheap_owns w' {})"
proof -
  have 2: "kv_resize kalloc kfree 8 0 (fst demo_vec) (snd demo_vec) 5 =
      Inr (fst demo_vec, (snd demo_vec)\<lparr>kv_elems := [1, 2, 3] @ replicate 2 0\<rparr>)"
    using demo_vec_val by (simp add: kv_resize_def kv_ensure_room_def kv_size_def split_beta)
  show ?thesis
    using kv_life_no_leak [OF demo_new_dheap _ _ demo_vec_eq 2] demo_sizes 2 by simp
qed

end
