(* ===== verification/IntrusiveTree.thy ===== *)
theory IntrusiveTree
  imports Prelude "HOL-Library.Tree" "HOL-Library.Multiset"
begin

text \<open>
  The intrusive binary search tree of \<open>attos/tree.h\<close>. A node is identified by a value of type \<open>'a\<close> (its
  address, or the address of its container: \<open>containing_record\<close> and \<open>node\<close> go from one to the other), a
  pointer is an \<open>'a option\<close> (\<open>None\<close> is \<open>nullptr\<close>), and the nodes live in a store that the operations
  update pointer by pointer, as the code does. \<open>assert\<close> is empty, as \<open>kernel/mm.cpp\<close> defines it.

  The loops follow pointers and would not end on a cyclic structure: they are \<open>partial_function\<close>s whose
  result \<open>None\<close> means that the loop does not return.

  The second half relates a store to a tree of the library (\<open>tree_at\<close>), a place in it to a path
  (\<open>ctx_at\<close>), and shows that the operations are the list operations on the inorder sequence.
\<close>

section \<open>The code\<close>

record 'a tree_node =
  tn_parent :: "'a option"
  tn_left :: "'a option"
  tn_right :: "'a option"

type_synonym 'a nstore = "'a \<Rightarrow> 'a tree_node"

partial_function (option) minimum_node :: "'a nstore \<Rightarrow> 'a option \<Rightarrow> 'a option option" where
  "minimum_node s node = (case node of
     None \<Rightarrow> Some None
   | Some n \<Rightarrow> (case tn_left (s n) of None \<Rightarrow> Some (Some n) | Some l \<Rightarrow> minimum_node s (Some l)))"

text \<open>The upward loop of \<open>successor_node\<close>.\<close>

partial_function (option) climb :: "'a nstore \<Rightarrow> 'a \<Rightarrow> 'a option option" where
  "climb s node = (case tn_parent (s node) of
     None \<Rightarrow> Some None
   | Some parent \<Rightarrow> (if tn_right (s parent) = Some node then climb s parent else Some (Some parent)))"

definition successor_node :: "'a nstore \<Rightarrow> 'a option \<Rightarrow> 'a option option" where
  "successor_node s node = (case node of
     None \<Rightarrow> Some None
   | Some n \<Rightarrow> (case tn_right (s n) of
       Some r \<Rightarrow> minimum_node s (Some r)
     | None \<Rightarrow> climb s n))"

definition update_parent_of :: "'a nstore \<Rightarrow> 'a \<Rightarrow> 'a option \<Rightarrow> 'a nstore" where
  "update_parent_of s removed replacement = (case tn_parent (s removed) of
     None \<Rightarrow> s
   | Some p \<Rightarrow>
       if tn_left (s p) = Some removed then s(p := s p\<lparr>tn_left := replacement\<rparr>)
       else s(p := s p\<lparr>tn_right := replacement\<rparr>))"

definition set_parent :: "'a nstore \<Rightarrow> 'a option \<Rightarrow> 'a option \<Rightarrow> 'a nstore" where
  "set_parent s p par = (case p of None \<Rightarrow> s | Some n \<Rightarrow> s(n := s n\<lparr>tn_parent := par\<rparr>))"

definition reparent_child_nodes :: "'a nstore \<Rightarrow> 'a \<Rightarrow> 'a nstore" where
  "reparent_child_nodes s n =
     (let s1 = set_parent s (tn_left (s n)) (Some n)
      in set_parent s1 (tn_right (s1 n)) (Some n))"

text \<open>\<open>do_insert\<close>: \<open>root\<close> is a pointer to a pointer, the root of the tree or a child field of a node.\<close>

datatype 'a slot = Root_slot | Left_slot 'a | Right_slot 'a

fun load_slot :: "'a nstore \<Rightarrow> 'a option \<Rightarrow> 'a slot \<Rightarrow> 'a option" where
  "load_slot s root Root_slot = root"
| "load_slot s root (Left_slot n) = tn_left (s n)"
| "load_slot s root (Right_slot n) = tn_right (s n)"

fun store_slot :: "'a nstore \<Rightarrow> 'a option \<Rightarrow> 'a slot \<Rightarrow> 'a option \<Rightarrow> 'a nstore \<times> 'a option" where
  "store_slot s root Root_slot v = (s, v)"
| "store_slot s root (Left_slot n) v = (s(n := s n\<lparr>tn_left := v\<rparr>), root)"
| "store_slot s root (Right_slot n) v = (s(n := s n\<lparr>tn_right := v\<rparr>), root)"

partial_function (option) insert_walk ::
  "('a \<Rightarrow> 'a \<Rightarrow> bool) \<Rightarrow> 'a nstore \<Rightarrow> 'a option \<Rightarrow> 'a \<Rightarrow> 'a option \<Rightarrow> 'a slot \<Rightarrow> ('a option \<times> 'a slot) option" where
  "insert_walk compare s root node parent slot = (case load_slot s root slot of
     None \<Rightarrow> Some (parent, slot)
   | Some p \<Rightarrow> insert_walk compare s root node (Some p)
       (if compare node p then Left_slot p else Right_slot p))"

definition do_insert :: "('a \<Rightarrow> 'a \<Rightarrow> bool) \<Rightarrow> 'a nstore \<Rightarrow> 'a option \<Rightarrow> 'a \<Rightarrow> ('a nstore \<times> 'a option) option" where
  "do_insert compare s root node = (case insert_walk compare s root node None Root_slot of
     None \<Rightarrow> None
   | Some (parent, slot) \<Rightarrow>
       let s1 = s(node := s node\<lparr>tn_parent := parent\<rparr>) in Some (store_slot s1 root slot (Some node)))"

text \<open>The two-children case of \<open>remove\<close>: the node swaps places with its inorder successor.\<close>

definition swap_with_successor :: "'a nstore \<Rightarrow> 'a option \<Rightarrow> 'a \<Rightarrow> 'a \<Rightarrow> 'a nstore \<times> 'a option" where
  "swap_with_successor s root node successor =
     (let s3 =
        (if Some successor = tn_right (s node) then
           let s1 = update_parent_of s node (Some successor);
               s2 = s1(successor := s1 successor\<lparr>tn_parent := tn_parent (s1 node), tn_left := tn_left (s1 node),
                                                 tn_right := Some node\<rparr>)
           in s2(node := s2 node\<lparr>tn_left := tn_left (s1 successor), tn_right := tn_right (s1 successor)\<rparr>)
         else
           let s1 = update_parent_of s successor (Some node);
               s2 = update_parent_of s1 node (Some successor)
           in s2(node := s2 successor, successor := s2 node));
          s4 = reparent_child_nodes s3 node;
          s5 = reparent_child_nodes s4 successor
      in (s5, if root = Some node then Some successor else root))"

text \<open>The end of \<open>remove\<close>: at most one child is left, it takes the node's place.\<close>

definition unlink :: "'a nstore \<Rightarrow> 'a option \<Rightarrow> 'a \<Rightarrow> 'a nstore \<times> 'a option" where
  "unlink s root node =
     (let replacement = (if tn_left (s node) \<noteq> None then tn_left (s node) else tn_right (s node));
          s1 = s(node := s node\<lparr>tn_left := None, tn_right := None\<rparr>);
          s2 = update_parent_of s1 node replacement;
          s3 = set_parent s2 replacement (tn_parent (s2 node));
          root1 = (if root = Some node then replacement else root)
      in (s3(node := s3 node\<lparr>tn_parent := None\<rparr>), root1))"

partial_function (option) remove_node :: "'a nstore \<Rightarrow> 'a option \<Rightarrow> 'a \<Rightarrow> ('a nstore \<times> 'a option) option" where
  "remove_node s root node =
     (if tn_left (s node) \<noteq> None \<and> tn_right (s node) \<noteq> None
      then (case successor_node s (Some node) of
              None \<Rightarrow> None
            | Some succ \<Rightarrow> (case swap_with_successor s root node (the succ) of
                (s1, root1) \<Rightarrow> remove_node s1 root1 node))
      else Some (unlink s root node))"

text \<open>The two searches; \<open>lt n\<close> is \<open>compare(n, key)\<close>, \<open>gt n\<close> is \<open>compare(key, n)\<close>.\<close>

partial_function (option) lower_walk :: "('a \<Rightarrow> bool) \<Rightarrow> 'a nstore \<Rightarrow> 'a option \<Rightarrow> 'a option \<Rightarrow> 'a option option" where
  "lower_walk lt s n res = (case n of
     None \<Rightarrow> Some res
   | Some a \<Rightarrow> (if lt a then lower_walk lt s (tn_right (s a)) res
                else lower_walk lt s (tn_left (s a)) (Some a)))"

definition lower_bound :: "('a \<Rightarrow> bool) \<Rightarrow> 'a nstore \<Rightarrow> 'a option \<Rightarrow> 'a option option" where
  "lower_bound lt s root = lower_walk lt s root None"

partial_function (option) upper_walk :: "('a \<Rightarrow> bool) \<Rightarrow> 'a nstore \<Rightarrow> 'a option \<Rightarrow> 'a option \<Rightarrow> 'a option option" where
  "upper_walk gt s n res = (case n of
     None \<Rightarrow> Some res
   | Some a \<Rightarrow> (if gt a then upper_walk gt s (tn_left (s a)) (Some a)
                else upper_walk gt s (tn_right (s a)) res))"

definition upper_bound :: "('a \<Rightarrow> bool) \<Rightarrow> 'a nstore \<Rightarrow> 'a option \<Rightarrow> 'a option option" where
  "upper_bound gt s root = upper_walk gt s root None"

text \<open>\<open>std::find_if\<close> between \<open>begin()\<close> and \<open>end()\<close>.\<close>

definition tree_begin :: "'a nstore \<Rightarrow> 'a option \<Rightarrow> 'a option option" where
  "tree_begin s root = minimum_node s root"

partial_function (option) find_from :: "('a \<Rightarrow> bool) \<Rightarrow> 'a nstore \<Rightarrow> 'a option \<Rightarrow> 'a option option" where
  "find_from P s it = (case it of
     None \<Rightarrow> Some None
   | Some a \<Rightarrow> (if P a then Some (Some a)
                else (case successor_node s (Some a) of None \<Rightarrow> None | Some it1 \<Rightarrow> find_from P s it1)))"

definition tree_find_if :: "('a \<Rightarrow> bool) \<Rightarrow> 'a nstore \<Rightarrow> 'a option \<Rightarrow> 'a option option" where
  "tree_find_if P s root = (case tree_begin s root of None \<Rightarrow> None | Some it \<Rightarrow> find_from P s it)"

section \<open>Stores and trees\<close>

fun tree_at :: "'a nstore \<Rightarrow> 'a option \<Rightarrow> 'a option \<Rightarrow> 'a tree \<Rightarrow> bool" where
  "tree_at s par p Leaf \<longleftrightarrow> p = None"
| "tree_at s par p (Node l a r) \<longleftrightarrow> p = Some a \<and> tn_parent (s a) = par \<and>
     tree_at s (Some a) (tn_left (s a)) l \<and> tree_at s (Some a) (tn_right (s a)) r"

lemma tree_at_cong:
  "(\<And>a. a \<in> set_tree t \<Longrightarrow> s' a = s a) \<Longrightarrow> tree_at s' par p t \<longleftrightarrow> tree_at s par p t"
  by (induction t arbitrary: par p) auto

lemma tree_at_root: "tree_at s par p t \<Longrightarrow> p = None \<longleftrightarrow> t = Leaf"
  by (cases t) auto

lemma tree_at_Some: "tree_at s par (Some a) t \<Longrightarrow> \<exists>l r. t = Node l a r"
  by (cases t) auto

lemma tree_at_mem: "tree_at s par (Some a) t \<Longrightarrow> a \<in> set_tree t"
  by (cases t) auto

lemma tree_at_parent: "tree_at s par (Some a) t \<Longrightarrow> tn_parent (s a) = par"
  by (cases t) auto

lemma tree_at_None [simp]: "tree_at s par None t \<longleftrightarrow> t = Leaf"
  by (cases t) auto

lemma minimum_node_correct:
  "tree_at s par p t \<Longrightarrow> minimum_node s p = Some (case inorder t of [] \<Rightarrow> None | a # _ \<Rightarrow> Some a)"
proof (induction t arbitrary: par p)
  case Leaf
  then show ?case by (simp add: minimum_node.simps)
next
  case (Node l a r)
  show ?case
  proof (cases l)
    case Leaf
    then show ?thesis using Node.prems by (simp add: minimum_node.simps [of s "Some a"])
  next
    case l: (Node ll b lr)
    then have "minimum_node s p = minimum_node s (Some b)"
      using Node.prems by (simp add: minimum_node.simps [of s "Some a"])
    also have "\<dots> = Some (case inorder l of [] \<Rightarrow> None | a # _ \<Rightarrow> Some a)"
      using Node.IH(1) [of "Some a" "Some b"] Node.prems l by simp
    finally show ?thesis using l by (cases "inorder ll") auto
  qed
qed

text \<open>The last node of a subtree climbs past the whole subtree.\<close>

lemma climb_last:
  "tree_at s par (Some b) t \<Longrightarrow> distinct (inorder t) \<Longrightarrow> inorder t = xs @ [a] \<Longrightarrow> climb s a = climb s b"
proof (induction t arbitrary: par b xs)
  case (Node l c r)
  show ?case
  proof (cases r)
    case Leaf
    then show ?thesis using Node.prems by simp
  next
    case r: (Node rl d rr)
    have at: "tree_at s (Some c) (Some d) r" using Node.prems(1) r by simp
    obtain ys where ys: "inorder r = ys @ [a]"
      using Node.prems(3) r by (metis append_butlast_last_id last_appendR last_snoc inorder.simps(2) list.distinct(1)
          append_is_Nil_conv last_ConsR)
    have "climb s a = climb s d" using Node.IH(2) [OF at _ ys] Node.prems(2) by simp
    also have "\<dots> = climb s c"
      using Node.prems(1) r by (simp add: climb.simps [of s d])
    finally show ?thesis using Node.prems(1) by simp
  qed
qed simp

lemma last_no_right: "tree_at s par p t \<Longrightarrow> inorder t = xs @ [a] \<Longrightarrow> tn_right (s a) = None"
proof (induction t arbitrary: par p xs)
  case (Node l c r)
  show ?case
  proof (cases "r = Leaf")
    case True
    then show ?thesis using Node.prems by simp
  next
    case False
    then have ne: "inorder r \<noteq> []" by (cases r) auto
    then obtain zs where "inorder r = zs @ [a]"
      using Node.prems(2) by (cases "inorder r" rule: rev_cases) auto
    then show ?thesis using Node by auto
  qed
qed simp

lemma successor_in:
  "tree_at s par p t \<Longrightarrow> distinct (inorder t) \<Longrightarrow> inorder t = xs @ a # b # ys \<Longrightarrow>
     successor_node s (Some a) = Some (Some b)"
proof (induction t arbitrary: par p xs ys)
  case (Node l c r)
  have l: "tree_at s (Some c) (tn_left (s c)) l" and r: "tree_at s (Some c) (tn_right (s c)) r"
    using Node.prems(1) by auto
  have dl: "distinct (inorder l)" and dr: "distinct (inorder r)" using Node.prems(2) by auto
  have eq: "inorder l @ c # inorder r = xs @ a # b # ys" using Node.prems(3) by simp
  then consider (inl) zs where "inorder l = xs @ a # b # zs" | (last) "inorder l = xs @ [a]" "c = b"
    | (root) "c = a" "inorder r = b # ys" | (inr) zs where "inorder r = zs @ a # b # ys"
    by (auto simp: append_eq_append_conv2 append_eq_Cons_conv Cons_eq_append_conv)
  then show ?case
  proof cases
    case inl
    then show ?thesis using Node.IH(1) [OF l dl inl] by simp
  next
    case last
    obtain d where d: "tn_left (s c) = Some d" using l last by (cases "tn_left (s c)") auto
    have cl: "climb s a = climb s d" using climb_last [OF l [unfolded d] _ last(1)] Node.prems(2) by simp
    have "tn_right (s c) \<noteq> Some d"
      using tree_at_mem [OF l [unfolded d]] tree_at_mem [of s "Some c" d r] r Node.prems(2) by auto
    moreover have "tn_parent (s d) = Some c" using tree_at_parent [OF l [unfolded d]] .
    ultimately have "climb s d = Some (Some c)" by (simp add: climb.simps [of s d])
    moreover have "tn_right (s a) = None" using last_no_right [OF l last(1)] .
    ultimately show ?thesis using cl last(2) by (simp add: successor_node_def)
  next
    case root
    then obtain d where d: "tn_right (s c) = Some d" using r by (cases "tn_right (s c)") auto
    then show ?thesis
      using minimum_node_correct [OF r] root by (simp add: successor_node_def)
  next
    case inr
    then show ?thesis using Node.IH(2) [OF r dr inr] by simp
  qed
qed simp

lemma successor_last:
  assumes "tree_at s None p t" "distinct (inorder t)" "inorder t = xs @ [a]"
  shows "successor_node s (Some a) = Some None"
proof -
  obtain b where p: "p = Some b" using assms(1,3) by (cases p) auto
  have "tn_parent (s b) = None" using assms(1) p by (metis tree_at.simps(2) tree_at_Some)
  then have "climb s b = Some None" by (simp add: climb.simps [of s b])
  then show ?thesis
    using climb_last [OF assms(1) [unfolded p] assms(2,3)] last_no_right [OF assms(1,3)]
    by (simp add: successor_node_def)
qed

definition first_of :: "'a list \<Rightarrow> 'a option" where
  "first_of xs = (case xs of [] \<Rightarrow> None | a # _ \<Rightarrow> Some a)"

lemma first_of_simps [simp]: "first_of [] = None" "first_of (a # xs) = Some a"
  by (simp_all add: first_of_def)

lemma tree_begin_first: "tree_at s None p t \<Longrightarrow> tree_begin s p = Some (first_of (inorder t))"
  by (simp add: tree_begin_def minimum_node_correct first_of_def)

lemma successor_first:
  assumes "tree_at s None p t" "distinct (inorder t)" "inorder t = xs @ a # ys"
  shows "successor_node s (Some a) = Some (first_of ys)"
  using assms successor_in successor_last by (cases ys) fastforce+

lemma find_from_correct:
  assumes at: "tree_at s None p t" and d: "distinct (inorder t)"
  shows "inorder t = xs @ ys \<Longrightarrow> find_from P s (first_of ys) = Some (List.find P ys)"
proof (induction ys arbitrary: xs)
  case Nil
  then show ?case by (simp add: find_from.simps)
next
  case (Cons a ys)
  have "inorder t = (xs @ [a]) @ ys" using Cons.prems by simp
  then show ?case
    using Cons.IH successor_first [OF at d Cons.prems] by (simp add: find_from.simps [of P s "Some a"])
qed

lemma tree_find_if_correct:
  "tree_at s None p t \<Longrightarrow> distinct (inorder t) \<Longrightarrow> tree_find_if P s p = Some (List.find P (inorder t))"
  by (simp add: tree_find_if_def tree_begin_first find_from_correct [where xs = "[]"])

section \<open>Searching\<close>

text \<open>The nodes for which the test holds come first.\<close>

definition down_closed :: "('a \<Rightarrow> bool) \<Rightarrow> 'a list \<Rightarrow> bool" where
  "down_closed Q xs \<longleftrightarrow> sorted_wrt (\<lambda>a b. Q b \<longrightarrow> Q a) xs"

lemma down_closed_Node:
  "down_closed Q (xs @ [a] @ ys) \<Longrightarrow>
     down_closed Q xs \<and> down_closed Q ys \<and> (Q a \<longrightarrow> (\<forall>b \<in> set xs. Q b))"
  by (simp add: down_closed_def sorted_wrt_append)

lemma find_append: "List.find P (xs @ ys) = (case List.find P xs of None \<Rightarrow> List.find P ys | Some a \<Rightarrow> Some a)"
  by (induction xs) auto

lemma find_all_false: "\<forall>a \<in> set xs. \<not> P a \<Longrightarrow> List.find P xs = None"
  by (induction xs) auto

lemma lower_walk_correct:
  "tree_at s par p t \<Longrightarrow> down_closed lt (inorder t) \<Longrightarrow>
     lower_walk lt s p res = Some (case List.find (\<lambda>a. \<not> lt a) (inorder t) of None \<Rightarrow> res | Some a \<Rightarrow> Some a)"
proof (induction t arbitrary: par p res)
  case Leaf
  then show ?case by (simp add: lower_walk.simps)
next
  case (Node l a r)
  have l: "tree_at s (Some a) (tn_left (s a)) l" and r: "tree_at s (Some a) (tn_right (s a)) r" and p: "p = Some a"
    using Node.prems(1) by auto
  have dl: "down_closed lt (inorder l)" and dr: "down_closed lt (inorder r)"
    and ab: "lt a \<Longrightarrow> \<forall>b \<in> set (inorder l). lt b"
    using down_closed_Node [OF Node.prems(2) [unfolded inorder.simps]] by simp_all
  show ?case
  proof (cases "lt a")
    case True
    then have "List.find (\<lambda>a. \<not> lt a) (inorder l) = None" using ab by (simp add: find_all_false)
    then show ?thesis
      using Node.IH(2) [OF r dr] True p by (simp add: lower_walk.simps [of lt s "Some a"] find_append)
  next
    case False
    then show ?thesis
      using Node.IH(1) [OF l dl, of "Some a"] p
      by (simp add: lower_walk.simps [of lt s "Some a"] find_append split: option.splits)
  qed
qed

lemma upper_walk_correct:
  "tree_at s par p t \<Longrightarrow> down_closed (\<lambda>a. \<not> gt a) (inorder t) \<Longrightarrow>
     upper_walk gt s p res = Some (case List.find gt (inorder t) of None \<Rightarrow> res | Some a \<Rightarrow> Some a)"
proof (induction t arbitrary: par p res)
  case Leaf
  then show ?case by (simp add: upper_walk.simps)
next
  case (Node l a r)
  have l: "tree_at s (Some a) (tn_left (s a)) l" and r: "tree_at s (Some a) (tn_right (s a)) r" and p: "p = Some a"
    using Node.prems(1) by auto
  have dl: "down_closed (\<lambda>a. \<not> gt a) (inorder l)" and dr: "down_closed (\<lambda>a. \<not> gt a) (inorder r)"
    and ab: "\<not> gt a \<Longrightarrow> \<forall>b \<in> set (inorder l). \<not> gt b"
    using down_closed_Node [OF Node.prems(2) [unfolded inorder.simps]] by simp_all
  show ?case
  proof (cases "gt a")
    case False
    then have "List.find gt (inorder l) = None" using ab by (simp add: find_all_false)
    then show ?thesis
      using Node.IH(2) [OF r dr] False p by (simp add: upper_walk.simps [of gt s "Some a"] find_append)
  next
    case True
    then show ?thesis
      using Node.IH(1) [OF l dl, of "Some a"] p
      by (simp add: upper_walk.simps [of gt s "Some a"] find_append split: option.splits)
  qed
qed

section \<open>Insertion\<close>

fun leaf_insert :: "('a \<Rightarrow> 'a \<Rightarrow> bool) \<Rightarrow> 'a \<Rightarrow> 'a tree \<Rightarrow> 'a tree" where
  "leaf_insert cmp x Leaf = Node Leaf x Leaf"
| "leaf_insert cmp x (Node l a r) =
     (if cmp x a then Node (leaf_insert cmp x l) a r else Node l a (leaf_insert cmp x r))"

fun ins_list :: "('a \<Rightarrow> 'a \<Rightarrow> bool) \<Rightarrow> 'a \<Rightarrow> 'a list \<Rightarrow> 'a list" where
  "ins_list cmp x [] = [x]"
| "ins_list cmp x (a # as) = (if cmp x a then x # a # as else a # ins_list cmp x as)"

lemma set_leaf_insert [simp]: "set_tree (leaf_insert cmp x t) = insert x (set_tree t)"
  by (induction t) auto

lemma distinct_leaf_insert: "distinct (inorder t) \<Longrightarrow> x \<notin> set_tree t \<Longrightarrow> distinct (inorder (leaf_insert cmp x t))"
  by (induction t) auto

lemma ins_list_append1: "\<forall>a \<in> set xs. \<not> cmp x a \<Longrightarrow> ins_list cmp x (xs @ ys) = xs @ ins_list cmp x ys"
  by (induction xs) auto

lemma ins_list_append2: "cmp x a \<Longrightarrow> ins_list cmp x (xs @ a # ys) = ins_list cmp x xs @ a # ys"
  by (induction xs) auto

lemma inorder_leaf_insert:
  "down_closed (\<lambda>a. \<not> cmp x a) (inorder t) \<Longrightarrow> inorder (leaf_insert cmp x t) = ins_list cmp x (inorder t)"
proof (induction t)
  case (Node l a r)
  have d: "down_closed (\<lambda>a. \<not> cmp x a) (inorder l)" "down_closed (\<lambda>a. \<not> cmp x a) (inorder r)"
    and ab: "\<not> cmp x a \<Longrightarrow> \<forall>b \<in> set (inorder l). \<not> cmp x b"
    using down_closed_Node [OF Node.prems [unfolded inorder.simps]] by simp_all
  show ?case
  proof (cases "cmp x a")
    case True
    then show ?thesis using Node.IH(1) [OF d(1)] by (simp add: ins_list_append2)
  next
    case False
    then show ?thesis using Node.IH(2) [OF d(2)] ab ins_list_append1 [of "inorder l" cmp x] by simp
  qed
qed simp

lemma insert_walk_correct:
  assumes "tree_at s par p t" "load_slot s root slot = p" "distinct (inorder t)" "x \<notin> set_tree t"
    "tn_left (s x) = None" "tn_right (s x) = None"
  shows "\<exists>par' slot'. insert_walk cmp s root x par slot = Some (par', slot') \<and>
           (if t = Leaf then par' = par \<and> slot' = slot
            else (\<exists>b \<in> set_tree t. par' = Some b \<and> (slot' = Left_slot b \<or> slot' = Right_slot b)) \<and>
              tree_at (fst (store_slot (s(x := s x\<lparr>tn_parent := par'\<rparr>)) root slot' (Some x))) par p (leaf_insert cmp x t))"
  using assms
proof (induction t arbitrary: par p slot)
  case Leaf
  then show ?case by (simp add: insert_walk.simps)
next
  case (Node l a r)
  have l: "tree_at s (Some a) (tn_left (s a)) l" and r: "tree_at s (Some a) (tn_right (s a)) r" and p: "p = Some a"
    using Node.prems(1) by auto
  have walk: "insert_walk cmp s root x par slot =
      insert_walk cmp s root x (Some a) (if cmp x a then Left_slot a else Right_slot a)"
    using Node.prems(2) p by (simp add: insert_walk.simps [of cmp s root x par slot])
  have ne: "x \<noteq> a" "x \<notin> set_tree l" "x \<notin> set_tree r" "distinct (inorder l)" "distinct (inorder r)"
    "a \<notin> set_tree l" "a \<notin> set_tree r" "set_tree l \<inter> set_tree r = {}"
    using Node.prems by auto
  note keep = tree_at_cong
  show ?case
  proof (cases "cmp x a")
    case True
    obtain par' slot' where w: "insert_walk cmp s root x (Some a) (Left_slot a) = Some (par', slot')"
      and c: "if l = Leaf then par' = Some a \<and> slot' = Left_slot a
        else (\<exists>b \<in> set_tree l. par' = Some b \<and> (slot' = Left_slot b \<or> slot' = Right_slot b)) \<and>
              tree_at (fst (store_slot (s(x := s x\<lparr>tn_parent := par'\<rparr>)) root slot' (Some x))) (Some a) (tn_left (s a)) (leaf_insert cmp x l)"
      using Node.IH(1) [OF l, of "Left_slot a"] ne Node.prems(5,6) by auto
    let ?s = "fst (store_slot (s(x := s x\<lparr>tn_parent := par'\<rparr>)) root slot' (Some x))"
    have "tree_at ?s (Some a) (tn_right (s a)) r \<longleftrightarrow> tree_at s (Some a) (tn_right (s a)) r"
      using c ne by (intro keep) (auto split: if_splits)
    then show ?thesis
      using walk w c True ne r Node.prems(1,5,6) by (auto split: if_splits)
  next
    case False
    obtain par' slot' where w: "insert_walk cmp s root x (Some a) (Right_slot a) = Some (par', slot')"
      and c: "if r = Leaf then par' = Some a \<and> slot' = Right_slot a
        else (\<exists>b \<in> set_tree r. par' = Some b \<and> (slot' = Left_slot b \<or> slot' = Right_slot b)) \<and>
              tree_at (fst (store_slot (s(x := s x\<lparr>tn_parent := par'\<rparr>)) root slot' (Some x))) (Some a) (tn_right (s a)) (leaf_insert cmp x r)"
      using Node.IH(2) [OF r, of "Right_slot a"] ne Node.prems(5,6) by auto
    let ?s = "fst (store_slot (s(x := s x\<lparr>tn_parent := par'\<rparr>)) root slot' (Some x))"
    have "tree_at ?s (Some a) (tn_left (s a)) l \<longleftrightarrow> tree_at s (Some a) (tn_left (s a)) l"
      using c ne by (intro keep) (auto split: if_splits)
    then show ?thesis
      using walk w c False ne l Node.prems(1,5,6) by (auto split: if_splits)
  qed
qed

lemma do_insert_correct:
  assumes "tree_at s None root t" "distinct (inorder t)" "x \<notin> set_tree t" "s x = \<lparr>tn_parent = None, tn_left = None, tn_right = None\<rparr>"
  shows "\<exists>s' root'. do_insert cmp s root x = Some (s', root') \<and> tree_at s' None root' (leaf_insert cmp x t)"
  using insert_walk_correct [of s None root t root Root_slot x cmp] assms
  by (cases t) (auto simp: do_insert_def Let_def split: if_splits)

section \<open>Places in a tree\<close>

text \<open>The way from a subtree up to the root, innermost step first.\<close>

datatype 'a step = In_left 'a "'a tree" | In_right "'a tree" 'a

fun fill :: "'a step list \<Rightarrow> 'a tree \<Rightarrow> 'a tree" where
  "fill [] u = u"
| "fill (In_left b r # c) u = fill c (Node u b r)"
| "fill (In_right l b # c) u = fill c (Node l b u)"

text \<open>\<open>ctx_at s tp rt c par p\<close>: the path \<open>c\<close> leads from the node \<open>rt\<close>, whose parent is \<open>tp\<close>, down to a child pointer
  \<open>p\<close> of the node \<open>par\<close>.\<close>

fun ctx_at :: "'a nstore \<Rightarrow> 'a option \<Rightarrow> 'a option \<Rightarrow> 'a step list \<Rightarrow> 'a option \<Rightarrow> 'a option \<Rightarrow> bool" where
  "ctx_at s tp rt [] par p \<longleftrightarrow> p = rt \<and> par = tp"
| "ctx_at s tp rt (In_left b r # c) par p \<longleftrightarrow> par = Some b \<and> tn_left (s b) = p \<and>
     tree_at s (Some b) (tn_right (s b)) r \<and> ctx_at s tp rt c (tn_parent (s b)) (Some b)"
| "ctx_at s tp rt (In_right l b # c) par p \<longleftrightarrow> par = Some b \<and> tn_right (s b) = p \<and>
     tree_at s (Some b) (tn_left (s b)) l \<and> ctx_at s tp rt c (tn_parent (s b)) (Some b)"

fun step_nodes :: "'a step \<Rightarrow> 'a set" where
  "step_nodes (In_left b r) = insert b (set_tree r)"
| "step_nodes (In_right l b) = insert b (set_tree l)"

definition ctx_nodes :: "'a step list \<Rightarrow> 'a set" where
  "ctx_nodes c = (\<Union>x \<in> set c. step_nodes x)"

lemma ctx_nodes_simps [simp]:
  "ctx_nodes [] = {}" "ctx_nodes (x # c) = step_nodes x \<union> ctx_nodes c" "ctx_nodes (c @ d) = ctx_nodes c \<union> ctx_nodes d"
  by (auto simp: ctx_nodes_def)

fun ctx_before :: "'a step list \<Rightarrow> 'a list" where
  "ctx_before [] = []"
| "ctx_before (In_left b r # c) = ctx_before c"
| "ctx_before (In_right l b # c) = ctx_before c @ inorder l @ [b]"

fun ctx_after :: "'a step list \<Rightarrow> 'a list" where
  "ctx_after [] = []"
| "ctx_after (In_left b r # c) = b # inorder r @ ctx_after c"
| "ctx_after (In_right l b # c) = ctx_after c"

lemma inorder_fill: "inorder (fill c u) = ctx_before c @ inorder u @ ctx_after c"
  by (induction c u rule: fill.induct) auto

lemma ctx_nodes_lists: "ctx_nodes c = set (ctx_before c) \<union> set (ctx_after c)"
  by (induction c rule: ctx_before.induct) auto

lemma fill_append: "fill (c @ d) u = fill d (fill c u)"
  by (induction c u rule: fill.induct) auto

lemma fill_at:
  "tree_at s tp rt (fill c u) \<longleftrightarrow> (\<exists>par p. ctx_at s tp rt c par p \<and> tree_at s par p u)"
  by (induction c u rule: fill.induct) auto

lemma ctx_append:
  "ctx_at s tp rt (c @ d) par p \<longleftrightarrow> (\<exists>par2 p2. ctx_at s par2 p2 c par p \<and> ctx_at s tp rt d par2 p2)"
  by (induction s tp rt c par p rule: ctx_at.induct) auto

lemma fill_exists: "a \<in> set_tree t \<Longrightarrow> \<exists>c l r. t = fill c (Node l a r)"
proof (induction t)
  case (Node l b r)
  consider "a = b" | "a \<in> set_tree l" | "a \<in> set_tree r" using Node.prems by auto
  then show ?case
  proof cases
    case 1
    then show ?thesis by (intro exI [of _ "[]"]) auto
  next
    case 2
    then obtain c ll lr where "l = fill c (Node ll a lr)" using Node.IH(1) by blast
    then have "Node l b r = fill (c @ [In_left b r]) (Node ll a lr)" by (simp add: fill_append)
    then show ?thesis by blast
  next
    case 3
    then obtain c rl rr where "r = fill c (Node rl a rr)" using Node.IH(2) by blast
    then have "Node l b r = fill (c @ [In_right l b]) (Node rl a rr)" by (simp add: fill_append)
    then show ?thesis by blast
  qed
qed simp

lemma ctx_at_cong:
  "(\<And>a. a \<in> ctx_nodes c \<Longrightarrow> s' a = s a) \<Longrightarrow> ctx_at s' tp rt c par p \<longleftrightarrow> ctx_at s tp rt c par p"
proof (induction s tp rt c par p rule: ctx_at.induct)
  case (2 s tp rt b r c par p)
  then show ?case using tree_at_cong [of r s' s] by auto
next
  case (3 s tp rt l b c par p)
  then show ?case using tree_at_cong [of l s' s] by auto
qed simp

lemma ctx_top: "ctx_at s tp rt c par p \<Longrightarrow> c \<noteq> [] \<Longrightarrow> \<exists>y \<in> ctx_nodes c. rt = Some y"
proof (induction s tp rt c par p rule: ctx_at.induct)
  case (2 s tp rt b r c par p)
  then show ?case by (cases c) auto
next
  case (3 s tp rt l b c par p)
  then show ?case by (cases c) auto
qed simp

definition ctx_distinct :: "'a step list \<Rightarrow> bool" where
  "ctx_distinct c \<longleftrightarrow> distinct (ctx_before c @ ctx_after c)"

lemma ctx_distinct_simps [simp]:
  "ctx_distinct []"
  "ctx_distinct (In_left b r # c) \<longleftrightarrow> b \<notin> set_tree r \<and> b \<notin> ctx_nodes c \<and> distinct (inorder r) \<and>
     set_tree r \<inter> ctx_nodes c = {} \<and> ctx_distinct c"
  "ctx_distinct (In_right l b # c) \<longleftrightarrow> b \<notin> set_tree l \<and> b \<notin> ctx_nodes c \<and> distinct (inorder l) \<and>
     set_tree l \<inter> ctx_nodes c = {} \<and> ctx_distinct c"
  by (auto simp: ctx_distinct_def ctx_nodes_lists)

lemma distinct_fill:
  "distinct (inorder (fill c u)) \<longleftrightarrow> ctx_distinct c \<and> distinct (inorder u) \<and> ctx_nodes c \<inter> set_tree u = {}"
  by (auto simp: inorder_fill ctx_distinct_def ctx_nodes_lists)

lemma set_fill: "set_tree (fill c u) = ctx_nodes c \<union> set_tree u"
  by (induction c u rule: fill.induct) auto

lemma update_parent_parent [simp]: "tn_parent (update_parent_of s a q b) = tn_parent (s b)"
  by (simp add: update_parent_of_def split: option.splits)

lemma relink:
  assumes "ctx_at s tp rt c par (Some a)" "ctx_distinct c" "a \<notin> ctx_nodes c" "tn_parent (s a) = par"
    "c = [] \<Longrightarrow> tp = None"
  shows "ctx_at (update_parent_of s a q) tp (if c = [] then q else rt) c par q"
    and "b \<notin> ctx_nodes c \<Longrightarrow> update_parent_of s a q b = s b"
proof -
  have "ctx_at (update_parent_of s a q) tp (if c = [] then q else rt) c par q \<and>
        (\<forall>b. b \<notin> ctx_nodes c \<longrightarrow> update_parent_of s a q b = s b)"
  proof (cases c)
    case Nil
    then show ?thesis using assms by (simp add: update_parent_of_def)
  next
    case (Cons x c')
    show ?thesis
    proof (cases x)
      case (In_left b r)
      let ?s = "s(b := s b\<lparr>tn_left := q\<rparr>)"
      have "tree_at ?s (Some b) (tn_right (s b)) r = tree_at s (Some b) (tn_right (s b)) r"
        "ctx_at ?s tp rt c' (tn_parent (s b)) (Some b) = ctx_at s tp rt c' (tn_parent (s b)) (Some b)"
        using assms(2) Cons In_left by (intro tree_at_cong ctx_at_cong; auto)+
      then show ?thesis using assms(1,3,4) Cons In_left by (auto simp: update_parent_of_def)
    next
      case (In_right l b)
      let ?s = "s(b := s b\<lparr>tn_right := q\<rparr>)"
      have "tree_at ?s (Some b) (tn_left (s b)) l = tree_at s (Some b) (tn_left (s b)) l"
        "ctx_at ?s tp rt c' (tn_parent (s b)) (Some b) = ctx_at s tp rt c' (tn_parent (s b)) (Some b)"
        using assms(2) Cons In_right by (intro tree_at_cong ctx_at_cong; auto)+
      moreover have "tn_left (s b) \<noteq> Some a"
        using assms(1,3) Cons In_right tree_at_mem [of s "Some b" a l] by auto
      ultimately show ?thesis using assms(1,3,4) Cons In_right by (auto simp: update_parent_of_def)
    qed
  qed
  then show "ctx_at (update_parent_of s a q) tp (if c = [] then q else rt) c par q"
    and "b \<notin> ctx_nodes c \<Longrightarrow> update_parent_of s a q b = s b" by blast+
qed

lemma set_parent_apply: "set_parent s p par b = (if p = Some b then s b\<lparr>tn_parent := par\<rparr> else s b)"
  by (simp add: set_parent_def split: option.splits)

lemma set_parent_None [simp]: "set_parent s None par = s"
  by (simp add: set_parent_def)

lemma set_parent_fields [simp]:
  "tn_left (set_parent s p par b) = tn_left (s b)"
  "tn_right (set_parent s p par b) = tn_right (s b)"
  "tn_parent (set_parent s p par b) = (if p = Some b then par else tn_parent (s b))"
  by (simp_all add: set_parent_apply)

lemma reroot: "tree_at s par p u \<Longrightarrow> distinct (inorder u) \<Longrightarrow> tree_at (set_parent s p par') par' p u"
proof (cases u)
  case (Node l a r)
  assume a: "tree_at s par p u" "distinct (inorder u)"
  let ?s = "set_parent s p par'"
  have p: "p = Some a" using a(1) Node by simp
  have "tree_at ?s (Some a) (tn_left (s a)) l = tree_at s (Some a) (tn_left (s a)) l"
    "tree_at ?s (Some a) (tn_right (s a)) r = tree_at s (Some a) (tn_right (s a)) r"
    using a(2) Node p by (intro tree_at_cong; auto simp: set_parent_apply)+
  then show ?thesis using a(1) Node p by (simp add: set_parent_apply)
qed simp

lemma ctx_reroot:
  "ctx_at s tp rt c par p \<Longrightarrow> c \<noteq> [] \<Longrightarrow> ctx_distinct c \<Longrightarrow> ctx_at (set_parent s rt tp') tp' rt c par p"
proof (induction c arbitrary: par p)
  case (Cons x c)
  obtain b where b: "par = Some b" "b \<in> step_nodes x" "ctx_at s tp rt c (tn_parent (s b)) (Some b)" "b \<notin> ctx_nodes c"
    using Cons.prems(1,3) by (cases x) auto
  let ?s = "set_parent s rt tp'"
  show ?case
  proof (cases "c = []")
    case True
    then have rt: "rt = Some b" using b(3) by simp
    have "tree_at ?s q p' u = tree_at s q p' u" if "b \<notin> set_tree u" for q p' u
      using that rt by (intro tree_at_cong) (auto simp: set_parent_apply)
    then show ?thesis using Cons.prems True rt by (cases x) auto
  next
    case False
    obtain y where y: "rt = Some y" "y \<in> ctx_nodes c" using ctx_top [OF b(3) False] by blast
    have IH: "ctx_at ?s tp' rt c (tn_parent (s b)) (Some b)"
      using Cons.IH [OF b(3) False] Cons.prems(3) by (cases x) auto
    have "tree_at ?s q p' u = tree_at s q p' u" if "y \<notin> set_tree u" for q p' u
      using that y by (intro tree_at_cong) (auto simp: set_parent_apply)
    then show ?thesis using Cons.prems IH y b(1,4) by (cases x) auto
  qed
qed simp

section \<open>Removal\<close>

definition loose :: "'a tree_node" where
  "loose = \<lparr>tn_parent = None, tn_left = None, tn_right = None\<rparr>"

lemma unlink_correct:
  assumes at: "tree_at s None root (fill c (Node l a r))" and d: "distinct (inorder (fill c (Node l a r)))"
    and one: "l = Leaf \<or> r = Leaf" and res: "unlink s root a = (s', root')"
  shows "tree_at s' None root' (fill c (if l = Leaf then r else l)) \<and> s' a = loose \<and>
         (\<forall>b. b \<notin> set_tree (fill c (Node l a r)) \<longrightarrow> s' b = s b)"
proof -
  define u where "u = (if l = Leaf then r else l)"
  define q where "q = (if tn_left (s a) \<noteq> None then tn_left (s a) else tn_right (s a))"
  obtain par where c: "ctx_at s None root c par (Some a)" and na: "tn_parent (s a) = par"
    and l: "tree_at s (Some a) (tn_left (s a)) l" and r: "tree_at s (Some a) (tn_right (s a)) r"
    using at by (auto simp: fill_at)
  have dd: "ctx_distinct c" "a \<notin> ctx_nodes c" "distinct (inorder u)" "a \<notin> set_tree u" "ctx_nodes c \<inter> set_tree u = {}"
    using d unfolding distinct_fill by (auto simp: u_def)
  have u: "tree_at s (Some a) q u"
    using l r one tree_at_root [OF l] by (auto simp: u_def q_def)
  let ?s1 = "s(a := s a\<lparr>tn_left := None, tn_right := None\<rparr>)"
  let ?s2 = "update_parent_of ?s1 a q"
  let ?s3 = "set_parent ?s2 q par"
  have s': "s' = ?s3(a := ?s3 a\<lparr>tn_parent := None\<rparr>)" and root': "root' = (if root = Some a then q else root)"
    using res na by (auto simp: unlink_def Let_def q_def)
  have c1: "ctx_at ?s1 None root c par (Some a)"
    using c dd(2) by (subst ctx_at_cong [of c _ s]) auto
  have rootc: "root = Some a \<longleftrightarrow> c = []"
    using ctx_top [OF c] c dd(2) by (cases c) auto
  note rl = relink [OF c1 dd(1,2), where q = q]
  have c2: "ctx_at ?s2 None root' c par q"
    using rl(1) na root' rootc by auto
  have keep: "?s2 b = ?s1 b" if "b \<notin> ctx_nodes c" for b
    using rl(2) [OF _ _ that] na by simp
  have keepu: "?s2 b = s b" if "b \<in> set_tree u" for b
  proof -
    have "b \<notin> ctx_nodes c" "b \<noteq> a" using dd that by auto
    then show ?thesis using keep by simp
  qed
  have q: "q = Some b \<Longrightarrow> b \<in> set_tree u" for b
    using u tree_at_mem by fast
  have "tree_at ?s2 (Some a) q u"
    using u tree_at_cong [of u ?s2 s, OF keepu] by simp
  then have u3: "tree_at ?s3 par q u" using reroot dd(3) by blast
  have "tree_at s' par q u"
    using u3 dd(4) by (subst tree_at_cong [of u _ ?s3]) (auto simp: s')
  moreover have "ctx_at s' None root' c par q"
    using c2 dd q by (subst ctx_at_cong [of c _ ?s2]) (auto simp: s' set_parent_apply)
  ultimately have "tree_at s' None root' (fill c u)" unfolding fill_at by blast
  moreover have "s' a = loose"
    using q dd(2,4) keep [OF dd(2)] by (auto simp: s' set_parent_apply loose_def)
  moreover have "s' b = s b" if "b \<notin> set_tree (fill c (Node l a r))" for b
    using that q keep [of b] by (auto simp: s' set_parent_apply set_fill u_def split: if_splits)
  ultimately show ?thesis by (simp add: u_def)
qed

text \<open>The minimum of a right subtree, with the path that leads to it.\<close>

lemma ctx_before_left [simp]: "ctx_before (c @ [In_left a r]) = ctx_before c"
  by (induction c rule: ctx_before.induct) auto

lemma leftmost:
  "r \<noteq> Leaf \<Longrightarrow> \<exists>c m rr. r = fill c (Node Leaf m rr) \<and> ctx_before c = []"
proof (induction r)
  case (Node l a r)
  show ?case
  proof (cases "l = Leaf")
    case True
    then show ?thesis by (intro exI [of _ "[]"]) auto
  next
    case False
    then obtain c m rr where "l = fill c (Node Leaf m rr)" "ctx_before c = []" using Node.IH(1) by blast
    then have "Node l a r = fill (c @ [In_left a r]) (Node Leaf m rr)" "ctx_before (c @ [In_left a r]) = []"
      by (simp_all add: fill_append)
    then show ?thesis by blast
  qed
qed simp

lemma swap_correct:
  assumes at: "tree_at s None root (fill c (Node l a (fill e (Node Leaf m rr))))"
    and d: "distinct (inorder (fill c (Node l a (fill e (Node Leaf m rr)))))"
    and res: "swap_with_successor s root a m = (s', root')"
  shows "tree_at s' None root' (fill c (Node l m (fill e (Node Leaf a rr))))"
    and "b \<notin> set_tree (fill c (Node l a (fill e (Node Leaf m rr)))) \<Longrightarrow> s' b = s b"
proof -
  obtain par pl pr where c: "ctx_at s None root c par (Some a)" and na: "s a = \<lparr>tn_parent = par, tn_left = pl, tn_right = pr\<rparr>"
    and l: "tree_at s (Some a) pl l" and r: "tree_at s (Some a) pr (fill e (Node Leaf m rr))"
    using at unfolding fill_at [of s None root c] by (cases "s a") auto
  obtain pm pmr where e: "ctx_at s (Some a) pr e pm (Some m)" and nm: "s m = \<lparr>tn_parent = pm, tn_left = None, tn_right = pmr\<rparr>"
    and rr: "tree_at s (Some m) pmr rr"
    using r unfolding fill_at by (cases "s m") auto
  have dd: "ctx_distinct c" "ctx_distinct e" "distinct (inorder l)" "distinct (inorder rr)"
    "a \<noteq> m" "a \<notin> ctx_nodes c" "a \<notin> ctx_nodes e" "a \<notin> set_tree l" "a \<notin> set_tree rr"
    "m \<notin> ctx_nodes c" "m \<notin> ctx_nodes e" "m \<notin> set_tree l" "m \<notin> set_tree rr"
    "ctx_nodes c \<inter> ctx_nodes e = {}" "ctx_nodes c \<inter> set_tree l = {}" "ctx_nodes c \<inter> set_tree rr = {}"
    "ctx_nodes e \<inter> set_tree l = {}" "ctx_nodes e \<inter> set_tree rr = {}" "set_tree l \<inter> set_tree rr = {}"
    using d unfolding distinct_fill by (auto simp: distinct_fill set_fill)
  have roota: "root = Some a \<longleftrightarrow> c = []"
    using ctx_top [OF c] c dd(6) by (cases c) auto
  have root': "root' = (if c = [] then Some m else root)"
    using res roota by (auto simp: swap_with_successor_def Let_def)
  have pl: "pl = Some b \<Longrightarrow> b \<in> set_tree l" and pmr: "pmr = Some b \<Longrightarrow> b \<in> set_tree rr" for b
    using l rr tree_at_mem by fast+
  text \<open>The store \<open>t\<close> before the children get their new parents.\<close>
  define t where "t = (if e = [] then
        (update_parent_of s a (Some m))(m := \<lparr>tn_parent = par, tn_left = pl, tn_right = Some a\<rparr>,
           a := \<lparr>tn_parent = par, tn_left = None, tn_right = pmr\<rparr>)
      else (update_parent_of (update_parent_of s m (Some a)) a (Some m))
        (a := \<lparr>tn_parent = pm, tn_left = None, tn_right = pmr\<rparr>, m := \<lparr>tn_parent = par, tn_left = pl, tn_right = pr\<rparr>))"
  have corner: "Some m = pr \<longleftrightarrow> e = []"
    using e ctx_top [OF e] dd(11) by (cases e) auto
  have pre: "e \<noteq> [] \<Longrightarrow> \<exists>y \<in> ctx_nodes e. pr = Some y" using ctx_top [OF e] .
  let ?x = "if e = [] then Some a else pr"
  let ?s1 = "if e = [] then s else update_parent_of s m (Some a)"
  let ?s2 = "update_parent_of ?s1 a (Some m)"
  have e1: "ctx_at ?s1 (Some a) pr e pm (Some a)" if "e \<noteq> []"
    using relink(1) [OF e dd(2,11)] nm that by simp
  have k1: "?s1 b = s b" if "b \<notin> ctx_nodes e" for b
    using relink(2) [OF e dd(2,11) _ _ that] nm by (cases "e = []") simp_all
  have c1: "ctx_at ?s1 None root c par (Some a)"
    using c dd(14) k1 by (subst ctx_at_cong [of c ?s1 s]) (auto simp: disjoint_iff)
  have a1: "tn_parent (?s1 a) = par" using k1 [OF dd(7)] na by simp
  have c2: "ctx_at ?s2 None root' c par (Some m)"
    using relink(1) [OF c1 dd(1,6) a1] root' by simp
  have k2: "?s2 b = ?s1 b" if "b \<notin> ctx_nodes c" for b
    using relink(2) [OF c1 dd(1,6) a1 _ that] by simp
  have keep2: "?s2 a = s a" "?s2 m = s m"
    using k1 k2 dd(6,7,10,11) by simp_all
  have t: "ctx_at t None root' c par (Some m)" "e \<noteq> [] \<Longrightarrow> ctx_at t (Some a) pr e pm (Some a)"
    "b \<notin> ctx_nodes c \<Longrightarrow> b \<notin> ctx_nodes e \<Longrightarrow> b \<noteq> a \<Longrightarrow> b \<noteq> m \<Longrightarrow> t b = s b"
    "t m = \<lparr>tn_parent = par, tn_left = pl, tn_right = ?x\<rparr>"
    "t a = \<lparr>tn_parent = (if e = [] then par else pm), tn_left = None, tn_right = pmr\<rparr>" for b
  proof -
    have t2: "t b = ?s2 b" if "b \<noteq> a" "b \<noteq> m" for b
      using that by (simp add: t_def)
    show "ctx_at t None root' c par (Some m)"
    proof -
      have "t b = ?s2 b" if "b \<in> ctx_nodes c" for b
        using that dd(6,10) by (intro t2) auto
      then show ?thesis using c2 ctx_at_cong [of c t ?s2] by simp
    qed
    show "ctx_at t (Some a) pr e pm (Some a)" if ne: "e \<noteq> []"
    proof -
      have "t b = ?s1 b" if "b \<in> ctx_nodes e" for b
      proof -
        have "b \<notin> ctx_nodes c" "b \<noteq> a" "b \<noteq> m" using that dd by auto
        then show ?thesis using t2 k2 by simp
      qed
      then show ?thesis using e1 [OF ne] ctx_at_cong [of e t ?s1] by simp
    qed
    show "t b = s b" if "b \<notin> ctx_nodes c" "b \<notin> ctx_nodes e" "b \<noteq> a" "b \<noteq> m" for b
      using t2 k1 k2 that by simp
    show "t m = \<lparr>tn_parent = par, tn_left = pl, tn_right = ?x\<rparr>"
      "t a = \<lparr>tn_parent = (if e = [] then par else pm), tn_left = None, tn_right = pmr\<rparr>"
      using dd(5) by (simp_all add: t_def)
  qed
  let ?w1 = "set_parent t pmr (Some a)"
  let ?w2 = "set_parent ?w1 pl (Some m)"
  let ?w = "set_parent ?w2 ?x (Some m)"
  have w: "s' = ?w"
  proof -
    have sm: "successor = m \<Longrightarrow> (Some successor = tn_right (s a)) = (e = [])" for successor
      using corner na by simp
    have s3: "s' = reparent_child_nodes (reparent_child_nodes t a) m"
    proof (cases "e = []")
      case True
      then show ?thesis
        using res nm na dd(5) keep2 unfolding swap_with_successor_def sm [OF refl] by (simp add: Let_def t_def)
    next
      case False
      then show ?thesis
        using res nm na dd(5) keep2 unfolding swap_with_successor_def sm [OF refl]
        by (simp add: Let_def t_def)
    qed
    show ?thesis unfolding s3 by (simp add: reparent_child_nodes_def Let_def t(4,5))
  qed
  have x: "?x = Some b \<Longrightarrow> b = a \<and> e = [] \<or> b \<in> ctx_nodes e" for b
    using pre by (auto split: if_splits)
  have kw: "?w b = t b" if "b \<notin> set_tree l" "b \<notin> set_tree rr" "b \<notin> ctx_nodes e" "b \<noteq> a" for b
    using that pl pmr x by (auto simp: set_parent_apply)
  have wc: "ctx_at ?w None root' c par (Some m)"
  proof -
    have "?w b = t b" if "b \<in> ctx_nodes c" for b
      using that dd by (intro kw) (auto simp: disjoint_iff)
    then show ?thesis using t(1) ctx_at_cong [of c ?w t] by simp
  qed
  have dl: "b \<notin> ctx_nodes c \<and> b \<notin> ctx_nodes e \<and> b \<noteq> a \<and> b \<noteq> m \<and> b \<notin> set_tree rr" if "b \<in> set_tree l" for b
    using that dd by blast
  have dr: "b \<notin> ctx_nodes c \<and> b \<notin> ctx_nodes e \<and> b \<noteq> a \<and> b \<noteq> m \<and> b \<notin> set_tree l" if "b \<in> set_tree rr" for b
    using that dd by blast
  have w12: "?w1 b = t b" if "b \<notin> set_tree rr" for b
    using that pmr by (auto simp: set_parent_apply)
  have w23: "?w2 b = ?w1 b" if "b \<notin> set_tree l" for b
    using that pl by (auto simp: set_parent_apply)
  have w3: "?w b = ?w2 b" if "b \<notin> ctx_nodes e" "b \<noteq> a" for b
    using that x by (auto simp: set_parent_apply)
  have wl: "tree_at ?w (Some m) pl l"
  proof -
    have "tree_at ?w1 (Some a) pl l"
    proof (rule tree_at_cong [THEN iffD2, OF _ l])
      show "?w1 b = s b" if "b \<in> set_tree l" for b
        using w12 t(3) dl [OF that] by simp
    qed
    then have "tree_at ?w2 (Some m) pl l" using reroot dd(3) by blast
    then show ?thesis by (rule tree_at_cong [THEN iffD2, rotated]) (use w3 dl in blast)
  qed
  have wr: "tree_at ?w (Some a) pmr rr"
  proof -
    have "tree_at t (Some m) pmr rr"
    proof (rule tree_at_cong [THEN iffD2, OF _ rr])
      show "t b = s b" if "b \<in> set_tree rr" for b
        using t(3) dr [OF that] by simp
    qed
    then have "tree_at ?w1 (Some a) pmr rr" using reroot dd(4) by blast
    then show ?thesis
    proof (rule tree_at_cong [THEN iffD2, rotated])
      show "?w b = ?w1 b" if "b \<in> set_tree rr" for b
        using w3 [of b] w23 [of b] dr [OF that] by simp
    qed
  qed
  have wm: "?w m = \<lparr>tn_parent = par, tn_left = pl, tn_right = ?x\<rparr>"
    using kw [OF dd(12,13,11)] dd(5) t(4) by simp
  have wa: "tn_left (?w a) = None \<and> tn_right (?w a) = pmr \<and> tn_parent (?w a) = (if e = [] then Some m else pm)"
    using t(5) pl pmr dd x by (auto simp: disjoint_iff)
  have "tree_at ?w (Some m) ?x (fill e (Node Leaf a rr))"
  proof (cases "e = []")
    case True
    then show ?thesis using wa wr by simp
  next
    case False
    have "ctx_at ?w2 (Some a) pr e pm (Some a)"
    proof (rule ctx_at_cong [THEN iffD2, OF _ t(2) [OF False]])
      show "?w2 b = t b" if "b \<in> ctx_nodes e" for b
      proof -
        have "b \<notin> set_tree l" "b \<notin> set_tree rr" using that dd(17,18) by blast+
        then show ?thesis using w12 w23 by simp
      qed
    qed
    then have "ctx_at ?w (Some m) pr e pm (Some a)"
      using ctx_reroot [OF _ False dd(2)] False by simp
    then show ?thesis using wa wr False by (auto simp: fill_at)
  qed
  then show "tree_at s' None root' (fill c (Node l m (fill e (Node Leaf a rr))))"
    using wc wm wl unfolding w fill_at [of _ None root' c] by auto
  show "s' b = s b" if "b \<notin> set_tree (fill c (Node l a (fill e (Node Leaf m rr))))"
  proof -
    have "b \<notin> ctx_nodes c" "b \<notin> set_tree l" "b \<noteq> a" "b \<noteq> m" "b \<notin> ctx_nodes e" "b \<notin> set_tree rr"
      using that by (auto simp: set_fill)
    then show ?thesis unfolding w by (intro trans [OF kw t(3)])
  qed
qed

text \<open>The list of the nodes loses the node that is removed; its fields are reset.\<close>

lemma remove_node_correct:
  assumes at: "tree_at s None root t" and d: "distinct (inorder t)" and a: "a \<in> set_tree t"
  shows "\<exists>s' root' t'. remove_node s root a = Some (s', root') \<and> tree_at s' None root' t' \<and>
           inorder t' = remove1 a (inorder t) \<and> s' a = loose \<and> (\<forall>b. b \<notin> set_tree t \<longrightarrow> s' b = s b)"
proof -
  obtain c l r where t: "t = fill c (Node l a r)" using fill_exists [OF a] by blast
  have na: "a \<notin> set (ctx_before c)" "a \<notin> set_tree l"
    using d t by (auto simp: inorder_fill)
  obtain par where f: "tree_at s (Some a) (tn_left (s a)) l" "tree_at s (Some a) (tn_right (s a)) r"
    using at unfolding t fill_at by auto
  have leaf: "tn_left (s a) = None \<longleftrightarrow> l = Leaf" "tn_right (s a) = None \<longleftrightarrow> r = Leaf"
    using tree_at_root f by auto
  show ?thesis
  proof (cases "l = Leaf \<or> r = Leaf")
    case True
    obtain s' root' where u: "unlink s root a = (s', root')" by (cases "unlink s root a")
    have "remove_node s root a = Some (s', root')"
      using True leaf u by (subst remove_node.simps) auto
    moreover note unlink_correct [OF at [unfolded t] d [unfolded t] True u]
    moreover have "inorder (fill c (if l = Leaf then r else l)) = remove1 a (inorder t)"
      using na True by (auto simp: t inorder_fill remove1_append)
    ultimately show ?thesis using t by blast
  next
    case False
    then obtain e m rr where r: "r = fill e (Node Leaf m rr)" "ctx_before e = []" using leftmost by blast
    have io: "inorder t = (ctx_before c @ inorder l) @ a # m # inorder rr @ ctx_after e @ ctx_after c"
      by (simp add: t r inorder_fill)
    have succ: "successor_node s (Some a) = Some (Some m)"
      by (rule successor_in [OF at d io])
    obtain s1 root1 where sw: "swap_with_successor s root a m = (s1, root1)"
      by (cases "swap_with_successor s root a m")
    note sc = swap_correct [OF at [unfolded t r(1)] d [unfolded t r(1)] sw]
    let ?c = "e @ In_right l m # c"
    have t1: "tree_at s1 None root1 (fill ?c (Node Leaf a rr))" using sc(1) by (simp add: fill_append)
    have "mset (inorder (fill ?c (Node Leaf a rr))) = mset (inorder t)"
      unfolding io by (simp add: fill_append inorder_fill r(2))
    then have d1: "distinct (inorder (fill ?c (Node Leaf a rr)))"
      using d mset_eq_imp_distinct_iff by blast
    have s1: "set_tree (fill ?c (Node Leaf a rr)) = set_tree t"
      by (auto simp: t r(1) set_fill)
    obtain s' root' where u: "unlink s1 root1 a = (s', root')" by (cases "unlink s1 root1 a")
    have "tn_left (s1 a) = None"
      using t1 unfolding fill_at by auto
    then have "remove_node s1 root1 a = Some (s', root')"
      using u by (subst remove_node.simps) auto
    then have "remove_node s root a = Some (s', root')"
      using False leaf succ sw by (subst remove_node.simps) simp
    moreover note unlink_correct [OF t1 d1 _ u]
    moreover have "inorder (fill ?c rr) = remove1 a (inorder t)"
      using na unfolding io by (simp add: fill_append inorder_fill r(2) remove1_append)
    ultimately show ?thesis using sc(2) s1 t r(1) by fastforce
  qed
qed

text \<open>Removing a node that is no longer in the tree changes nothing.\<close>

lemma remove_loose: "s a = loose \<Longrightarrow> root \<noteq> Some a \<Longrightarrow> remove_node s root a = Some (s, root)"
  by (subst remove_node.simps) (simp add: unlink_def loose_def update_parent_of_def set_parent_def fun_upd_idem)

section \<open>The container that the tree implements\<close>

text \<open>A container of nodes in the order of their keys. \<open>holds st xs\<close> says that the container \<open>st\<close> holds the
  nodes \<open>xs\<close>, in this order.\<close>

locale sorted_nodes =
  fixes key :: "'a \<Rightarrow> 'k::linorder"
    and holds :: "'st \<Rightarrow> 'a list \<Rightarrow> bool"
    and put :: "'st \<Rightarrow> 'a \<Rightarrow> 'st option"
    and del :: "'st \<Rightarrow> 'a \<Rightarrow> 'st option"
    and first_match :: "('a \<Rightarrow> bool) \<Rightarrow> 'st \<Rightarrow> 'a option option"
  assumes holds_sorted: "holds st xs \<Longrightarrow> sorted (map key xs) \<and> distinct xs"
    and put_holds: "holds st xs \<Longrightarrow> x \<notin> set xs \<Longrightarrow>
      \<exists>st'. put st x = Some st' \<and> holds st' (ins_list (\<lambda>a b. key a < key b) x xs)"
    and del_holds: "holds st xs \<Longrightarrow> x \<in> set xs \<Longrightarrow> \<exists>st'. del st x = Some st' \<and> holds st' (remove1 x xs)"
    and del_absent: "holds st xs \<Longrightarrow> x \<notin> set xs \<Longrightarrow> del st x = Some st"
    and first_match_find: "holds st xs \<Longrightarrow> first_match P st = Some (List.find P xs)"
begin

lemma set_ins_list: "set (ins_list cmp x xs) = insert x (set xs)"
  by (induction xs) auto

lemma remove_ins_list: "x \<notin> set xs \<Longrightarrow> remove1 x (ins_list cmp x xs) = xs"
  by (induction xs) auto

lemma put_del:
  assumes "holds st xs" "x \<notin> set xs"
  shows "\<exists>st' st''. put st x = Some st' \<and> del st' x = Some st'' \<and> holds st'' xs"
proof -
  obtain st' where "put st x = Some st'" "holds st' (ins_list (\<lambda>a b. key a < key b) x xs)"
    using put_holds [OF assms] by blast
  then show ?thesis using del_holds [of st' _ x] remove_ins_list [OF assms(2)] by (fastforce simp: set_ins_list)
qed

lemma del_twice:
  assumes "holds st xs" "x \<in> set xs"
  shows "\<exists>st'. del st x = Some st' \<and> del st' x = Some st' \<and> holds st' (remove1 x xs)"
proof -
  obtain st' where st': "del st x = Some st'" "holds st' (remove1 x xs)" using del_holds [OF assms] by blast
  moreover have "x \<notin> set (remove1 x xs)" using holds_sorted [OF assms(1)] by simp
  ultimately show ?thesis using del_absent by blast
qed

lemma first_match_none: "holds st xs \<Longrightarrow> first_match P st = Some None \<longleftrightarrow> (\<forall>x \<in> set xs. \<not> P x)"
  by (auto simp: first_match_find find_None_iff)

lemma first_match_some: "holds st xs \<Longrightarrow> first_match P st = Some (Some x) \<Longrightarrow> x \<in> set xs \<and> P x"
  by (auto simp: first_match_find find_Some_iff)

end

type_synonym 'a node_tree = "'a nstore \<times> 'a option"

definition tree_put :: "('a \<Rightarrow> 'k::linorder) \<Rightarrow> 'a node_tree \<Rightarrow> 'a \<Rightarrow> 'a node_tree option" where
  "tree_put key t x = do_insert (\<lambda>a b. key a < key b) (fst t) (snd t) x"

definition tree_del :: "'a node_tree \<Rightarrow> 'a \<Rightarrow> 'a node_tree option" where
  "tree_del t x = remove_node (fst t) (snd t) x"

definition tree_find :: "('a \<Rightarrow> bool) \<Rightarrow> 'a node_tree \<Rightarrow> 'a option option" where
  "tree_find P t = tree_find_if P (fst t) (snd t)"

text \<open>A well-formed tree; the nodes outside it are reset.\<close>

definition tree_holds :: "('a \<Rightarrow> 'k::linorder) \<Rightarrow> 'a node_tree \<Rightarrow> 'a list \<Rightarrow> bool" where
  "tree_holds key st xs \<longleftrightarrow> sorted (map key xs) \<and> distinct xs \<and> (\<forall>b. b \<notin> set xs \<longrightarrow> fst st b = loose) \<and>
     (\<exists>t. tree_at (fst st) None (snd st) t \<and> inorder t = xs)"

lemma tree_holdsE:
  assumes "tree_holds key st xs"
  obtains t where "tree_at (fst st) None (snd st) t" "inorder t = xs" "set_tree t = set xs" "distinct (inorder t)"
    "sorted (map key xs)" "\<And>b. b \<notin> set xs \<Longrightarrow> fst st b = loose"
  using assms unfolding tree_holds_def by (metis set_inorder)

lemma sorted_down_closed: "sorted (map key xs) \<Longrightarrow> down_closed (\<lambda>a. \<not> key x < key a) xs"
  unfolding down_closed_def sorted_wrt_map by (rule sorted_wrt_mono_rel) auto

lemma sorted_ins_list: "sorted (map key xs) \<Longrightarrow> sorted (map key (ins_list (\<lambda>a b. key a < key b) x xs))"
proof (induction xs)
  case (Cons a xs)
  have "set (ins_list (\<lambda>a b. key a < key b) x xs) = insert x (set xs)" by (induction xs) auto
  then show ?case using Cons by auto
qed simp

lemma distinct_ins_list: "distinct xs \<Longrightarrow> x \<notin> set xs \<Longrightarrow> distinct (ins_list cmp x xs)"
proof (induction xs)
  case (Cons a xs)
  have "set (ins_list cmp x xs) = insert x (set xs)" by (induction xs) auto
  then show ?case using Cons by auto
qed simp

lemma do_insert_frame:
  assumes "tree_at s None root t" "distinct (inorder t)" "x \<notin> set_tree t" "s x = loose"
    and "do_insert cmp s root x = Some (s', root')" "b \<notin> set_tree t" "b \<noteq> x"
  shows "s' b = s b"
  using insert_walk_correct [of s None root t root Root_slot x cmp] assms
  by (cases t) (auto simp: do_insert_def Let_def loose_def split: if_splits)

lemma tree_holds_put:
  assumes "tree_holds key st xs" "x \<notin> set xs"
  shows "\<exists>st'. tree_put key st x = Some st' \<and> tree_holds key st' (ins_list (\<lambda>a b. key a < key b) x xs)"
proof -
  let ?cmp = "\<lambda>a b. key a < key b"
  obtain t where t: "tree_at (fst st) None (snd st) t" "inorder t = xs" "set_tree t = set xs" "distinct (inorder t)"
    "sorted (map key xs)" "\<And>b. b \<notin> set xs \<Longrightarrow> fst st b = loose"
    using tree_holdsE [OF assms(1)] by blast
  obtain s' root' where r: "do_insert ?cmp (fst st) (snd st) x = Some (s', root')" "tree_at s' None root' (leaf_insert ?cmp x t)"
    using do_insert_correct [OF t(1,4), of x ?cmp] t(3,6) assms(2) unfolding loose_def by blast
  have io: "inorder (leaf_insert ?cmp x t) = ins_list ?cmp x xs"
    using inorder_leaf_insert [of ?cmp x t] sorted_down_closed [OF t(5)] t(2) by simp
  have st: "set (ins_list ?cmp x xs) = insert x (set xs)"
    using io set_leaf_insert [of ?cmp x t] t(3) by (metis set_inorder)
  have "s' b = loose" if "b \<notin> set (ins_list ?cmp x xs)" for b
    using do_insert_frame [OF t(1,4) _ _ r(1), of b] that t(3,6) assms(2) st by auto
  then show ?thesis
    using r io sorted_ins_list [OF t(5)] distinct_ins_list [of xs x] t(2,4) assms(2)
    unfolding tree_put_def tree_holds_def by auto
qed

lemma tree_holds_del:
  assumes "tree_holds key st xs" "x \<in> set xs"
  shows "\<exists>st'. tree_del st x = Some st' \<and> tree_holds key st' (remove1 x xs)"
proof -
  obtain t where t: "tree_at (fst st) None (snd st) t" "inorder t = xs" "set_tree t = set xs" "distinct (inorder t)"
    "sorted (map key xs)" "\<And>b. b \<notin> set xs \<Longrightarrow> fst st b = loose"
    using tree_holdsE [OF assms(1)] by blast
  obtain s' root' t' where r: "remove_node (fst st) (snd st) x = Some (s', root')" "tree_at s' None root' t'"
    "inorder t' = remove1 x xs" "s' x = loose" "\<forall>b. b \<notin> set_tree t \<longrightarrow> s' b = fst st b"
    using remove_node_correct [OF t(1,4), of x] assms(2) unfolding t(2,3) by blast
  have d: "distinct xs" using t(2,4) by simp
  have "s' b = loose" if "b \<notin> set (remove1 x xs)" for b
    using that r(4,5) t(3,6) d by (cases "b = x") auto
  then have "tree_holds key (s', root') (remove1 x xs)"
    using sorted_map_remove1 [OF t(5), of x] d r(2,3) by (auto simp: tree_holds_def)
  then show ?thesis using r(1) by (simp add: tree_del_def)
qed

interpretation node_tree: sorted_nodes key "tree_holds key" "tree_put key" tree_del tree_find
  for key :: "'a \<Rightarrow> 'k::linorder"
proof
  fix st :: "'a node_tree" and xs x P
  show "tree_holds key st xs \<Longrightarrow> sorted (map key xs) \<and> distinct xs" by (simp add: tree_holds_def)
  show "\<exists>st'. tree_put key st x = Some st' \<and> tree_holds key st' (ins_list (\<lambda>a b. key a < key b) x xs)"
    if "tree_holds key st xs" "x \<notin> set xs" using tree_holds_put [OF that] .
  show "\<exists>st'. tree_del st x = Some st' \<and> tree_holds key st' (remove1 x xs)"
    if "tree_holds key st xs" "x \<in> set xs" using tree_holds_del [OF that] .
  show "tree_del st x = Some st" if h: "tree_holds key st xs" "x \<notin> set xs"
  proof -
    obtain t where t: "tree_at (fst st) None (snd st) t" "set_tree t = set xs" "fst st x = loose"
      using tree_holdsE [OF h(1)] h(2) by metis
    then have "snd st \<noteq> Some x" using tree_at_mem h(2) by metis
    then show ?thesis using remove_loose [of "fst st" x "snd st"] t(3) by (simp add: tree_del_def)
  qed
  show "tree_find P st = Some (List.find P xs)" if "tree_holds key st xs"
    using tree_holdsE [OF that] tree_find_if_correct unfolding tree_find_def by metis
qed

section \<open>What the tree promises\<close>

definition demo_tree :: "nat nstore" where
  "demo_tree = (\<lambda>_. loose)(5 := \<lparr>tn_parent = None, tn_left = Some 3, tn_right = Some 8\<rparr>,
     3 := loose\<lparr>tn_parent := Some 5\<rparr>, 8 := loose\<lparr>tn_parent := Some 5\<rparr>)"

lemma demo_tree_holds: "tree_holds (\<lambda>n. n) (demo_tree, Some 5) [3, 5, 8]"
  by (auto simp: tree_holds_def demo_tree_def loose_def
      intro!: exI [of _ "Node (Node Leaf 3 Leaf) 5 (Node Leaf 8 Leaf)"])

text \<open>C7: \<open>insert\<close> returns, puts the node behind all nodes whose key is not greater, and keeps the order.\<close>

theorem tree_insert_keeps_order:
  assumes "tree_holds key (s, root) xs" "x \<notin> set xs"
  shows "\<exists>s' root'. do_insert (\<lambda>a b. key a < key b) s root x = Some (s', root') \<and>
           tree_holds key (s', root') (takeWhile (\<lambda>a. key a \<le> key x) xs @ x # dropWhile (\<lambda>a. key a \<le> key x) xs)"
proof -
  have "ins_list (\<lambda>a b. key a < key b) x ys = takeWhile (\<lambda>a. key a \<le> key x) ys @ x # dropWhile (\<lambda>a. key a \<le> key x) ys" for ys
    by (induction ys) (auto simp: not_le)
  then show ?thesis using tree_holds_put [OF assms] by (auto simp: tree_put_def)
qed

theorem tree_insert_keeps_order_witness:
  "\<exists>s' root'. do_insert (\<lambda>a b. a < b) demo_tree (Some 5) 4 = Some (s', root') \<and>
     tree_holds (\<lambda>n. n) (s', root') [3, 4, 5, 8]"
  using tree_insert_keeps_order [OF demo_tree_holds, of 4] by simp

text \<open>C8: \<open>remove\<close> returns, takes out exactly the given node, keeps the order of the others, and resets the
  node, so that removing it a second time (as \<open>do_unmap_memory\<close> does) changes nothing.\<close>

theorem tree_remove_exact:
  assumes "tree_holds key (s, root) xs" "x \<in> set xs"
  shows "\<exists>s' root'. remove_node s root x = Some (s', root') \<and> tree_holds key (s', root') (remove1 x xs) \<and>
           remove_node s' root' x = Some (s', root')"
  using node_tree.del_twice [OF assms] by (auto simp: tree_del_def)

theorem tree_remove_exact_witness:
  "\<exists>s' root'. remove_node demo_tree (Some 5) 5 = Some (s', root') \<and> tree_holds (\<lambda>n. n) (s', root') [3, 8]"
  using tree_remove_exact [OF demo_tree_holds, of 5] by auto

text \<open>\<open>lower_bound\<close> and \<open>upper_bound\<close> return the first node that is not less than the key, and the first that
  is greater.\<close>

theorem tree_bounds:
  assumes "tree_holds key (s, root) xs"
  shows "lower_bound (\<lambda>a. key a < k) s root = Some (List.find (\<lambda>a. k \<le> key a) xs) \<and>
         upper_bound (\<lambda>a. k < key a) s root = Some (List.find (\<lambda>a. k < key a) xs)"
proof -
  obtain t where t: "tree_at s None root t" "inorder t = xs" "sorted (map key xs)"
    using tree_holdsE [OF assms] unfolding fst_conv snd_conv by blast
  have "down_closed (\<lambda>a. key a < k) xs" "down_closed (\<lambda>a. \<not> k < key a) xs"
    using t(3) unfolding down_closed_def sorted_wrt_map by (auto elim!: sorted_wrt_mono_rel [rotated])
  then show ?thesis
    using lower_walk_correct [OF t(1), of "\<lambda>a. key a < k" None] upper_walk_correct [OF t(1), of "\<lambda>a. k < key a" None] t(2)
    by (auto simp: lower_bound_def upper_bound_def not_less split: option.splits)
qed

theorem tree_bounds_witness:
  "lower_bound (\<lambda>a. a < 5) demo_tree (Some 5) = Some (Some 5) \<and> upper_bound (\<lambda>a. 5 < a) demo_tree (Some 5) = Some (Some 8)"
  using tree_bounds [OF demo_tree_holds, of 5] by simp

end
