(* ===== verification/MemTypes.thy ===== *)
theory MemTypes
  imports Prelude
begin

text \<open>
  The memory vocabulary of \<open>attos/mem.h\<close>: memory types as bit sets, virtual addresses and their four table
  indices, the identity map of physical memory, page table flags, and the overlap test of two areas.
\<close>

section \<open>The code\<close>

definition identity_map_start :: u64 where "identity_map_start = 0xFFFFFFFF00000000"
definition identity_map_length :: u64 where "identity_map_length = push_bit 30 1"

definition mt_read :: u32 where "mt_read = 0x0001"
definition mt_write :: u32 where "mt_write = 0x0002"
definition mt_execute :: u32 where "mt_execute = 0x0004"
definition mt_user :: u32 where "mt_user = 0x0008"
definition mt_cache_disable :: u32 where "mt_cache_disable = 0x0010"
definition mt_ps_2mb :: u32 where "mt_ps_2mb = 0x1000"
definition mt_ps_1gb :: u32 where "mt_ps_1gb = 0x2000"

definition memory_type_rw :: u32 where "memory_type_rw = mt_read OR mt_write"
definition memory_type_rx :: u32 where "memory_type_rx = mt_read OR mt_execute"
definition memory_type_rwx :: u32 where "memory_type_rwx = mt_read OR mt_write OR mt_execute"

text \<open>The test \<open>static_cast<uint32_t>(type & flag)\<close>.\<close>

definition mt_has :: "u32 \<Rightarrow> u32 \<Rightarrow> bool" where
  "mt_has type flag \<longleftrightarrow> type AND flag \<noteq> 0"

definition memory_type_page_size :: "u32 \<Rightarrow> u64" where
  "memory_type_page_size type =
     (if mt_has type mt_ps_1gb then push_bit 30 1 else if mt_has type mt_ps_2mb then push_bit 20 2 else push_bit 12 1)"

text \<open>\<open>operator<<\<close> for memory types.\<close>

definition print_memory_type :: "u32 \<Rightarrow> string" where
  "print_memory_type type =
     (if mt_has type mt_read then ''R'' else []) @
     (if mt_has type mt_write then ''W'' else []) @
     (if mt_has type mt_execute then ''X'' else []) @
     (if mt_has type mt_user then ''U'' else []) @
     (if mt_has type mt_cache_disable then ''C'' else []) @
     (if mt_has type mt_ps_2mb then ''2'' else []) @
     (if mt_has type mt_ps_1gb then ''1'' else [])"

definition table_mask :: u64 where "table_mask = 0x1FF"

definition pml4e :: "u64 \<Rightarrow> u64" where "pml4e addr = drop_bit 39 addr AND table_mask"
definition pdpe :: "u64 \<Rightarrow> u64" where "pdpe addr = drop_bit 30 addr AND table_mask"
definition pde :: "u64 \<Rightarrow> u64" where "pde addr = drop_bit 21 addr AND table_mask"
definition pte :: "u64 \<Rightarrow> u64" where "pte addr = drop_bit 12 addr AND table_mask"

definition from_identity_mapped_ptr :: "u64 \<Rightarrow> u64" where
  "from_identity_mapped_ptr p = p - identity_map_start"

definition to_identity_mapped_ptr :: "u64 \<Rightarrow> u64" where
  "to_identity_mapped_ptr addr = addr + identity_map_start"

definition memory_areas_overlap :: "u64 \<Rightarrow> u64 \<Rightarrow> u64 \<Rightarrow> u64 \<Rightarrow> bool" where
  "memory_areas_overlap start1 len1 start2 len2 \<longleftrightarrow>
     sint (min (start1 + len1) (start2 + len2) - max start1 start2) > 0"

definition PAGEF_PRESENT :: u64 where "PAGEF_PRESENT = 0x0001"
definition PAGEF_WRITE :: u64 where "PAGEF_WRITE = 0x0002"
definition PAGEF_USER :: u64 where "PAGEF_USER = 0x0004"
definition PAGEF_PWT :: u64 where "PAGEF_PWT = 0x0008"
definition PAGEF_PCD :: u64 where "PAGEF_PCD = 0x0010"
definition PAGEF_ACCESSED :: u64 where "PAGEF_ACCESSED = 0x0020"
definition PAGEF_DIRTY :: u64 where "PAGEF_DIRTY = 0x0040"
definition PAGEF_PAGESIZE :: u64 where "PAGEF_PAGESIZE = 0x0080"
definition PAGEF_NX :: u64 where "PAGEF_NX = push_bit 63 1"

lemmas pagef_defs = PAGEF_PRESENT_def PAGEF_WRITE_def PAGEF_USER_def PAGEF_PWT_def PAGEF_PCD_def
  PAGEF_ACCESSED_def PAGEF_DIRTY_def PAGEF_PAGESIZE_def PAGEF_NX_def

section \<open>Areas\<close>

lemma sint_diff_pos:
  "0 < sint (e - b :: u64) \<longleftrightarrow>
     (if b \<le> e then 0 < unat e - unat b \<and> unat e - unat b < 9223372036854775808
      else unat b - unat e > 9223372036854775808)"
proof (cases "b \<le> e")
  case True
  define n where "n = unat e - unat b"
  have n: "unat (e - b) = n" using True by (simp add: n_def u64_sub)
  have "n < 18446744073709551616" using u64_range [of e] by (simp add: n_def)
  then show ?thesis using True unfolding sint_u64 n n_def [symmetric] by auto
next
  case False
  then have lt: "unat e < unat b" by (simp add: word_le_nat_alt)
  have n: "unat (e - b) = 18446744073709551616 - (unat b - unat e)"
    using lt by (simp add: unat_sub_if')
  define n where "n = unat b - unat e"
  have "0 < n" "n < 18446744073709551616" using lt u64_range [of b] by (simp_all add: n_def)
  then show ?thesis using False unfolding sint_u64 n n_def [symmetric] by auto
qed

text \<open>for areas shorter than 2^63 bytes that do not wrap, \<open>memory_areas_overlap\<close> is the overlap of the two
  intervals, except that areas more than 2^63 bytes apart are also reported as overlapping, since the sign
  of a 64-bit difference is read.\<close>

theorem memory_areas_overlap_exact:
  assumes "unat s1 + unat l1 < 18446744073709551616" "unat s2 + unat l2 < 18446744073709551616"
    and "unat l1 < 9223372036854775808" "unat l2 < 9223372036854775808"
  shows "memory_areas_overlap s1 l1 s2 l2 \<longleftrightarrow>
           {unat s1 ..< unat s1 + unat l1} \<inter> {unat s2 ..< unat s2 + unat l2} \<noteq> {} \<or>
           unat s1 + unat l1 + 9223372036854775808 < unat s2 \<or> unat s2 + unat l2 + 9223372036854775808 < unat s1"
proof -
  have e: "unat (s1 + l1) = unat s1 + unat l1" "unat (s2 + l2) = unat s2 + unat l2"
    using assms(1,2) by (simp_all add: u64_add)
  have m: "unat (min x y) = min (unat x) (unat y)" "unat (max x y) = max (unat x) (unat y)" for x y :: u64
    by (auto simp: min_def max_def word_le_nat_alt)
  have ov: "{a ..< b} \<inter> {c ..< d} \<noteq> {} \<longleftrightarrow> max a c < min b (d::nat)" for a b c d
    by (auto simp: disjoint_iff not_le intro: exI [of _ "max a c"])
  show ?thesis
    unfolding memory_areas_overlap_def sint_diff_pos ov word_le_nat_alt m e
    using assms(3,4) by (auto simp: min_def max_def)
qed

theorem memory_areas_overlap_exact_witness:
  "memory_areas_overlap 10 20 29 1 \<and> \<not> memory_areas_overlap 10 20 30 5 \<and>
   memory_areas_overlap 0 4096 identity_map_start 4096"
  using memory_areas_overlap_exact [of 10 20 29 1] memory_areas_overlap_exact [of 10 20 30 5]
    memory_areas_overlap_exact [of 0 4096 identity_map_start 4096]
  by (simp add: identity_map_start_def)

end
