(* ===== verification/PageTables.thy ===== *)
theory PageTables
  imports SimpleHeap IntrusiveTree MemTypes
begin

text \<open>
  The memory manager of \<open>kernel/mm.cpp\<close>: physical pages from the heap \<open>physical_pages_\<close>, the tree of
  mappings, and the four levels of page tables, which are read and written in the memory the page heap manages.
\<close>

section \<open>The code: physical memory\<close>

type_synonym phys = "mem \<times> simple_heap"

definition page_size :: u64 where "page_size = 4096"

text \<open>\<open>__stosq\<close>: \<open>count\<close> quadwords from \<open>p\<close> on.\<close>

fun stosq :: "nat \<Rightarrow> mem \<Rightarrow> u64 \<Rightarrow> u64 \<Rightarrow> mem" where
  "stosq 0 m p v = m"
| "stosq (Suc n) m p v = stosq n (m(p := v)) (p + 8) v"

record physical_allocation =
  pa_addr :: u64
  pa_length :: u64

definition alloc_physical :: "phys \<Rightarrow> u64 \<Rightarrow> (physical_allocation \<times> phys) res" where
  "alloc_physical s size0 =
     (let sz = round_up size0 page_size in
      andThen (simple_heap_alloc (fst s) (snd s) sz) (\<lambda>(ptr, m1, h1).
        Inr (\<lparr>pa_addr = from_identity_mapped_ptr ptr, pa_length = sz\<rparr>, stosq (unat (sz div 8)) m1 ptr 0, h1)))"

definition free_physical :: "phys \<Rightarrow> u64 \<Rightarrow> u64 \<Rightarrow> phys res" where
  "free_physical s addr len = simple_heap_free (fst s) (snd s) (to_identity_mapped_ptr addr) len"

definition physical_allocation_destroy :: "phys \<Rightarrow> physical_allocation \<Rightarrow> phys res" where
  "physical_allocation_destroy s pa =
     (if pa_length pa \<noteq> 0 then free_physical s (pa_addr pa) (pa_length pa) else Inr s)"

definition physical_allocation_assign ::
  "physical_allocation \<Rightarrow> physical_allocation \<Rightarrow> (physical_allocation \<times> physical_allocation) res" where
  "physical_allocation_assign this other =
     require (pa_length this = 0) ''length_ == 0'' (Inr (other, other\<lparr>pa_length := 0\<rparr>))"

definition physical_allocation_release :: "physical_allocation \<Rightarrow> (u64 \<times> physical_allocation) res" where
  "physical_allocation_release pa =
     require (pa_length pa = page_size) ''length_ == memory_manager::page_size'' (
       Inr (pa_addr pa, pa\<lparr>pa_length := 0\<rparr>))"

definition free_physical_page :: "phys \<Rightarrow> u64 \<Rightarrow> phys res" where
  "free_physical_page s addr =
     require (addr AND (page_size - 1) = 0) ''!(addr & (memory_manager::page_size-1))'' (free_physical s addr page_size)"

section \<open>The code: tables\<close>

definition table_entry :: "u64 \<Rightarrow> u64" where
  "table_entry table_value = to_identity_mapped_ptr (table_value AND NOT (PAGEF_NX OR (page_size - 1)))"

definition present_table_entry :: "u64 \<Rightarrow> u64 res" where
  "present_table_entry table_value =
     require (table_value AND PAGEF_PRESENT \<noteq> 0) ''table_value & PAGEF_PRESENT'' (Inr (table_entry table_value))"

definition table_size :: nat where "table_size = 512"

text \<open>The address of \<open>table[index]\<close>.\<close>

definition slot_of :: "u64 \<Rightarrow> u64 \<Rightarrow> u64" where
  "slot_of table index = table + 8 * index"

definition alloc_table :: "phys \<Rightarrow> (u64 \<times> phys) res" where
  "alloc_table s =
     andThen (alloc_physical s page_size) (\<lambda>(pa, s1).
       andThen (physical_allocation_release pa) (\<lambda>(addr, _). Inr (to_identity_mapped_ptr addr, s1)))"

definition free_table :: "phys \<Rightarrow> u64 \<Rightarrow> phys res" where
  "free_table s table = free_physical_page s (from_identity_mapped_ptr table)"

definition alloc_table_entry :: "phys \<Rightarrow> u64 \<Rightarrow> u64 \<Rightarrow> (u64 \<times> phys) res" where
  "alloc_table_entry s parent flags =
     andThen (alloc_table s) (\<lambda>(table, s1).
       Inr (table, (fst s1)(parent := from_identity_mapped_ptr table OR flags), snd s1))"

definition check_mask :: u64 where
  "check_mask = (PAGEF_NX OR 0xFFF) AND NOT (PAGEF_ACCESSED OR PAGEF_DIRTY)"

definition alloc_if_not_present :: "phys \<Rightarrow> u64 \<Rightarrow> u64 \<Rightarrow> (u64 \<times> phys) res" where
  "alloc_if_not_present s parent flags =
     (if fst s parent AND PAGEF_PRESENT \<noteq> 0 then
        (if fst s parent AND check_mask \<noteq> flags AND check_mask then Inl (Fatal ''Page flags incompatible'')
         else Inr (table_entry (fst s parent), s))
      else alloc_table_entry s parent flags)"

text \<open>The flags of \<open>do_map_memory\<close>.\<close>

definition table_flags :: "u32 \<Rightarrow> u64" where
  "table_flags type = PAGEF_PRESENT OR (if mt_has type mt_user then PAGEF_USER else 0)"

definition page_flags :: "u32 \<Rightarrow> u64" where
  "page_flags type = table_flags type
     OR (if mt_has type mt_write then PAGEF_WRITE else 0)
     OR (if mt_has type mt_execute then 0 else PAGEF_NX)
     OR (if mt_has type mt_cache_disable then PAGEF_PWT OR PAGEF_PCD else 0)"

text \<open>One round of the loop of \<open>do_map_memory\<close>, and the loop.\<close>

definition map_page :: "u64 \<Rightarrow> u32 \<Rightarrow> phys \<Rightarrow> u64 \<Rightarrow> u64 \<Rightarrow> phys res" where
  "map_page pml4 type s virt addr =
     andThen (alloc_if_not_present s (slot_of pml4 (pml4e virt)) (table_flags type OR PAGEF_WRITE)) (\<lambda>(pdp, s1).
     if mt_has type mt_ps_1gb then
       Inr ((fst s1)(slot_of pdp (pdpe virt) := addr OR PAGEF_PAGESIZE OR page_flags type), snd s1)
     else
       andThen (alloc_if_not_present s1 (slot_of pdp (pdpe virt)) (table_flags type OR PAGEF_WRITE)) (\<lambda>(pd, s2).
       if mt_has type mt_ps_2mb then
         Inr ((fst s2)(slot_of pd (pde virt) := addr OR PAGEF_PAGESIZE OR page_flags type), snd s2)
       else
         andThen (alloc_if_not_present s2 (slot_of pd (pde virt)) (table_flags type OR PAGEF_WRITE)) (\<lambda>(pt, s3).
           Inr ((fst s3)(slot_of pt (pte virt) := addr OR page_flags type), snd s3))))"

fun map_pages :: "nat \<Rightarrow> u64 \<Rightarrow> u32 \<Rightarrow> phys \<Rightarrow> u64 \<Rightarrow> u64 \<Rightarrow> u64 \<Rightarrow> phys res" where
  "map_pages 0 pml4 type s virt len addr = (if len = 0 then Inr s else Inl No_return)"
| "map_pages (Suc n) pml4 type s virt len addr =
     (if len = 0 then Inr s
      else andThen (map_page pml4 type s virt addr) (\<lambda>s1.
             map_pages n pml4 type s1 (virt + memory_type_page_size type) (len - memory_type_page_size type)
               (addr + memory_type_page_size type)))"

definition unmap_page :: "u64 \<Rightarrow> u32 \<Rightarrow> mem \<Rightarrow> u64 \<Rightarrow> mem res" where
  "unmap_page pml4 type m virt =
     andThen (present_table_entry (m (slot_of pml4 (pml4e virt)))) (\<lambda>pdp.
     if mt_has type mt_ps_1gb then Inr (m(slot_of pdp (pdpe virt) := 0))
     else
       andThen (present_table_entry (m (slot_of pdp (pdpe virt)))) (\<lambda>pd.
       if mt_has type mt_ps_2mb then Inr (m(slot_of pd (pde virt) := 0))
       else
         andThen (present_table_entry (m (slot_of pd (pde virt)))) (\<lambda>pt. Inr (m(slot_of pt (pte virt) := 0)))))"

fun unmap_pages :: "nat \<Rightarrow> u64 \<Rightarrow> u32 \<Rightarrow> mem \<Rightarrow> u64 \<Rightarrow> u64 \<Rightarrow> mem res" where
  "unmap_pages 0 pml4 type m virt len = (if len = 0 then Inr m else Inl No_return)"
| "unmap_pages (Suc n) pml4 type m virt len =
     (if len = 0 then Inr m
      else andThen (unmap_page pml4 type m virt) (\<lambda>m1.
             unmap_pages n pml4 type m1 (virt + memory_type_page_size type) (len - memory_type_page_size type)))"

definition virt_to_phys :: "mem \<Rightarrow> u64 \<Rightarrow> u64 \<Rightarrow> u64 res" where
  "virt_to_phys m pml4 virt =
     (let v4 = m (slot_of (table_entry pml4) (pml4e virt)) in
      require (v4 AND PAGEF_PRESENT \<noteq> 0) ''pml4e & PAGEF_PRESENT'' (
      let v3 = m (slot_of (table_entry v4) (pdpe virt)) in
      require (v3 AND PAGEF_PRESENT \<noteq> 0) ''pdpe & PAGEF_PRESENT'' (
      if v3 AND PAGEF_PAGESIZE \<noteq> 0 then
        let page_mask = push_bit 30 1 - 1 in Inr ((v3 AND NOT (PAGEF_NX OR page_mask)) OR (virt AND page_mask))
      else
      let v2 = m (slot_of (table_entry v3) (pde virt)) in
      require (v2 AND PAGEF_PRESENT \<noteq> 0) ''pde & PAGEF_PRESENT'' (
      if v2 AND PAGEF_PAGESIZE \<noteq> 0 then
        let page_mask = push_bit 20 2 - 1 in Inr ((v2 AND NOT (PAGEF_NX OR page_mask)) OR (virt AND page_mask))
      else
      let v1 = m (slot_of (table_entry v2) (pte virt)) in
      require (v1 AND PAGEF_PRESENT \<noteq> 0) ''pte & PAGEF_PRESENT'' (
        Inr ((v1 AND NOT (PAGEF_NX OR (page_size - 1))) OR (virt AND (page_size - 1))))))))"

section \<open>The code: mappings\<close>

record no_free_heap =
  nf_end :: u64
  nf_cur :: u64

definition no_free_heap_new :: "u64 \<Rightarrow> u64 \<Rightarrow> u64 \<Rightarrow> no_free_heap res" where
  "no_free_heap_new alignment base len =
     require (base AND (alignment - 1) = 0) ''!((uint64_t)base & (Alignment-1))'' (
     require (len \<ge> alignment) ''length >= Alignment'' (
       Inr \<lparr>nf_end = base + len, nf_cur = base\<rparr>))"

definition no_free_heap_alloc :: "u64 \<Rightarrow> no_free_heap \<Rightarrow> u64 \<Rightarrow> (u64 \<times> no_free_heap) res" where
  "no_free_heap_alloc alignment h size0 =
     (let sz = round_up size0 alignment in
      require (nf_cur h + sz \<le> nf_end h) ''cur_ + size <= end_'' (
        Inr (nf_cur h, h\<lparr>nf_cur := nf_cur h + sz\<rparr>)))"

record memory_mapping =
  mp_addr :: u64
  mp_length :: u64
  mp_type :: u32

text \<open>\<open>sizeof\<close> and \<open>alignof\<close> of the class \<open>memory_mapping\<close>: an address, a length, a type and a tree node.\<close>

definition sizeof_memory_mapping :: u64 where "sizeof_memory_mapping = 48"
definition alignof_memory_mapping :: u64 where "alignof_memory_mapping = 8"

definition memory_mapping_new :: "u64 \<Rightarrow> u64 \<Rightarrow> u32 \<Rightarrow> memory_mapping res" where
  "memory_mapping_new addr len type =
     require (len \<noteq> 0) ''length != 0'' (Inr \<lparr>mp_addr = addr, mp_length = len, mp_type = type\<rparr>)"

definition new_mapping_zero :: memory_mapping where
  "new_mapping_zero = \<lparr>mp_addr = 0, mp_length = 0, mp_type = 0\<rparr>"

record memory_manager =
  mm_heap :: no_free_heap
  mm_objs :: "u64 \<Rightarrow> memory_mapping"
  mm_tree :: "u64 node_tree"
  mm_pml4 :: u64
  mm_free_virt :: u64
  mm_mappings_phys :: physical_allocation

definition map_alloc_virt :: u64 where "map_alloc_virt = - 1"
definition map_alloc_virt_close_to_kernel :: u64 where "map_alloc_virt_close_to_kernel = - 2"

text \<open>A loop over the tree that does not end.\<close>

definition returned :: "'a option \<Rightarrow> 'a res" where
  "returned r = (case r of None \<Rightarrow> Inl No_return | Some x \<Rightarrow> Inr x)"

definition find_mapping :: "memory_manager \<Rightarrow> u64 \<Rightarrow> u64 \<Rightarrow> u64 option res" where
  "find_mapping s addr len =
     returned (tree_find (\<lambda>p. memory_areas_overlap addr len (mp_addr (mm_objs s p)) (mp_length (mm_objs s p))) (mm_tree s))"

text \<open>\<open>memory_mappings_.construct(virt, length, type)\<close>; the new node is reset (\<open>link_()\<close>).\<close>

definition construct_mapping :: "memory_manager \<Rightarrow> u64 \<Rightarrow> u64 \<Rightarrow> u32 \<Rightarrow> (u64 \<times> memory_manager) res" where
  "construct_mapping s virt len type =
     andThen (no_free_heap_alloc alignof_memory_mapping (mm_heap s) sizeof_memory_mapping) (\<lambda>(p, h1).
       andThen (memory_mapping_new virt len type) (\<lambda>mapping.
         Inr (p, s\<lparr>mm_heap := h1, mm_objs := (mm_objs s)(p := mapping),
                   mm_tree := ((fst (mm_tree s))(p := loose), snd (mm_tree s))\<rparr>)))"

definition insert_mapping :: "memory_manager \<Rightarrow> u64 \<Rightarrow> memory_manager res" where
  "insert_mapping s p =
     andThen (returned (tree_put (\<lambda>q. mp_addr (mm_objs s q)) (mm_tree s) p)) (\<lambda>t. Inr (s\<lparr>mm_tree := t\<rparr>))"

definition remove_mapping :: "memory_manager \<Rightarrow> u64 \<Rightarrow> memory_manager res" where
  "remove_mapping s p = andThen (returned (tree_del (mm_tree s) p)) (\<lambda>t. Inr (s\<lparr>mm_tree := t\<rparr>))"

definition virtual_alloc :: "memory_manager \<Rightarrow> u64 \<Rightarrow> (u64 \<times> memory_manager) res" where
  "virtual_alloc s len =
     require (len AND (page_size - 1) = 0) ''(length & (page_size-1)) == 0'' (
       let addr = mm_free_virt s; s1 = s\<lparr>mm_free_virt := mm_free_virt s + len\<rparr> in
       require (mm_free_virt s1 \<ge> addr) ''free_virt_base_ >= addr'' (Inr (addr, s1)))"

text \<open>The checks of \<open>do_map_memory\<close> and the choice of the virtual address.\<close>

definition map_request :: "memory_manager \<Rightarrow> u64 \<Rightarrow> u64 \<Rightarrow> u32 \<Rightarrow> u64 \<Rightarrow> (u64 \<times> memory_manager) res" where
  "map_request s virt0 len type addr =
     (let map_page_size = memory_type_page_size type in
      require (len > 0) ''length > 0'' (
      require (len AND (map_page_size - 1) = 0) ''(length & (map_page_size - 1)) == 0'' (
      require (addr AND (map_page_size - 1) = 0) ''(phys & (map_page_size - 1)) == 0'' (
      require (addr < push_bit 32 1) ''phys < 1ULL<<32'' (
      andThen (if virt0 = map_alloc_virt then virtual_alloc s len
               else if virt0 = map_alloc_virt_close_to_kernel then virtual_alloc s len
               else Inr (virt0, s)) (\<lambda>(virt, s1).
      require (virt AND (map_page_size - 1) = 0) ''(virt & (map_page_size - 1)) == 0'' (
      require (virt + len > virt) ''No wraparound allowed'' (
      andThen (find_mapping s1 virt len) (\<lambda>it.
      require (it = None) ''overlaps'' (
      require (mt_has type mt_read) ''type & memory_type::read'' (
        Inr (virt, s1))))))))))))"

definition do_map_memory :: "phys \<times> memory_manager \<Rightarrow> u64 \<Rightarrow> u64 \<Rightarrow> u32 \<Rightarrow> u64 \<Rightarrow> (u64 \<times> phys \<times> memory_manager) res" where
  "do_map_memory st virt0 len type addr =
     andThen (map_request (snd st) virt0 len type addr) (\<lambda>(virt, s1).
     andThen (construct_mapping s1 virt len type) (\<lambda>(p, s2).
     andThen (insert_mapping s2 p) (\<lambda>s3.
     andThen (map_pages (unat len div unat (memory_type_page_size type)) (mm_pml4 s3) type (fst st) virt len addr) (\<lambda>ph1.
       Inr (virt, ph1, s3)))))"

definition do_unmap_memory :: "phys \<times> memory_manager \<Rightarrow> u64 \<Rightarrow> u64 \<Rightarrow> (phys \<times> memory_manager) res" where
  "do_unmap_memory st virt len =
     (let s = snd st in
      andThen (find_mapping s virt len) (\<lambda>it.
      require (it \<noteq> None) ''it != memory_map_tree_.end()'' (
      let p = the it; type = mp_type (mm_objs s p) in
      require (mp_length (mm_objs s p) = len) ''it->length() == length'' (
      andThen (remove_mapping s p) (\<lambda>s1.
      andThen (unmap_pages (unat len div unat (memory_type_page_size type)) (mm_pml4 s1) type (fst (fst st)) virt len) (\<lambda>m1.
      andThen (remove_mapping s1 p) (\<lambda>s2.
        Inr ((m1, snd (fst st)), s2))))))))"

text \<open>The constructor and the destructor of \<open>memory_manager_base\<close>.\<close>

definition memory_manager_new :: "phys \<Rightarrow> u64 \<Rightarrow> (phys \<times> memory_manager) res" where
  "memory_manager_new ph free_virt_base =
     andThen (alloc_physical ph page_size) (\<lambda>(mp, ph1).
     andThen (no_free_heap_new alignof_memory_mapping (to_identity_mapped_ptr (pa_addr mp)) (pa_length mp)) (\<lambda>nf.
     andThen (alloc_table ph1) (\<lambda>(pml4, ph2).
       Inr (ph2, \<lparr>mm_heap = nf, mm_objs = (\<lambda>_. new_mapping_zero), mm_tree = (\<lambda>_. loose, None), mm_pml4 = pml4,
                  mm_free_virt = free_virt_base, mm_mappings_phys = mp\<rparr>))))"

definition free_level2 :: "u64 \<Rightarrow> nat \<Rightarrow> phys \<Rightarrow> phys res" where
  "free_level2 pdt l2 ph =
     (let e = fst ph (slot_of pdt (of_nat l2)) in
      if e AND PAGEF_PRESENT = 0 \<or> e AND PAGEF_PAGESIZE \<noteq> 0 then Inr ph else free_table ph (table_entry e))"

definition free_level3 :: "u64 \<Rightarrow> nat \<Rightarrow> phys \<Rightarrow> phys res" where
  "free_level3 pdpt l3 ph =
     (let e = fst ph (slot_of pdpt (of_nat l3)) in
      if e AND PAGEF_PRESENT = 0 \<or> e AND PAGEF_PAGESIZE \<noteq> 0 then Inr ph
      else andThen (for_range 0 table_size (free_level2 (table_entry e)) ph) (\<lambda>ph1. free_table ph1 (table_entry e)))"

definition free_level4 :: "u64 \<Rightarrow> nat \<Rightarrow> phys \<Rightarrow> phys res" where
  "free_level4 pml4 l4 ph =
     (let e = fst ph (slot_of pml4 (of_nat l4)) in
      if e AND PAGEF_PRESENT = 0 then Inr ph
      else andThen (for_range 0 table_size (free_level3 (table_entry e)) ph) (\<lambda>ph1. free_table ph1 (table_entry e)))"

definition memory_manager_destroy :: "phys \<Rightarrow> memory_manager \<Rightarrow> phys res" where
  "memory_manager_destroy ph s =
     andThen (for_range 0 table_size (free_level4 (mm_pml4 s)) ph) (\<lambda>ph1.
     andThen (free_table ph1 (mm_pml4 s)) (\<lambda>ph2. physical_allocation_destroy ph2 (mm_mappings_phys s)))"

section \<open>The code: the kernel's manager and those of the processes\<close>

definition kernel_map_start :: u64 where "kernel_map_start = 0xFFFFFFFFFF000000"
definition kernel_pml4 :: u64 where "kernel_pml4 = 0x1ff"
definition initial_heap_size :: u64 where "initial_heap_size = push_bit 20 1"

text \<open>\<open>km_phys\<close> is the memory with the page heap; the kernel heap behind \<open>kalloc\<close> lies in the same memory.\<close>

record kernel_memory_manager =
  km_phys :: phys
  km_heap_phys :: physical_allocation
  km_heap :: simple_heap
  km_mm :: memory_manager
  km_saved_cr3 :: u64

definition kernel_memory_manager_new :: "mem \<Rightarrow> u64 \<Rightarrow> u64 \<Rightarrow> u64 \<Rightarrow> kernel_memory_manager res" where
  "kernel_memory_manager_new m cr3 base len =
     andThen (simple_heap_new m (to_identity_mapped_ptr base) len) (\<lambda>ph.
     andThen (alloc_physical ph initial_heap_size) (\<lambda>(hp, ph1).
     andThen (simple_heap_new (fst ph1) (to_identity_mapped_ptr (pa_addr hp)) (pa_length hp)) (\<lambda>(m2, heap).
     andThen (memory_manager_new (m2, snd ph1) (kernel_map_start - push_bit 30 1)) (\<lambda>(ph3, mm).
       Inr \<lparr>km_phys = ph3, km_heap_phys = hp, km_heap = heap, km_mm = mm, km_saved_cr3 = cr3\<rparr>))))"

definition kernel_alloc :: "kernel_memory_manager \<Rightarrow> u64 \<Rightarrow> (u64 \<times> kernel_memory_manager) res" where
  "kernel_alloc k n =
     andThen (default_heap_alloc (fst (km_phys k)) (km_heap k) n) (\<lambda>(p, m1, h1).
       Inr (p, k\<lparr>km_phys := (m1, snd (km_phys k)), km_heap := h1\<rparr>))"

definition kernel_free :: "kernel_memory_manager \<Rightarrow> u64 \<Rightarrow> kernel_memory_manager res" where
  "kernel_free k p =
     andThen (default_heap_free (fst (km_phys k)) (km_heap k) p) (\<lambda>(m1, h1).
       Inr (k\<lparr>km_phys := (m1, snd (km_phys k)), km_heap := h1\<rparr>))"

definition kernel_do_map_memory ::
  "kernel_memory_manager \<Rightarrow> u64 \<Rightarrow> u64 \<Rightarrow> u32 \<Rightarrow> u64 \<Rightarrow> (u64 \<times> kernel_memory_manager) res" where
  "kernel_do_map_memory k virt len type addr =
     require (pml4e virt = kernel_pml4) ''virt.pml4e() == kernel_pml4'' (
       andThen (do_map_memory (km_phys k, km_mm k) virt len type addr) (\<lambda>(v, ph1, mm1).
         Inr (v, k\<lparr>km_phys := ph1, km_mm := mm1\<rparr>)))"

definition kernel_do_unmap_memory :: "kernel_memory_manager \<Rightarrow> u64 \<Rightarrow> u64 \<Rightarrow> kernel_memory_manager res" where
  "kernel_do_unmap_memory k virt len =
     andThen (do_unmap_memory (km_phys k, km_mm k) virt len) (\<lambda>(ph1, mm1). Inr (k\<lparr>km_phys := ph1, km_mm := mm1\<rparr>))"

definition iomem_map :: "kernel_memory_manager \<Rightarrow> u64 \<Rightarrow> u64 \<Rightarrow> (u64 \<times> kernel_memory_manager) res" where
  "iomem_map k base len =
     require (base AND (page_size - 1) = 0) ''(base & (memory_manager::page_size-1)) == 0'' (
       kernel_do_map_memory k map_alloc_virt len (memory_type_rw OR mt_cache_disable) base)"

definition iomem_unmap :: "kernel_memory_manager \<Rightarrow> u64 \<Rightarrow> u64 \<Rightarrow> kernel_memory_manager res" where
  "iomem_unmap k virt len = kernel_do_unmap_memory k virt len"

text \<open>\<open>default_memory_manager\<close>: an address space for a process, born with the kernel's slot of the top table.\<close>

definition default_memory_manager_new :: "phys \<Rightarrow> memory_manager \<Rightarrow> (phys \<times> memory_manager) res" where
  "default_memory_manager_new ph kmm =
     andThen (memory_manager_new ph (push_bit 20 1)) (\<lambda>(ph1, s).
       Inr (((fst ph1)(slot_of (mm_pml4 s) kernel_pml4 := fst ph1 (slot_of (mm_pml4 kmm) kernel_pml4)), snd ph1), s))"

definition default_memory_manager_destroy :: "phys \<Rightarrow> memory_manager \<Rightarrow> memory_manager \<Rightarrow> phys res" where
  "default_memory_manager_destroy ph kmm s =
     require (fst ph (slot_of (mm_pml4 s) kernel_pml4) = fst ph (slot_of (mm_pml4 kmm) kernel_pml4)) ''kernel_pml4 changed'' (
       memory_manager_destroy ((fst ph)(slot_of (mm_pml4 s) kernel_pml4 := 0), snd ph) s)"

definition default_do_map_memory ::
  "phys \<times> memory_manager \<Rightarrow> u64 \<Rightarrow> u64 \<Rightarrow> u32 \<Rightarrow> u64 \<Rightarrow> (u64 \<times> phys \<times> memory_manager) res" where
  "default_do_map_memory st virt len type addr =
     (if virt \<noteq> map_alloc_virt then
        require (pml4e virt \<noteq> kernel_pml4) ''virt.pml4e() != kernel_pml4'' (
        require (pml4e virt < 0x100) ''virt.pml4e() < 0x100'' (
          do_map_memory st virt len type addr))
      else do_map_memory st virt len type addr)"

section \<open>Pages\<close>

text \<open>A page is an address that is a multiple of 4096.\<close>

definition is_page :: "u64 \<Rightarrow> bool" where
  "is_page t \<longleftrightarrow> 4096 dvd unat t"

lemma page_room: "is_page t \<Longrightarrow> unat t + 4096 \<le> 18446744073709551616"
proof -
  assume "is_page t"
  then obtain k where k: "unat t = 4096 * k" by (auto simp: is_page_def dvd_def)
  then have "k < 4503599627370496" using u64_range [of t] by simp
  then show ?thesis using k by simp
qed

lemma page_mask: "is_page t \<longleftrightarrow> t AND 0xFFF = 0"
proof -
  have m: "(0xFFF :: u64) = mask 12" by (simp add: mask_eq_exp_minus_1)
  have "t AND 0xFFF = take_bit 12 t" unfolding m by (simp add: take_bit_eq_mask)
  then show ?thesis
    by (simp add: is_page_def word_unat_eq_iff take_bit_eq_mod dvd_eq_mod_eq_0 unat_mod)
qed

lemma slot_unat:
  assumes "is_page t" "i < 512"
  shows "unat (slot_of t i) = unat t + 8 * unat i"
proof -
  have i: "unat i < 512" using assms(2) by (simp add: word_less_nat_alt)
  then have "unat (8 * i) = 8 * unat i" using unat_mult_lem [of 8 i] by simp
  then show ?thesis using page_room [OF assms(1)] i by (simp add: slot_of_def u64_add)
qed

lemma slot_range: "is_page t \<Longrightarrow> i < 512 \<Longrightarrow> unat (slot_of t i) \<in> block_range (unat t, 4096)"
  using slot_unat [of t i] by (simp add: block_range_def word_less_nat_alt)

lemma slot_inj:
  assumes "is_page t" "is_page u" "i < 512" "j < 512"
  shows "slot_of t i = slot_of u j \<longleftrightarrow> t = u \<and> i = j"
proof
  assume eq: "slot_of t i = slot_of u j"
  have i: "unat i < 512" "unat j < 512" using assms(3,4) by (simp_all add: word_less_nat_alt)
  have s: "unat t + 8 * unat i = unat u + 8 * unat j"
    using eq slot_unat [OF assms(1,3)] slot_unat [OF assms(2,4)] by metis
  have "(unat t + 8 * unat i) div 4096 = unat t div 4096" "(unat u + 8 * unat j) div 4096 = unat u div 4096"
    using assms(1,2) i by (auto simp: is_page_def div_plus_div_distrib_dvd_left)
  then have "unat t = unat u"
    using s assms(1,2) by (metis is_page_def dvd_div_mult_self)
  then show "t = u \<and> i = j" using s by (simp add: word_unat_eq_iff)
qed simp

lemma stosq_apply:
  "unat p + 8 * n \<le> 18446744073709551616 \<Longrightarrow>
   stosq n m p v w = (if unat p \<le> unat w \<and> unat w < unat p + 8 * n \<and> 8 dvd unat w - unat p then v else m w)"
proof (induction n arbitrary: m p)
  case (Suc n)
  have p8: "unat (p + 8) = unat p + 8 \<or> n = 0" using Suc.prems by (auto simp: u64_add)
  have here: "8 dvd unat w - unat p \<and> unat p \<le> unat w \<longleftrightarrow> w = p" if "unat w < unat p + 8"
  proof
    assume a: "8 dvd unat w - unat p \<and> unat p \<le> unat w"
    then obtain k where "unat w - unat p = 8 * k" by (auto elim: dvdE)
    moreover have "unat w - unat p < 8" using that by linarith
    ultimately have "unat w - unat p = 0" by simp
    then have "unat w = unat p" using a by linarith
    then show "w = p" by (simp add: word_unat_eq_iff)
  qed auto
  show ?case
  proof (cases "n = 0")
    case True
    then show ?thesis using here by auto
  next
    case False
    then have u: "unat (p + 8) = unat p + 8" using p8 by simp
    have "stosq (Suc n) m p v w = stosq n (m(p := v)) (p + 8) v w" by simp
    also have "\<dots> = (if unat p + 8 \<le> unat w \<and> unat w < unat p + 8 + 8 * n \<and> 8 dvd unat w - (unat p + 8) then v else (m(p := v)) w)"
      using Suc.IH [of "p + 8" "m(p := v)", unfolded u] Suc.prems by (simp del: fun_upd_apply)
    also have "\<dots> = (if unat p \<le> unat w \<and> unat w < unat p + 8 * Suc n \<and> 8 dvd unat w - unat p then v else m w)"
    proof (cases "unat w < unat p + 8")
      case True
      then show ?thesis using here by auto
    next
      case False
      then have "unat w - unat p = unat w - (unat p + 8) + 8" by simp
      then have "8 dvd unat w - unat p \<longleftrightarrow> 8 dvd unat w - (unat p + 8)" by (simp only: dvd_add_left_iff dvd_refl)
      then show ?thesis using False by (auto simp: word_unat_eq_iff)
    qed
    finally show ?thesis .
  qed
qed auto

section \<open>Pages from the heap\<close>

definition page_blocks :: "block list \<Rightarrow> bool" where
  "page_blocks bs \<longleftrightarrow> (\<forall>b \<in> set bs. 4096 dvd fst b \<and> 4096 dvd snd b)"

lemma take_fit_pages:
  "take_fit n bs = Some (a, bs') \<Longrightarrow> page_blocks bs \<Longrightarrow> 4096 dvd n \<Longrightarrow> 4096 dvd a \<and> page_blocks bs'"
proof (induction n bs arbitrary: a bs' rule: take_fit.induct)
  case (2 n c k bs)
  show ?case
  proof (cases "k < n")
    case True
    then obtain bs2 where "take_fit n bs = Some (a, bs2)" "bs' = (c, k) # bs2"
      using "2.prems"(1) by (auto split: option.splits)
    then show ?thesis using "2.IH" [OF True] "2.prems" by (auto simp: page_blocks_def)
  next
    case False
    then show ?thesis using "2.prems" by (auto simp: page_blocks_def dvd_diff_nat split: if_splits)
  qed
qed simp

text \<open>The pages \<open>A\<close> are allocated, each as a block of its own; the heap lies in the identity map.\<close>

definition frames :: "phys \<Rightarrow> u64 set \<Rightarrow> bool" where
  "frames s A \<longleftrightarrow> (\<exists>bs L. heap_owns (fst s) (snd s) bs L \<and> page_blocks bs \<and> identity_map_start \<le> hbase (snd s) \<and>
     (\<forall>t \<in> A. (unat t, 4096) \<in> L \<and> is_page t))"

lemma framesE:
  assumes "frames s A"
  obtains bs L where "heap_owns (fst s) (snd s) bs L" "page_blocks bs" "identity_map_start \<le> hbase (snd s)"
    "\<And>t. t \<in> A \<Longrightarrow> (unat t, 4096) \<in> L" "\<And>t. t \<in> A \<Longrightarrow> is_page t"
  using assms unfolding frames_def by blast

lemma frames_page: "frames s A \<Longrightarrow> t \<in> A \<Longrightarrow> is_page t"
  by (auto simp: frames_def)

lemma frames_high: "frames s A \<Longrightarrow> t \<in> A \<Longrightarrow> identity_map_start \<le> t"
proof -
  assume a: "frames s A" "t \<in> A"
  obtain bs L where f: "heap_owns (fst s) (snd s) bs L" "identity_map_start \<le> hbase (snd s)" "(unat t, 4096) \<in> L"
    using framesE [OF a(1)] a(2) by metis
  have "unat (hbase (snd s)) \<le> unat t" using f(1,3) by (auto simp: heap_owns_def shares_def block_ok_def)
  then show ?thesis using f(2) by (simp add: word_le_nat_alt)
qed

lemma frames_write:
  assumes "frames s A" "t \<in> A" "i < 512"
  shows "frames ((fst s)(slot_of t i := v), snd s) A"
proof -
  obtain bs L where f: "heap_owns (fst s) (snd s) bs L" "page_blocks bs" "identity_map_start \<le> hbase (snd s)"
    "\<And>t. t \<in> A \<Longrightarrow> (unat t, 4096) \<in> L" "\<And>t. t \<in> A \<Longrightarrow> is_page t"
    using framesE [OF assms(1)] by metis
  have "unat (slot_of t i) \<in> live_range L"
    using slot_range [OF f(5) [OF assms(2)] assms(3)] f(4) [OF assms(2)] by (auto simp: live_range_def)
  then have "heap_owns ((fst s)(slot_of t i := v)) (snd s) bs L"
    by (intro heap_owns_client [OF f(1)]) auto
  then show ?thesis using f(2-5) unfolding frames_def by auto
qed

lemma alloc_table_fault: "frames s A \<Longrightarrow> alloc_table s = Inl e \<Longrightarrow> e = Fatal ''Could not satisfy allocation request''"
proof -
  assume a: "frames s A" "alloc_table s = Inl e"
  obtain bs L where own: "heap_owns (fst s) (snd s) bs L" using framesE [OF a(1)] by metis
  have r: "round_up page_size page_size = 4096" by (simp add: page_size_def)
  show ?thesis
  proof (cases "take_fit 4096 bs")
    case None
    then have "simple_heap_alloc (fst s) (snd s) 4096 = Inl (Fatal ''Could not satisfy allocation request'')"
      using simple_heap_alloc_None [of "fst s" "snd s" bs 4096] own by (simp add: heap_owns_def)
    then show ?thesis using a(2) r by (simp add: alloc_table_def alloc_physical_def)
  next
    case (Some x)
    obtain c bs' where x: "x = (c, bs')" by (cases x)
    obtain p m' h' where "simple_heap_alloc (fst s) (snd s) 4096 = Inr (p, m', h')"
      using heap_owns_alloc [OF own, of 4096 c bs'] Some x by auto
    then have False
      using a(2) r by (simp add: alloc_table_def alloc_physical_def physical_allocation_release_def page_size_def)
    then show ?thesis ..
  qed
qed

lemma alloc_table_frames:
  assumes fr: "frames s A" and al: "alloc_table s = Inr (t, s')"
  shows "t \<notin> A" "frames s' (insert t A)" "\<And>i. i < 512 \<Longrightarrow> fst s' (slot_of t i) = 0"
    "\<And>a i. a \<in> A \<Longrightarrow> i < 512 \<Longrightarrow> fst s' (slot_of a i) = fst s (slot_of a i)"
proof -
  obtain bs L where f: "heap_owns (fst s) (snd s) bs L" "page_blocks bs" "identity_map_start \<le> hbase (snd s)"
    "\<And>t. t \<in> A \<Longrightarrow> (unat t, 4096) \<in> L" "\<And>t. t \<in> A \<Longrightarrow> is_page t"
    using framesE [OF fr] by metis
  have r: "round_up page_size page_size = 4096" by (simp add: page_size_def)
  obtain p m1 h1 where sa: "simple_heap_alloc (fst s) (snd s) 4096 = Inr (p, m1, h1)"
    using al r by (auto simp: alloc_table_def alloc_physical_def res_simps)
  have ts: "t = p" "s' = (stosq 512 m1 p 0, h1)"
    using al sa r by (auto simp: alloc_table_def alloc_physical_def physical_allocation_release_def page_size_def
        to_identity_mapped_ptr_def from_identity_mapped_ptr_def)
  obtain c bs' where tf: "take_fit 4096 bs = Some (c, bs')"
    using simple_heap_alloc_None [of "fst s" "snd s" bs 4096] f(1) sa
    by (cases "take_fit 4096 bs") (auto simp: heap_owns_def)
  have own1: "unat p = c" "heap_owns m1 h1 bs' (insert (c, 4096) L)" "hbase h1 = hbase (snd s)"
    "\<forall>w. unat w \<in> live_range L \<longrightarrow> m1 w = fst s w"
    using heap_owns_alloc [OF f(1), of 4096 c bs'] tf sa by auto
  have pg: "4096 dvd c" "page_blocks bs'" using take_fit_pages [OF tf f(2)] by auto
  then have tp: "is_page t" using own1(1) ts by (simp add: is_page_def)
  have sh: "shares (unat (hbase (snd s))) (unat (hend (snd s))) bs L" using f(1) by (simp add: heap_owns_def)
  have dj: "block_range (c, 4096) \<inter> live_range L = {}"
    using shares_alloc(2) [OF sh, of 4096 c bs'] tf sh by (auto simp: shares_def)
  have in_L: "unat (slot_of a i) \<in> live_range L" if "a \<in> A" "i < 512" for a i
    using slot_range [OF f(5) [OF that(1)] that(2)] f(4) [OF that(1)] by (auto simp: live_range_def)
  have st: "stosq 512 m1 p 0 w = (if unat p \<le> unat w \<and> unat w < unat p + 4096 \<and> 8 dvd unat w - unat p then 0 else m1 w)" for w
    using stosq_apply [of p 512 m1 0 w] page_room [OF tp] ts by simp
  show nt: "t \<notin> A"
  proof
    assume "t \<in> A"
    then have "unat (slot_of t 0) \<in> live_range L" "unat (slot_of t 0) \<in> block_range (c, 4096)"
      using in_L [of t 0] slot_range [OF tp, of 0] own1(1) ts by auto
    then show False using dj by blast
  qed
  have "heap_owns (stosq 512 m1 p 0) h1 bs' (insert (c, 4096) L)"
  proof (rule heap_owns_client [OF own1(2)])
    fix w :: u64
    assume "unat w \<notin> live_range (insert (c, 4096) L)"
    then show "stosq 512 m1 p 0 w = m1 w" using own1(1) by (auto simp: st block_range_def)
  qed
  then show "frames s' (insert t A)"
    using pg(2) own1(1,3) f(3,4,5) tp ts unfolding frames_def by fastforce
  show "fst s' (slot_of t i) = 0" if "i < 512" for i
    using that slot_unat [OF tp that] ts by (simp add: st word_less_nat_alt)
  show "fst s' (slot_of a i) = fst s (slot_of a i)" if "a \<in> A" "i < 512" for a i
  proof -
    have "unat (slot_of a i) \<notin> block_range (c, 4096)" using in_L [OF that] dj by blast
    then show ?thesis using own1(1,4) in_L [OF that] ts st by (auto simp: block_range_def)
  qed
qed

section \<open>Walking the tables\<close>

text \<open>The table below \<open>t\<close> at index \<open>i\<close>, and the table at the end of a path.\<close>

definition next_table :: "mem \<Rightarrow> u64 \<Rightarrow> u64 \<Rightarrow> u64 option" where
  "next_table m t i =
     (let e = m (slot_of t i) in
      if e AND PAGEF_PRESENT \<noteq> 0 \<and> e AND PAGEF_PAGESIZE = 0 then Some (table_entry e) else None)"

fun table_at :: "mem \<Rightarrow> u64 \<Rightarrow> u64 list \<Rightarrow> u64 option" where
  "table_at m t [] = Some t"
| "table_at m t (i # is) = (case next_table m t i of None \<Rightarrow> None | Some u \<Rightarrow> table_at m u is)"

lemma table_at_append:
  "table_at m t (p @ q) = (case table_at m t p of None \<Rightarrow> None | Some u \<Rightarrow> table_at m u q)"
  by (induction m t p rule: table_at.induct) (auto split: option.splits)

definition path_ok :: "u64 list \<Rightarrow> bool" where
  "path_ok p \<longleftrightarrow> length p \<le> 3 \<and> (\<forall>i \<in> set p. i < 512)"

lemma path_ok_simps [simp]:
  "path_ok []" "path_ok (p @ [i]) \<longleftrightarrow> path_ok p \<and> length p < 3 \<and> i < 512"
  by (auto simp: path_ok_def)

text \<open>The tables reached from \<open>root\<close> are pages of \<open>A\<close>, each reached by one path; the top table has no large pages.\<close>

definition tables_ok :: "mem \<Rightarrow> u64 \<Rightarrow> u64 set \<Rightarrow> bool" where
  "tables_ok m root A \<longleftrightarrow>
     (\<forall>i < 512. m (slot_of root i) AND PAGEF_PRESENT \<noteq> 0 \<longrightarrow> m (slot_of root i) AND PAGEF_PAGESIZE = 0) \<and>
     (\<forall>p t. path_ok p \<longrightarrow> table_at m root p = Some t \<longrightarrow> t \<in> A) \<and>
     (\<forall>p q t. path_ok p \<longrightarrow> path_ok q \<longrightarrow> table_at m root p = Some t \<longrightarrow> table_at m root q = Some t \<longrightarrow> p = q)"

lemma tables_okD:
  assumes "tables_ok m root A"
  shows "i < 512 \<Longrightarrow> m (slot_of root i) AND PAGEF_PRESENT \<noteq> 0 \<Longrightarrow> m (slot_of root i) AND PAGEF_PAGESIZE = 0"
    and "path_ok p \<Longrightarrow> table_at m root p = Some t \<Longrightarrow> t \<in> A"
    and "path_ok p \<Longrightarrow> path_ok q \<Longrightarrow> table_at m root p = Some t \<Longrightarrow> table_at m root q = Some t \<Longrightarrow> p = q"
  using assms unfolding tables_ok_def by blast+

text \<open>What the walk of the CPU finds for four indices: the last entry, and how many levels were left.\<close>

definition leaf_entry :: "mem \<Rightarrow> u64 \<Rightarrow> u64 list \<Rightarrow> u64 \<Rightarrow> nat \<Rightarrow> bool" where
  "leaf_entry m root vs e k \<longleftrightarrow> k \<le> 2 \<and> (\<exists>t. table_at m root (take (3 - k) vs) = Some t \<and>
     e = m (slot_of t (vs ! (3 - k))) \<and> e AND PAGEF_PRESENT \<noteq> 0 \<and> (k = 0 \<or> e AND PAGEF_PAGESIZE \<noteq> 0))"

definition indices :: "u64 \<Rightarrow> u64 list" where
  "indices v = [pml4e v, pdpe v, pde v, pte v]"

lemma index_bound [simp]: "pml4e v < 512" "pdpe v < 512" "pde v < 512" "pte v < 512"
proof -
  have "x AND table_mask < 512" for x :: u64
  proof -
    have "x AND table_mask = take_bit 9 x" by (simp add: table_mask_def take_bit_eq_mask mask_eq_exp_minus_1)
    then show ?thesis by (simp add: word_less_nat_alt take_bit_eq_mod unat_mod)
  qed
  then show "pml4e v < 512" "pdpe v < 512" "pde v < 512" "pte v < 512"
    by (simp_all add: pml4e_def pdpe_def pde_def pte_def)
qed

lemma indices_length [simp]: "length (indices v) = 4"
  by (simp add: indices_def)

lemma indices_take_ok: "n \<le> 3 \<Longrightarrow> path_ok (take n (indices v))"
  by (auto simp: path_ok_def indices_def dest!: in_set_takeD)

lemma indices_nth: "n < 4 \<Longrightarrow> indices v ! n < 512"
  by (auto simp: indices_def less_Suc_eq numeral_eq_Suc)

section \<open>Changing one entry\<close>

text \<open>The entry \<open>i\<close> of the table at the end of \<open>p\<close> is set, so that the table below it becomes \<open>r\<close>.\<close>

definition entry_change :: "mem \<Rightarrow> mem \<Rightarrow> u64 \<Rightarrow> u64 set \<Rightarrow> u64 list \<Rightarrow> u64 \<Rightarrow> u64 \<Rightarrow> u64 option \<Rightarrow> bool" where
  "entry_change m m' root A p tp i r \<longleftrightarrow>
     tables_ok m root A \<and> (\<forall>t \<in> A. is_page t) \<and> path_ok p \<and> table_at m root p = Some tp \<and> i < 512 \<and>
     (\<forall>a \<in> A. \<forall>j < 512. slot_of a j \<noteq> slot_of tp i \<longrightarrow> m' (slot_of a j) = m (slot_of a j)) \<and>
     (length p < 3 \<longrightarrow> next_table m' tp i = r) \<and> (\<forall>t. r = Some t \<longrightarrow> t \<notin> A \<and> (\<forall>j < 512. m' (slot_of t j) = 0))"

lemma entry_changeD:
  assumes "entry_change m m' root A p tp i r"
  shows "tables_ok m root A" "\<And>t. t \<in> A \<Longrightarrow> is_page t" "path_ok p" "table_at m root p = Some tp" "i < 512"
    and "\<And>a j. a \<in> A \<Longrightarrow> j < 512 \<Longrightarrow> slot_of a j \<noteq> slot_of tp i \<Longrightarrow> m' (slot_of a j) = m (slot_of a j)"
    and "length p < 3 \<Longrightarrow> next_table m' tp i = r" "\<And>t. r = Some t \<Longrightarrow> t \<notin> A \<and> (\<forall>j < 512. m' (slot_of t j) = 0)"
  using assms unfolding entry_change_def by blast+

lemma same_slot:
  assumes ec: "entry_change m m' root A p tp i r"
    and a: "path_ok q" "table_at m root q = Some u" "j < 512" "(q, j) \<noteq> (p, i)"
  shows "m' (slot_of u j) = m (slot_of u j)"
proof -
  note ok = entry_changeD(1) [OF ec] and pages = entry_changeD(2) [OF ec] and path = entry_changeD(3-5) [OF ec]
    and same = entry_changeD(6) [OF ec]
  note in_A = tables_okD(2) [OF ok]
  have "slot_of u j \<noteq> slot_of tp i"
    using slot_inj [of u tp j i] pages in_A [OF a(1,2)] in_A [OF path(1,2)] a path(3) tables_okD(3) [OF ok a(1) path(1) a(2)] path(2)
    by auto
  then show ?thesis using same in_A [OF a(1,2)] a(3) by blast
qed

lemma table_at_change:
  assumes ec: "entry_change m m' root A p tp i r"
  shows "path_ok q \<Longrightarrow>
     table_at m' root q =
       (if \<exists>c. q = p @ i # c then (if q = p @ [i] then r else None) else table_at m root q)"
proof (induction q rule: rev_induct)
  case (snoc j q)
  then have q: "path_ok q" "j < 512" by simp_all
  note path = entry_changeD(3-5) [OF ec] and new = entry_changeD(7) [OF ec] and fresh = entry_changeD(8) [OF ec]
  note IH = snoc.IH [OF q(1)]
  have step: "table_at n root (q @ [j]) = (case table_at n root q of None \<Rightarrow> None | Some u \<Rightarrow> next_table n u j)" for n
    by (simp add: table_at_append split: option.splits)
  show ?case
  proof (cases "\<exists>c. q = p @ i # c")
    case True
    then have ext: "\<exists>c. q @ [j] = p @ i # c" "q @ [j] \<noteq> p @ [i]" by auto
    have "table_at m' root (q @ [j]) = None"
    proof (cases "q = p @ [i]")
      case True
      then have "table_at m' root q = r" using IH by auto
      then show ?thesis using fresh q(2) by (auto simp: step next_table_def split: option.splits)
    next
      case False
      then show ?thesis using IH True by (simp add: step)
    qed
    then show ?thesis using ext by presburger
  next
    case False
    then have IH': "table_at m' root q = table_at m root q" using IH by simp
    show ?thesis
    proof (cases "q = p \<and> j = i")
      case True
      then show ?thesis using IH' path(2) new step [of m'] snoc.prems by simp
    next
      case neq: False
      have "\<not> (\<exists>c. q @ [j] = p @ i # c)"
        using False neq by (auto simp: append_eq_append_conv2 append_eq_Cons_conv Cons_eq_append_conv)
      moreover have "next_table m' u j = next_table m u j" if "table_at m root q = Some u" for u
        using same_slot [OF ec q(1) that q(2)] neq by (auto simp: next_table_def)
      ultimately show ?thesis using IH' by (auto simp: step split: option.splits)
    qed
  qed
qed simp

lemma tables_ok_change:
  assumes ec: "entry_change m m' root A p tp i r" and root: "p = [] \<Longrightarrow> m' (slot_of root i) AND PAGEF_PAGESIZE = 0"
  shows "tables_ok m' root (A \<union> set_option r)"
proof -
  note tc = table_at_change [OF ec] and ok = entry_changeD(1) [OF ec] and fresh = entry_changeD(8) [OF ec]
  have 1: "m' (slot_of root j) AND PAGEF_PAGESIZE = 0" if "j < 512" "m' (slot_of root j) AND PAGEF_PRESENT \<noteq> 0" for j
  proof (cases "p = [] \<and> j = i")
    case False
    then have "m' (slot_of root j) = m (slot_of root j)" using same_slot [OF ec, of "[]" root j] that by auto
    then show ?thesis using tables_okD(1) [OF ok that(1)] that by simp
  qed (use root in simp)
  have 2: "t \<in> A \<union> set_option r" if "path_ok q" "table_at m' root q = Some t" for q t
    using that tc [OF that(1)] tables_okD(2) [OF ok that(1)] by (auto split: if_splits)
  have 3: "q = q'" if "path_ok q" "path_ok q'" "table_at m' root q = Some t" "table_at m' root q' = Some t" for q q' t
    using that tc [OF that(1)] tc [OF that(2)] tables_okD(2,3) [OF ok] fresh by (fastforce split: if_splits)
  show ?thesis unfolding tables_ok_def using 1 2 3 by blast
qed

text \<open>Walks that do not go through the entry find what they found.\<close>

lemma leaf_entry_elsewhere:
  assumes ec: "entry_change m m' root A p tp i r" and "take (length p + 1) (indices v) \<noteq> p @ [i]"
  shows "leaf_entry m' root (indices v) e k \<longleftrightarrow> leaf_entry m root (indices v) e k"
proof (cases "k \<le> 2")
  case True
  let ?q = "take (3 - k) (indices v)" and ?j = "indices v ! (3 - k)"
  have q: "path_ok ?q" "?j < 512" using True by (auto intro: indices_take_ok indices_nth)
  have no: "\<not> (\<exists>c. ?q = p @ i # c)"
  proof
    assume "\<exists>c. ?q = p @ i # c"
    then obtain c where c: "?q = p @ i # c" by blast
    then have "take (length p + 1) ?q = p @ [i]" by simp
    moreover have "length p + 1 \<le> 3 - k"
    proof -
      have "length ?q = 3 - k" using True by simp
      then show ?thesis using c by simp
    qed
    ultimately show False using assms by (simp add: min_def)
  qed
  have "table_at m' root ?q = table_at m root ?q" using table_at_change [OF ec q(1)] no by simp
  moreover have "m' (slot_of u ?j) = m (slot_of u ?j)" if "table_at m root ?q = Some u" for u
  proof (rule same_slot [OF ec q(1) that q(2)])
    show "(?q, ?j) \<noteq> (p, i)"
    proof
      assume a: "(?q, ?j) = (p, i)"
      then have l: "length p = 3 - k" using True by auto
      have "take (Suc (3 - k)) (indices v) = ?q @ [?j]" using True by (intro take_Suc_conv_app_nth) simp
      then show False using assms a l by simp
    qed
  qed
  ultimately show ?thesis by (auto simp: leaf_entry_def)
qed (simp add: leaf_entry_def)

text \<open>Walks through the entry end there, or at the fresh empty table below it.\<close>

lemma leaf_entry_here:
  assumes ec: "entry_change m m' root A p tp i r" and v: "take (length p + 1) (indices v) = p @ [i]"
  shows "leaf_entry m' root (indices v) e k \<longleftrightarrow>
           k = 3 - length p \<and> length p \<noteq> 0 \<and> e = m' (slot_of tp i) \<and> e AND PAGEF_PRESENT \<noteq> 0 \<and> (k = 0 \<or> e AND PAGEF_PAGESIZE \<noteq> 0)"
proof (cases "k \<le> 2")
  case True
  let ?q = "take (3 - k) (indices v)" and ?j = "indices v ! (3 - k)"
  note path = entry_changeD(3-5) [OF ec] and fresh = entry_changeD(8) [OF ec]
  have lp: "length p \<le> 3" using path(1) by (simp add: path_ok_def)
  have p: "p = take (length p) (indices v)" "indices v ! length p = i"
    using v take_Suc_conv_app_nth [of "length p" "indices v"] lp by auto
  have q: "path_ok ?q" using True by (auto intro: indices_take_ok)
  have lq: "length ?q = 3 - k" using True by simp
  note tc = table_at_change [OF ec q]
  consider (eq) "k = 3 - length p" | (short) "3 - k < length p" | (long) "length p < 3 - k" using lp True by linarith
  then show ?thesis
  proof cases
    case eq
    then have "?q = p" "?j = i" using p lp True by (auto simp: min_def)
    moreover have "table_at m' root p = Some tp" using tc \<open>?q = p\<close> path(2) by auto
    ultimately show ?thesis using eq True lp by (auto simp: leaf_entry_def)
  next
    case short
    text \<open>The entry before \<open>p\<close> ends is a table.\<close>
    have pq: "p = ?q @ ?j # drop (Suc (3 - k)) p"
    proof -
      have "p = take (3 - k) p @ p ! (3 - k) # drop (Suc (3 - k)) p" using short by (simp add: id_take_nth_drop)
      moreover have "take (3 - k) p = ?q" using p(1) short by (metis min.absorb3 take_take)
      moreover have "p ! (3 - k) = ?j" using p(1) short by (metis nth_take)
      ultimately show ?thesis by metis
    qed
    obtain u where u: "table_at m root ?q = Some u" "next_table m u ?j \<noteq> None"
    proof -
      have "table_at m root (?q @ ?j # drop (Suc (3 - k)) p) = Some tp" using path(2) pq by metis
      then show ?thesis using that by (auto simp: table_at_append split: option.splits)
    qed
    have "\<not> (\<exists>c. ?q = p @ i # c)" using short lq by (metis length_append not_add_less1 lp)
    then have "table_at m' root ?q = Some u" using tc u by simp
    moreover have "m' (slot_of u ?j) = m (slot_of u ?j)"
    proof (rule same_slot [OF ec q u(1)])
      show "?j < 512" using True by (intro indices_nth) simp
      show "(?q, ?j) \<noteq> (p, i)" using short lq by auto
    qed
    ultimately show ?thesis using u(2) short True lp by (auto simp: leaf_entry_def next_table_def Let_def split: if_splits)
  next
    case long
    have "?q = p @ i # drop (length p + 1) ?q"
    proof -
      have "take (length p + 1) ?q = p @ [i]" using v long by (simp add: min_def)
      then have "?q = (p @ [i]) @ drop (length p + 1) ?q" by (metis append_take_drop_id)
      then show ?thesis by simp
    qed
    then have "table_at m' root ?q = (if ?q = p @ [i] then r else None)" using tc by metis
    then have "m' (slot_of t ?j) = 0" if "table_at m' root ?q = Some t" for t
      using that fresh indices_nth [of "3 - k" v] True by (auto split: if_splits)
    then have "\<not> leaf_entry m' root (indices v) e k" by (auto simp: leaf_entry_def)
    moreover have "k \<noteq> 3 - length p" using long lp by linarith
    ultimately show ?thesis by simp
  qed
next
  case False
  then have "k \<noteq> 3 - length p \<or> length p = 0" by linarith
  then show ?thesis using False by (auto simp: leaf_entry_def)
qed

section \<open>Entries\<close>

lemma and_not_self: "x AND y = 0 \<Longrightarrow> x AND NOT y = (x :: u64)"
proof (rule bit_word_eqI)
  fix n
  assume a: "x AND y = 0" "n < LENGTH(64)"
  have "\<not> (bit x n \<and> bit y n)" using bit_and_iff [of x y n] a(1) by simp
  then show "bit (x AND NOT y) n = bit x n" using a(2) by (auto simp: bit_simps)
qed

lemma table_entry_link:
  assumes "is_page t" "identity_map_start \<le> t" "f AND NOT (PAGEF_NX OR 0xFFF) = 0"
  shows "table_entry (from_identity_mapped_ptr t OR f) = t"
proof -
  let ?x = "from_identity_mapped_ptr t"
  have u: "unat ?x = unat t - unat identity_map_start"
    using assms(2) by (simp add: from_identity_mapped_ptr_def u64_sub)
  then have lt: "unat ?x < 4294967296"
    using u64_range [of t] by (simp add: identity_map_start_def)
  have hi: "?x AND PAGEF_NX = 0"
  proof -
    have "\<not> bit ?x 63"
      using lt by (simp add: bit_iff_odd drop_bit_eq_div [symmetric] word_unat_eq_iff unat_div odd_iff_mod_2_eq_one unat_mod)
    moreover have "PAGEF_NX = 2 ^ 63" by (simp add: PAGEF_NX_def)
    ultimately show ?thesis using and_exp_eq_0_iff_not_bit [of ?x 63] by metis
  qed
  have "4096 dvd unat ?x"
    using assms(1) unfolding is_page_def u by (simp add: identity_map_start_def dvd_diff_nat)
  then have lo: "?x AND 0xFFF = 0" using page_mask [of ?x] by (simp add: is_page_def)
  have "?x AND (PAGEF_NX OR 0xFFF) = 0" using hi lo by (simp add: bit.conj_disj_distrib)
  then have "?x AND NOT (PAGEF_NX OR 0xFFF) = ?x" by (rule and_not_self)
  then have "(?x OR f) AND NOT (PAGEF_NX OR 0xFFF) = ?x"
    using assms(3) by (simp add: bit.conj_disj_distrib2)
  then show ?thesis
    by (simp add: table_entry_def page_size_def to_identity_mapped_ptr_def from_identity_mapped_ptr_def)
qed

lemma table_flags_facts:
  "(table_flags type OR PAGEF_WRITE) AND NOT (PAGEF_NX OR 0xFFF) = 0"
  "(table_flags type OR PAGEF_WRITE) AND PAGEF_PRESENT \<noteq> 0"
  "(table_flags type OR PAGEF_WRITE) AND PAGEF_PAGESIZE = 0"
  by (simp_all add: table_flags_def pagef_defs)

text \<open>A table below a table: found, or allocated. In both cases no walk sees a difference.\<close>

lemma alloc_if_not_present_ok:
  assumes fr: "frames s A" and ok: "tables_ok (fst s) root A"
    and path: "path_ok p" "table_at (fst s) root p = Some tp" "i < 512" "length p < 3"
    and res: "alloc_if_not_present s (slot_of tp i) (table_flags type OR PAGEF_WRITE) = Inr (u, s')"
  shows "\<exists>A'. A \<subseteq> A' \<and> frames s' A' \<and> tables_ok (fst s') root A' \<and> table_at (fst s') root (p @ [i]) = Some u \<and>
           (\<forall>v e k. leaf_entry (fst s') root (indices v) e k \<longleftrightarrow> leaf_entry (fst s) root (indices v) e k) \<and>
           (\<forall>q t. path_ok q \<longrightarrow> table_at (fst s) root q = Some t \<longrightarrow> table_at (fst s') root q = Some t)"
proof (cases "fst s (slot_of tp i) AND PAGEF_PRESENT \<noteq> 0")
  case True
  let ?e = "fst s (slot_of tp i)"
  have u: "u = table_entry ?e" "s' = s" and
    fl: "?e AND check_mask = (table_flags type OR PAGEF_WRITE) AND check_mask"
    using res True by (auto simp: alloc_if_not_present_def split: if_splits)
  have "?e AND PAGEF_PAGESIZE = (?e AND check_mask) AND PAGEF_PAGESIZE"
    by (simp add: check_mask_def pagef_defs and.assoc)
  also have "\<dots> = 0" unfolding fl by (simp add: table_flags_def check_mask_def pagef_defs)
  finally have "next_table (fst s) tp i = Some u" using True u by (simp add: next_table_def)
  then show ?thesis using u fr ok path by (intro exI [of _ A]) (simp add: table_at_append)
next
  case False
  let ?f = "table_flags type OR PAGEF_WRITE"
  obtain s1 where al: "alloc_table s = Inr (u, s1)" and
    s': "s' = ((fst s1)(slot_of tp i := from_identity_mapped_ptr u OR ?f), snd s1)"
    using res False by (auto simp: alloc_if_not_present_def alloc_table_entry_def res_simps)
  note at = alloc_table_frames [OF fr al]
  have tpA: "tp \<in> A" using tables_okD(2) [OF ok path(1,2)] .
  have fr': "frames s' (insert u A)" unfolding s' by (rule frames_write [OF at(2)]) (use tpA path(3) in auto)
  have up: "is_page u" "identity_map_start \<le> u" "is_page tp"
    using frames_page [OF at(2)] frames_high [OF at(2)] tpA by auto
  have e: "fst s' (slot_of tp i) = from_identity_mapped_ptr u OR ?f" by (simp add: s')
  have ep: "fst s' (slot_of tp i) AND PAGEF_PRESENT \<noteq> 0" "fst s' (slot_of tp i) AND PAGEF_PAGESIZE = 0"
  proof -
    let ?x = "from_identity_mapped_ptr u"
    have "4096 dvd unat ?x"
      using up(1) unfolding is_page_def from_identity_mapped_ptr_def u64_sub [OF up(2)]
      by (simp add: identity_map_start_def dvd_diff_nat)
    then have lo: "?x AND 0xFFF = 0" using page_mask [of ?x] by (simp add: is_page_def)
    have "?x AND PAGEF_PAGESIZE = (?x AND 0xFFF) AND PAGEF_PAGESIZE"
      by (simp add: pagef_defs and.assoc)
    then have "?x AND PAGEF_PAGESIZE = 0" using lo by simp
    then show "fst s' (slot_of tp i) AND PAGEF_PAGESIZE = 0"
      using table_flags_facts(3) by (simp add: e bit.conj_disj_distrib2)
    show "fst s' (slot_of tp i) AND PAGEF_PRESENT \<noteq> 0"
      using table_flags_facts(2) [of type] by (simp add: e bit.conj_disj_distrib2 or_eq_0_iff)
  qed
  have nt: "next_table (fst s') tp i = Some u"
    using ep table_entry_link [OF up(1,2) table_flags_facts(1)] by (simp add: next_table_def e)
  have other: "fst s' (slot_of a j) = fst s (slot_of a j)" if "a \<in> A" "j < 512" "slot_of a j \<noteq> slot_of tp i" for a j
    using at(4) [OF that(1,2)] that(3) by (simp add: s')
  have zero: "fst s' (slot_of u j) = 0" if "j < 512" for j
    using at(1,3) tpA slot_inj [OF up(1,3) that path(3)] that by (auto simp: s')
  have ec: "entry_change (fst s) (fst s') root A p tp i (Some u)"
    using ok frames_page [OF fr] path other nt zero at(1) unfolding entry_change_def by auto
  have "p = [] \<Longrightarrow> fst s' (slot_of root i) AND PAGEF_PAGESIZE = 0" using ep(2) path(2) by simp
  then have ok': "tables_ok (fst s') root (insert u A)" using tables_ok_change [OF ec] by simp
  have ta: "table_at (fst s') root (p @ [i]) = Some u"
    using table_at_change [OF ec, of "p @ [i]"] path by auto
  have lf: "leaf_entry (fst s') root (indices v) e k \<longleftrightarrow> leaf_entry (fst s) root (indices v) e k" for v e k
  proof (cases "take (length p + 1) (indices v) = p @ [i]")
    case False
    then show ?thesis by (rule leaf_entry_elsewhere [OF ec])
  next
    case True
    have "entry_change (fst s) (fst s) root A p tp i None"
      using ok frames_page [OF fr] path False unfolding entry_change_def by (auto simp: next_table_def)
    then have "\<not> leaf_entry (fst s) root (indices v) e k"
      using leaf_entry_here [OF _ True] False by auto
    moreover have "\<not> leaf_entry (fst s') root (indices v) e k"
      using leaf_entry_here [OF ec True] ep(2) path(4) by auto
    ultimately show ?thesis by simp
  qed
  have tb: "table_at (fst s') root q = Some t" if "path_ok q" "table_at (fst s) root q = Some t" for q t
  proof -
    have "\<not> (\<exists>c. q = p @ i # c)"
      using that(2) path(2) False by (auto simp: table_at_append next_table_def)
    then show ?thesis using table_at_change [OF ec that(1)] that(2) by simp
  qed
  show ?thesis
    using fr' ok' ta lf tb by (intro exI [of _ "insert u A"]) auto
qed

text \<open>The last entry of a walk is set, or cleared.\<close>

lemma leaf_write_ok:
  assumes fr: "frames s A" and ok: "tables_ok (fst s) root A"
    and path: "path_ok p" "table_at (fst s) root p = Some tp" "i < 512" "p \<noteq> []"
    and e: "length p = 3 \<or> x AND PAGEF_PAGESIZE \<noteq> 0 \<or> x = 0"
    and s': "s' = ((fst s)(slot_of tp i := x), snd s)"
  shows "frames s' A" "tables_ok (fst s') root A"
    "take (length p + 1) (indices v) \<noteq> p @ [i] \<Longrightarrow>
       leaf_entry (fst s') root (indices v) e k \<longleftrightarrow> leaf_entry (fst s) root (indices v) e k"
    "take (length p + 1) (indices v) = p @ [i] \<Longrightarrow>
       leaf_entry (fst s') root (indices v) e k \<longleftrightarrow>
         x AND PAGEF_PRESENT \<noteq> 0 \<and> (length p = 3 \<or> x AND PAGEF_PAGESIZE \<noteq> 0) \<and> e = x \<and> k = 3 - length p"
    "path_ok q \<Longrightarrow> \<not> (\<exists>c. q = p @ i # c) \<Longrightarrow> table_at (fst s') root q = table_at (fst s) root q"
proof -
  have tpA: "tp \<in> A" using tables_okD(2) [OF ok path(1,2)] .
  show "frames s' A" unfolding s' by (rule frames_write [OF fr tpA path(3)])
  have ec: "entry_change (fst s) (fst s') root A p tp i None"
    using ok frames_page [OF fr] path e unfolding entry_change_def s' by (auto simp: next_table_def)
  show "tables_ok (fst s') root A" using tables_ok_change [OF ec] path(4) by simp
  show "take (length p + 1) (indices v) \<noteq> p @ [i] \<Longrightarrow>
       leaf_entry (fst s') root (indices v) e k \<longleftrightarrow> leaf_entry (fst s) root (indices v) e k"
    by (rule leaf_entry_elsewhere [OF ec])
  have len: "length p \<le> 3" using path(1) by (simp add: path_ok_def)
  show "leaf_entry (fst s') root (indices v) e k \<longleftrightarrow>
         x AND PAGEF_PRESENT \<noteq> 0 \<and> (length p = 3 \<or> x AND PAGEF_PAGESIZE \<noteq> 0) \<and> e = x \<and> k = 3 - length p"
    if "take (length p + 1) (indices v) = p @ [i]"
    using leaf_entry_here [OF ec that] path(4) len by (auto simp: s')
  show "path_ok q \<Longrightarrow> \<not> (\<exists>c. q = p @ i # c) \<Longrightarrow> table_at (fst s') root q = table_at (fst s) root q"
    using table_at_change [OF ec] by simp
qed

definition leaf_depth :: "u32 \<Rightarrow> nat" where
  "leaf_depth type = (if mt_has type mt_ps_1gb then 2 else if mt_has type mt_ps_2mb then 3 else 4)"

definition leaf_value :: "u32 \<Rightarrow> u64 \<Rightarrow> u64" where
  "leaf_value type addr =
     addr OR (if leaf_depth type = 4 then 0 else PAGEF_PAGESIZE) OR page_flags type"

lemma leaf_value_flags:
  "leaf_value type addr AND PAGEF_PRESENT \<noteq> 0"
  "leaf_depth type \<noteq> 4 \<Longrightarrow> leaf_value type addr AND PAGEF_PAGESIZE \<noteq> 0"
proof -
  have "page_flags type AND PAGEF_PRESENT \<noteq> 0"
    by (simp add: page_flags_def table_flags_def pagef_defs bit.conj_disj_distrib2)
  then show "leaf_value type addr AND PAGEF_PRESENT \<noteq> 0"
    by (simp add: leaf_value_def bit.conj_disj_distrib2 or_eq_0_iff)
  show "leaf_depth type \<noteq> 4 \<Longrightarrow> leaf_value type addr AND PAGEF_PAGESIZE \<noteq> 0"
    by (simp add: leaf_value_def bit.conj_disj_distrib2 or_eq_0_iff pagef_defs)
qed

text \<open>Two addresses in the same page of the given type.\<close>

definition same_page :: "u32 \<Rightarrow> u64 \<Rightarrow> u64 \<Rightarrow> bool" where
  "same_page type v w \<longleftrightarrow> take (leaf_depth type) (indices v) = take (leaf_depth type) (indices w)"

text \<open>More pages, more tables, the same walks.\<close>

definition grows :: "u64 \<Rightarrow> phys \<Rightarrow> u64 set \<Rightarrow> phys \<Rightarrow> u64 set \<Rightarrow> bool" where
  "grows root s A s' A' \<longleftrightarrow> A \<subseteq> A' \<and> frames s' A' \<and> tables_ok (fst s') root A' \<and>
     (\<forall>v e k. leaf_entry (fst s') root (indices v) e k \<longleftrightarrow> leaf_entry (fst s) root (indices v) e k) \<and>
     (\<forall>q t. path_ok q \<longrightarrow> table_at (fst s) root q = Some t \<longrightarrow> table_at (fst s') root q = Some t)"

lemma grows_trans: "grows root s A s1 A1 \<Longrightarrow> grows root s1 A1 s2 A2 \<Longrightarrow> grows root s A s2 A2"
  unfolding grows_def by blast

lemma alloc_grows:
  assumes "frames s A" "tables_ok (fst s) root A" "path_ok (p @ [i])" "table_at (fst s) root p = Some tp"
    "alloc_if_not_present s (slot_of tp i) (table_flags type OR PAGEF_WRITE) = Inr (u, s')"
  obtains A' where "grows root s A s' A'" "table_at (fst s') root (p @ [i]) = Some u"
  using alloc_if_not_present_ok [OF assms(1,2) _ assms(4) _ _ assms(5)] assms(3) unfolding grows_def by auto

lemma leaf_write_page:
  assumes g: "grows root s A s1 A1" and p: "p = take n (indices virt)" "n = leaf_depth type - 1"
    and t: "table_at (fst s1) root p = Some tp" and i: "i = indices virt ! n"
    and s': "s' = ((fst s1)(slot_of tp i := leaf_value type addr), snd s1)"
  shows "\<exists>A'. A \<subseteq> A' \<and> frames s' A' \<and> tables_ok (fst s') root A' \<and>
           (\<forall>v e k. leaf_entry (fst s') root (indices v) e k \<longleftrightarrow>
              (if same_page type v virt then e = leaf_value type addr \<and> k = 4 - leaf_depth type
               else leaf_entry (fst s) root (indices v) e k)) \<and>
           table_at (fst s') root (take (leaf_depth type - 1) (indices virt)) \<noteq> None \<and>
           (\<forall>q t. path_ok q \<longrightarrow> length q < leaf_depth type \<longrightarrow> table_at (fst s) root q = Some t \<longrightarrow> table_at (fst s') root q = Some t)"
proof -
  have d: "leaf_depth type = n + 1" "1 \<le> n" "n \<le> 3" using p(2) by (auto simp: leaf_depth_def)
  have lp: "length p = n" "path_ok p" "i < 512"
    using p(1) d i indices_take_ok [of n virt] indices_nth [of n virt] by auto
  have ne: "p \<noteq> []" using lp(1) d(2) by auto
  have pi: "p @ [i] = take (leaf_depth type) (indices virt)"
    unfolding p(1) i d(1) using d(3) by (simp add: take_Suc_conv_app_nth)
  have e: "length p = 3 \<or> leaf_value type addr AND PAGEF_PAGESIZE \<noteq> 0 \<or> leaf_value type addr = 0"
    using leaf_value_flags(2) [of type addr] lp(1) d by auto
  have fr: "frames s1 A1" and ok: "tables_ok (fst s1) root A1" and sub: "A \<subseteq> A1" using g by (auto simp: grows_def)
  note lw = leaf_write_ok [OF fr ok lp(2) t lp(3) ne e s']
  have "leaf_entry (fst s') root (indices v) e k \<longleftrightarrow>
          (if same_page type v virt then e = leaf_value type addr \<and> k = 4 - leaf_depth type
           else leaf_entry (fst s) root (indices v) e k)" for v e k
  proof (cases "same_page type v virt")
    case True
    then have "take (length p + 1) (indices v) = p @ [i]" using pi lp(1) d(1) by (simp add: same_page_def)
    then show ?thesis
      using lw(4) [of v e k] leaf_value_flags [of type addr] True lp(1) d by auto
  next
    case False
    then have "take (length p + 1) (indices v) \<noteq> p @ [i]" using pi lp(1) d(1) by (simp add: same_page_def)
    then show ?thesis using lw(3) [of v e k] g False by (simp add: grows_def)
  qed
  moreover have "\<not> (\<exists>c. q = p @ i # c)" if "length q < leaf_depth type" for q
    using that lp(1) d(1) by auto
  moreover have "length p < leaf_depth type" using lp(1) d(1) by simp
  ultimately show ?thesis using lw(1,2,5) sub g t lp(2) p unfolding grows_def by (intro exI [of _ A1]) (simp; metis)
qed

lemma map_page_ok:
  assumes fr: "frames s A" and ok: "tables_ok (fst s) root A" and res: "map_page root type s virt addr = Inr s'"
  shows "\<exists>A'. A \<subseteq> A' \<and> frames s' A' \<and> tables_ok (fst s') root A' \<and>
           (\<forall>v e k. leaf_entry (fst s') root (indices v) e k \<longleftrightarrow>
              (if same_page type v virt then e = leaf_value type addr \<and> k = 4 - leaf_depth type
               else leaf_entry (fst s) root (indices v) e k)) \<and>
           table_at (fst s') root (take (leaf_depth type - 1) (indices virt)) \<noteq> None \<and>
           (\<forall>q t. path_ok q \<longrightarrow> length q < leaf_depth type \<longrightarrow> table_at (fst s) root q = Some t \<longrightarrow> table_at (fst s') root q = Some t)"
proof -
  let ?f = "table_flags type OR PAGEF_WRITE"
  obtain pdp s1 where r1: "alloc_if_not_present s (slot_of root (pml4e virt)) ?f = Inr (pdp, s1)"
    using res by (auto simp: map_page_def res_simps)
  obtain A1 where g1: "grows root s A s1 A1" and t1: "table_at (fst s1) root ([] @ [pml4e virt]) = Some pdp"
    by (rule alloc_grows [OF fr ok _ _ r1, of "[]"]) (simp_all add: path_ok_def)
  show ?thesis
  proof (cases "mt_has type mt_ps_1gb")
    case True
    have s': "s' = ((fst s1)(slot_of pdp (pdpe virt) := leaf_value type addr), snd s1)"
      using res r1 True by (auto simp: map_page_def leaf_value_def leaf_depth_def or.assoc)
    show ?thesis
      by (rule leaf_write_page [OF g1 _ _ t1 _ s', of 1 virt]) (use True in \<open>simp_all add: leaf_depth_def indices_def\<close>)
  next
    case gb: False
    obtain pd s2 where r2: "alloc_if_not_present s1 (slot_of pdp (pdpe virt)) ?f = Inr (pd, s2)"
      using res r1 gb by (auto simp: map_page_def res_simps)
    have f1: "frames s1 A1" "tables_ok (fst s1) root A1" using g1 by (auto simp: grows_def)
    obtain A2 where g2: "grows root s1 A1 s2 A2" and t2: "table_at (fst s2) root (([] @ [pml4e virt]) @ [pdpe virt]) = Some pd"
      by (rule alloc_grows [OF f1 _ t1 r2]) (simp_all add: path_ok_def)
    note g2' = grows_trans [OF g1 g2]
    show ?thesis
    proof (cases "mt_has type mt_ps_2mb")
      case True
      have s': "s' = ((fst s2)(slot_of pd (pde virt) := leaf_value type addr), snd s2)"
        using res r1 r2 gb True by (auto simp: map_page_def leaf_value_def leaf_depth_def or.assoc)
      show ?thesis
        by (rule leaf_write_page [OF g2' _ _ t2 _ s', of 2 virt]) (use gb True in \<open>simp_all add: leaf_depth_def indices_def\<close>)
    next
      case False
      obtain pt s3 where r3: "alloc_if_not_present s2 (slot_of pd (pde virt)) ?f = Inr (pt, s3)"
        using res r1 r2 gb False by (auto simp: map_page_def res_simps)
      have f2: "frames s2 A2" "tables_ok (fst s2) root A2" using g2 by (auto simp: grows_def)
      obtain A3 where g3: "grows root s2 A2 s3 A3"
        and t3: "table_at (fst s3) root ((([] @ [pml4e virt]) @ [pdpe virt]) @ [pde virt]) = Some pt"
        by (rule alloc_grows [OF f2 _ t2 r3]) (simp_all add: path_ok_def)
      have s': "s' = ((fst s3)(slot_of pt (pte virt) := leaf_value type addr), snd s3)"
        using res r1 r2 r3 gb False by (auto simp: map_page_def leaf_value_def leaf_depth_def or.assoc)
      show ?thesis
        by (rule leaf_write_page [OF grows_trans [OF g2' g3] _ _ t3 _ s', of 3 virt])
          (use gb False in \<open>simp_all add: leaf_depth_def indices_def\<close>)
    qed
  qed
qed

section \<open>Ranges\<close>

definition page_bits :: "u32 \<Rightarrow> nat" where
  "page_bits type = 12 + 9 * (4 - leaf_depth type)"

lemma page_size_bits: "memory_type_page_size type = 2 ^ page_bits type"
  by (simp add: memory_type_page_size_def page_bits_def leaf_depth_def)

lemma page_bits_cases: "page_bits type = 12 \<or> page_bits type = 21 \<or> page_bits type = 30"
  by (simp add: page_bits_def leaf_depth_def)

lemma page_size_unat [simp]: "unat (memory_type_page_size type) = 2 ^ page_bits type"
  using page_bits_cases [of type] by (auto simp: page_size_bits)

lemma mod_digits: "(x :: nat) mod (a * b) = y mod (a * b) \<longleftrightarrow> x mod a = y mod a \<and> x div a mod b = y div a mod b" if "0 < a"
proof
  assume eq: "x mod (a * b) = y mod (a * b)"
  then have "x mod (a * b) mod a = y mod (a * b) mod a" "x mod (a * b) div a = y mod (a * b) div a" by simp_all
  then show "x mod a = y mod a \<and> x div a mod b = y div a mod b"
    using that by (simp add: mod_mult2_eq div_mult1_eq mod_mod_cancel)
next
  assume "x mod a = y mod a \<and> x div a mod b = y div a mod b"
  then show "x mod (a * b) = y mod (a * b)" by (simp add: mod_mult2_eq)
qed

lemma index_unat:
  "unat (pml4e v) = unat v div 2 ^ 39 mod 512" "unat (pdpe v) = unat v div 2 ^ 30 mod 512"
  "unat (pde v) = unat v div 2 ^ 21 mod 512" "unat (pte v) = unat v div 2 ^ 12 mod 512"
proof -
  have "x AND table_mask = take_bit 9 x" for x :: u64
    by (simp add: table_mask_def take_bit_eq_mask mask_eq_exp_minus_1)
  then have "unat (drop_bit n v AND table_mask) = take_bit 9 (drop_bit n (unat v))" for n
    by (simp only: unsigned_take_bit_eq unat_drop_bit_eq)
  then have "unat (drop_bit n v AND table_mask) = unat v div 2 ^ n mod 512" for n
    by (simp add: take_bit_eq_mod drop_bit_eq_div)
  then show "unat (pml4e v) = unat v div 2 ^ 39 mod 512" "unat (pdpe v) = unat v div 2 ^ 30 mod 512"
    "unat (pde v) = unat v div 2 ^ 21 mod 512" "unat (pte v) = unat v div 2 ^ 12 mod 512"
    unfolding pml4e_def pdpe_def pde_def pte_def by blast+
qed

lemma same_page_iff:
  "same_page type v w \<longleftrightarrow>
     unat v div 2 ^ page_bits type mod 2 ^ (48 - page_bits type) = unat w div 2 ^ page_bits type mod 2 ^ (48 - page_bits type)"
proof -
  note md = mod_digits [OF zero_less_numeral [of "num.Bit0 (num.Bit0 (num.Bit0 (num.Bit0 (num.Bit0 (num.Bit0 (num.Bit0 (num.Bit0 (num.Bit0 num.One))))))))"]]
  have d2: "(x mod (512 * 512) = y mod (512 * 512)) = (x mod 512 = y mod 512 \<and> x div 512 mod 512 = y div 512 mod 512)" for x y :: nat
    by (simp only: md)
  have d3: "(x mod (512 * (512 * 512)) = y mod (512 * (512 * 512))) =
      (x mod 512 = y mod 512 \<and> x div 512 mod 512 = y div 512 mod 512 \<and> x div 512 div 512 mod 512 = y div 512 div 512 mod 512)" for x y :: nat
    by (simp only: md)
  have d4: "(x mod (512 * (512 * (512 * 512))) = y mod (512 * (512 * (512 * 512)))) =
      (x mod 512 = y mod 512 \<and> x div 512 mod 512 = y div 512 mod 512 \<and> x div 512 div 512 mod 512 = y div 512 div 512 mod 512 \<and>
       x div 512 div 512 div 512 mod 512 = y div 512 div 512 div 512 mod 512)" for x y :: nat
    by (simp only: md)
  consider "leaf_depth type = 2" "page_bits type = 30" | "leaf_depth type = 3" "page_bits type = 21"
    | "leaf_depth type = 4" "page_bits type = 12"
    by (cases "mt_has type mt_ps_1gb"; cases "mt_has type mt_ps_2mb") (simp_all add: page_bits_def leaf_depth_def)
  then show ?thesis
  proof cases
    case 1
    then show ?thesis
      using d2 [of "unat v div 1073741824" "unat w div 1073741824"]
      by (auto simp: same_page_def indices_def word_unat_eq_iff index_unat div_mult2_eq [symmetric])
  next
    case 2
    then show ?thesis
      using d3 [of "unat v div 2097152" "unat w div 2097152"]
      by (auto simp: same_page_def indices_def word_unat_eq_iff index_unat div_mult2_eq [symmetric])
  next
    case 3
    then show ?thesis
      using d4 [of "unat v div 4096" "unat w div 4096"]
      by (auto simp: same_page_def indices_def word_unat_eq_iff index_unat div_mult2_eq [symmetric])
  qed
qed

text \<open>The pages of a range without wrap-around are all different, when it has no more than 2^48 bytes.\<close>

lemma same_page_range:
  assumes v: "unat virt + j * 2 ^ page_bits type < 18446744073709551616" "unat virt + i * 2 ^ page_bits type < 18446744073709551616"
    and ij: "i * 2 ^ page_bits type < 2 ^ 48" "j * 2 ^ page_bits type < 2 ^ 48"
    and same: "same_page type (virt + of_nat i * memory_type_page_size type) (virt + of_nat j * memory_type_page_size type)"
  shows "i = j"
proof -
  let ?p = "2 ^ page_bits type :: nat" and ?n = "2 ^ (48 - page_bits type) :: nat"
  have pn: "?p * ?n = 2 ^ 48" using page_bits_cases [of type] by (auto simp: power_add [symmetric])
  have lt: "i < ?n" "j < ?n" using ij unfolding pn [symmetric] by (simp_all add: mult.commute)
  have u: "unat (virt + of_nat x * memory_type_page_size type) = unat virt + x * ?p"
    if "unat virt + x * ?p < 18446744073709551616" "x < ?n" for x
  proof -
    have "x < 18446744073709551616" using that(2) page_bits_cases [of type] by auto
    then have x: "unat (of_nat x :: u64) = x" by (rule unat_of_nat_u64)
    have "unat (of_nat x * memory_type_page_size type) = x * ?p"
      using that(1) x by (subst unat_mult_lem [THEN iffD1]) auto
    then show ?thesis using that(1) by (simp add: u64_add)
  qed
  have eq: "(unat virt div ?p + i) mod ?n = (unat virt div ?p + j) mod ?n"
    using same v lt by (simp add: same_page_iff u add.commute)
  have le: "a = b" if "(c + a) mod ?n = (c + b) mod ?n" "a \<le> b" "b < ?n" for a b c :: nat
  proof -
    have "?n dvd (c + b) - (c + a)" using that(1,2) mod_eq_dvd_iff_nat [of "c + a" "c + b" ?n] by simp
    then show ?thesis using that(2,3) by (auto dest: dvd_imp_le)
  qed
  show ?thesis using le [OF eq] le [OF eq [symmetric]] lt by (cases "i \<le> j") auto
qed

text \<open>The pages \<open>virt\<close>, \<open>virt + size\<close>, ... of a range.\<close>

definition page_at :: "u32 \<Rightarrow> u64 \<Rightarrow> nat \<Rightarrow> u64" where
  "page_at type base j = base + of_nat j * memory_type_page_size type"

lemma page_at_Suc: "page_at type base (Suc j) = page_at type (base + memory_type_page_size type) j"
  by (simp add: page_at_def algebra_simps)

lemma page_at_0 [simp]: "page_at type base 0 = base"
  by (simp add: page_at_def)

definition distinct_pages :: "u32 \<Rightarrow> u64 \<Rightarrow> nat \<Rightarrow> bool" where
  "distinct_pages type virt n \<longleftrightarrow> (\<forall>i < n. \<forall>j < n. same_page type (page_at type virt i) (page_at type virt j) \<longrightarrow> i = j)"

lemma distinct_pages_Suc:
  assumes "distinct_pages type virt (Suc n)"
  shows "distinct_pages type (virt + memory_type_page_size type) n"
    and "j < n \<Longrightarrow> \<not> same_page type virt (page_at type (virt + memory_type_page_size type) j)"
proof -
  show "distinct_pages type (virt + memory_type_page_size type) n"
    unfolding distinct_pages_def page_at_Suc [symmetric]
    using assms unfolding distinct_pages_def by (metis Suc_less_eq old.nat.inject)
  show "j < n \<Longrightarrow> \<not> same_page type virt (page_at type (virt + memory_type_page_size type) j)"
    unfolding page_at_Suc [symmetric]
    using assms unfolding distinct_pages_def by (metis Suc_less_eq page_at_0 zero_less_Suc old.nat.distinct(1))
qed

lemma same_page_sym: "same_page type v w \<longleftrightarrow> same_page type w v"
  by (auto simp: same_page_def)

lemma same_page_trans: "same_page type u v \<Longrightarrow> same_page type v w \<Longrightarrow> same_page type u w"
  by (simp add: same_page_def)

definition in_pages :: "u32 \<Rightarrow> u64 \<Rightarrow> nat \<Rightarrow> u64 \<Rightarrow> bool" where
  "in_pages type virt n v \<longleftrightarrow> (\<exists>j < n. same_page type v (page_at type virt j))"

lemma in_pages_Suc:
  "in_pages type virt (Suc n) v \<longleftrightarrow> same_page type v virt \<or> in_pages type (virt + memory_type_page_size type) n v"
  unfolding in_pages_def page_at_Suc [symmetric] by (metis Suc_less_eq less_Suc_eq_0_disj page_at_0)

lemma len_step:
  assumes "unat len = Suc n * 2 ^ page_bits type"
  shows "len \<noteq> 0" "unat (len - memory_type_page_size type) = n * 2 ^ page_bits type"
proof -
  have "unat (memory_type_page_size type) \<le> unat len" using assms by simp
  then have "unat (len - memory_type_page_size type) = unat len - unat (memory_type_page_size type)"
    by (intro u64_sub) (simp add: word_le_nat_alt)
  then show "unat (len - memory_type_page_size type) = n * 2 ^ page_bits type" using assms by simp
  show "len \<noteq> 0" using assms by auto
qed

lemma map_pages_ok:
  "frames s A \<Longrightarrow> tables_ok (fst s) root A \<Longrightarrow> unat len = n * 2 ^ page_bits type \<Longrightarrow> distinct_pages type virt n \<Longrightarrow>
   map_pages n root type s virt len addr = Inr s' \<Longrightarrow>
   \<exists>A'. A \<subseteq> A' \<and> frames s' A' \<and> tables_ok (fst s') root A' \<and>
     (\<forall>j v e k. j < n \<longrightarrow> same_page type v (page_at type virt j) \<longrightarrow>
        (leaf_entry (fst s') root (indices v) e k \<longleftrightarrow> e = leaf_value type (page_at type addr j) \<and> k = 4 - leaf_depth type)) \<and>
     (\<forall>v e k. \<not> in_pages type virt n v \<longrightarrow> (leaf_entry (fst s') root (indices v) e k \<longleftrightarrow> leaf_entry (fst s) root (indices v) e k)) \<and>
     (\<forall>j < n. table_at (fst s') root (take (leaf_depth type - 1) (indices (page_at type virt j))) \<noteq> None) \<and>
     (\<forall>q t. path_ok q \<longrightarrow> length q < leaf_depth type \<longrightarrow> table_at (fst s) root q = Some t \<longrightarrow> table_at (fst s') root q = Some t)"
proof (induction n arbitrary: s A virt len addr)
  case 0
  then have "s' = s" by (auto simp: unat_eq_0 split: if_splits)
  then show ?case using 0 by (intro exI [of _ A]) (simp add: in_pages_def)
next
  case (Suc n)
  let ?ps = "memory_type_page_size type" and ?d = "leaf_depth type"
  note len = len_step [OF Suc.prems(3)] and dp = distinct_pages_Suc [OF Suc.prems(4)]
  obtain s1 where s1: "map_page root type s virt addr = Inr s1"
    "map_pages n root type s1 (virt + ?ps) (len - ?ps) (addr + ?ps) = Inr s'"
    using Suc.prems(5) len(1) by (auto simp: res_simps)
  obtain A1 where A1: "A \<subseteq> A1" "frames s1 A1" "tables_ok (fst s1) root A1"
    "\<And>v e k. leaf_entry (fst s1) root (indices v) e k \<longleftrightarrow>
        (if same_page type v virt then e = leaf_value type addr \<and> k = 4 - ?d else leaf_entry (fst s) root (indices v) e k)"
    "table_at (fst s1) root (take (?d - 1) (indices virt)) \<noteq> None"
    "\<And>q t. path_ok q \<Longrightarrow> length q < ?d \<Longrightarrow> table_at (fst s) root q = Some t \<Longrightarrow> table_at (fst s1) root q = Some t"
    using map_page_ok [OF Suc.prems(1,2) s1(1)] by blast
  obtain A2 where A2: "A1 \<subseteq> A2" "frames s' A2" "tables_ok (fst s') root A2"
    "\<And>j v e k. j < n \<Longrightarrow> same_page type v (page_at type (virt + ?ps) j) \<Longrightarrow>
        leaf_entry (fst s') root (indices v) e k \<longleftrightarrow> e = leaf_value type (page_at type (addr + ?ps) j) \<and> k = 4 - ?d"
    "\<And>v e k. \<not> in_pages type (virt + ?ps) n v \<Longrightarrow> leaf_entry (fst s') root (indices v) e k \<longleftrightarrow> leaf_entry (fst s1) root (indices v) e k"
    "\<And>j. j < n \<Longrightarrow> table_at (fst s') root (take (?d - 1) (indices (page_at type (virt + ?ps) j))) \<noteq> None"
    "\<And>q t. path_ok q \<Longrightarrow> length q < ?d \<Longrightarrow> table_at (fst s1) root q = Some t \<Longrightarrow> table_at (fst s') root q = Some t"
    using Suc.IH [OF A1(2,3) len(2) dp(1) s1(2)] by blast
  have d: "1 \<le> ?d" "?d - 1 \<le> 3" by (auto simp: leaf_depth_def)
  have here: "\<not> in_pages type (virt + ?ps) n v" if "same_page type v virt" for v
    using dp(2) that same_page_sym same_page_trans unfolding in_pages_def by blast
  have 1: "leaf_entry (fst s') root (indices v) e k \<longleftrightarrow> e = leaf_value type (page_at type addr j) \<and> k = 4 - ?d"
    if "j < Suc n" "same_page type v (page_at type virt j)" for j v e k
  proof (cases j)
    case 0
    then show ?thesis using that(2) A2(5) [OF here] A1(4) by simp
  next
    case (Suc i)
    then show ?thesis using that A2(4) [of i v e k] by (simp add: page_at_Suc)
  qed
  have 2: "leaf_entry (fst s') root (indices v) e k \<longleftrightarrow> leaf_entry (fst s) root (indices v) e k"
    if "\<not> in_pages type virt (Suc n) v" for v e k
    using that A2(5) A1(4) unfolding in_pages_Suc by simp
  have 3: "table_at (fst s') root (take (?d - 1) (indices (page_at type virt j))) \<noteq> None" if "j < Suc n" for j
  proof (cases j)
    case 0
    have "path_ok (take (?d - 1) (indices virt))" "length (take (?d - 1) (indices virt)) < ?d"
      using indices_take_ok d by auto
    then show ?thesis using A1(5) A2(7) 0 by fastforce
  next
    case (Suc i)
    then show ?thesis using that A2(6) [of i] by (simp add: page_at_Suc)
  qed
  show ?case
    using A1(1,6) A2(1,2,3,7) 1 2 3 by (intro exI [of _ A2]) (simp only: simp_thms; blast)
qed

section \<open>What a walk means\<close>

text \<open>The physical address that \<open>virt_to_phys\<close> computes from the last entry.\<close>

definition phys_of :: "u64 \<Rightarrow> nat \<Rightarrow> u64 \<Rightarrow> u64" where
  "phys_of e k v = (e AND NOT (PAGEF_NX OR mask (12 + 9 * k))) OR (v AND mask (12 + 9 * k))"

lemma virt_to_phys_eq:
  "virt_to_phys m pml4 v =
     (let v4 = m (slot_of (table_entry pml4) (pml4e v)) in
      require (v4 AND PAGEF_PRESENT \<noteq> 0) ''pml4e & PAGEF_PRESENT'' (
      let v3 = m (slot_of (table_entry v4) (pdpe v)) in
      require (v3 AND PAGEF_PRESENT \<noteq> 0) ''pdpe & PAGEF_PRESENT'' (
      if v3 AND PAGEF_PAGESIZE \<noteq> 0 then Inr (phys_of v3 2 v) else
      let v2 = m (slot_of (table_entry v3) (pde v)) in
      require (v2 AND PAGEF_PRESENT \<noteq> 0) ''pde & PAGEF_PRESENT'' (
      if v2 AND PAGEF_PAGESIZE \<noteq> 0 then Inr (phys_of v2 1 v) else
      let v1 = m (slot_of (table_entry v2) (pte v)) in
      require (v1 AND PAGEF_PRESENT \<noteq> 0) ''pte & PAGEF_PRESENT'' (Inr (phys_of v1 0 v)))))) "
proof -
  have masks: "push_bit 30 1 - 1 = (mask 30 :: u64)" "push_bit 20 2 - 1 = (mask 21 :: u64)" "page_size - 1 = (mask 12 :: u64)"
    by (simp_all add: mask_eq_exp_minus_1 page_size_def)
  show ?thesis unfolding virt_to_phys_def masks phys_of_def Let_def by simp
qed

lemma virt_to_phys_leaf:
  assumes ok: "tables_ok m (table_entry pml4) A"
  shows "virt_to_phys m pml4 v = Inr x \<longleftrightarrow> (\<exists>e k. leaf_entry m (table_entry pml4) (indices v) e k \<and> x = phys_of e k v)"
proof -
  let ?root = "table_entry pml4"
  let ?v4 = "m (slot_of ?root (pml4e v))"
  have nops: "?v4 AND PAGEF_PRESENT \<noteq> 0 \<Longrightarrow> ?v4 AND PAGEF_PAGESIZE = 0"
    using tables_okD(1) [OF ok] by simp
  have le: "leaf_entry m ?root (indices v) e k \<longleftrightarrow>
      (k = 0 \<and> (\<exists>t. table_at m ?root [pml4e v, pdpe v, pde v] = Some t \<and> e = m (slot_of t (pte v)) \<and> e AND PAGEF_PRESENT \<noteq> 0)) \<or>
      (k = 1 \<and> (\<exists>t. table_at m ?root [pml4e v, pdpe v] = Some t \<and> e = m (slot_of t (pde v)) \<and> e AND PAGEF_PRESENT \<noteq> 0 \<and> e AND PAGEF_PAGESIZE \<noteq> 0)) \<or>
      (k = 2 \<and> (\<exists>t. table_at m ?root [pml4e v] = Some t \<and> e = m (slot_of t (pdpe v)) \<and> e AND PAGEF_PRESENT \<noteq> 0 \<and> e AND PAGEF_PAGESIZE \<noteq> 0))" for e k
    unfolding leaf_entry_def indices_def
    by (cases "k = 0"; cases "k = 1"; cases "k = 2") auto
  show ?thesis
  proof (cases "?v4 AND PAGEF_PRESENT = 0")
    case True
    then show ?thesis by (auto simp: virt_to_phys_eq le next_table_def)
  next
    case p4: False
    let ?t3 = "table_entry ?v4"
    let ?v3 = "m (slot_of ?t3 (pdpe v))"
    have t3: "next_table m ?root (pml4e v) = Some ?t3"
      using p4 nops by (simp add: next_table_def)
    show ?thesis
    proof (cases "?v3 AND PAGEF_PRESENT = 0 \<or> ?v3 AND PAGEF_PAGESIZE \<noteq> 0")
      case True
      then show ?thesis
        using p4 nops by (auto simp: virt_to_phys_eq le t3 next_table_def [of m "table_entry (m (slot_of (table_entry pml4) (pml4e v)))"] Let_def res_simps)
    next
      case p3: False
      let ?t2 = "table_entry ?v3"
      let ?v2 = "m (slot_of ?t2 (pde v))"
      have t2: "next_table m ?t3 (pdpe v) = Some ?t2"
        using p3 by (simp add: next_table_def)
      show ?thesis
      proof (cases "?v2 AND PAGEF_PRESENT = 0 \<or> ?v2 AND PAGEF_PAGESIZE \<noteq> 0")
        case True
        then show ?thesis
          using p4 p3 nops by (auto simp: virt_to_phys_eq le t3 t2 next_table_def [of m "table_entry (m (slot_of (table_entry (m (slot_of (table_entry pml4) (pml4e v)))) (pdpe v)))"] Let_def res_simps)
      next
        case p2: False
        have t1: "next_table m ?t2 (pde v) = Some (table_entry ?v2)"
          using p2 by (simp add: next_table_def)
        show ?thesis
          using p4 p3 p2 by (auto simp: virt_to_phys_eq le t3 t2 t1 Let_def res_simps)
      qed
    qed
  qed
qed

text \<open>For an entry that \<open>map_page\<close> wrote, this is the page's physical address plus the offset in the page.\<close>

lemma phys_of_leaf:
  assumes a: "2 ^ page_bits type dvd unat addr" "unat addr < 9223372036854775808"
  shows "unat (phys_of (leaf_value type addr) (4 - leaf_depth type) v) = unat addr + unat v mod 2 ^ page_bits type"
proof -
  let ?n = "page_bits type"
  let ?M = "PAGEF_NX OR mask ?n :: u64"
  have n: "12 + 9 * (4 - leaf_depth type) = ?n" by (simp add: page_bits_def)
  have fl: "((if leaf_depth type = 4 then 0 else PAGEF_PAGESIZE) OR page_flags type) AND NOT ?M = 0"
    using page_bits_cases [of type]
    by (auto simp: page_flags_def table_flags_def pagef_defs mask_eq_exp_minus_1)
  have lo: "addr AND mask ?n = 0"
  proof -
    have "unat (take_bit ?n addr) = take_bit ?n (unat addr)" by (rule unsigned_take_bit_eq)
    also have "\<dots> = 0" using a(1) by (simp add: take_bit_eq_mod dvd_eq_mod_eq_0)
    finally show ?thesis by (simp add: take_bit_eq_mask word_unat_eq_iff)
  qed
  have hi: "addr AND PAGEF_NX = 0"
  proof -
    have "\<not> bit addr 63"
      using a(2) by (simp add: bit_iff_odd drop_bit_eq_div [symmetric] word_unat_eq_iff unat_div odd_iff_mod_2_eq_one unat_mod)
    moreover have "PAGEF_NX = 2 ^ 63" by (simp add: PAGEF_NX_def)
    ultimately show ?thesis using and_exp_eq_0_iff_not_bit [of addr 63] by metis
  qed
  have "addr AND ?M = 0" using lo hi by (simp add: bit.conj_disj_distrib)
  then have ad: "addr AND NOT ?M = addr" by (rule and_not_self)
  have e: "leaf_value type addr AND NOT ?M = addr"
    unfolding leaf_value_def or.assoc using fl ad by (simp add: bit.conj_disj_distrib2 or.assoc)
  have "phys_of (leaf_value type addr) (4 - leaf_depth type) v = addr OR (v AND mask ?n)"
    unfolding phys_of_def n e ..
  also have "\<dots> = addr + (v AND mask ?n)"
  proof (rule disjunctive_add [symmetric])
    fix i
    have "\<not> (bit addr i \<and> bit (mask ?n :: u64) i)" using lo bit_and_iff [of addr "mask ?n" i] by simp
    then show "\<not> bit addr i \<or> \<not> bit (v AND mask ?n) i" by (auto simp: bit_and_iff)
  qed
  finally have p: "phys_of (leaf_value type addr) (4 - leaf_depth type) v = addr + take_bit ?n v"
    by (simp add: take_bit_eq_mask)
  have t: "unat (take_bit ?n v) = unat v mod 2 ^ ?n"
    by (rule trans [OF unsigned_take_bit_eq take_bit_eq_mod])
  have "(2::nat) ^ ?n \<le> 1073741824" using page_bits_cases [of type] by auto
  then have "unat v mod 2 ^ ?n < 1073741824" by (meson mod_less_divisor less_le_trans zero_less_numeral zero_less_power)
  then show ?thesis unfolding p using a(2) t by (simp add: u64_add)
qed

section \<open>Unmapping\<close>

lemma unmap_page_eq:
  assumes "table_at m root (take (leaf_depth type - 1) (indices virt)) = Some t"
  shows "unmap_page root type m virt = Inr (m(slot_of t (indices virt ! (leaf_depth type - 1)) := 0))"
proof -
  have nt: "next_table m u i = Some w \<Longrightarrow> present_table_entry (m (slot_of u i)) = Inr w" for u i w
    by (auto simp: next_table_def present_table_entry_def Let_def split: if_splits)
  show ?thesis
    using assms
    by (auto simp: unmap_page_def leaf_depth_def indices_def nt split: option.splits if_splits)
qed

lemma unmap_page_ok:
  assumes fr: "frames s A" and ok: "tables_ok (fst s) root A"
    and t: "table_at (fst s) root (take (leaf_depth type - 1) (indices virt)) = Some t"
  shows "\<exists>m'. unmap_page root type (fst s) virt = Inr m' \<and> frames (m', snd s) A \<and> tables_ok m' root A \<and>
           (\<forall>v e k. leaf_entry m' root (indices v) e k \<longleftrightarrow> \<not> same_page type v virt \<and> leaf_entry (fst s) root (indices v) e k) \<and>
           (\<forall>q. path_ok q \<longrightarrow> length q < leaf_depth type \<longrightarrow> table_at m' root q = table_at (fst s) root q)"
proof -
  define n where "n = leaf_depth type - 1"
  define p where "p = take n (indices virt)"
  define i where "i = indices virt ! n"
  let ?s = "((fst s)(slot_of t i := 0), snd s)"
  have d: "leaf_depth type = n + 1" "1 \<le> n" "n \<le> 3" by (auto simp: leaf_depth_def n_def)
  have lp: "length p = n" "path_ok p" "i < 512"
    using d indices_take_ok [of n virt] indices_nth [of n virt] by (auto simp: p_def i_def)
  have ne: "p \<noteq> []" using lp(1) d(2) by auto
  have pi: "p @ [i] = take (leaf_depth type) (indices virt)"
    unfolding p_def i_def d(1) using d(3) by (simp add: take_Suc_conv_app_nth)
  have t': "table_at (fst s) root p = Some t" using t by (simp add: p_def n_def)
  note lw = leaf_write_ok [OF fr ok lp(2) t' lp(3) ne, of 0 ?s, simplified]
  have le: "leaf_entry (fst ?s) root (indices v) e k \<longleftrightarrow> \<not> same_page type v virt \<and> leaf_entry (fst s) root (indices v) e k" for v e k
  proof -
    have "same_page type v virt \<longleftrightarrow> take (Suc (length p)) (indices v) = p @ [i]"
      using pi lp(1) d(1) by (simp add: same_page_def)
    then show ?thesis using lw(3,4) [of v] by auto
  qed
  have ta: "table_at (fst ?s) root q = table_at (fst s) root q" if "path_ok q" "length q < leaf_depth type" for q
  proof -
    have "\<not> (\<exists>c. q = p @ i # c)" using that(2) lp(1) d(1) by auto
    then show ?thesis using lw(5) [OF that(1)] by simp
  qed
  have "unmap_page root type (fst s) virt = Inr (fst ?s)"
    using unmap_page_eq [OF t] by (simp add: i_def n_def)
  then show ?thesis using lw(1,2) le ta by (intro exI [of _ "fst ?s"]) auto
qed

lemma unmap_pages_ok:
  "frames s A \<Longrightarrow> tables_ok (fst s) root A \<Longrightarrow> unat len = n * 2 ^ page_bits type \<Longrightarrow>
   (\<forall>j < n. table_at (fst s) root (take (leaf_depth type - 1) (indices (page_at type virt j))) \<noteq> None) \<Longrightarrow>
   \<exists>m'. unmap_pages n root type (fst s) virt len = Inr m' \<and> frames (m', snd s) A \<and> tables_ok m' root A \<and>
     (\<forall>v e k. leaf_entry m' root (indices v) e k \<longleftrightarrow> \<not> in_pages type virt n v \<and> leaf_entry (fst s) root (indices v) e k)"
proof (induction n arbitrary: s virt len)
  case 0
  then have "len = 0" by (simp add: unat_eq_0)
  then show ?case using 0 by (simp add: in_pages_def)
next
  case (Suc n)
  let ?ps = "memory_type_page_size type" and ?d = "leaf_depth type"
  note len = len_step [OF Suc.prems(3)]
  obtain t where "table_at (fst s) root (take (?d - 1) (indices virt)) = Some t"
    using Suc.prems(4) by force
  then obtain m1 where m1: "unmap_page root type (fst s) virt = Inr m1" "frames (m1, snd s) A" "tables_ok m1 root A"
    "\<And>v e k. leaf_entry m1 root (indices v) e k \<longleftrightarrow> \<not> same_page type v virt \<and> leaf_entry (fst s) root (indices v) e k"
    "\<And>q. path_ok q \<Longrightarrow> length q < ?d \<Longrightarrow> table_at m1 root q = table_at (fst s) root q"
    using unmap_page_ok [OF Suc.prems(1,2)] by blast
  have d: "?d - 1 \<le> 3" "1 \<le> ?d" by (auto simp: leaf_depth_def)
  have tab: "\<forall>j < n. table_at (fst (m1, snd s)) root (take (?d - 1) (indices (page_at type (virt + ?ps) j))) \<noteq> None"
  proof (intro allI impI)
    fix j assume "j < n"
    let ?q = "take (?d - 1) (indices (page_at type (virt + ?ps) j))"
    have "path_ok ?q" "length ?q < ?d" using d indices_take_ok by auto
    then have "table_at m1 root ?q = table_at (fst s) root ?q" by (rule m1(5))
    then show "table_at (fst (m1, snd s)) root ?q \<noteq> None"
      using Suc.prems(4) \<open>j < n\<close> by (simp add: page_at_Suc [symmetric])
  qed
  obtain m2 where m2: "unmap_pages n root type m1 (virt + ?ps) (len - ?ps) = Inr m2" "frames (m2, snd s) A" "tables_ok m2 root A"
    "\<And>v e k. leaf_entry m2 root (indices v) e k \<longleftrightarrow> \<not> in_pages type (virt + ?ps) n v \<and> leaf_entry m1 root (indices v) e k"
    using Suc.IH [of "(m1, snd s)", OF m1(2) _ len(2) tab] m1(3) by (simp; blast)
  show ?case
    using m1(1,4) m2 len(1) unfolding in_pages_Suc by (intro exI [of _ m2]) auto
qed

section \<open>Requests\<close>

lemma aligned_iff: "x AND (memory_type_page_size type - 1) = 0 \<longleftrightarrow> 2 ^ page_bits type dvd unat x"
proof -
  have "x AND (memory_type_page_size type - 1) = take_bit (page_bits type) x"
    by (simp add: page_size_bits take_bit_eq_mask mask_eq_exp_minus_1)
  moreover have "unat (take_bit (page_bits type) x) = unat x mod 2 ^ page_bits type"
    by (rule trans [OF unsigned_take_bit_eq take_bit_eq_mod])
  ultimately show ?thesis by (simp add: word_unat_eq_iff dvd_eq_mod_eq_0)
qed

text \<open>What the checks of \<open>do_map_memory\<close> establish.\<close>

lemma find_mapping_free_virt [simp]: "find_mapping (s\<lparr>mm_free_virt := f\<rparr>) a n = find_mapping s a n"
  by (simp add: find_mapping_def)

lemma map_request_facts:
  assumes "map_request s virt0 len type addr = Inr (virt, s1)"
  shows "0 < unat len" "2 ^ page_bits type dvd unat len" "2 ^ page_bits type dvd unat addr" "unat addr < 4294967296"
    "2 ^ page_bits type dvd unat virt" "unat virt + unat len < 18446744073709551616"
    "find_mapping s virt len = Inr None" "mt_has type mt_read"
    "\<exists>f. s1 = s\<lparr>mm_free_virt := f\<rparr>"
proof -
  let ?ps = "memory_type_page_size type"
  have s1: "\<exists>f. s1 = s\<lparr>mm_free_virt := f\<rparr>"
  proof -
    have "s = s\<lparr>mm_free_virt := mm_free_virt s\<rparr>" by simp
    then show ?thesis
      using assms unfolding map_request_def virtual_alloc_def Let_def
      by (auto simp: res_simps split: if_splits intro: exI [of _ "mm_free_virt s1"])
  qed
  then show "\<exists>f. s1 = s\<lparr>mm_free_virt := f\<rparr>" .
  have all: "len > 0 \<and> len AND (?ps - 1) = 0 \<and> addr AND (?ps - 1) = 0 \<and> addr < push_bit 32 1 \<and>
      virt AND (?ps - 1) = 0 \<and> virt + len > virt \<and> find_mapping s1 virt len = Inr None \<and> mt_has type mt_read"
    using assms by (auto simp: map_request_def Let_def res_simps)
  then show "0 < unat len" "unat addr < 4294967296" "mt_has type mt_read"
    by (auto simp: word_less_nat_alt)
  show "2 ^ page_bits type dvd unat len" "2 ^ page_bits type dvd unat addr" "2 ^ page_bits type dvd unat virt"
    using all unfolding aligned_iff by blast+
  show "unat virt + unat len < 18446744073709551616"
  proof (rule ccontr)
    assume "\<not> ?thesis"
    then have "unat (virt + len) = unat virt + unat len - 18446744073709551616" by (simp add: unat_plus_if')
    moreover have "unat virt < unat (virt + len)" using all by (simp add: word_less_nat_alt)
    ultimately show False using u64_range [of len] by linarith
  qed
  show "find_mapping s virt len = Inr None" using all s1 by auto
qed

text \<open>The mappings \<open>xs\<close> of a memory manager, by address; the heap they come from is not used up past its end.\<close>

definition mappings_ok :: "memory_manager \<Rightarrow> u64 list \<Rightarrow> bool" where
  "mappings_ok s xs \<longleftrightarrow> tree_holds (\<lambda>q. mp_addr (mm_objs s q)) (mm_tree s) xs \<and>
     (\<forall>q \<in> set xs. unat q < unat (nf_cur (mm_heap s))) \<and>
     unat (nf_cur (mm_heap s)) \<le> unat (nf_end (mm_heap s)) \<and> unat (nf_end (mm_heap s)) < 18446744073709551000"

lemma tree_holds_key_cong:
  "(\<And>q. q \<in> set xs \<Longrightarrow> key' q = key q) \<Longrightarrow> tree_holds key' st xs \<longleftrightarrow> tree_holds key st xs"
  unfolding tree_holds_def by (simp cong: map_cong)

lemma find_mapping_eq:
  "mappings_ok s xs \<Longrightarrow> find_mapping s a n =
     Inr (List.find (\<lambda>p. memory_areas_overlap a n (mp_addr (mm_objs s p)) (mp_length (mm_objs s p))) xs)"
  unfolding mappings_ok_def find_mapping_def returned_def
  by (metis (no_types, lifting) node_tree.first_match_find option.simps(5))

text \<open>A mapping is constructed and inserted.\<close>

definition new_mapping :: "u64 \<Rightarrow> u64 \<Rightarrow> u32 \<Rightarrow> memory_mapping" where
  "new_mapping virt len type = \<lparr>mp_addr = virt, mp_length = len, mp_type = type\<rparr>"

lemma add_mapping:
  assumes ok: "mappings_ok s xs" and c: "construct_mapping s virt len type = Inr (p, s1)" and i: "insert_mapping s1 p = Inr s2"
  shows "p \<notin> set xs" "mm_objs s2 = (mm_objs s)(p := new_mapping virt len type)" "mm_pml4 s2 = mm_pml4 s"
    "\<exists>ys. mappings_ok s2 ys \<and> set ys = insert p (set xs) \<and> remove1 p ys = xs"
proof -
  let ?k = "\<lambda>q. mp_addr (mm_objs s1 q)"
  have p: "p = nf_cur (mm_heap s)" and h: "nf_cur (mm_heap s1) = p + 48" "nf_end (mm_heap s1) = nf_end (mm_heap s)"
    "p + 48 \<le> nf_end (mm_heap s)"
    and s1: "mm_objs s1 = (mm_objs s)(p := new_mapping virt len type)" "mm_pml4 s1 = mm_pml4 s"
    "mm_tree s1 = ((fst (mm_tree s))(p := loose), snd (mm_tree s))"
    using c by (auto simp: construct_mapping_def no_free_heap_alloc_def memory_mapping_new_def Let_def res_simps round_up_def
        sizeof_memory_mapping_def alignof_memory_mapping_def new_mapping_def)
  show nin: "p \<notin> set xs" using ok p by (auto simp: mappings_ok_def)
  have tree: "tree_holds (\<lambda>q. mp_addr (mm_objs s q)) (mm_tree s) xs" using ok by (simp add: mappings_ok_def)
  then have "fst (mm_tree s) p = loose" using nin by (simp add: tree_holds_def)
  then have "mm_tree s1 = mm_tree s" by (simp add: s1(3) fun_upd_idem prod_eq_iff)
  then have t1: "tree_holds ?k (mm_tree s1) xs"
  proof -
    have "?k q = mp_addr (mm_objs s q)" if "q \<in> set xs" for q using nin s1(1) that by auto
    then have "tree_holds ?k (mm_tree s) xs \<longleftrightarrow> tree_holds (\<lambda>q. mp_addr (mm_objs s q)) (mm_tree s) xs"
      by (rule tree_holds_key_cong)
    then show ?thesis using tree \<open>mm_tree s1 = mm_tree s\<close> by simp
  qed
  obtain t where t: "tree_put ?k (mm_tree s1) p = Some t"
    "tree_holds ?k t (ins_list (\<lambda>a b. ?k a < ?k b) p xs)"
    using node_tree.put_holds [OF t1 nin] by blast
  have s2: "s2 = s1\<lparr>mm_tree := t\<rparr>" using i t(1) by (simp add: insert_mapping_def returned_def)
  show "mm_objs s2 = (mm_objs s)(p := new_mapping virt len type)" "mm_pml4 s2 = mm_pml4 s"
    using s1 by (simp_all add: s2)
  let ?ys = "ins_list (\<lambda>a b. ?k a < ?k b) p xs"
  have set: "set ?ys = insert p (set xs)" by (induction xs) auto
  have rem: "remove1 p ?ys = xs" using nin by (induction xs) auto
  have u: "unat (p + 48) = unat p + 48" using ok p by (simp add: mappings_ok_def u64_add)
  have "mappings_ok s2 ?ys"
    using t(2) set ok h p u by (auto simp: mappings_ok_def s2 word_le_nat_alt)
  then show "\<exists>ys. mappings_ok s2 ys \<and> set ys = insert p (set xs) \<and> remove1 p ys = xs" using set rem by blast
qed

section \<open>What the memory manager promises\<close>

text \<open>The physical address of the top table, as loaded into CR3.\<close>

definition mm_cr3 :: "memory_manager \<Rightarrow> u64" where
  "mm_cr3 s = from_identity_mapped_ptr (mm_pml4 s)"

definition mm_ok :: "phys \<Rightarrow> memory_manager \<Rightarrow> u64 set \<Rightarrow> u64 list \<Rightarrow> bool" where
  "mm_ok ph s A xs \<longleftrightarrow> frames ph A \<and> tables_ok (fst ph) (mm_pml4 s) A \<and> mappings_ok s xs"

lemma cr3_root:
  assumes "frames ph A" "tables_ok (fst ph) (mm_pml4 s) A"
  shows "table_entry (mm_cr3 s) = mm_pml4 s"
proof -
  have "mm_pml4 s \<in> A" using tables_okD(2) [OF assms(2), of "[]"] by simp
  then show ?thesis
    using table_entry_link [of "mm_pml4 s" 0] frames_page [OF assms(1)] frames_high [OF assms(1)] by (simp add: mm_cr3_def)
qed

lemma page_at_unat:
  assumes "unat base + j * 2 ^ page_bits type < 18446744073709551616"
  shows "unat (page_at type base j) = unat base + j * 2 ^ page_bits type"
proof -
  have "j * 1 \<le> j * 2 ^ page_bits type" by (intro mult_le_mono2) simp
  then have "j < 18446744073709551616" using assms by linarith
  then have j: "unat (of_nat j :: u64) = j" by (rule unat_of_nat_u64)
  have "unat (of_nat j * memory_type_page_size type) = j * 2 ^ page_bits type"
    using assms j by (subst unat_mult_lem [THEN iffD1]) auto
  then show ?thesis using assms by (simp add: page_at_def u64_add)
qed

lemma range_page:
  assumes virt: "2 ^ page_bits type dvd unat virt" and x: "x < n * 2 ^ page_bits type"
    and fits: "unat virt + n * 2 ^ page_bits type < 18446744073709551616"
    and v: "unat v = unat virt + x"
  shows "x div 2 ^ page_bits type < n" "same_page type v (page_at type virt (x div 2 ^ page_bits type))"
    "unat v mod 2 ^ page_bits type = x mod 2 ^ page_bits type"
proof -
  let ?p = "2 ^ page_bits type :: nat"
  show j: "x div ?p < n" using x by (simp add: less_mult_imp_div_less)
  have "x div ?p * ?p \<le> n * ?p" using j by (intro mult_le_mono1) simp
  then have pa: "unat (page_at type virt (x div ?p)) = unat virt + x div ?p * ?p"
    using fits by (intro page_at_unat) linarith
  obtain c where c: "unat virt = ?p * c" using virt by (auto elim: dvdE)
  have "unat v div ?p = c + x div ?p" "unat (page_at type virt (x div ?p)) div ?p = c + x div ?p"
    unfolding v pa c by (simp_all add: div_mult_self4)
  then show "same_page type v (page_at type virt (x div ?p))" by (simp add: same_page_iff)
  show "unat v mod ?p = x mod ?p" unfolding v c by simp
qed

lemma in_pages_low_bits:
  assumes "in_pages type virt n v" and virt: "2 ^ page_bits type dvd unat virt"
    and fits: "unat virt + n * 2 ^ page_bits type < 18446744073709551616"
  shows "\<exists>x < n * 2 ^ page_bits type. unat v mod 2 ^ 48 = (unat virt + x) mod 2 ^ 48"
proof -
  let ?p = "2 ^ page_bits type :: nat" and ?n = "2 ^ (48 - page_bits type) :: nat"
  obtain j where j: "j < n" "same_page type v (page_at type virt j)" using assms(1) by (auto simp: in_pages_def)
  let ?x = "j * ?p + unat v mod ?p"
  have pn: "?p * ?n = 2 ^ 48" using page_bits_cases [of type] by (auto simp: power_add [symmetric])
  have "(j + 1) * ?p \<le> n * ?p" using j(1) by (intro mult_le_mono1) simp
  moreover have "(j + 1) * ?p = j * ?p + ?p" by simp
  moreover have "unat v mod ?p < ?p" by simp
  ultimately have xn: "?x < n * ?p" by linarith
  have "j * ?p \<le> n * ?p" using j(1) by (intro mult_le_mono1) simp
  then have pa: "unat (page_at type virt j) = unat virt + j * ?p" using fits by (intro page_at_unat) linarith
  obtain c where c: "unat virt = ?p * c" using virt by (auto elim: dvdE)
  have "unat v div ?p mod ?n = (c + j) mod ?n"
    using j(2) unfolding same_page_iff pa c by (simp add: div_mult_self4)
  moreover have "(unat virt + ?x) div ?p = c + j" unfolding c by (simp add: algebra_simps div_mult_self4)
  moreover have "(unat virt + ?x) mod ?p = unat v mod ?p" unfolding c by (simp add: algebra_simps)
  ultimately have "unat v mod (?p * ?n) = (unat virt + ?x) mod (?p * ?n)"
    by (subst mod_digits) simp_all
  then show ?thesis using xn unfolding pn by blast
qed

text \<open>Everything a successful \<open>do_map_memory\<close> does, with the mapping at \<open>p\<close> and \<open>n\<close> pages.\<close>

definition map_effect ::
  "phys \<Rightarrow> memory_manager \<Rightarrow> u64 set \<Rightarrow> u64 list \<Rightarrow> u64 \<Rightarrow> u64 \<Rightarrow> u32 \<Rightarrow> u64 \<Rightarrow> phys \<Rightarrow> memory_manager \<Rightarrow> u64 set \<Rightarrow> u64 list \<Rightarrow> u64 \<Rightarrow> nat \<Rightarrow> bool" where
  "map_effect ph s A xs virt len type addr ph' s' A' ys p n \<longleftrightarrow>
     A \<subseteq> A' \<and> mm_ok ph' s' A' ys \<and> p \<notin> set xs \<and> set ys = insert p (set xs) \<and> remove1 p ys = xs \<and>
     mm_pml4 s' = mm_pml4 s \<and> mm_objs s' = (mm_objs s)(p := new_mapping virt len type) \<and>
     find_mapping s virt len = Inr None \<and> 0 < n \<and> unat len = n * 2 ^ page_bits type \<and> 2 ^ page_bits type dvd unat virt \<and>
     2 ^ page_bits type dvd unat addr \<and> unat addr < 4294967296 \<and> unat virt + unat len < 18446744073709551616 \<and>
     (\<forall>j v e k. j < n \<longrightarrow> same_page type v (page_at type virt j) \<longrightarrow>
        (leaf_entry (fst ph') (mm_pml4 s) (indices v) e k \<longleftrightarrow> e = leaf_value type (page_at type addr j) \<and> k = 4 - leaf_depth type)) \<and>
     (\<forall>v e k. \<not> in_pages type virt n v \<longrightarrow>
        (leaf_entry (fst ph') (mm_pml4 s) (indices v) e k \<longleftrightarrow> leaf_entry (fst ph) (mm_pml4 s) (indices v) e k)) \<and>
     (\<forall>j < n. table_at (fst ph') (mm_pml4 s) (take (leaf_depth type - 1) (indices (page_at type virt j))) \<noteq> None)"

lemma map_effectD:
  assumes "map_effect ph s A xs virt len type addr ph' s' A' ys p n"
  shows "A \<subseteq> A'" "mm_ok ph' s' A' ys" "p \<notin> set xs" "set ys = insert p (set xs)" "remove1 p ys = xs"
    "mm_pml4 s' = mm_pml4 s" "mm_objs s' = (mm_objs s)(p := new_mapping virt len type)"
    "find_mapping s virt len = Inr None" "0 < n" "unat len = n * 2 ^ page_bits type" "2 ^ page_bits type dvd unat virt"
    "2 ^ page_bits type dvd unat addr" "unat addr < 4294967296" "unat virt + unat len < 18446744073709551616"
    "\<And>j v e k. j < n \<Longrightarrow> same_page type v (page_at type virt j) \<Longrightarrow>
        leaf_entry (fst ph') (mm_pml4 s) (indices v) e k \<longleftrightarrow> e = leaf_value type (page_at type addr j) \<and> k = 4 - leaf_depth type"
    "\<And>v e k. \<not> in_pages type virt n v \<Longrightarrow>
        leaf_entry (fst ph') (mm_pml4 s) (indices v) e k \<longleftrightarrow> leaf_entry (fst ph) (mm_pml4 s) (indices v) e k"
    "\<forall>j < n. table_at (fst ph') (mm_pml4 s) (take (leaf_depth type - 1) (indices (page_at type virt j))) \<noteq> None"
  using assms unfolding map_effect_def by blast+

lemma do_map_memory_core:
  assumes ok: "mm_ok ph s A xs" and len: "unat len \<le> 2 ^ 48"
    and res: "do_map_memory (ph, s) virt0 len type addr = Inr (virt, ph', s')"
  shows "\<exists>A' ys p n. map_effect ph s A xs virt len type addr ph' s' A' ys p n"
proof -
  obtain s1 p s2 where r: "map_request s virt0 len type addr = Inr (virt, s1)" "construct_mapping s1 virt len type = Inr (p, s2)"
    "insert_mapping s2 p = Inr s'"
    "map_pages (unat len div 2 ^ page_bits type) (mm_pml4 s') type ph virt len addr = Inr ph'"
    using res by (auto simp: do_map_memory_def res_simps)
  note f = map_request_facts [OF r(1)]
  obtain fv where s1: "s1 = s\<lparr>mm_free_virt := fv\<rparr>" using f(9) by blast
  have ok1: "mappings_ok s1 xs" using ok by (simp add: s1 mm_ok_def mappings_ok_def)
  note am = add_mapping [OF ok1 r(2,3)]
  obtain ys where ys: "mappings_ok s' ys" "set ys = insert p (set xs)" "remove1 p ys = xs" using am(4) by blast
  have s': "mm_pml4 s' = mm_pml4 s" "mm_objs s' = (mm_objs s)(p := new_mapping virt len type)" using am(2,3) by (simp_all add: s1)
  define n where "n = unat len div 2 ^ page_bits type"
  have n: "unat len = n * 2 ^ page_bits type" using f(2) by (simp add: n_def)
  have n0: "0 < n" using f(1) n by (cases n) auto
  have dist: "distinct_pages type virt n"
    unfolding distinct_pages_def
  proof (intro allI impI)
    fix i j assume ij: "i < n" "j < n" "same_page type (page_at type virt i) (page_at type virt j)"
    have "i * 2 ^ page_bits type < n * 2 ^ page_bits type" "j * 2 ^ page_bits type < n * 2 ^ page_bits type" using ij by simp_all
    then show "i = j"
      using same_page_range [of virt j type i] ij(3) n f(6) len unfolding page_at_def by linarith
  qed
  have fr: "frames ph A" "tables_ok (fst ph) (mm_pml4 s) A" using ok by (simp_all add: mm_ok_def)
  note mp = map_pages_ok [OF fr n dist, of addr ph'] 
  obtain A' where A': "A \<subseteq> A'" "frames ph' A'" "tables_ok (fst ph') (mm_pml4 s) A'"
    "\<And>j v e k. j < n \<Longrightarrow> same_page type v (page_at type virt j) \<Longrightarrow>
        leaf_entry (fst ph') (mm_pml4 s) (indices v) e k \<longleftrightarrow> e = leaf_value type (page_at type addr j) \<and> k = 4 - leaf_depth type"
    "\<And>v e k. \<not> in_pages type virt n v \<Longrightarrow>
        leaf_entry (fst ph') (mm_pml4 s) (indices v) e k \<longleftrightarrow> leaf_entry (fst ph) (mm_pml4 s) (indices v) e k"
    "\<forall>j < n. table_at (fst ph') (mm_pml4 s) (take (leaf_depth type - 1) (indices (page_at type virt j))) \<noteq> None"
    using mp r(4) unfolding n_def s'(1) by blast
  have "mm_ok ph' s' A' ys" using A'(2,3) ys(1) s'(1) by (simp add: mm_ok_def)
  moreover have "find_mapping s virt len = Inr None" by (rule f(7))
  ultimately have "map_effect ph s A xs virt len type addr ph' s' A' ys p n"
    using A' ys s' am(1) n n0 f(3-6) unfolding map_effect_def by blast
  then show ?thesis by blast
qed

text \<open>C1: after a successful \<open>do_map_memory\<close> every address of the new range translates to the physical address at
  the same offset, no address outside it translates differently, and the tables and the tree of mappings
  are well formed again.\<close>

theorem map_memory_translates:
  assumes "mm_ok ph s A xs" "unat len \<le> 2 ^ 48"
    and "do_map_memory (ph, s) virt0 len type addr = Inr (virt, ph', s')"
  shows "(\<exists>A' ys. A \<subseteq> A' \<and> mm_ok ph' s' A' ys) \<and> mm_cr3 s' = mm_cr3 s \<and>
     (\<forall>x < len. virt_to_phys (fst ph') (mm_cr3 s) (virt + x) = Inr (addr + x)) \<and>
     (\<forall>v y. (\<forall>x < unat len. unat v mod 2 ^ 48 \<noteq> (unat virt + x) mod 2 ^ 48) \<longrightarrow>
        (virt_to_phys (fst ph') (mm_cr3 s) v = Inr y \<longleftrightarrow> virt_to_phys (fst ph) (mm_cr3 s) v = Inr y))"
proof -
  obtain A' ys p n where e: "map_effect ph s A xs virt len type addr ph' s' A' ys p n"
    using do_map_memory_core [OF assms] by blast
  note c = map_effectD(1,2,6,10-16) [OF e]
  have cr3: "table_entry (mm_cr3 s) = mm_pml4 s" using cr3_root [of ph A s] assms(1) by (simp add: mm_ok_def)
  have vtp: "virt_to_phys m (mm_cr3 s) v = Inr y \<longleftrightarrow> (\<exists>e k. leaf_entry m (mm_pml4 s) (indices v) e k \<and> y = phys_of e k v)"
    if "tables_ok m (mm_pml4 s) B" for m B v y
    using virt_to_phys_leaf [of m "mm_cr3 s" B v y] that by (simp add: cr3)
  have t: "tables_ok (fst ph) (mm_pml4 s) A" "tables_ok (fst ph') (mm_pml4 s) A'"
    using assms(1) c(2,3) by (simp_all add: mm_ok_def)
  have "virt_to_phys (fst ph') (mm_cr3 s) (virt + x) = Inr (addr + x)" if x: "x < len" for x
  proof -
    let ?p = "2 ^ page_bits type :: nat"
    have x': "unat x < n * ?p" using x c(4) by (simp add: word_less_nat_alt)
    have v: "unat (virt + x) = unat virt + unat x" using x c(8) by (simp add: u64_add word_less_nat_alt)
    note rp = range_page [OF c(5) x' c(8) [unfolded c(4)] v]
    let ?j = "unat x div ?p"
    have "?j * ?p \<le> unat x" by simp
    moreover have x48: "unat x < 281474976710656" using x assms(2) by (simp add: word_less_nat_alt)
    ultimately have jp: "?j * ?p < 281474976710656" by linarith
    then have "unat addr + ?j * ?p < 18446744073709551616" using c(7) by linarith
    then have pa: "unat (page_at type addr ?j) = unat addr + ?j * ?p" "?j * ?p < 281474976710656"
      using page_at_unat jp by blast+
    have "unat (phys_of (leaf_value type (page_at type addr ?j)) (4 - leaf_depth type) (virt + x)) =
        unat (page_at type addr ?j) + unat (virt + x) mod ?p"
      by (rule phys_of_leaf) (use pa c(6,7) in auto)
    also have "\<dots> = unat (addr + x)"
    proof -
      have "unat (addr + x) = unat addr + unat x" using c(7) x48 by (simp add: u64_add)
      then show ?thesis using pa(1) rp(3) div_mult_mod_eq [of "unat x" ?p] by linarith
    qed
    finally have "addr + x = phys_of (leaf_value type (page_at type addr ?j)) (4 - leaf_depth type) (virt + x)"
      by (simp add: word_unat_eq_iff)
    then show ?thesis using vtp [OF t(2)] c(9) [OF rp(1,2)] by blast
  qed
  moreover have "virt_to_phys (fst ph') (mm_cr3 s) v = Inr y \<longleftrightarrow> virt_to_phys (fst ph) (mm_cr3 s) v = Inr y"
    if "\<forall>x < unat len. unat v mod 2 ^ 48 \<noteq> (unat virt + x) mod 2 ^ 48" for v y
  proof -
    have "\<not> in_pages type virt n v" using in_pages_low_bits [OF _ c(5), of n v] c(4,8) that by auto
    then show ?thesis using vtp [OF t(1)] vtp [OF t(2)] c(10) by simp
  qed
  ultimately show ?thesis using c(1,2,3) by (auto simp: mm_cr3_def)
qed

text \<open>C2: what \<open>do_map_memory\<close> maps, \<open>do_unmap_memory\<close> unmaps: it returns, no address of the range translates any
  more, every other address translates as it did before the range was mapped, and the mapping is gone.\<close>

theorem unmap_memory_undoes_map:
  assumes "mm_ok ph s A xs" "unat len \<le> 2 ^ 48"
    and "do_map_memory (ph, s) virt0 len type addr = Inr (virt, ph', s')"
  shows "\<exists>ph'' s'' A'. do_unmap_memory (ph', s') virt len = Inr (ph'', s'') \<and> mm_ok ph'' s'' A' xs \<and>
     (\<forall>x < len. \<forall>y. virt_to_phys (fst ph'') (mm_cr3 s) (virt + x) \<noteq> Inr y) \<and>
     (\<forall>v y. (\<forall>x < unat len. unat v mod 2 ^ 48 \<noteq> (unat virt + x) mod 2 ^ 48) \<longrightarrow>
        (virt_to_phys (fst ph'') (mm_cr3 s) v = Inr y \<longleftrightarrow> virt_to_phys (fst ph) (mm_cr3 s) v = Inr y))"
proof -
  obtain A' ys p n where e: "map_effect ph s A xs virt len type addr ph' s' A' ys p n"
    using do_map_memory_core [OF assms] by blast
  note c = map_effectD(1-11,14,16,17) [OF e]
  have ok': "frames ph' A'" "tables_ok (fst ph') (mm_pml4 s) A'" "mappings_ok s' ys" using c(2,6) by (simp_all add: mm_ok_def)
  let ?ov = "\<lambda>q. memory_areas_overlap virt len (mp_addr (mm_objs s' q)) (mp_length (mm_objs s' q))"
  have none: "\<not> ?ov q" if "q \<in> set xs" for q
  proof -
    have "List.find (\<lambda>q. memory_areas_overlap virt len (mp_addr (mm_objs s q)) (mp_length (mm_objs s q))) xs = None"
      using find_mapping_eq [of s xs virt len] assms(1) c(8) by (simp add: mm_ok_def)
    then show ?thesis using that c(3,7) by (auto simp: find_None_iff)
  qed
  have pv: "mm_objs s' p = new_mapping virt len type" using c(7) by simp
  have ovp: "?ov p"
  proof -
    have "unat (virt + len) = unat virt + unat len" using c(12) by (simp add: u64_add)
    then show ?thesis
      using c(9,10) assms(2) by (simp add: pv new_mapping_def memory_areas_overlap_def sint_u64)
  qed
  have "List.find ?ov ys = Some p"
  proof (cases "List.find ?ov ys")
    case None
    then show ?thesis using ovp c(4) by (auto simp: find_None_iff)
  next
    case (Some q)
    then have "q \<in> set ys" "?ov q" by (auto simp: find_Some_iff)
    then show ?thesis using Some c(4) none by auto
  qed
  then have fm: "find_mapping s' virt len = Inr (Some p)" using find_mapping_eq [OF ok'(3)] by simp
  have tree: "tree_holds (\<lambda>q. mp_addr (mm_objs s' q)) (mm_tree s') ys" using ok'(3) by (simp add: mappings_ok_def)
  obtain t where t: "tree_del (mm_tree s') p = Some t" "tree_del t p = Some t"
    "tree_holds (\<lambda>q. mp_addr (mm_objs s' q)) t xs"
    using node_tree.del_twice [OF tree, of p] c(4,5) by auto
  obtain m' where m': "unmap_pages n (mm_pml4 s) type (fst ph') virt len = Inr m'" "frames (m', snd ph') A'" "tables_ok m' (mm_pml4 s) A'"
    "\<And>v e k. leaf_entry m' (mm_pml4 s) (indices v) e k \<longleftrightarrow> \<not> in_pages type virt n v \<and> leaf_entry (fst ph') (mm_pml4 s) (indices v) e k"
    using unmap_pages_ok [OF ok'(1,2) c(10,14)] by blast
  let ?s = "s'\<lparr>mm_tree := t\<rparr>"
  have "unat len div 2 ^ page_bits type = n" using c(10) by simp
  then have "do_unmap_memory (ph', s') virt len = Inr ((m', snd ph'), ?s)"
    using fm t(1,2) m'(1) c(6) by (simp add: do_unmap_memory_def remove_mapping_def returned_def pv new_mapping_def)
  moreover have "mm_ok (m', snd ph') ?s A' xs"
    using m'(2,3) t(3) ok'(3) c(4,6) by (simp add: mm_ok_def mappings_ok_def)
  moreover have vtp: "virt_to_phys m (mm_cr3 s) v = Inr y \<longleftrightarrow> (\<exists>e k. leaf_entry m (mm_pml4 s) (indices v) e k \<and> y = phys_of e k v)"
    if "tables_ok m (mm_pml4 s) B" for m B v y
    using virt_to_phys_leaf [of m "mm_cr3 s" B v y] that cr3_root [of ph A s] assms(1) by (simp add: mm_ok_def)
  moreover have "in_pages type virt n (virt + x)" if "x < len" for x
  proof -
    have "unat x < n * 2 ^ page_bits type" "unat (virt + x) = unat virt + unat x"
      using that c(10,12) by (simp_all add: word_less_nat_alt u64_add)
    then show ?thesis using range_page [OF c(11), of "unat x" n] c(10,12) unfolding in_pages_def by auto
  qed
  moreover have "\<not> in_pages type virt n v" if "\<forall>x < unat len. unat v mod 2 ^ 48 \<noteq> (unat virt + x) mod 2 ^ 48" for v
    using in_pages_low_bits [OF _ c(11), of n v] c(10,12) that by auto
  moreover have "tables_ok (fst ph) (mm_pml4 s) A" using assms(1) by (simp add: mm_ok_def)
  ultimately show ?thesis
    using m'(3,4) c(13) by (intro exI [of _ "(m', snd ph')"] exI [of _ ?s] exI [of _ A']) (simp; metis)
qed

section \<open>New memory managers\<close>

lemma tables_ok_empty:
  assumes z: "\<And>i. i < 512 \<Longrightarrow> m (slot_of root i) = 0" and A: "root \<in> A"
  shows "tables_ok m root A"
proof -
  have none: "p = []" if "path_ok p" "table_at m root p = Some t" for p t
  proof (cases p)
    case (Cons i q)
    then have "i < 512" using that(1) by (simp add: path_ok_def)
    then show ?thesis using that(2) z Cons by (simp add: next_table_def)
  qed
  show ?thesis
    unfolding tables_ok_def
  proof (intro conjI allI impI)
    show "t \<in> A" if "path_ok p" "table_at m root p = Some t" for p t
      using none [OF that] that(2) A by simp
    show "p = q" if "path_ok p" "path_ok q" "table_at m root p = Some t" "table_at m root q = Some t" for p q t
      using none that by metis
  qed (use z in simp)
qed

lemma alloc_physical_page:
  "alloc_physical s page_size = Inr (pa, s1) \<Longrightarrow>
     pa_length pa = 4096 \<and> alloc_table s = Inr (to_identity_mapped_ptr (pa_addr pa), s1)"
proof -
  assume a: "alloc_physical s page_size = Inr (pa, s1)"
  then have l: "pa_length pa = 4096" by (auto simp: alloc_physical_def res_simps page_size_def)
  then show ?thesis
    using a by (simp add: alloc_table_def physical_allocation_release_def) (simp add: page_size_def)
qed

lemma frames_room: "frames s A \<Longrightarrow> t \<in> A \<Longrightarrow> unat t + 4096 \<le> 18446744073709547520"
proof -
  assume a: "frames s A" "t \<in> A"
  obtain bs L where f: "heap_owns (fst s) (snd s) bs L" "(unat t, 4096) \<in> L" using framesE [OF a(1)] a(2) by metis
  have "unat t + 4096 \<le> unat (hend (snd s))" using f by (auto simp: heap_owns_def shares_def block_ok_def)
  then have lt: "unat t + 4096 < 18446744073709551616" using u64_range [of "hend (snd s)"] by linarith
  obtain k where "unat t = 4096 * k" using frames_page [OF a] by (auto simp: is_page_def)
  then show ?thesis using lt by simp
qed

lemma memory_manager_new_ok:
  assumes fr: "frames ph A" and new: "memory_manager_new ph fv = Inr (ph', s)"
  shows "\<exists>A'. A \<subseteq> A' \<and> mm_ok ph' s A' []" "\<And>i. i < 512 \<Longrightarrow> fst ph' (slot_of (mm_pml4 s) i) = 0"
    "\<And>a i. a \<in> A \<Longrightarrow> i < 512 \<Longrightarrow> fst ph' (slot_of a i) = fst ph (slot_of a i)" "mm_pml4 s \<notin> A"
proof -
  obtain mp ph1 nf pml4 where r: "alloc_physical ph page_size = Inr (mp, ph1)"
    "no_free_heap_new alignof_memory_mapping (to_identity_mapped_ptr (pa_addr mp)) (pa_length mp) = Inr nf"
    "alloc_table ph1 = Inr (pml4, ph')"
    and s: "s = \<lparr>mm_heap = nf, mm_objs = (\<lambda>_. new_mapping_zero), mm_tree = (\<lambda>_. loose, None), mm_pml4 = pml4,
                 mm_free_virt = fv, mm_mappings_phys = mp\<rparr>"
    using new by (auto simp: memory_manager_new_def res_simps)
  let ?p = "to_identity_mapped_ptr (pa_addr mp)"
  note ap = alloc_physical_page [OF r(1)]
  note a1 = alloc_table_frames [OF fr conjunct2 [OF ap]]
  note a2 = alloc_table_frames [OF a1(2) r(3)]
  let ?A = "insert pml4 (insert ?p A)"
  have room: "unat ?p + 4096 \<le> 18446744073709547520" using frames_room [OF a1(2)] by simp
  then have "mappings_ok s []"
    using r(2) ap by (auto simp: mappings_ok_def s no_free_heap_new_def res_simps tree_holds_def u64_add)
  moreover have "tables_ok (fst ph') pml4 ?A" by (rule tables_ok_empty) (use a2(3) in simp_all)
  ultimately have "mm_ok ph' s ?A []" unfolding mm_ok_def using a2(2) s by auto
  then show "\<exists>A'. A \<subseteq> A' \<and> mm_ok ph' s A' []" by (intro exI [of _ ?A]) auto
  show "\<And>i. i < 512 \<Longrightarrow> fst ph' (slot_of (mm_pml4 s) i) = 0" using a2(3) by (simp add: s)
  show "\<And>a i. a \<in> A \<Longrightarrow> i < 512 \<Longrightarrow> fst ph' (slot_of a i) = fst ph (slot_of a i)"
    using a1(4) a2(4) by simp
  show "mm_pml4 s \<notin> A" using a2(1) by (simp add: s)
qed

lemma virt_to_phys_cong:
  assumes ok: "tables_ok m (table_entry cr3) A" and same: "\<And>a i. a \<in> A \<Longrightarrow> i < 512 \<Longrightarrow> m' (slot_of a i) = m (slot_of a i)"
  shows "virt_to_phys m' cr3 v = virt_to_phys m cr3 v"
proof -
  let ?root = "table_entry cr3"
  have in_A: "t \<in> A" if "path_ok p" "table_at m ?root p = Some t" for p t
    using tables_okD(2) [OF ok that] .
  have r: "?root \<in> A" using in_A [of "[]"] by simp
  let ?v4 = "m (slot_of ?root (pml4e v))"
  have e4: "m' (slot_of ?root (pml4e v)) = ?v4" using same r by simp
  show ?thesis
  proof (cases "?v4 AND PAGEF_PRESENT = 0")
    case True
    then show ?thesis by (simp add: virt_to_phys_def e4)
  next
    case p4: False
    let ?t3 = "table_entry ?v4"
    have n4: "next_table m ?root (pml4e v) = Some ?t3" using p4 tables_okD(1) [OF ok] by (simp add: next_table_def)
    then have "?t3 \<in> A" using in_A [of "[pml4e v]"] by (simp add: path_ok_def)
    then have e3: "m' (slot_of ?t3 (pdpe v)) = m (slot_of ?t3 (pdpe v))" using same by simp
    let ?v3 = "m (slot_of ?t3 (pdpe v))"
    show ?thesis
    proof (cases "?v3 AND PAGEF_PRESENT = 0 \<or> ?v3 AND PAGEF_PAGESIZE \<noteq> 0")
      case True
      then show ?thesis by (auto simp: virt_to_phys_def e4 e3 Let_def)
    next
      case p3: False
      let ?t2 = "table_entry ?v3"
      have n3: "next_table m ?t3 (pdpe v) = Some ?t2" using p3 by (simp add: next_table_def)
      then have "?t2 \<in> A" using in_A [of "[pml4e v, pdpe v]"] n4 by (simp add: path_ok_def)
      then have e2: "m' (slot_of ?t2 (pde v)) = m (slot_of ?t2 (pde v))" using same by simp
      let ?v2 = "m (slot_of ?t2 (pde v))"
      show ?thesis
      proof (cases "?v2 AND PAGEF_PRESENT = 0 \<or> ?v2 AND PAGEF_PAGESIZE \<noteq> 0")
        case True
        then show ?thesis by (auto simp: virt_to_phys_def e4 e3 e2 Let_def)
      next
        case p2: False
        have "next_table m ?t2 (pde v) = Some (table_entry ?v2)" using p2 by (simp add: next_table_def)
        then have "table_entry ?v2 \<in> A" using in_A [of "[pml4e v, pdpe v, pde v]"] n4 n3 by (simp add: path_ok_def)
        then have "m' (slot_of (table_entry ?v2) (pte v)) = m (slot_of (table_entry ?v2) (pte v))" using same by simp
        then show ?thesis by (simp add: virt_to_phys_def e4 e3 e2 Let_def)
      qed
    qed
  qed
qed

text \<open>C3: in the address space of a new process every kernel address translates as in the kernel's own, where
  nothing changes, and no other address translates.\<close>

theorem new_process_maps_kernel_only:
  assumes "frames ph A" "tables_ok (fst ph) (mm_pml4 kmm) A" "default_memory_manager_new ph kmm = Inr (ph', s)"
  shows "virt_to_phys (fst ph') (mm_cr3 kmm) v = virt_to_phys (fst ph) (mm_cr3 kmm) v \<and>
         virt_to_phys (fst ph') (mm_cr3 s) v =
           (if pml4e v = kernel_pml4 then virt_to_phys (fst ph) (mm_cr3 kmm) v else Inl (Fatal ''pml4e & PAGEF_PRESENT''))"
proof -
  obtain ph1 where new: "memory_manager_new ph (push_bit 20 1) = Inr (ph1, s)"
    and ph': "ph' = ((fst ph1)(slot_of (mm_pml4 s) kernel_pml4 := fst ph1 (slot_of (mm_pml4 kmm) kernel_pml4)), snd ph1)"
    using assms(3) by (auto simp: default_memory_manager_new_def res_simps)
  note mn = memory_manager_new_ok [OF assms(1) new]
  obtain A' where ok: "mm_ok ph1 s A' []" "A \<subseteq> A'" using mn(1) by blast
  have pg: "mm_pml4 s \<in> A'" "is_page (mm_pml4 s)" "\<And>a. a \<in> A \<Longrightarrow> is_page a"
    using ok frames_page [OF assms(1)] frames_page [of ph1 A'] tables_okD(2) [of "fst ph1" "mm_pml4 s" A' "[]"]
    by (auto simp: mm_ok_def)
  have k511: "kernel_pml4 < 512" by (simp add: kernel_pml4_def)
  have other: "fst ph' (slot_of a i) = fst ph (slot_of a i)" if "a \<in> A" "i < 512" for a i
    using that mn(3,4) slot_inj [OF pg(3) [OF that(1)] pg(2) that(2) k511] by (auto simp: ph')
  have kroot: "mm_pml4 kmm \<in> A" using tables_okD(2) [OF assms(2), of "[]"] by simp
  have ck: "table_entry (mm_cr3 kmm) = mm_pml4 kmm" by (rule cr3_root [OF assms(1,2)])
  have cs: "table_entry (mm_cr3 s) = mm_pml4 s" using cr3_root [of ph1 A' s] ok(1) by (simp add: mm_ok_def)
  have k: "virt_to_phys (fst ph') (mm_cr3 kmm) v = virt_to_phys (fst ph) (mm_cr3 kmm) v"
    by (rule virt_to_phys_cong [of _ _ A]) (use assms(2) ck other in auto)
  have e: "fst ph' (slot_of (mm_pml4 s) (pml4e v)) =
      (if pml4e v = kernel_pml4 then fst ph' (slot_of (mm_pml4 kmm) (pml4e v)) else 0)"
  proof (cases "pml4e v = kernel_pml4")
    case True
    then show ?thesis using other [OF kroot k511] mn(3) [OF kroot k511] by (simp add: ph')
  next
    case False
    then show ?thesis using mn(2) slot_inj [OF pg(2,2), of "pml4e v" kernel_pml4] k511 by (auto simp: ph')
  qed
  have "virt_to_phys (fst ph') (mm_cr3 s) v =
      (if pml4e v = kernel_pml4 then virt_to_phys (fst ph') (mm_cr3 kmm) v else Inl (Fatal ''pml4e & PAGEF_PRESENT''))"
    using e by (simp add: virt_to_phys_def cs ck)
  then show ?thesis using k by simp
qed

section \<open>A concrete address space\<close>

text \<open>The result of taking the first page of a single free block: \<open>front_page\<close> zeroes it and writes the node of the
  rest. The page heap of the example holds 16 pages, and one page is mapped at \<open>0x400000\<close>.\<close>

definition front_page :: "mem \<Rightarrow> u64 \<Rightarrow> mem" where
  "front_page m f = (\<lambda>w. if unat f \<le> unat w \<and> unat w < unat f + 4096 \<and> 8 dvd unat w - unat f then 0
     else if w = f + 4104 then m (f + 8) else if w = f + 4096 then m f - 4096 else m w)"

lemma alloc_front:
  assumes "hfree h = f" "f \<noteq> end_of_list" "unat f + 4096 < 18446744073709551600" "m f > 4096"
  shows "alloc_physical (m, h) 4096 =
           Inr (\<lparr>pa_addr = from_identity_mapped_ptr f, pa_length = 4096\<rparr>, front_page m f, h\<lparr>hfree := f + 4096\<rparr>)"
    and "alloc_table (m, h) = Inr (f, front_page m f, h\<lparr>hfree := f + 4096\<rparr>)"
proof -
  have le: "\<not> m f < 4096" "m f - 4096 \<noteq> 0" using assms(4) by auto
  have st: "stosq 512 m1 f 0 = (\<lambda>w. if unat f \<le> unat w \<and> unat w < unat f + 4096 \<and> 8 dvd unat w - unat f then 0 else m1 w)" for m1
    using assms(3) by (intro ext, subst stosq_apply) auto
  have sh: "simple_heap_alloc m h 4096 = Inr (f, m(f + 4096 := m f - 4096, f + 4104 := m (f + 8)), h\<lparr>hfree := f + 4096\<rparr>)"
    using assms le
    by (simp add: simple_heap_alloc_def heap_fuel_def Let_def sizeof_free_node_def add.commute [of 4104 f])
  show ph: "alloc_physical (m, h) 4096 =
           Inr (\<lparr>pa_addr = from_identity_mapped_ptr f, pa_length = 4096\<rparr>, front_page m f, h\<lparr>hfree := f + 4096\<rparr>)"
    by (simp add: alloc_physical_def page_size_def sh st front_page_def fun_upd_def)
  show "alloc_table (m, h) = Inr (f, front_page m f, h\<lparr>hfree := f + 4096\<rparr>)"
    by (simp add: alloc_table_def page_size_def ph physical_allocation_release_def to_identity_mapped_ptr_def from_identity_mapped_ptr_def)
qed

definition demo_phys :: phys where
  "demo_phys = ((\<lambda>_. 0)(0xFFFFFFFF00000000 := 0x10000, 0xFFFFFFFF00000008 := end_of_list),
    \<lparr>hbase = 0xFFFFFFFF00000000, hend = 0xFFFFFFFF00010000, hfree = 0xFFFFFFFF00000000\<rparr>)"

definition demo_mm :: "phys \<times> memory_manager" where
  "demo_mm = projr (memory_manager_new demo_phys 0x100000)"

definition demo_map :: "u64 \<times> phys \<times> memory_manager" where
  "demo_map = projr (do_map_memory demo_mm 0x400000 0x1000 (mt_read OR mt_write) 0x200000)"

lemma demo_frames: "frames demo_phys {}"
proof -
  have "simple_heap_new (\<lambda>_. 0) 0xFFFFFFFF00000000 0x10000 = Inr demo_phys"
    by (simp add: demo_phys_def heap_eval)
  then have "heap_owns (fst demo_phys) (snd demo_phys) [(0xFFFFFFFF00000000, 0x10000)] {}"
    using simple_heap_new_owns(1) [of "\<lambda>_. 0" "0xFFFFFFFF00000000" "0x10000"] by (cases demo_phys) simp
  then show ?thesis unfolding frames_def
    by (intro exI [of _ "[(0xFFFFFFFF00000000, 0x10000)]"] exI [of _ "{}"]) (simp add: page_blocks_def demo_phys_def identity_map_start_def)
qed

lemma demo_mm_val:
  "memory_manager_new demo_phys 0x100000 = Inr demo_mm"
  "demo_mm = ((front_page (front_page (fst demo_phys) 0xFFFFFFFF00000000) 0xFFFFFFFF00001000,
       \<lparr>hbase = 0xFFFFFFFF00000000, hend = 0xFFFFFFFF00010000, hfree = 0xFFFFFFFF00002000\<rparr>),
    \<lparr>mm_heap = \<lparr>nf_end = 0xFFFFFFFF00001000, nf_cur = 0xFFFFFFFF00000000\<rparr>, mm_objs = (\<lambda>_. new_mapping_zero),
     mm_tree = (\<lambda>_. loose, None), mm_pml4 = 0xFFFFFFFF00001000, mm_free_virt = 0x100000,
     mm_mappings_phys = \<lparr>pa_addr = 0, pa_length = 4096\<rparr>\<rparr>)"
  by (simp_all add: demo_mm_def memory_manager_new_def no_free_heap_new_def demo_phys_def page_size_def alloc_front end_of_list_def
     front_page_def [of _ "0xFFFFFFFF00000000"] to_identity_mapped_ptr_def from_identity_mapped_ptr_def identity_map_start_def
     alignof_memory_mapping_def)

lemma front_page_at:
  "front_page m f w = (if unat f \<le> unat w \<and> unat w < unat f + 4096 \<and> 8 dvd unat w - unat f then 0
     else if w = f + 4104 then m (f + 8) else if w = f + 4096 then m f - 4096 else m w)"
  by (simp add: front_page_def)

lemma demo_map_request:
  "map_request (snd demo_mm) 0x400000 0x1000 (mt_read OR mt_write) 0x200000 = Inr (0x400000, snd demo_mm)"
  by (simp add: map_request_def demo_mm_val(2) find_mapping_def returned_def tree_find_def tree_find_if_def tree_begin_def
     minimum_node.simps find_from.simps memory_type_page_size_def mt_has_def mt_read_def mt_write_def map_alloc_virt_def
     map_alloc_virt_close_to_kernel_def mt_ps_1gb_def mt_ps_2mb_def)

lemma demo_map_pages:
  "\<exists>ph. map_pages 1 0xFFFFFFFF00001000 (mt_read OR mt_write) (fst demo_mm) 0x400000 0x1000 0x200000 = Inr ph"
  by (simp add: demo_mm_val(2) map_page_def alloc_if_not_present_def slot_of_def pml4e_def pdpe_def pde_def pte_def table_mask_def
   front_page_at alloc_front alloc_table_entry_def demo_phys_def end_of_list_def PAGEF_PRESENT_def mt_has_def mt_read_def mt_write_def
   mt_ps_1gb_def mt_ps_2mb_def memory_type_page_size_def)

lemma demo_map_eq: "do_map_memory demo_mm 0x400000 0x1000 (mt_read OR mt_write) 0x200000 = Inr demo_map" "fst demo_map = 0x400000"
    "do_map_memory (fst demo_mm, snd demo_mm) 0x400000 0x1000 (mt_read OR mt_write) 0x200000 = Inr (0x400000, fst (snd demo_map), snd (snd demo_map))"
proof -
  obtain ph where ph: "map_pages 1 0xFFFFFFFF00001000 (mt_read OR mt_write) (fst demo_mm) 0x400000 0x1000 0x200000 = Inr ph"
    using demo_map_pages by blast
  have ps: "memory_type_page_size (mt_read OR mt_write) = 0x1000"
    by (simp add: memory_type_page_size_def mt_has_def mt_read_def mt_write_def mt_ps_1gb_def mt_ps_2mb_def)
  have "\<exists>ph s. do_map_memory demo_mm 0x400000 0x1000 (mt_read OR mt_write) 0x200000 = Inr (0x400000, ph, s)"
    using ph by (simp add: do_map_memory_def demo_map_request [unfolded demo_mm_val(2) snd_conv] construct_mapping_def insert_mapping_def ps demo_mm_val(2)
      no_free_heap_alloc_def alignof_memory_mapping_def sizeof_memory_mapping_def memory_mapping_new_def returned_def
      tree_put_def do_insert_def insert_walk.simps)
  then show "do_map_memory demo_mm 0x400000 0x1000 (mt_read OR mt_write) 0x200000 = Inr demo_map" "fst demo_map = 0x400000"
    "do_map_memory (fst demo_mm, snd demo_mm) 0x400000 0x1000 (mt_read OR mt_write) 0x200000 = Inr (0x400000, fst (snd demo_map), snd (snd demo_map))"
    by (auto simp: demo_map_def)
qed

lemma demo_mm_ok: "\<exists>A. mm_ok (fst demo_mm) (snd demo_mm) A []"
  using memory_manager_new_ok(1) [OF demo_frames, of "0x100000" "fst demo_mm" "snd demo_mm"] demo_mm_val(1) by auto

theorem map_memory_translates_witness:
  "virt_to_phys (fst (fst (snd demo_map))) (mm_cr3 (snd demo_mm)) 0x400123 = Inr 0x200123"
proof -
  obtain A where "mm_ok (fst demo_mm) (snd demo_mm) A []" using demo_mm_ok by blast
  from map_memory_translates [OF this _ demo_map_eq(3)]
  have "\<forall>x < 0x1000. virt_to_phys (fst (fst (snd demo_map))) (mm_cr3 (snd demo_mm)) (0x400000 + x) = Inr (0x200000 + x)"
    by simp
  from spec [OF this, of "0x123"] show ?thesis by simp
qed

theorem unmap_memory_undoes_map_witness:
  "\<exists>ph s. do_unmap_memory (snd demo_map) 0x400000 0x1000 = Inr (ph, s) \<and>
     (\<forall>y. virt_to_phys (fst ph) (mm_cr3 (snd demo_mm)) 0x400123 \<noteq> Inr y)"
proof -
  obtain A where "mm_ok (fst demo_mm) (snd demo_mm) A []" using demo_mm_ok by blast
  from unmap_memory_undoes_map [OF this _ demo_map_eq(3)]
  obtain ph s where "do_unmap_memory (snd demo_map) 0x400000 0x1000 = Inr (ph, s)"
    "\<forall>x < 0x1000. \<forall>y. virt_to_phys (fst ph) (mm_cr3 (snd demo_mm)) (0x400000 + x) \<noteq> Inr y"
    by auto
  moreover from spec [OF this(2), of "0x123"] have "\<forall>y. virt_to_phys (fst ph) (mm_cr3 (snd demo_mm)) 0x400123 \<noteq> Inr y" by simp
  ultimately show ?thesis by blast
qed

definition demo_process :: "phys \<times> memory_manager" where
  "demo_process = projr (default_memory_manager_new (fst demo_mm) (snd demo_mm))"

lemma demo_process_eq: "default_memory_manager_new (fst demo_mm) (snd demo_mm) = Inr demo_process"
  by (simp add: demo_process_def default_memory_manager_new_def memory_manager_new_def no_free_heap_new_def demo_mm_val(2) page_size_def
    alloc_front end_of_list_def front_page_at demo_phys_def to_identity_mapped_ptr_def from_identity_mapped_ptr_def
    identity_map_start_def alignof_memory_mapping_def)

theorem new_process_maps_kernel_only_witness:
  "virt_to_phys (fst (fst demo_process)) (mm_cr3 (snd demo_process)) 0x400123 = Inl (Fatal ''pml4e & PAGEF_PRESENT'')"
proof -
  obtain A where "mm_ok (fst demo_mm) (snd demo_mm) A []" using demo_mm_ok by blast
  then have "frames (fst demo_mm) A" "tables_ok (fst (fst demo_mm)) (mm_pml4 (snd demo_mm)) A" by (simp_all add: mm_ok_def)
  from new_process_maps_kernel_only [OF this, of "fst demo_process" "snd demo_process" "0x400123"] show ?thesis
    using demo_process_eq by (simp add: pml4e_def kernel_pml4_def table_mask_def)
qed

end
