(* ===== verification/Bytes.thy ===== *)
theory Bytes
  imports Prelude
begin

text \<open>
  Bytes, the strings of \<open>attos/string.h\<close>, and loads and stores of integers in byte buffers. An object in memory that
  is only read or copied as bytes is the list of its bytes; a pointer into it together with the number of bytes left
  is the list of the bytes from there on, and reading past its end is \<open>Wild\<close>.
\<close>

type_synonym bytes = "u8 list"

lemma u8_range: "unat (x :: u8) < 256"
  using unsigned_less [of x] by simp

lemma u16_range: "unat (x :: u16) < 65536"
  using unsigned_less [of x] by simp

lemma u32_range: "unat (x :: u32) < 4294967296"
  using unsigned_less [of x] by simp

lemma unat_of_nat_u16: "n < 65536 \<Longrightarrow> unat (of_nat n :: u16) = n"
  by (simp add: unat_of_nat take_bit_eq_mod)

lemma unat_of_nat_u32: "n < 4294967296 \<Longrightarrow> unat (of_nat n :: u32) = n"
  by (simp add: unat_of_nat take_bit_eq_mod)

lemma unat_shl: "unat x * 2 ^ k < 2 ^ LENGTH('a) \<Longrightarrow> unat (push_bit k (x :: 'a::len word)) = unat x * 2 ^ k"
  by (simp only: unsigned_push_bit_eq) (simp add: push_bit_eq_mult take_bit_eq_mod)

section \<open>Strings\<close>

definition ascii :: "string \<Rightarrow> bytes" where
  "ascii s = List.map (\<lambda>c. of_nat (of_char c)) s"

text \<open>A string literal of the code, with its terminator.\<close>

definition c_str :: "string \<Rightarrow> bytes" where
  "c_str s = ascii s @ [0]"

fun string_length :: "bytes \<Rightarrow> nat res" where
  "string_length [] = Inl (Wild ''s'')"
| "string_length (c # s) = (if c = 0 then Inr 0 else andThen (string_length s) (\<lambda>len. Inr (Suc len)))"

fun string_equal :: "bytes \<Rightarrow> bytes \<Rightarrow> bool res" where
  "string_equal (x # a) (y # b) =
     (if x \<noteq> 0 \<and> y \<noteq> 0 then if x \<noteq> y then Inr False else string_equal a b else Inr (x = y))"
| "string_equal a b = Inl (Wild ''s'')"

lemma string_length_text [simp]: "0 \<notin> set s \<Longrightarrow> string_length (s @ 0 # r) = Inr (length s)"
  by (induction s) auto

lemma string_length_nul: "string_length s = Inr n \<Longrightarrow> n < length s \<and> s ! n = 0 \<and> 0 \<notin> set (take n s)"
  by (induction s arbitrary: n) (auto simp: res_simps split: if_splits)

text \<open>\<open>string_equal\<close> decides equality of the strings, whatever follows their terminators.\<close>

lemma string_equal_text:
  "0 \<notin> set s \<Longrightarrow> 0 \<notin> set t \<Longrightarrow> string_equal (s @ 0 # r) (t @ 0 # r') = Inr (s = t)"
proof (induction s arbitrary: t)
  case Nil
  then show ?case by (cases t) auto
next
  case (Cons x s)
  then show ?case by (cases t) auto
qed

section \<open>Integers in memory\<close>

text \<open>The processor is little endian.\<close>

definition load16 :: "bytes \<Rightarrow> nat \<Rightarrow> u16" where
  "load16 b i = ucast (b ! i) OR push_bit 8 (ucast (b ! (i + 1)))"

definition load32 :: "bytes \<Rightarrow> nat \<Rightarrow> u32" where
  "load32 b i = ucast (b ! i) OR push_bit 8 (ucast (b ! (i + 1))) OR push_bit 16 (ucast (b ! (i + 2)))
     OR push_bit 24 (ucast (b ! (i + 3)))"

definition store16 :: "u16 \<Rightarrow> bytes" where
  "store16 v = [ucast v, ucast (drop_bit 8 v)]"

definition store32 :: "u32 \<Rightarrow> bytes" where
  "store32 v = [ucast v, ucast (drop_bit 8 v), ucast (drop_bit 16 v), ucast (drop_bit 24 v)]"

lemma length_store [simp]: "length (store16 v) = 2" "length (store32 w) = 4"
  by (simp_all add: store16_def store32_def)

lemma load_store16 [simp]: "load16 (store16 v) 0 = v"
  by (rule bit_word_eqI) (auto simp: load16_def store16_def bit_simps)

lemma by_byte:
  fixes n :: nat
  assumes "n < 32" "\<And>k. k < 8 \<Longrightarrow> P k" "\<And>k. k < 8 \<Longrightarrow> P (8 + k)" "\<And>k. k < 8 \<Longrightarrow> P (16 + k)" "\<And>k. k < 8 \<Longrightarrow> P (24 + k)"
  shows "P n"
proof -
  consider "n < 8" | "8 \<le> n" "n - 8 < 8" | "16 \<le> n" "n - 16 < 8" | "24 \<le> n" "n - 24 < 8" using assms(1) by linarith
  then show ?thesis
  proof cases
    case 2
    then show ?thesis using assms(3) [of "n - 8"] by simp
  next
    case 3
    then show ?thesis using assms(4) [of "n - 16"] by simp
  next
    case 4
    then show ?thesis using assms(5) [of "n - 24"] by simp
  qed (rule assms(2))
qed

lemma load_store32 [simp]: "load32 (store32 v) 0 = v"
proof (rule bit_word_eqI)
  fix n assume n: "n < LENGTH(32)"
  then have "n < 32" by simp
  then show "bit (load32 (store32 v) 0) n = bit v n"
    by (rule by_byte) (simp_all add: load32_def store32_def bit_simps)
qed

lemma load_prefix:
  "i + 2 \<le> length x \<Longrightarrow> load16 (x @ y) i = load16 x i"
  "j + 4 \<le> length x \<Longrightarrow> load32 (x @ y) j = load32 x j"
  by (simp_all add: load16_def load32_def nth_append)

lemma load_drop:
  "i \<le> length b \<Longrightarrow> load16 (drop i b) j = load16 b (i + j)"
  "i \<le> length b \<Longrightarrow> load32 (drop i b) j = load32 b (i + j)"
  by (simp_all add: load16_def load32_def add.assoc)

end
