(* ===== verification/OutStream.thy ===== *)
theory OutStream
  imports Bytes
begin

text \<open>
  Text output (\<open>attos/out_stream.h\<close>, \<open>attos/out_stream.cpp\<close>). A stream only appends, so an operation on one is the
  list of bytes that it writes.
\<close>

section \<open>The code\<close>

record formatted_string =
  fs_width :: int
  fs_fill :: u8
  fs_str :: bytes
  fs_max_width :: int

record formatted_number =
  fn_width :: int
  fn_fill :: u8
  fn_num :: u64
  fn_base :: u8

function write_many :: "u8 \<Rightarrow> int \<Rightarrow> bytes" where
  "write_many c count = (if count - 1 \<ge> 0 then c # write_many c (count - 1) else [])"
  by pat_completeness auto
termination by (relation "measure (\<lambda>(c, count). nat count)") auto

declare write_many.simps [simp del]

definition digit_char :: "u64 \<Rightarrow> u8" where
  "digit_char c = ucast c + (if c > 9 then 97 - 10 else 48)"

text \<open>The loop that fills \<open>buffer\<close> from its end; \<open>pos\<close> bytes of it are still free.\<close>

fun format_loop :: "nat \<Rightarrow> u64 \<Rightarrow> u64 \<Rightarrow> bytes \<Rightarrow> bytes res" where
  "format_loop 0 number base buffer = Inl (Wild ''buffer'')"
| "format_loop (Suc pos) number base buffer =
     (let buffer1 = digit_char (number mod base) # buffer;
          number1 = number div base
      in if number1 \<noteq> 0 then format_loop pos number1 base buffer1 else Inr buffer1)"

definition format_number :: "u64 \<Rightarrow> u64 \<Rightarrow> int \<Rightarrow> u8 \<Rightarrow> bytes res" where
  "format_number number base min_width fill =
     andThen (format_loop 64 number base []) (\<lambda>buffer.
       Inr (write_many fill (min_width - int (length buffer)) @ buffer))"

definition put_char :: "u8 \<Rightarrow> bytes" where "put_char c = [c]"

definition put_string :: "bytes \<Rightarrow> bytes res" where
  "put_string arg = andThen (string_length arg) (\<lambda>n. Inr (take n arg))"

definition put_u64 :: "u64 \<Rightarrow> bytes res" where "put_u64 arg = format_number arg 10 0 32"

definition put_u32 :: "u32 \<Rightarrow> bytes res" where "put_u32 arg = put_u64 (ucast arg)"

definition put_i64 :: "u64 \<Rightarrow> bytes res" where
  "put_i64 arg =
     (if sint arg < 0 then andThen (put_u64 ((arg XOR - 1) + 1)) (\<lambda>s. Inr (put_char 45 @ s)) else put_u64 arg)"

definition put_i32 :: "u32 \<Rightarrow> bytes res" where "put_i32 arg = put_i64 (scast arg)"

fun bounded_length :: "int \<Rightarrow> bytes \<Rightarrow> nat res" where
  "bounded_length w s =
     (if 0 < w then
        (case s of [] \<Rightarrow> Inl (Wild ''str'')
         | c # s' \<Rightarrow> if c \<noteq> 0 then andThen (bounded_length (w - 1) s') (\<lambda>l. Inr (Suc l)) else Inr 0)
      else Inr 0)"

definition put_formatted_string :: "formatted_string \<Rightarrow> bytes res" where
  "put_formatted_string fs =
     andThen (bounded_length (fs_max_width fs) (fs_str fs)) (\<lambda>l.
       Inr (take l (fs_str fs) @ (if fs_width fs > int l then write_many (fs_fill fs) (fs_width fs - int l) else [])))"

definition put_formatted_number :: "formatted_number \<Rightarrow> bytes res" where
  "put_formatted_number fn =
     (if fn_base fn = 16 \<and> fn_width fn = 16 \<and> fn_fill fn = 48 then
        andThen (format_number (drop_bit 32 (fn_num fn)) 16 8 48) (\<lambda>hi.
        andThen (format_number (fn_num fn AND 0xffffffff) 16 8 48) (\<lambda>lo. Inr (hi @ put_char 96 @ lo)))
      else format_number (fn_num fn) (ucast (fn_base fn)) (fn_width fn) (fn_fill fn))"

text \<open>\<open>as_hex\<close> of an unsigned integer of \<open>bytes\<close> bytes.\<close>

definition as_hex :: "int \<Rightarrow> u64 \<Rightarrow> formatted_number" where
  "as_hex sizeof_i i = \<lparr>fn_width = sizeof_i * 2, fn_fill = 48, fn_num = i, fn_base = 16\<rparr>"

definition format_array :: "bytes \<Rightarrow> formatted_string" where
  "format_array carr = \<lparr>fs_width = 0, fs_fill = 32, fs_str = carr, fs_max_width = int (length carr)\<rparr>"

definition format_pointer :: "bytes \<Rightarrow> formatted_string" where
  "format_pointer p = \<lparr>fs_width = 0, fs_fill = 32, fs_str = p, fs_max_width = 100\<rparr>"

text \<open>The output of a statement is a list of pieces, each of which may fail.\<close>

fun put_all :: "bytes res list \<Rightarrow> bytes res" where
  "put_all [] = Inr []"
| "put_all (p # ps) = andThen p (\<lambda>a. andThen (put_all ps) (\<lambda>b. Inr (a @ b)))"

definition put_text :: "string \<Rightarrow> bytes res" where "put_text s = Inr (ascii s)"
definition put_hex :: "nat \<Rightarrow> u64 \<Rightarrow> bytes res" where "put_hex n i = put_formatted_number (as_hex (int n) i)"

text \<open>\<open>hexdump\<close> reads the memory \<open>m\<close>; \<open>a\<close> runs over the rows.\<close>

definition hexdump_cell :: "(u64 \<Rightarrow> u8) \<Rightarrow> u64 \<Rightarrow> u64 \<Rightarrow> u64 \<Rightarrow> bytes res" where
  "hexdump_cell m lo hi x =
     andThen (if x \<ge> lo \<and> x < hi then put_formatted_number (as_hex 1 (ucast (m x))) else Inr [32, 32])
       (\<lambda>s. Inr (s @ put_char 32))"

definition hexdump_char :: "(u64 \<Rightarrow> u8) \<Rightarrow> u64 \<Rightarrow> u64 \<Rightarrow> u64 \<Rightarrow> bytes" where
  "hexdump_char m lo hi x =
     (if x \<ge> lo \<and> x < hi \<and> m x > 32 \<and> m x < 128 then put_char (m x) else put_char 32)"

fun hexdump_cells :: "nat \<Rightarrow> u64 \<Rightarrow> (u64 \<Rightarrow> u8) \<Rightarrow> u64 \<Rightarrow> u64 \<Rightarrow> bytes res" where
  "hexdump_cells 0 x m lo hi = Inr []"
| "hexdump_cells (Suc n) x m lo hi =
     andThen (hexdump_cell m lo hi x) (\<lambda>s. andThen (hexdump_cells n (x + 1) m lo hi) (\<lambda>r. Inr (s @ r)))"

fun hexdump_chars :: "nat \<Rightarrow> u64 \<Rightarrow> (u64 \<Rightarrow> u8) \<Rightarrow> u64 \<Rightarrow> u64 \<Rightarrow> bytes" where
  "hexdump_chars 0 x m lo hi = []"
| "hexdump_chars (Suc n) x m lo hi = hexdump_char m lo hi x @ hexdump_chars n (x + 1) m lo hi"

fun hexdump_rows :: "nat \<Rightarrow> (u64 \<Rightarrow> u8) \<Rightarrow> u64 \<Rightarrow> u64 \<Rightarrow> u64 \<Rightarrow> bytes res" where
  "hexdump_rows fuel m lo hi a =
     (if a < (hi + 15) AND NOT 0xf then
        (case fuel of 0 \<Rightarrow> Inl No_return
         | Suc n \<Rightarrow>
             andThen (hexdump_cells 16 a m lo hi) (\<lambda>hex.
             andThen (hexdump_rows n m lo hi (a + 16)) (\<lambda>rest.
               Inr (hex @ hexdump_chars 16 a m lo hi @ put_char 10 @ rest))))
      else Inr [])"

declare hexdump_rows.simps [simp del] bounded_length.simps [simp del]

definition hexdump :: "(u64 \<Rightarrow> u8) \<Rightarrow> u64 \<Rightarrow> u64 \<Rightarrow> bytes res" where
  "hexdump m ptr len =
     (if len = 0 then Inr []
      else let lo = ptr; hi = lo + len
           in hexdump_rows (unat (((hi + 15) AND NOT 0xf) - (lo AND NOT 0xf)) div 16) m lo hi (lo AND NOT 0xf))"

section \<open>Numbers\<close>

lemma write_many_eq [simp]: "write_many c count = replicate (nat count) c"
proof (induction c count rule: write_many.induct)
  case (1 c count)
  show ?case
  proof (cases "count \<ge> 1")
    case True
    then have "nat count = Suc (nat (count - 1))" by simp
    then show ?thesis using 1 True by (simp add: write_many.simps [of c count])
  qed (simp add: write_many.simps [of c count])
qed

text \<open>Reading a number back.\<close>

definition digit_value :: "u8 \<Rightarrow> nat" where
  "digit_value c = (if c \<ge> 97 then unat c - 87 else unat c - 48)"

definition number_value :: "nat \<Rightarrow> bytes \<Rightarrow> nat" where
  "number_value b ds = foldl (\<lambda>v c. v * b + digit_value c) 0 ds"

lemma number_value_snoc [simp]: "number_value b (ds @ [c]) = number_value b ds * b + digit_value c"
  "number_value b [c] = digit_value c"
  by (simp_all add: number_value_def)

lemma digit_char_unat:
  assumes "unat c < 36"
  shows "unat (digit_char c) = unat c + (if unat c > 9 then 87 else 48)"
proof -
  have "unat (ucast c :: u8) = unat c" using assms by (simp add: unsigned_ucast_eq take_bit_eq_mod)
  moreover have "c > 9 \<longleftrightarrow> unat c > 9" by (simp add: word_less_nat_alt)
  ultimately show ?thesis using assms
    by (auto simp: digit_char_def unat_word_ariths(1))
qed

lemma digit_char_value [simp]: "unat c < 36 \<Longrightarrow> digit_value (digit_char c) = unat c"
  by (auto simp: digit_value_def digit_char_unat word_le_nat_alt)

lemma digit_char_ge: "unat c < 36 \<Longrightarrow> 48 \<le> digit_char c"
  by (auto simp: word_le_nat_alt digit_char_unat)

lemma digit_char_zero: "unat c < 36 \<Longrightarrow> digit_char c = 48 \<longleftrightarrow> c = 0"
  by (auto simp: digit_char_unat word_unat_eq_iff)

definition plain_number :: "nat \<Rightarrow> nat \<Rightarrow> bytes \<Rightarrow> bool" where
  "plain_number b n ds \<longleftrightarrow> ds \<noteq> [] \<and> number_value b ds = n \<and> (hd ds = 48 \<longrightarrow> ds = [48]) \<and> (\<forall>c \<in> set ds. 48 \<le> c)"

lemma plain_number_sign: "plain_number b n ds \<Longrightarrow> hd ds \<noteq> 45"
  by (cases ds) (auto simp: plain_number_def)

lemma format_loop_digits:
  assumes b: "2 \<le> unat base" "unat base \<le> 36"
  shows "0 < pos \<Longrightarrow> unat number < unat base ^ pos \<Longrightarrow>
    \<exists>ds. format_loop pos number base buffer = Inr (ds @ buffer) \<and> length ds \<le> pos \<and> plain_number (unat base) (unat number) ds"
proof (induction pos arbitrary: number buffer)
  case (Suc pos)
  let ?d = "digit_char (number mod base)"
  have d: "unat (number mod base) < 36" "unat (number mod base) = unat number mod unat base"
    using b mod_less_divisor [of "unat base" "unat number"] by (linarith | simp add: unat_mod)+
  have q: "unat (number div base) = unat number div unat base" by (simp add: unat_div)
  show ?case
  proof (cases "number div base = 0")
    case True
    then have "unat number div unat base = 0" using q by simp
    then have lt: "unat number < unat base" using b by (auto simp: div_eq_0_iff)
    then have "plain_number (unat base) (unat number) [?d]"
      using d lt digit_char_zero [OF d(1)] digit_char_ge [OF d(1)] by (simp add: plain_number_def word_unat_eq_iff)
    then show ?thesis using True by (intro exI [of _ "[?d]"]) (simp add: Let_def)
  next
    case False
    have lt: "unat (number div base) < unat base ^ pos"
      using Suc.prems(2) b unfolding q by (simp add: less_mult_imp_div_less mult.commute)
    moreover have "unat (number div base) \<noteq> 0" using False by (simp add: unat_eq_zero)
    ultimately have pos: "0 < pos" by (cases pos) auto
    obtain ds where ds: "format_loop pos (number div base) base (?d # buffer) = Inr (ds @ ?d # buffer)" "length ds \<le> pos"
      "plain_number (unat base) (unat (number div base)) ds"
      using Suc.IH [OF pos lt] by blast
    have "hd ds \<noteq> 48"
    proof
      assume "hd ds = 48"
      then have "ds = [48]" using ds(3) by (simp add: plain_number_def)
      then show False using ds(3) \<open>unat (number div base) \<noteq> 0\<close> by (simp add: plain_number_def digit_value_def)
    qed
    then have "plain_number (unat base) (unat number) (ds @ [?d])"
      using ds(3) d q digit_char_ge [OF d(1)] by (simp add: plain_number_def hd_append)
    then show ?thesis using ds False by (intro exI [of _ "ds @ [?d]"]) (simp add: Let_def)
  qed
qed simp

lemma format_loop_64:
  assumes b: "2 \<le> unat base" "unat base \<le> 36"
  shows "\<exists>ds. format_loop 64 number base [] = Inr ds \<and> length ds \<le> 64 \<and> plain_number (unat base) (unat number) ds"
proof -
  have "(2::nat) ^ 64 \<le> unat base ^ 64" by (rule power_mono) (use b in simp_all)
  then have "unat number < unat base ^ 64" using u64_range [of number] by simp
  then show ?thesis using format_loop_digits [OF b, of 64 number "[]"] by simp
qed

text \<open>\<open>format_number\<close> never writes in front of its buffer: it returns, with the digits that read back as the
  number, without a leading zero, and filled up to the width.\<close>

theorem format_number_reads_back:
  assumes "2 \<le> unat base" "unat base \<le> 36"
  shows "\<exists>ds. format_number number base min_width fill = Inr (replicate (nat (min_width - int (length ds))) fill @ ds) \<and>
     number_value (unat base) ds = unat number \<and> ds \<noteq> [] \<and> length ds \<le> 64 \<and> (hd ds = 48 \<longrightarrow> ds = [48])"
proof -
  obtain ds where "format_loop 64 number base [] = Inr ds" "length ds \<le> 64" "plain_number (unat base) (unat number) ds"
    using format_loop_64 [OF assms] by blast
  then show ?thesis by (intro exI [of _ ds]) (simp add: format_number_def plain_number_def)
qed

theorem format_number_reads_back_witness:
  "\<exists>ds. format_number 0xBEEF 16 8 48 = Inr (replicate (nat (8 - int (length ds))) 48 @ ds) \<and> number_value 16 ds = 0xBEEF"
  using format_number_reads_back [of 16 "0xBEEF" 8 48] by auto

definition signed_value :: "bytes \<Rightarrow> int" where
  "signed_value s = (if hd s = 45 then - int (number_value 10 (tl s)) else int (number_value 10 s))"

lemma put_u64_digits: "\<exists>ds. put_u64 n = Inr ds \<and> plain_number 10 (unat n) ds"
  using format_loop_64 [of 10 n] by (auto simp: put_u64_def format_number_def)

text \<open>a signed number is written as its decimal digits with a sign, the least one included.\<close>

theorem put_i64_reads_back: "\<exists>s. put_i64 n = Inr s \<and> signed_value s = sint n"
proof (cases "sint n < 0")
  case False
  obtain ds where ds: "put_u64 n = Inr ds" "plain_number 10 (unat n) ds" using put_u64_digits by blast
  have "unat n < 9223372036854775808" using False u64_range [of n] by (simp add: sint_u64 split: if_splits)
  then show ?thesis using ds False plain_number_sign [OF ds(2)] by (simp add: put_i64_def signed_value_def plain_number_def sint_u64)
next
  case True
  let ?m = "(n XOR - 1) + 1"
  have m: "?m = - n" by (simp only: bit.xor_one_right, simp only: minus_eq_not_plus_1)
  obtain ds where ds: "put_u64 ?m = Inr ds" "plain_number 10 (unat ?m) ds" using put_u64_digits by blast
  have n: "9223372036854775808 \<le> unat n" "sint n = int (unat n) - 18446744073709551616"
    using True by (simp_all add: sint_u64 split: if_splits)
  have "unat (- n) = 18446744073709551616 - unat n" using n(1) unat_sub_if' [of 0 n] by simp
  then have "int (unat ?m) = - sint n" using n u64_range [of n] unfolding m by simp
  then show ?thesis using ds True by (simp add: put_i64_def put_char_def signed_value_def plain_number_def)
qed

section \<open>Dumps\<close>

text \<open>\<open>hexdump\<close> of the same bytes at the same address.\<close>

lemma hexdump_cell_cong:
  "(\<And>x. lo \<le> x \<Longrightarrow> x < hi \<Longrightarrow> m x = m' x) \<Longrightarrow> hexdump_cell m lo hi x = hexdump_cell m' lo hi x"
  "(\<And>x. lo \<le> x \<Longrightarrow> x < hi \<Longrightarrow> m x = m' x) \<Longrightarrow> hexdump_char m lo hi x = hexdump_char m' lo hi x"
  by (auto simp: hexdump_cell_def hexdump_char_def)

lemma hexdump_rows_cong:
  assumes "\<And>x. lo \<le> x \<Longrightarrow> x < hi \<Longrightarrow> m x = m' x"
  shows "hexdump_rows n m lo hi a = hexdump_rows n m' lo hi a"
proof -
  have cells: "hexdump_cells k x m lo hi = hexdump_cells k x m' lo hi" for k x
    by (induction k arbitrary: x) (simp_all add: hexdump_cell_cong(1) [OF assms])
  have chars: "hexdump_chars k x m lo hi = hexdump_chars k x m' lo hi" for k x
    by (induction k arbitrary: x) (simp_all add: hexdump_cell_cong(2) [OF assms])
  show ?thesis
    by (induction n arbitrary: a) (simp_all add: hexdump_rows.simps [of _ m] hexdump_rows.simps [of _ m'] cells chars)
qed

lemma as_hex_byte: "\<exists>a b. put_formatted_number (as_hex 1 (ucast (c :: u8))) = Inr [a, b]"
proof -
  have base: "2 \<le> unat (16 :: u64)" "unat (16 :: u64) \<le> 36" by simp_all
  have "unat (ucast c :: u64) < unat (16 :: u64) ^ 2" using u8_range [of c] by (simp add: unsigned_ucast_eq take_bit_eq_mod)
  then obtain ds where ds: "format_loop 2 (ucast c) 16 [] = Inr ds" "length ds \<le> 2" "plain_number 16 (unat (ucast c :: u64)) ds"
    using format_loop_digits [OF base, of 2 "ucast c" "[]"] by auto
  have more: "format_loop (pos + k) number 16 buffer = Inr r" if "format_loop pos number 16 buffer = Inr r" for pos k number buffer r
    using that
  proof (induction pos arbitrary: number buffer)
    case (Suc pos)
    then show ?case by (auto simp: Let_def split: if_splits)
  qed simp
  have "format_loop 64 (ucast c) 16 [] = Inr ds" using more [OF ds(1), of 62] by simp
  then have "put_formatted_number (as_hex 1 (ucast c)) = Inr (replicate (2 - length ds) 48 @ ds)"
    by (simp add: put_formatted_number_def as_hex_def format_number_def nat_diff_distrib)
  moreover have "length ds = 1 \<or> length ds = 2" using ds(2,3) by (cases ds) (auto simp: plain_number_def le_Suc_eq)
  ultimately show ?thesis by (auto simp: length_Suc_conv numeral_2_eq_2)
qed

lemma hexdump_cells_total: "\<exists>s. hexdump_cells k x m lo hi = Inr s \<and> length s = 3 * k"
proof (induction k arbitrary: x)
  case (Suc k)
  obtain s where "hexdump_cells k (x + 1) m lo hi = Inr s" "length s = 3 * k" using Suc.IH by blast
  moreover obtain t where "hexdump_cell m lo hi x = Inr t" "length t = 3"
  proof -
    obtain a b where "put_formatted_number (as_hex 1 (ucast (m x))) = Inr [a, b]" using as_hex_byte by blast
    then show ?thesis using that by (cases "x \<ge> lo \<and> x < hi") (simp_all add: hexdump_cell_def put_char_def del: One_nat_def)
  qed
  ultimately show ?case by simp
qed simp

lemma hexdump_rows_total:
  "16 dvd unat a \<Longrightarrow> 16 dvd unat stop \<Longrightarrow> stop = (hi + 15) AND NOT 0xf \<Longrightarrow> a \<le> stop \<Longrightarrow> n = unat (stop - a) div 16 \<Longrightarrow>
   \<exists>s. hexdump_rows n m lo hi a = Inr s \<and> length s = 65 * n"
proof (induction n arbitrary: a)
  case 0
  have "unat (stop - a) = unat stop - unat a" using 0(4) by (simp add: unat_sub)
  moreover have "16 dvd unat stop - unat a" using 0(1,2) by simp
  ultimately have "unat stop - unat a = 0" using 0(5) by auto
  then have "\<not> a < stop" by (simp add: word_less_nat_alt)
  then show ?case using 0(3) by (simp add: hexdump_rows.simps)
next
  case (Suc n)
  have sub: "unat (stop - a) = unat stop - unat a" using Suc.prems(4) by (simp add: unat_sub)
  have d: "16 dvd unat stop - unat a" using Suc.prems(1,2) by simp
  then have e: "unat stop - unat a = 16 * Suc n" using Suc.prems(5) sub by auto
  then have a16: "unat (a + 16) = unat a + 16" using u64_range [of stop] by (simp add: u64_add)
  then have "a + 16 \<le> stop" "a < stop" using e by (simp_all add: word_le_nat_alt word_less_nat_alt)
  moreover have "n = unat (stop - (a + 16)) div 16"
    using e a16 \<open>a + 16 \<le> stop\<close> by (simp add: unat_sub)
  ultimately obtain s where s: "hexdump_rows n m lo hi (a + 16) = Inr s" "length s = 65 * n"
    using Suc.IH [of "a + 16"] Suc.prems(1-3) a16 by auto
  obtain c where c: "hexdump_cells 16 a m lo hi = Inr c" "length c = 48" using hexdump_cells_total [of 16 a m lo hi] by auto
  have "length (hexdump_chars k x m lo hi) = k" for k x
    by (induction k arbitrary: x) (simp_all add: hexdump_char_def put_char_def)
  then show ?case using s c \<open>a < stop\<close> Suc.prems(3)
    by (simp add: hexdump_rows.simps [of "Suc n"] put_char_def del: hexdump_cells.simps hexdump_chars.simps)
qed

lemma align16: "unat (x AND NOT 0xf :: u64) = 16 * (unat x div 16)"
proof -
  have m: "(0xf :: u64) = mask 4" by (simp add: mask_eq_exp_minus_1)
  have "x AND NOT 0xf = push_bit 4 (drop_bit 4 x)" unfolding m by (rule bit_word_eqI) (auto simp: bit_simps)
  moreover have d: "unat (drop_bit 4 x) = unat x div 16" by (simp add: drop_bit_eq_div unat_div)
  moreover have "unat (16 * drop_bit 4 x) = unat (16 :: u64) * unat (drop_bit 4 x)"
    by (rule unat_mult_lem [THEN iffD1]) (use u64_range [of x] in \<open>simp only: d, simp\<close>)
  moreover have "push_bit 4 (drop_bit 4 x) = 16 * drop_bit 4 x" by (simp only: push_bit_eq_mult) simp
  ultimately show ?thesis by simp
qed

text \<open>\<open>hexdump\<close> returns for every range that does not end in the last 15 bytes of memory: it writes one line of
  65 characters for every 16-byte row that the range touches, and it reads no byte outside the range.\<close>

theorem hexdump_reads_range:
  assumes "unat ptr + unat len + 15 < 18446744073709551616"
    and "\<And>x. ptr \<le> x \<Longrightarrow> x < ptr + len \<Longrightarrow> m x = m' x"
  shows "\<exists>s. hexdump m ptr len = Inr s \<and> hexdump m' ptr len = Inr s \<and>
     length s = (if len = 0 then 0 else 65 * ((unat ptr + unat len + 15) div 16 - unat ptr div 16))"
proof (cases "len = 0")
  case False
  let ?hi = "ptr + len"
  let ?stop = "(?hi + 15) AND NOT 0xf" and ?a = "ptr AND NOT 0xf"
  have hi: "unat (?hi + 15) = unat ptr + unat len + 15" using assms(1) by (simp add: u64_add)
  have le: "?a \<le> ?stop" using hi unfolding word_le_nat_alt align16 by simp
  have n: "unat (?stop - ?a) div 16 = (unat ptr + unat len + 15) div 16 - unat ptr div 16"
    using le hi unfolding unat_sub [OF le] align16 by simp
  obtain s where "hexdump_rows (unat (?stop - ?a) div 16) m ptr ?hi ?a = Inr s" "length s = 65 * (unat (?stop - ?a) div 16)"
    using hexdump_rows_total [OF _ _ refl le refl] unfolding align16 by auto
  moreover have "hexdump_rows k m' ptr ?hi ?a = hexdump_rows k m ptr ?hi ?a" for k
    by (rule hexdump_rows_cong [symmetric]) (rule assms(2))
  ultimately show ?thesis using False n by (simp add: hexdump_def Let_def)
qed (simp add: hexdump_def)

theorem hexdump_reads_range_witness:
  "\<exists>s. hexdump (\<lambda>x. ucast x) 0x1003 20 = Inr s \<and> hexdump (\<lambda>x. if x < 0x1003 then 0 else ucast x) 0x1003 20 = Inr s \<and> length s = 130"
  using hexdump_reads_range [of "0x1003" 20 "\<lambda>x. ucast x" "\<lambda>x. if x < 0x1003 then 0 else ucast x"] by (simp add: leD)

end
