(* ===== verification/NetTypes.thy ===== *)
theory NetTypes
  imports OutStream
begin

text \<open>
  The types of \<open>attos/net/net.h\<close>: big-endian integers, addresses, and the packed header structs as records with
  their bytes in memory, and the Internet checksum of \<open>attos/net/net.cpp\<close>. A \<open>reinterpret_cast\<close> of a buffer to a header
  is a function \<open>..._at\<close> of the buffer, and \<open>..._bytes\<close> is the memory of a header that has been filled in.
\<close>

section \<open>Big-endian integers\<close>

definition bswap16 :: "u16 \<Rightarrow> u16" where
  "bswap16 x = push_bit 8 x OR drop_bit 8 x"

definition bswap32 :: "u32 \<Rightarrow> u32" where
  "bswap32 x = push_bit 24 x OR (push_bit 8 x AND 0xff0000) OR (drop_bit 8 x AND 0xff00) OR drop_bit 24 x"

text \<open>A \<open>be_int\<close> in memory: what is stored for a value, and the value that is read.\<close>

definition be16_bytes :: "u16 \<Rightarrow> bytes" where "be16_bytes x = store16 (bswap16 x)"
definition be32_bytes :: "u32 \<Rightarrow> bytes" where "be32_bytes x = store32 (bswap32 x)"
definition be16_at :: "bytes \<Rightarrow> nat \<Rightarrow> u16" where "be16_at b i = bswap16 (load16 b i)"
definition be32_at :: "bytes \<Rightarrow> nat \<Rightarrow> u32" where "be32_at b i = bswap32 (load32 b i)"

section \<open>Addresses\<close>

datatype mac_address = Mac u8 u8 u8 u8 u8 u8

definition mac_broadcast :: mac_address where "mac_broadcast = Mac 0xff 0xff 0xff 0xff 0xff 0xff"

fun mac_bytes :: "mac_address \<Rightarrow> bytes" where
  "mac_bytes (Mac a b c d e f) = [a, b, c, d, e, f]"

definition mac_at :: "bytes \<Rightarrow> nat \<Rightarrow> mac_address" where
  "mac_at b i = Mac (b ! i) (b ! (i + 1)) (b ! (i + 2)) (b ! (i + 3)) (b ! (i + 4)) (b ! (i + 5))"

text \<open>\<open>operator==\<close> compares the six bytes with \<open>std::equal\<close>.\<close>

definition mac_equal :: "mac_address \<Rightarrow> mac_address \<Rightarrow> bool" where
  "mac_equal l r \<longleftrightarrow> list_all2 (=) (mac_bytes l) (mac_bytes r)"

fun put_mac_from :: "nat \<Rightarrow> bytes \<Rightarrow> bytes res" where
  "put_mac_from i [] = Inr []"
| "put_mac_from i (c # b) =
     andThen (put_formatted_number (as_hex 1 (ucast c))) (\<lambda>s.
     andThen (put_mac_from (Suc i) b) (\<lambda>r. Inr ((if i \<noteq> 0 then put_char 58 else []) @ s @ r)))"

definition put_mac :: "mac_address \<Rightarrow> bytes res" where
  "put_mac mac = put_mac_from 0 (mac_bytes mac)"

text \<open>An \<open>ipv4_address\<close> is its value in host order (\<open>host_u32()\<close>); in memory it is big endian.\<close>

type_synonym ipv4_address = u32

definition ipv4 :: "u8 \<Rightarrow> u8 \<Rightarrow> u8 \<Rightarrow> u8 \<Rightarrow> ipv4_address" where
  "ipv4 a b c d = push_bit 24 (ucast a) OR push_bit 16 (ucast b) OR push_bit 8 (ucast c) OR ucast d"

definition inaddr_any :: ipv4_address where "inaddr_any = ipv4 0 0 0 0"
definition inaddr_broadcast :: ipv4_address where "inaddr_broadcast = ipv4 255 255 255 255"

definition put_ipv4 :: "ipv4_address \<Rightarrow> bytes res" where
  "put_ipv4 i =
     andThen (put_u32 (drop_bit 24 i AND 255)) (\<lambda>a.
     andThen (put_u32 (drop_bit 16 i AND 255)) (\<lambda>b.
     andThen (put_u32 (drop_bit 8 i AND 255)) (\<lambda>c.
     andThen (put_u32 (i AND 255)) (\<lambda>d. Inr (a @ put_char 46 @ b @ put_char 46 @ c @ put_char 46 @ d)))))"

record ipv4_net_config =
  nc_addr :: ipv4_address
  nc_netmask :: ipv4_address
  nc_gateway :: ipv4_address

definition ipv4_net_config_none :: ipv4_net_config where
  "ipv4_net_config_none = \<lparr>nc_addr = inaddr_any, nc_netmask = inaddr_any, nc_gateway = inaddr_any\<rparr>"

definition ethernet_max_bytes :: nat where "ethernet_max_bytes = 1500"

section \<open>Headers\<close>

definition ethertype_ipv4 :: u16 where "ethertype_ipv4 = 0x0800"
definition ethertype_arp :: u16 where "ethertype_arp = 0x0806"
definition ethertype_ipv6 :: u16 where "ethertype_ipv6 = 0x86dd"

record ethernet_header =
  eh_dst :: mac_address
  eh_src :: mac_address
  eh_type :: u16

definition ethernet_header_bytes :: "ethernet_header \<Rightarrow> bytes" where
  "ethernet_header_bytes h = mac_bytes (eh_dst h) @ mac_bytes (eh_src h) @ be16_bytes (eh_type h)"

definition ethernet_header_at :: "bytes \<Rightarrow> ethernet_header" where
  "ethernet_header_at b = \<lparr>eh_dst = mac_at b 0, eh_src = mac_at b 6, eh_type = be16_at b 12\<rparr>"

definition arp_htype_ethernet :: u16 where "arp_htype_ethernet = 0x0001"
definition arp_request :: u16 where "arp_request = 1"
definition arp_reply :: u16 where "arp_reply = 2"

record arp_header =
  ah_htype :: u16
  ah_ptype :: u16
  ah_hlen :: u8
  ah_plen :: u8
  ah_oper :: u16
  ah_sha :: mac_address
  ah_spa :: ipv4_address
  ah_tha :: mac_address
  ah_tpa :: ipv4_address

definition arp_header_bytes :: "arp_header \<Rightarrow> bytes" where
  "arp_header_bytes h = be16_bytes (ah_htype h) @ be16_bytes (ah_ptype h) @ [ah_hlen h, ah_plen h] @ be16_bytes (ah_oper h)
     @ mac_bytes (ah_sha h) @ be32_bytes (ah_spa h) @ mac_bytes (ah_tha h) @ be32_bytes (ah_tpa h)"

definition arp_header_at :: "bytes \<Rightarrow> arp_header" where
  "arp_header_at b = \<lparr>ah_htype = be16_at b 0, ah_ptype = be16_at b 2, ah_hlen = b ! 4, ah_plen = b ! 5, ah_oper = be16_at b 6,
     ah_sha = mac_at b 8, ah_spa = be32_at b 14, ah_tha = mac_at b 18, ah_tpa = be32_at b 24\<rparr>"

definition protocol_icmp :: u8 where "protocol_icmp = 0x01"
definition protocol_igmp :: u8 where "protocol_igmp = 0x02"
definition protocol_tcp :: u8 where "protocol_tcp = 0x06"
definition protocol_udp :: u8 where "protocol_udp = 0x11"

text \<open>The first two bytes are bit fields, the first of each in the low bits.\<close>

record ipv4_header =
  ih_ihl :: "4 word"
  ih_ver :: "4 word"
  ih_ecn :: "2 word"
  ih_dscp :: "6 word"
  ih_length :: u16
  ih_id :: u16
  ih_fragment :: u16
  ih_ttl :: u8
  ih_protocol :: u8
  ih_checksum :: u16
  ih_src :: ipv4_address
  ih_dst :: ipv4_address

definition ipv4_header_bytes :: "ipv4_header \<Rightarrow> bytes" where
  "ipv4_header_bytes h = [ucast (ih_ihl h) OR push_bit 4 (ucast (ih_ver h)), ucast (ih_ecn h) OR push_bit 2 (ucast (ih_dscp h))]
     @ be16_bytes (ih_length h) @ be16_bytes (ih_id h) @ be16_bytes (ih_fragment h) @ [ih_ttl h, ih_protocol h]
     @ be16_bytes (ih_checksum h) @ be32_bytes (ih_src h) @ be32_bytes (ih_dst h)"

definition ipv4_header_at :: "bytes \<Rightarrow> ipv4_header" where
  "ipv4_header_at b = \<lparr>ih_ihl = ucast (b ! 0), ih_ver = ucast (drop_bit 4 (b ! 0)), ih_ecn = ucast (b ! 1),
     ih_dscp = ucast (drop_bit 2 (b ! 1)), ih_length = be16_at b 2, ih_id = be16_at b 4, ih_fragment = be16_at b 6,
     ih_ttl = b ! 8, ih_protocol = b ! 9, ih_checksum = be16_at b 10, ih_src = be32_at b 12, ih_dst = be32_at b 16\<rparr>"

definition icmp_echo_reply :: u8 where "icmp_echo_reply = 0"
definition icmp_echo_request :: u8 where "icmp_echo_request = 8"

record icmp_header =
  ic_type :: u8
  ic_code :: u8
  ic_checksum :: u16
  ic_rest :: u32

definition icmp_header_bytes :: "icmp_header \<Rightarrow> bytes" where
  "icmp_header_bytes h = [ic_type h, ic_code h] @ be16_bytes (ic_checksum h) @ be32_bytes (ic_rest h)"

definition icmp_header_at :: "bytes \<Rightarrow> icmp_header" where
  "icmp_header_at b = \<lparr>ic_type = b ! 0, ic_code = b ! 1, ic_checksum = be16_at b 2, ic_rest = be32_at b 4\<rparr>"

record udp_header =
  uh_src_port :: u16
  uh_dst_port :: u16
  uh_length :: u16
  uh_checksum :: u16

definition udp_header_bytes :: "udp_header \<Rightarrow> bytes" where
  "udp_header_bytes h = be16_bytes (uh_src_port h) @ be16_bytes (uh_dst_port h) @ be16_bytes (uh_length h) @ be16_bytes (uh_checksum h)"

definition udp_header_at :: "bytes \<Rightarrow> udp_header" where
  "udp_header_at b = \<lparr>uh_src_port = be16_at b 0, uh_dst_port = be16_at b 2, uh_length = be16_at b 4, uh_checksum = be16_at b 6\<rparr>"

section \<open>The checksum\<close>

fun csum_loop :: "bytes \<Rightarrow> u16 \<Rightarrow> u32 \<Rightarrow> (bytes \<times> u16 \<times> u32) res" where
  "csum_loop buf len result =
     (if len > 1 then
        (case buf of a # b # buf1 \<Rightarrow> csum_loop buf1 (len - 2) (result + ucast (bswap16 (load16 buf 0)))
         | _ \<Rightarrow> Inl (Wild ''src''))
      else Inr (buf, len, result))"

declare csum_loop.simps [simp del]

definition csum_odd :: "bytes \<Rightarrow> u16 \<Rightarrow> u32 \<Rightarrow> u32 res" where
  "csum_odd buf len result =
     (if len \<noteq> 0 then (case buf of [] \<Rightarrow> Inl (Wild ''src'') | a # _ \<Rightarrow> Inr (result + push_bit 8 (ucast a))) else Inr result)"

definition csum_fold :: "u32 \<Rightarrow> u16" where
  "csum_fold result0 =
     (let result1 = drop_bit 16 result0 + (result0 AND 0xFFFF);
          result2 = result1 + drop_bit 16 result1
      in ucast (NOT result2 AND 0xFFFF))"

definition inet_csum :: "bytes \<Rightarrow> u16 \<Rightarrow> u16 \<Rightarrow> u16 res" where
  "inet_csum src len init =
     andThen (csum_loop src len (ucast init)) (\<lambda>(buf, len1, result).
     andThen (csum_odd buf len1 result) (\<lambda>result1. Inr (csum_fold result1)))"

section \<open>Integers and headers read back\<close>

lemma bit_beyond [simp]: "8 \<le> n \<Longrightarrow> \<not> bit (x :: u8) n" "6 \<le> n \<Longrightarrow> \<not> bit (d :: 6 word) n"
  "4 \<le> n \<Longrightarrow> \<not> bit (l :: 4 word) n" "2 \<le> n \<Longrightarrow> \<not> bit (e :: 2 word) n"
  using bit_imp_le_length [of x n] bit_imp_le_length [of d n] bit_imp_le_length [of l n] bit_imp_le_length [of e n] by auto

lemma be16_bytes_eq: "be16_bytes v = [ucast (drop_bit 8 v), ucast v]"
proof -
  have "ucast (bswap16 v) = (ucast (drop_bit 8 v) :: u8)" "ucast (drop_bit 8 (bswap16 v)) = (ucast v :: u8)"
    by (rule bit_word_eqI, auto simp: bswap16_def bit_simps)+
  then show ?thesis by (simp add: be16_bytes_def store16_def)
qed

lemma be16_at_eq: "be16_at b i = push_bit 8 (ucast (b ! i)) OR ucast (b ! (i + 1))"
  unfolding be16_at_def bswap16_def load16_def by (rule bit_word_eqI) (auto simp: bit_simps)

lemma join16 [simp]: "push_bit 8 (ucast (ucast (drop_bit 8 v) :: u8)) OR ucast (ucast v :: u8) = (v :: u16)"
  by (rule bit_word_eqI) (auto simp: bit_simps)

lemma u32_bits: "(\<And>n. n < 32 \<Longrightarrow> bit v n = bit w n) \<Longrightarrow> v = (w :: u32)"
  by (rule bit_word_eqI) simp

lemma byte_masks: "(0xff0000 :: u32) = push_bit 16 (mask 8)" "(0xff00 :: u32) = push_bit 8 (mask 8)"
  by (simp_all add: mask_eq_exp_minus_1 push_bit_eq_mult)

lemma be32_bytes_eq: "be32_bytes v = [ucast (drop_bit 24 v), ucast (drop_bit 16 v), ucast (drop_bit 8 v), ucast v]"
proof -
  have "ucast (bswap32 v) = (ucast (drop_bit 24 v) :: u8)" "ucast (drop_bit 8 (bswap32 v)) = (ucast (drop_bit 16 v) :: u8)"
    "ucast (drop_bit 16 (bswap32 v)) = (ucast (drop_bit 8 v) :: u8)" "ucast (drop_bit 24 (bswap32 v)) = (ucast v :: u8)"
    unfolding bswap32_def byte_masks by (rule bit_word_eqI, auto simp: bit_simps)+
  then show ?thesis by (simp add: be32_bytes_def store32_def)
qed

lemma be32_at_eq:
  "be32_at b i = push_bit 24 (ucast (b ! i)) OR push_bit 16 (ucast (b ! (i + 1))) OR push_bit 8 (ucast (b ! (i + 2))) OR ucast (b ! (i + 3))"
proof (rule u32_bits)
  fix n :: nat assume "n < 32"
  then show "bit (be32_at b i) n = bit (push_bit 24 (ucast (b ! i)) OR push_bit 16 (ucast (b ! (i + 1))) OR
      push_bit 8 (ucast (b ! (i + 2))) OR ucast (b ! (i + 3)) :: u32) n"
    by (rule by_byte) (simp_all add: be32_at_def bswap32_def byte_masks load32_def bit_simps)
qed

lemma join32 [simp]:
  "push_bit 24 (ucast (ucast (drop_bit 24 v) :: u8)) OR push_bit 16 (ucast (ucast (drop_bit 16 v) :: u8)) OR
     push_bit 8 (ucast (ucast (drop_bit 8 v) :: u8)) OR ucast (ucast v :: u8) = (v :: u32)"
proof (rule u32_bits)
  fix n :: nat assume "n < 32"
  then show "bit (push_bit 24 (ucast (ucast (drop_bit 24 v) :: u8)) OR push_bit 16 (ucast (ucast (drop_bit 16 v) :: u8)) OR
     push_bit 8 (ucast (ucast (drop_bit 8 v) :: u8)) OR ucast (ucast v :: u8) :: u32) n = bit v n"
    by (rule by_byte) (simp_all add: bit_simps)
qed

lemma length_be [simp]: "length (be16_bytes v) = 2" "length (be32_bytes w) = 4"
  by (simp_all add: be16_bytes_def be32_bytes_def)

lemma length_mac [simp]: "length (mac_bytes a) = 6"
  by (cases a) simp

lemma mac_equal_iff [simp]: "mac_equal l r \<longleftrightarrow> l = r"
  by (cases l; cases r) (simp add: mac_equal_def)

lemma length_headers [simp]:
  "length (ethernet_header_bytes eh) = 14" "length (arp_header_bytes ah) = 28" "length (ipv4_header_bytes ih) = 20"
  "length (icmp_header_bytes ic) = 8" "length (udp_header_bytes uh) = 8"
  by (simp_all add: ethernet_header_bytes_def arp_header_bytes_def ipv4_header_bytes_def icmp_header_bytes_def udp_header_bytes_def)

lemma mac_prefix: "i + 6 \<le> length x \<Longrightarrow> mac_at (x @ y) i = mac_at x i"
  by (simp add: mac_at_def nth_append)

lemma mac_at_bytes [simp]: "mac_at (mac_bytes m @ y) 0 = m"
  by (cases m) (simp add: mac_at_def)

lemma bit_fields:
  "ucast (ucast l OR push_bit 4 (ucast h) :: u8) = (l :: 4 word)" "ucast (drop_bit 4 (ucast l) OR drop_bit 4 (push_bit 4 (ucast h) :: u8)) = (h :: 4 word)"
  "ucast (ucast e OR push_bit 2 (ucast d) :: u8) = (e :: 2 word)" "ucast (drop_bit 2 (ucast e) OR drop_bit 2 (push_bit 2 (ucast d) :: u8)) = (d :: 6 word)"
  by (rule bit_word_eqI, auto simp: bit_simps)+

lemmas be_eqs = be16_bytes_eq be32_bytes_eq be16_at_eq be32_at_eq

lemma ethernet_header_round: "ethernet_header_at (ethernet_header_bytes h @ r) = h"
  by (cases h; cases "eh_dst h"; cases "eh_src h") (simp add: ethernet_header_at_def ethernet_header_bytes_def be_eqs mac_at_def)

lemma arp_header_round: "arp_header_at (arp_header_bytes h @ r) = h"
  by (cases h; cases "ah_sha h"; cases "ah_tha h") (simp add: arp_header_at_def arp_header_bytes_def be_eqs mac_at_def)

lemma ipv4_header_round: "ipv4_header_at (ipv4_header_bytes h @ r) = h"
  by (cases h) (simp add: ipv4_header_at_def ipv4_header_bytes_def be_eqs bit_fields)

lemma icmp_header_round: "icmp_header_at (icmp_header_bytes h @ r) = h"
  by (cases h) (simp add: icmp_header_at_def icmp_header_bytes_def be_eqs)

lemma udp_header_round: "udp_header_at (udp_header_bytes h @ r) = h"
  by (cases h) (simp add: udp_header_at_def udp_header_bytes_def be_eqs)


section \<open>The checksum verifies\<close>

text \<open>The sum of the big-endian 16-bit words of a buffer, an odd last byte padded with zero.\<close>

fun words_sum :: "bytes \<Rightarrow> nat" where
  "words_sum (a # b # r) = unat a * 256 + unat b + words_sum r"
| "words_sum [a] = unat a * 256"
| "words_sum [] = 0"

lemma words_sum_append: "even (length x) \<Longrightarrow> words_sum (x @ y) = words_sum x + words_sum y"
  by (induction x rule: words_sum.induct) auto

lemma words_sum_less: "words_sum b \<le> 65535 * ((length b + 1) div 2)"
proof (induction b rule: words_sum.induct)
  case (1 a b r)
  then show ?case using u8_range [of a] u8_range [of b] by simp
next
  case (2 a)
  then show ?case using u8_range [of a] by simp
qed simp

lemma be16_at_unat: "unat (be16_at b i) = unat (b ! i) * 256 + unat (b ! (i + 1))"
proof -
  let ?h = "ucast (b ! i) :: u16" and ?l = "ucast (b ! (i + 1)) :: u16"
  have d: "push_bit 8 ?h OR ?l = push_bit 8 ?h + ?l"
    by (rule disjunctive_add [symmetric]) (auto simp: bit_simps)
  have l: "unat ?l = unat (b ! (i + 1))" "unat ?h = unat (b ! i)"
    using u8_range [of "b ! i"] u8_range [of "b ! (i + 1)"] by (simp_all add: unsigned_ucast_eq take_bit_eq_mod)
  have "unat (push_bit 8 ?h) = unat (b ! i) * 256"
    using u8_range [of "b ! i"] l(2) unat_shl [of ?h 8] by simp
  then have "unat (push_bit 8 ?h + ?l) = unat (b ! i) * 256 + unat (b ! (i + 1))"
    using l u8_range [of "b ! i"] u8_range [of "b ! (i + 1)"] by (subst unat_add_lem [THEN iffD1]) simp_all
  then show ?thesis unfolding be16_at_eq d .
qed

lemma words_sum_be16: "words_sum (be16_bytes c) = unat c"
  using be16_at_unat [of "be16_bytes c" 0] be16_at_eq [of "be16_bytes c" 0] by (simp add: be16_bytes_eq)

lemma csum_loop_sum:
  "length b < 65536 \<Longrightarrow> len = of_nat (length b) \<Longrightarrow> unat r + words_sum b < 4294967296 \<Longrightarrow>
   \<exists>r'. andThen (csum_loop (b @ y) len r) (\<lambda>(buf, len1, result). csum_odd buf len1 result) = Inr r' \<and> unat r' = unat r + words_sum b"
proof (induction b arbitrary: len r rule: words_sum.induct)
  case (1 a b x)
  have n: "unat len = length x + 2" unfolding 1(3) using unat_of_nat_u16 [OF 1(2)] by simp
  then have gt: "len > 1" by (simp add: word_less_nat_alt)
  have "2 \<le> len" using n by (simp add: word_le_nat_alt)
  then have len: "len - 2 = of_nat (length x)" using n 1(2)
    by (simp add: word_unat_eq_iff unat_sub unat_of_nat_u16)
  let ?w = "ucast (bswap16 (load16 (a # b # x) 0)) :: u32"
  have "unat (be16_at (a # b # x) 0) = unat a * 256 + unat b" using be16_at_unat [of "a # b # x" 0] by simp
  then have w: "unat ?w = unat a * 256 + unat b"
    using u16_range [of "be16_at (a # b # x) 0"] by (simp add: be16_at_def unsigned_ucast_eq take_bit_eq_mod)
  have r: "unat (r + ?w) = unat r + unat ?w"
    using 1(4) w by (subst unat_add_lem [THEN iffD1]) simp_all
  have "\<exists>r'. andThen (csum_loop (x @ y) (len - 2) (r + ?w)) (\<lambda>(buf, len1, result). csum_odd buf len1 result) = Inr r' \<and>
      unat r' = unat (r + ?w) + words_sum x"
    by (rule 1(1)) (use 1(2,4) len r w in simp_all)
  then show ?case using gt r w by (simp add: csum_loop.simps [of "a # b # x @ y"] load16_def add.assoc)
next
  case (2 a)
  have w: "unat (push_bit 8 (ucast a :: u32)) = unat a * 256"
    using u8_range [of a] unat_shl [of "ucast a :: u32" 8] by (simp add: unsigned_ucast_eq take_bit_eq_mod)
  have "unat (r + push_bit 8 (ucast a)) = unat r + unat a * 256"
    using 2(3) w by (subst unat_add_lem [THEN iffD1]) simp_all
  then show ?case using 2 by (simp add: csum_loop.simps csum_odd_def)
qed (simp add: csum_loop.simps csum_odd_def)

text \<open>The ones' complement sum: the remainder modulo 65535, represented by 65535 unless the sum is zero.\<close>

definition ones_sum :: "nat \<Rightarrow> nat" where
  "ones_sum s = (if s = 0 then 0 else (s - 1) mod 65535 + 1)"

lemma ones_sum_unique: "0 < t \<Longrightarrow> t \<le> 65535 \<Longrightarrow> s = 65535 * h + t \<Longrightarrow> ones_sum s = t"
proof -
  assume a: "0 < t" "t \<le> 65535" "s = 65535 * h + t"
  then have "s - 1 = (t - 1) + 65535 * h" by simp
  then have "(s - 1) mod 65535 = (t - 1) mod 65535" by (simp only: mod_mult_self2)
  then show "ones_sum s = t" using a by (simp add: ones_sum_def)
qed

lemma csum_fold_ones:
  assumes "unat r < 2147483648"
  shows "unat (csum_fold r) = 65535 - ones_sum (unat r)"
proof -
  define h l where "h = unat r div 65536" and "l = unat r mod 65536"
  have hl: "unat r = 65536 * h + l" "h < 32768" "l < 65536" using assms by (auto simp: h_def l_def)
  let ?r1 = "drop_bit 16 r + (r AND 0xFFFF)"
  have m: "(0xFFFF :: u32) = mask 16" by (simp add: mask_eq_exp_minus_1)
  have d: "unat (drop_bit 16 r) = h" by (simp add: h_def drop_bit_eq_div unat_div)
  have a: "unat (r AND 0xFFFF) = l" unfolding m by (simp add: l_def take_bit_eq_mask [symmetric] unsigned_take_bit_eq take_bit_eq_mod unat_mod)
  have r1: "unat ?r1 = h + l" using hl d a by (subst unat_add_lem [THEN iffD1]) simp_all
  let ?r2 = "?r1 + drop_bit 16 ?r1"
  have d1: "unat (drop_bit 16 ?r1) = (h + l) div 65536" using r1 by (simp add: drop_bit_eq_div unat_div)
  have r2: "unat ?r2 = h + l + (h + l) div 65536" using hl r1 d1 by (subst unat_add_lem [THEN iffD1]) simp_all
  have f: "csum_fold r = NOT (ucast ?r2 :: u16)"
    unfolding csum_fold_def Let_def m by (rule bit_word_eqI) (auto simp: bit_simps)
  have "unat (NOT w) = 65535 - unat w" for w :: u16
  proof -
    have "NOT w = - 1 - w" by (simp add: not_eq_complement)
    moreover have "w \<le> - 1" by simp
    moreover have "(- 1 :: u16) = 65535" by simp
    then have "unat (- 1 :: u16) = 65535" by (simp only:) simp
    ultimately show ?thesis by (metis unat_sub)
  qed
  moreover have "unat (ucast ?r2 :: u16) = (h + l + (h + l) div 65536) mod 65536"
    using r2 by (simp add: unsigned_ucast_eq take_bit_eq_mod)
  moreover have "(h + l + (h + l) div 65536) mod 65536 = ones_sum (unat r)"
  proof (cases "h + l < 65536")
    case True
    then show ?thesis using ones_sum_unique [of "h + l" "unat r" h] hl by (cases "h + l = 0") (auto simp: ones_sum_def)
  next
    case False
    then have e: "(h + l) div 65536 = 1" using hl by (auto simp: div_nat_eqI)
    have "(h + l + 1) mod 65536 = h + l - 65535" using False hl by (simp add: mod_if)
    then show ?thesis using ones_sum_unique [of "h + l - 65535" "unat r" "h + 1"] False hl unfolding e by simp
  qed
  ultimately show ?thesis using f by simp
qed

lemma inet_csum_eq:
  assumes "length b < 65536"
  shows "\<exists>c. inet_csum (b @ z) (of_nat (length b)) 0 = Inr c \<and> unat c = 65535 - ones_sum (words_sum b)"
proof -
  have "(length b + 1) div 2 \<le> 32768" using assms by simp
  then have w: "words_sum b < 2147483648" using words_sum_less [of b] by linarith
  then obtain r where r: "andThen (csum_loop (b @ z) (of_nat (length b)) 0) (\<lambda>(buf, len1, result). csum_odd buf len1 result) = Inr r"
    "unat r = words_sum b"
    using csum_loop_sum [OF assms refl, of 0 z] by auto
  then have "inet_csum (b @ z) (of_nat (length b)) 0 = Inr (csum_fold r)"
    by (auto simp: inet_csum_def andThen_assoc [symmetric] res_simps)
  then show ?thesis using csum_fold_ones [of r] r(2) w by simp
qed

lemma ones_sum_full: "ones_sum (s + (65535 - ones_sum s)) = 65535"
proof (cases "s = 0")
  case False
  define q where "q = (s - 1) div 65535"
  have "s = 65535 * q + ones_sum s" using False mult_div_mod_eq [of 65535 "s - 1"] by (simp add: ones_sum_def q_def)
  moreover have "ones_sum s \<le> 65535" by (simp add: ones_sum_def Suc_le_eq)
  ultimately have "s + (65535 - ones_sum s) = 65535 * q + 65535" by simp
  then show ?thesis by (intro ones_sum_unique) auto
qed (simp add: ones_sum_def)

lemma csum_verifies:
  assumes "even (length x)" "length x + length y + 2 < 65536"
    and "inet_csum (x @ [0, 0] @ y @ z) (of_nat (length x + 2 + length y)) 0 = Inr c"
  shows "inet_csum (x @ be16_bytes c @ y @ z') (of_nat (length x + 2 + length y)) 0 = Inr 0"
proof -
  let ?b = "x @ [0, 0] @ y" and ?b' = "x @ be16_bytes c @ y"
  have s: "words_sum ?b' = words_sum ?b + unat c"
    using assms(1) words_sum_append [of "be16_bytes c" y] by (simp add: words_sum_append words_sum_be16)
  have len: "length ?b = length x + 2 + length y" "length ?b' = length x + 2 + length y" by simp_all
  have c: "unat c = 65535 - ones_sum (words_sum ?b)"
    using inet_csum_eq [of ?b z] assms(2,3) unfolding len by auto
  obtain c' where c': "inet_csum (?b' @ z') (of_nat (length ?b')) 0 = Inr c'" "unat c' = 65535 - ones_sum (words_sum ?b')"
    using inet_csum_eq [of ?b' z'] assms(2) unfolding len by auto
  have "ones_sum (words_sum ?b + (65535 - ones_sum (words_sum ?b))) = 65535"
    by (rule ones_sum_full)
  then have "c' = 0" using c'(2) s c by (simp add: word_unat_eq_iff)
  then show ?thesis using c'(1) unfolding len by simp
qed

text \<open>a message with its checksum filled in passes the check: if the field is at an even offset and was zero when
  the checksum was computed, the checksum over the whole is zero, whatever follows the message.\<close>

theorem inet_csum_verifies:
  assumes "even (length x)" "length x + length y + 2 < 65536"
    and "inet_csum (x @ [0, 0] @ y) (of_nat (length x + 2 + length y)) 0 = Inr c"
  shows "inet_csum (x @ be16_bytes c @ y @ z) (of_nat (length x + 2 + length y)) 0 = Inr 0"
  using csum_verifies [OF assms(1,2), of "[]" c z] assms(3) by simp

theorem inet_csum_verifies_witness: "inet_csum ([0x45, 0] @ be16_bytes 0xB6FD @ [1, 2, 3] @ [4]) 7 0 = Inr 0"
proof -
  have "inet_csum ([0x45, 0] @ [0, 0] @ [1, 2, 3]) (of_nat (length [0x45 :: u8, 0] + 2 + length [1 :: u8, 2, 3])) 0 = Inr 0xB6FD"
    by (simp add: inet_csum_def csum_loop.simps csum_odd_def csum_fold_def Let_def load16_def bswap16_def)
  from inet_csum_verifies [OF _ _ this, of "[4]"] show ?thesis by simp
qed

end
