(* ===== verification/NetStack.thy ===== *)
theory NetStack
  imports NetTypes
begin

text \<open>
  The IPv4 device of \<open>attos/net/tftp.cpp\<close> (\<open>ipv4_ethernet_device\<close> and \<open>udp_socket\<close>): ARP, IPv4, ICMP echo and UDP.
  The Ethernet device underneath is a hardware address and the list of the frames handed to \<open>send_packet\<close>. The two
  kvectors are lists (see \<open>Containers\<close>), and the function a socket was opened with is named by a key of type \<open>'k\<close>:
  \<open>recv\<close>, a parameter of \<open>eth_in\<close>, says what calling it does to the state \<open>'c\<close> of its owner and to the device.

  A received packet is a pointer and a length that the code computes on its own: the bytes that are really there, and
  a length. Reading bytes that are not there is \<open>Wild\<close>; so is handing them to a socket's function.
\<close>

section \<open>The code: state\<close>

record arp_entry =
  ae_pa :: ipv4_address
  ae_ha :: mac_address

record 'k open_udp_socket =
  us_addr :: ipv4_address
  us_port :: u16
  us_recv :: 'k

record 'k ipv4_dev =
  dv_hw :: mac_address
  dv_config :: ipv4_net_config
  dv_arp :: "arp_entry list"
  dv_socks :: "'k open_udp_socket list"
  dv_sent :: "bytes list"

definition ipv4_dev_new :: "mac_address \<Rightarrow> 'k ipv4_dev" where
  "ipv4_dev_new hw = \<lparr>dv_hw = hw, dv_config = ipv4_net_config_none, dv_arp = [], dv_socks = [], dv_sent = []\<rparr>"

definition ethdev_send :: "'k ipv4_dev \<Rightarrow> bytes \<Rightarrow> 'k ipv4_dev" where
  "ethdev_send dev data = dev\<lparr>dv_sent := dv_sent dev @ [data]\<rparr>"

definition set_ipv4_config :: "'k ipv4_dev \<Rightarrow> ipv4_net_config \<Rightarrow> 'k ipv4_dev res" where
  "set_ipv4_config dev config =
     require (nc_addr (dv_config dev) = inaddr_any) ''ipv4_config_.addr == inaddr_any'' (
     require (nc_addr config \<noteq> inaddr_any \<and> nc_addr config \<noteq> inaddr_broadcast) ''config.addr != inaddr_any'' (
     require (nc_netmask config \<noteq> inaddr_any) ''config.netmask != inaddr_any'' (
       Inr (dev\<lparr>dv_config := config\<rparr>))))"

section \<open>The code: ARP\<close>

definition find_arp_entry :: "'k ipv4_dev \<Rightarrow> ipv4_address \<Rightarrow> arp_entry option" where
  "find_arp_entry dev ip = List.find (\<lambda>e. ae_pa e = ip) (dv_arp dev)"

text \<open>The assignment through the pointer that \<open>find_arp_entry\<close> returned.\<close>

fun arp_entries_set :: "arp_entry list \<Rightarrow> ipv4_address \<Rightarrow> mac_address \<Rightarrow> arp_entry list" where
  "arp_entries_set [] ip ha = []"
| "arp_entries_set (e # es) ip ha = (if ae_pa e = ip then e\<lparr>ae_ha := ha\<rparr> # es else e # arp_entries_set es ip ha)"

definition add_arp_entry :: "'k ipv4_dev \<Rightarrow> ipv4_address \<Rightarrow> mac_address \<Rightarrow> 'k ipv4_dev res" where
  "add_arp_entry dev pa ha =
     require (find_arp_entry dev pa = None) ''!find_arp_entry(pa)'' (
       Inr (dev\<lparr>dv_arp := dv_arp dev @ [\<lparr>ae_pa = pa, ae_ha = ha\<rparr>]\<rparr>))"

definition send_arp :: "'k ipv4_dev \<Rightarrow> u16 \<Rightarrow> ipv4_address \<Rightarrow> mac_address \<Rightarrow> ipv4_address \<Rightarrow> 'k ipv4_dev" where
  "send_arp dev oper spa tha tpa =
     (let eh = \<lparr>eh_dst = tha, eh_src = dv_hw dev, eh_type = ethertype_arp\<rparr>;
          ah = \<lparr>ah_htype = arp_htype_ethernet, ah_ptype = ethertype_ipv4, ah_hlen = 0x06, ah_plen = 0x04, ah_oper = oper,
                ah_sha = eh_src eh, ah_spa = spa, ah_tha = tha, ah_tpa = tpa\<rparr>
      in ethdev_send dev (ethernet_header_bytes eh @ arp_header_bytes ah))"

definition arp_in :: "'k ipv4_dev \<Rightarrow> arp_header \<Rightarrow> 'k ipv4_dev res" where
  "arp_in dev ah =
     require (ah_htype ah = arp_htype_ethernet) ''ah.htype == arp_htype::ethernet'' (
     require (ah_ptype ah = ethertype_ipv4) ''ah.ptype == ethertype::ipv4'' (
     require (ah_hlen ah = 0x06) ''ah.hlen == 0x06'' (
     require (ah_plen ah = 0x04) ''ah.plen == 0x04'' (
     require (ah_oper ah = arp_request \<or> ah_oper ah = arp_reply) ''ah.oper'' (
     require (\<not> mac_equal (ah_sha ah) mac_broadcast) ''ah.sha != mac_address::broadcast'' (
     if nc_addr (dv_config dev) = inaddr_any then Inr dev
     else
       let merge_flag = (find_arp_entry dev (ah_spa ah) \<noteq> None);
           dev1 = (case find_arp_entry dev (ah_spa ah) of
                     Some e \<Rightarrow> if \<not> mac_equal (ae_ha e) (ah_sha ah)
                               then dev\<lparr>dv_arp := arp_entries_set (dv_arp dev) (ah_spa ah) (ah_sha ah)\<rparr> else dev
                   | None \<Rightarrow> dev)
       in if nc_addr (dv_config dev1) = ah_tpa ah then
            andThen (if \<not> merge_flag then add_arp_entry dev1 (ah_spa ah) (ah_sha ah) else Inr dev1) (\<lambda>dev2.
              Inr (if ah_oper ah = arp_request then send_arp dev2 arp_reply (ah_tpa ah) (ah_sha ah) (ah_spa ah) else dev2))
          else Inr dev1))))))"

section \<open>The code: IPv4 output\<close>

text \<open>\<open>ipv4_out\<close> fills in the Ethernet header, for which the first 14 bytes of the buffer are reserved.\<close>

definition ipv4_out :: "'k ipv4_dev \<Rightarrow> bytes \<Rightarrow> 'k ipv4_dev res" where
  "ipv4_out dev data =
     require (length data \<ge> 14 + 20 \<and> length data \<le> ethernet_max_bytes) ''length'' (
     let ih = ipv4_header_at (drop 14 data);
         send = (\<lambda>dst. Inr (ethdev_send dev
                  (ethernet_header_bytes \<lparr>eh_dst = dst, eh_src = dv_hw dev, eh_type = ethertype_ipv4\<rparr> @ drop 14 data)))
     in require (ih_ver ih = 4 \<and> ih_ihl ih = 5) ''ih.ver == 4 && ih.ihl == 5'' (
        if ih_dst ih = inaddr_broadcast then send mac_broadcast
        else if ih_dst ih = inaddr_any then Inl (Fatal ''Invalid destination IP'')
        else
          let config = dv_config dev;
              offnet = (ih_dst ih AND nc_netmask config \<noteq> nc_addr config AND nc_netmask config)
          in require (offnet \<longrightarrow> nc_gateway config \<noteq> inaddr_any) ''ipv4_config_.gateway != inaddr_any'' (
             let tpa = (if offnet then nc_gateway config else ih_dst ih)
             in case find_arp_entry dev tpa of
                  Some ae \<Rightarrow> send (ae_ha ae)
                | None \<Rightarrow> Inr (send_arp dev arp_request (nc_addr config) mac_broadcast tpa))))"

text \<open>An IPv4 header without options as \<open>sendto\<close> and \<open>icmp_in\<close> fill it in: all other fields are zeroed by \<open>memset\<close>,
  and the checksum is computed last, over the header with a zero checksum.\<close>

definition new_ipv4_header :: "u16 \<Rightarrow> u8 \<Rightarrow> ipv4_address \<Rightarrow> ipv4_address \<Rightarrow> ipv4_header res" where
  "new_ipv4_header len protocol src dst =
     (let ih = \<lparr>ih_ihl = 5, ih_ver = 4, ih_ecn = 0, ih_dscp = 0, ih_length = len, ih_id = 0, ih_fragment = 0, ih_ttl = 64,
                ih_protocol = protocol, ih_checksum = 0, ih_src = src, ih_dst = dst\<rparr>
      in andThen (inet_csum (ipv4_header_bytes ih) 20 0) (\<lambda>c. Inr (ih\<lparr>ih_checksum := c\<rparr>)))"

section \<open>The code: UDP sockets\<close>

definition find_open_udp_socket :: "'k ipv4_dev \<Rightarrow> ipv4_address \<Rightarrow> u16 \<Rightarrow> 'k open_udp_socket option" where
  "find_open_udp_socket dev local_addr local_port =
     List.find (\<lambda>s. (us_addr s = inaddr_any \<or> us_addr s = local_addr) \<and> us_port s = local_port) (dv_socks dev)"

text \<open>The search for an unused port.\<close>

function find_unused_port :: "'k ipv4_dev \<Rightarrow> ipv4_address \<Rightarrow> u16 \<Rightarrow> u16" where
  "find_unused_port dev local_addr local_port =
     (if local_port < 65535 \<and> find_open_udp_socket dev local_addr local_port \<noteq> None
      then find_unused_port dev local_addr (local_port + 1) else local_port)"
  by pat_completeness auto
termination
proof (relation "measure (\<lambda>(dev, a, p). 65535 - unat p)")
  fix dev :: "'k ipv4_dev" and a p
  assume "p < 65535 \<and> find_open_udp_socket dev a p \<noteq> None"
  then have lt: "unat p < 65535" by (simp add: word_less_nat_alt)
  then have "unat (p + 1) = unat p + 1" using unat_add_lem [of p 1] by simp
  then show "((dev, a, p + 1), dev, a, p) \<in> measure (\<lambda>(dev, a, p). 65535 - unat p)" using lt by simp
qed simp

declare find_unused_port.simps [simp del]

text \<open>A socket is known to its owner by its local address and port.\<close>

definition udp_open :: "'k ipv4_dev \<Rightarrow> ipv4_address \<Rightarrow> u16 \<Rightarrow> 'k \<Rightarrow> (u16 \<times> 'k ipv4_dev) res" where
  "udp_open dev local_addr local_port0 recv_func =
     (let local_port = (if local_port0 = 0 then find_unused_port dev local_addr 49152 else local_port0) in
      require (local_addr = nc_addr (dv_config dev) \<or> local_addr = inaddr_any) ''local_addr == ipv4_config_.addr'' (
      require (find_open_udp_socket dev local_addr local_port = None) ''!find_open_udp_socket(local_addr, local_port)'' (
      require (local_port \<noteq> 0) ''local_port != 0'' (
        Inr (local_port, dev\<lparr>dv_socks := dv_socks dev @ [\<lparr>us_addr = local_addr, us_port = local_port, us_recv = recv_func\<rparr>]\<rparr>)))))"

fun erase_socket :: "'k open_udp_socket list \<Rightarrow> ipv4_address \<Rightarrow> u16 \<Rightarrow> 'k open_udp_socket list" where
  "erase_socket [] a p = []"
| "erase_socket (s # ss) a p =
     (if (us_addr s = inaddr_any \<or> us_addr s = a) \<and> us_port s = p then ss else s # erase_socket ss a p)"

definition udp_close :: "'k ipv4_dev \<Rightarrow> ipv4_address \<Rightarrow> u16 \<Rightarrow> 'k ipv4_dev res" where
  "udp_close dev local_addr port =
     require (find_open_udp_socket dev local_addr port \<noteq> None) ''s != nullptr'' (
       Inr (dev\<lparr>dv_socks := erase_socket (dv_socks dev) local_addr port\<rparr>))"

text \<open>\<open>send_buffer_\<close> has \<open>ethernet_max_bytes\<close> bytes; the first 14 are left for the Ethernet header.\<close>

definition udp_sendto :: "'k ipv4_dev \<Rightarrow> ipv4_address \<Rightarrow> u16 \<Rightarrow> ipv4_address \<Rightarrow> u16 \<Rightarrow> bytes \<Rightarrow> 'k ipv4_dev res" where
  "udp_sendto dev local_addr local_port remote_addr remote_port data =
     require (length data \<le> ethernet_max_bytes - (14 + 20 + 8)) ''length <= sizeof(send_buffer_)'' (
     andThen (new_ipv4_header (of_nat (20 + 8 + length data)) protocol_udp local_addr remote_addr) (\<lambda>ih.
     let uh = \<lparr>uh_src_port = local_port, uh_dst_port = remote_port, uh_length = of_nat (8 + length data), uh_checksum = 0\<rparr>
     in ipv4_out dev (replicate 14 0 @ ipv4_header_bytes ih @ udp_header_bytes uh @ data)))"

section \<open>The code: input\<close>

type_synonym ('k, 'c) udp_receiver = "'k \<Rightarrow> bytes \<Rightarrow> 'c \<times> 'k ipv4_dev \<Rightarrow> ('c \<times> 'k ipv4_dev) res"

definition udp_in :: "('k, 'c) udp_receiver \<Rightarrow> ipv4_header \<Rightarrow> udp_header \<Rightarrow> bytes \<Rightarrow> u32 \<Rightarrow> 'c \<times> 'k ipv4_dev \<Rightarrow> ('c \<times> 'k ipv4_dev) res" where
  "udp_in recv ih uh data len0 st =
     require (unat (uh_length uh) \<ge> 8) ''uh.length >= sizeof(udp_header)'' (
     require (unat len0 \<ge> unat (uh_length uh) - 8) ''length >= uh.length - sizeof(udp_header)'' (
     let len = unat (uh_length uh) - 8 in
     case find_open_udp_socket (snd st) (ih_dst ih) (uh_dst_port uh) of
       Some s \<Rightarrow> in_object (len \<le> length data) ''data'' (recv (us_recv s) (take len data) st)
     | None \<Rightarrow> Inr st))"

definition icmp_in :: "'k ipv4_dev \<Rightarrow> ipv4_header \<Rightarrow> icmp_header \<Rightarrow> bytes \<Rightarrow> u32 \<Rightarrow> 'k ipv4_dev res" where
  "icmp_in dev ih icmp_h data len =
     (if ih_dst ih \<noteq> inaddr_any \<and> ih_dst ih = nc_addr (dv_config dev) \<and> ic_type icmp_h = icmp_echo_request then
        require (ic_code icmp_h = 0) ''icmp_h.code == 0'' (
        require (unat len < ethernet_max_bytes - (14 + 20 + 8)) ''length < sizeof(buffer)'' (
        andThen (new_ipv4_header (of_nat (20 + 8 + unat len)) protocol_icmp (ih_dst ih) (ih_src ih)) (\<lambda>oih.
        in_object (unat len \<le> length data) ''data'' (
        let oicmp = \<lparr>ic_type = icmp_echo_reply, ic_code = 0, ic_checksum = 0, ic_rest = ic_rest icmp_h\<rparr>;
            payload = take (unat len) data
        in andThen (inet_csum (icmp_header_bytes oicmp @ payload) (of_nat (8 + unat len)) 0) (\<lambda>c.
             ipv4_out dev (replicate 14 0 @ ipv4_header_bytes oih @ icmp_header_bytes (oicmp\<lparr>ic_checksum := c\<rparr>) @ payload))))))
      else Inr dev)"

definition ipv4_in :: "('k, 'c) udp_receiver \<Rightarrow> ipv4_header \<Rightarrow> bytes \<Rightarrow> u32 \<Rightarrow> 'c \<times> 'k ipv4_dev \<Rightarrow> ('c \<times> 'k ipv4_dev) res" where
  "ipv4_in recv ih data len st =
     (if ih_protocol ih = protocol_icmp then
        require (len \<ge> 8) ''length >= sizeof(icmp_header)'' (
        andThen (inet_csum data (ucast len) 0) (\<lambda>c.
        require (c = 0) ''inet_csum(data, length) == 0'' (
        in_object (8 \<le> length data) ''icmp_header'' (
          andThen (icmp_in (snd st) ih (icmp_header_at data) (drop 8 data) (len - 8)) (\<lambda>dev. Inr (fst st, dev))))))
      else if ih_protocol ih = protocol_igmp then Inr st
      else if ih_protocol ih = protocol_tcp then Inr st
      else if ih_protocol ih = protocol_udp then
        require (len \<ge> 8) ''length >= sizeof(udp_header)'' (
        in_object (8 \<le> length data) ''udp_header'' (udp_in recv ih (udp_header_at data) (drop 8 data) (len - 8) st))
      else Inl (Fatal ''Unhandled protocol''))"

definition eth_in :: "('k, 'c) udp_receiver \<Rightarrow> bytes \<Rightarrow> 'c \<times> 'k ipv4_dev \<Rightarrow> ('c \<times> 'k ipv4_dev) res" where
  "eth_in recv data0 st =
     require (length data0 \<ge> 14) ''length >= sizeof(ethernet_header)'' (
     let eh = ethernet_header_at data0; data = drop 14 data0
     in if eh_type eh = ethertype_ipv4 then
          require (length data \<ge> 20) ''length >= sizeof(ipv4_header)'' (
          let ih = ipv4_header_at data; hlen = unat (ih_ihl ih) * 4
          in require (ih_ver ih = 4) ''ih.ver == 4'' (
             require (ih_ihl ih \<ge> 5) ''ih.ihl >= 5'' (
             require (hlen \<le> length data) ''ih.ihl*4U <= length'' (
             require (unat (ih_length ih) \<le> length data) ''ih.length <= length'' (
             andThen (inet_csum data (of_nat hlen) 0) (\<lambda>c.
             require (c = 0) ''inet_csum(&ih, ih.ihl * 4) == 0'' (
               ipv4_in recv ih (drop hlen data) (ucast (ih_length ih) - of_nat hlen) st)))))))
        else if eh_type eh = ethertype_arp then
          require (length data \<ge> 28) ''length >= sizeof(arp_header)'' (
            andThen (arp_in (snd st) (arp_header_at data)) (\<lambda>dev. Inr (fst st, dev)))
        else if eh_type eh = ethertype_ipv6 then
          require (length data \<ge> 40) ''length >= 40'' (
          require (drop_bit 4 (data ! 0) = 6) ''(data[0]>>4) == 6'' (Inr st))
        else Inl (Fatal ''false''))"

text \<open>\<open>process_packets\<close>: the Ethernet device hands over the frames that have arrived, at most 8 of them.\<close>

fun process_packets :: "('k, 'c) udp_receiver \<Rightarrow> bytes list \<Rightarrow> 'c \<times> 'k ipv4_dev \<Rightarrow> ('c \<times> 'k ipv4_dev) res" where
  "process_packets recv [] st = Inr st"
| "process_packets recv (f # fs) st = andThen (eth_in recv f st) (process_packets recv fs)"

section \<open>Checksums of what is sent\<close>

definition plain_header :: "u16 \<Rightarrow> u8 \<Rightarrow> ipv4_address \<Rightarrow> ipv4_address \<Rightarrow> u16 \<Rightarrow> ipv4_header" where
  "plain_header len protocol src dst c = \<lparr>ih_ihl = 5, ih_ver = 4, ih_ecn = 0, ih_dscp = 0, ih_length = len, ih_id = 0,
     ih_fragment = 0, ih_ttl = 64, ih_protocol = protocol, ih_checksum = c, ih_src = src, ih_dst = dst\<rparr>"

lemma plain_header_sel [simp]:
  "ih_ihl (plain_header len protocol src dst c) = 5" "ih_ver (plain_header len protocol src dst c) = 4"
  "ih_length (plain_header len protocol src dst c) = len" "ih_protocol (plain_header len protocol src dst c) = protocol"
  "ih_src (plain_header len protocol src dst c) = src" "ih_dst (plain_header len protocol src dst c) = dst"
  by (simp_all add: plain_header_def)

lemma new_ipv4_header_ok:
  "\<exists>c. new_ipv4_header len protocol src dst = Inr (plain_header len protocol src dst c) \<and>
       (\<forall>r. inet_csum (ipv4_header_bytes (plain_header len protocol src dst c) @ r) 20 0 = Inr 0)"
proof -
  let ?x = "[ucast (5 :: 4 word) OR push_bit 4 (ucast (4 :: 4 word)), ucast (0 :: 2 word) OR push_bit 2 (ucast (0 :: 6 word))]
     @ be16_bytes len @ be16_bytes 0 @ be16_bytes 0 @ [64, protocol] :: bytes"
  let ?y = "be32_bytes src @ be32_bytes dst"
  have split: "ipv4_header_bytes (plain_header len protocol src dst c) = ?x @ be16_bytes c @ ?y" for c
    by (simp add: ipv4_header_bytes_def plain_header_def)
  have z: "be16_bytes 0 = [0, 0]" by (simp add: be16_bytes_eq)
  obtain c where c: "inet_csum (?x @ [0, 0] @ ?y) (of_nat (length ?x + 2 + length ?y)) 0 = Inr c"
    using inet_csum_eq [of "?x @ [0, 0] @ ?y" "[]"] by auto
  have "inet_csum (?x @ be16_bytes c @ ?y @ r) (of_nat (length ?x + 2 + length ?y)) 0 = Inr 0" for r
    using csum_verifies [of ?x ?y "[]" c r] c by simp
  moreover have "of_nat (length ?x + 2 + length ?y) = (20 :: u16)" by simp
  ultimately have v: "inet_csum (ipv4_header_bytes (plain_header len protocol src dst c) @ r) 20 0 = Inr 0" for r
    unfolding split by (metis append_assoc)
  have "inet_csum (ipv4_header_bytes (plain_header len protocol src dst 0)) 20 0 = Inr c"
    using c unfolding split z by simp
  then show ?thesis using v by (intro exI [of _ c]) (simp add: new_ipv4_header_def plain_header_def Let_def)
qed

text \<open>A frame with an IPv4 packet without options, as the device sends it.\<close>

definition ip_frame :: "mac_address \<Rightarrow> mac_address \<Rightarrow> ipv4_header \<Rightarrow> bytes \<Rightarrow> bytes" where
  "ip_frame src dst ih payload =
     ethernet_header_bytes \<lparr>eh_dst = dst, eh_src = src, eh_type = ethertype_ipv4\<rparr> @ ipv4_header_bytes ih @ payload"

definition arp_frame :: "mac_address \<Rightarrow> u16 \<Rightarrow> ipv4_address \<Rightarrow> mac_address \<Rightarrow> ipv4_address \<Rightarrow> bytes" where
  "arp_frame hw oper spa tha tpa =
     ethernet_header_bytes \<lparr>eh_dst = tha, eh_src = hw, eh_type = ethertype_arp\<rparr> @
     arp_header_bytes \<lparr>ah_htype = arp_htype_ethernet, ah_ptype = ethertype_ipv4, ah_hlen = 6, ah_plen = 4, ah_oper = oper,
        ah_sha = hw, ah_spa = spa, ah_tha = tha, ah_tpa = tpa\<rparr>"

lemma send_arp_frame: "send_arp dev oper spa tha tpa = ethdev_send dev (arp_frame (dv_hw dev) oper spa tha tpa)"
  by (simp add: send_arp_def arp_frame_def)

lemma ethdev_send_sel [simp]:
  "dv_hw (ethdev_send dev f) = dv_hw dev" "dv_config (ethdev_send dev f) = dv_config dev"
  "dv_arp (ethdev_send dev f) = dv_arp dev" "dv_socks (ethdev_send dev f) = dv_socks dev"
  "dv_sent (ethdev_send dev f) = dv_sent dev @ [f]"
  by (simp_all add: ethdev_send_def)

text \<open>Where \<open>ipv4_out\<close> sends a packet: the hop whose hardware address it looks up.\<close>

definition next_hop :: "ipv4_net_config \<Rightarrow> ipv4_address \<Rightarrow> ipv4_address" where
  "next_hop config dst =
     (if dst AND nc_netmask config = nc_addr config AND nc_netmask config then dst else nc_gateway config)"

lemma ipv4_out_cases:
  assumes "ipv4_out dev (replicate 14 0 @ ipv4_header_bytes ih @ payload) = Inr dev'"
  shows "\<exists>f. dev' = ethdev_send dev f \<and> length payload + 34 \<le> 1500 \<and>
     (\<exists>dst. f = ip_frame (dv_hw dev) dst ih payload) \<or>
     dev' = ethdev_send dev (arp_frame (dv_hw dev) arp_request (nc_addr (dv_config dev)) mac_broadcast (next_hop (dv_config dev) (ih_dst ih)))"
  using assms
  by (auto simp: ipv4_out_def res_simps Let_def ipv4_header_round ethernet_max_bytes_def send_arp_frame next_hop_def ip_frame_def
    split: if_splits option.splits)

section \<open>Runs of the device\<close>

text \<open>A receiver that keeps what it gets, and the runs of a device: its owner calls its operations, and frames arrive.\<close>

definition mailbox :: "('k, ('k \<times> bytes) list) udp_receiver" where
  "mailbox k b st = Inr (fst st @ [(k, b)], snd st)"

inductive dev_run :: "mac_address \<Rightarrow> 'k ipv4_dev \<Rightarrow> bool" for hw where
  dev_new: "dev_run hw (ipv4_dev_new hw)"
| dev_open: "dev_run hw d \<Longrightarrow> udp_open d a p k = Inr (q, d') \<Longrightarrow> dev_run hw d'"
| dev_close: "dev_run hw d \<Longrightarrow> udp_close d a p = Inr d' \<Longrightarrow> dev_run hw d'"
| dev_sendto: "dev_run hw d \<Longrightarrow> udp_sendto d la lp ra rp b = Inr d' \<Longrightarrow> dev_run hw d'"
| dev_config: "dev_run hw d \<Longrightarrow> set_ipv4_config d config = Inr d' \<Longrightarrow> dev_run hw d'"
| dev_frame: "dev_run hw d \<Longrightarrow> eth_in mailbox f ([], d) = Inr (c, d') \<Longrightarrow> dev_run hw d'"

definition frame_ok :: "mac_address \<Rightarrow> bytes \<Rightarrow> bool" where
  "frame_ok hw f \<longleftrightarrow>
     (\<exists>dst ih payload. f = ip_frame hw dst ih payload \<and> length f \<le> 1500 \<and> ih_ver ih = 4 \<and> ih_ihl ih = 5 \<and>
        unat (ih_length ih) = 20 + length payload \<and> inet_csum (drop 14 f) 20 0 = Inr 0) \<or>
     (\<exists>oper spa tha tpa. f = arp_frame hw oper spa tha tpa)"

text \<open>No socket takes the datagrams of a later one.\<close>

definition takes_from :: "'k open_udp_socket \<Rightarrow> 'k open_udp_socket \<Rightarrow> bool" where
  "takes_from s t \<longleftrightarrow> (us_addr s = inaddr_any \<or> us_addr s = us_addr t) \<and> us_port s = us_port t"

definition dev_ok :: "mac_address \<Rightarrow> 'k ipv4_dev \<Rightarrow> bool" where
  "dev_ok hw d \<longleftrightarrow> dv_hw d = hw \<and> distinct (map ae_pa (dv_arp d)) \<and> sorted_wrt (\<lambda>s t. \<not> takes_from s t) (dv_socks d) \<and>
     (\<forall>f \<in> set (dv_sent d). frame_ok hw f)"

lemma arp_entries_set_pa [simp]: "map ae_pa (arp_entries_set es ip ha) = map ae_pa es"
  by (induction es) auto

lemma frame_ok_arp [simp]: "frame_ok hw (arp_frame hw oper spa tha tpa)"
  unfolding frame_ok_def by blast

lemma find_none: "List.find P xs = None \<Longrightarrow> x \<in> set xs \<Longrightarrow> \<not> P x"
  by (auto simp: find_None_iff)

lemma dev_ok_send: "dev_ok hw d \<Longrightarrow> frame_ok hw f \<Longrightarrow> dev_ok hw (ethdev_send d f)"
  by (auto simp: dev_ok_def)

lemma arp_in_ok: "dev_ok hw d \<Longrightarrow> arp_in d ah = Inr d' \<Longrightarrow> dev_ok hw d'"
proof -
  assume ok: "dev_ok hw d" and e: "arp_in d ah = Inr d'"
  have upd: "dev_ok hw (d\<lparr>dv_arp := arp_entries_set (dv_arp d) ip ha\<rparr>)" for ip ha using ok by (simp add: dev_ok_def)
  have add: "dev_ok hw (d\<lparr>dv_arp := dv_arp d @ [\<lparr>ae_pa = ip, ae_ha = ha\<rparr>]\<rparr>)" if "find_arp_entry d ip = None" for ip ha
    using ok that by (auto simp: dev_ok_def find_arp_entry_def dest: find_none)
  have snd: "dev_ok hw (send_arp e oper spa tha tpa)" if "dev_ok hw e" for e :: "'a ipv4_dev" and oper spa tha tpa
    using that by (auto simp: send_arp_frame dev_ok_def)
  show ?thesis using e ok upd add
    by (auto simp: arp_in_def res_simps Let_def add_arp_entry_def intro!: snd split: if_splits option.splits)
qed

lemma ipv4_out_ok:
  assumes ok: "dev_ok hw d" and out: "ipv4_out d (replicate 14 0 @ ipv4_header_bytes ih @ payload) = Inr d'"
    and ih: "ih_ver ih = 4" "ih_ihl ih = 5" "unat (ih_length ih) = 20 + length payload"
    and csum: "\<And>r. inet_csum (ipv4_header_bytes ih @ r) 20 0 = Inr 0"
  shows "dev_ok hw d'"
proof -
  have hw: "dv_hw d = hw" using ok by (simp add: dev_ok_def)
  have "frame_ok hw (ip_frame hw dst ih payload)" if "length payload + 34 \<le> 1500" for dst
    using that ih csum unfolding frame_ok_def by (intro disjI1 exI [of _ dst] exI [of _ ih] exI [of _ payload]) (simp add: ip_frame_def)
  then show ?thesis using ipv4_out_cases [OF out] ok by (auto simp: hw intro: dev_ok_send)
qed

lemma udp_sendto_ok: "dev_ok hw d \<Longrightarrow> udp_sendto d la lp ra rp b = Inr d' \<Longrightarrow> dev_ok hw d'"
proof -
  assume ok: "dev_ok hw d" and s: "udp_sendto d la lp ra rp b = Inr d'"
  have len: "length b \<le> 1458" using s by (simp add: udp_sendto_def res_simps ethernet_max_bytes_def)
  obtain c where c: "new_ipv4_header (of_nat (20 + 8 + length b)) protocol_udp la ra =
      Inr (plain_header (of_nat (20 + 8 + length b)) protocol_udp la ra c)"
    "\<And>r. inet_csum (ipv4_header_bytes (plain_header (of_nat (20 + 8 + length b)) protocol_udp la ra c) @ r) 20 0 = Inr 0"
    using new_ipv4_header_ok by blast
  have u: "unat (of_nat (20 + 8 + length b) :: u16) = 20 + 8 + length b" by (rule unat_of_nat_u16) (use len in simp)
  show ?thesis
    by (rule ipv4_out_ok [OF ok, of "plain_header (of_nat (20 + 8 + length b)) protocol_udp la ra c"])
      (use s c u in \<open>auto simp: udp_sendto_def res_simps Let_def simp del: of_nat_add\<close>)
qed

lemma icmp_in_ok: "dev_ok hw d \<Longrightarrow> icmp_in d ih ic b len = Inr d' \<Longrightarrow> dev_ok hw d'"
proof -
  assume ok: "dev_ok hw d" and s: "icmp_in d ih ic b len = Inr d'"
  show ?thesis
  proof (cases "ih_dst ih \<noteq> inaddr_any \<and> ih_dst ih = nc_addr (dv_config d) \<and> ic_type ic = icmp_echo_request")
    case True
    have len: "unat len < 1458" "unat len \<le> length b"
      using s True by (auto simp: icmp_in_def res_simps Let_def ethernet_max_bytes_def)
    let ?h = "plain_header (of_nat (20 + 8 + unat len)) protocol_icmp (ih_dst ih) (ih_src ih)"
    obtain c where c: "new_ipv4_header (of_nat (20 + 8 + unat len)) protocol_icmp (ih_dst ih) (ih_src ih) = Inr (?h c)"
      "\<And>r. inet_csum (ipv4_header_bytes (?h c) @ r) 20 0 = Inr 0"
      using new_ipv4_header_ok by blast
    have u: "unat (of_nat (20 + 8 + unat len) :: u16) = 20 + 8 + unat len" by (rule unat_of_nat_u16) (use len in simp)
    obtain cs where out: "ipv4_out d (replicate 14 0 @ ipv4_header_bytes (?h c) @
        icmp_header_bytes \<lparr>ic_type = icmp_echo_reply, ic_code = 0, ic_checksum = cs, ic_rest = ic_rest ic\<rparr> @ take (unat len) b) = Inr d'"
      using s True c(1) by (auto simp: icmp_in_def res_simps Let_def)
    show ?thesis by (rule ipv4_out_ok [OF ok out _ _ _ c(2)]) (use u len in \<open>simp_all del: of_nat_add\<close>)
  next
    case False
    then have "icmp_in d ih ic b len = Inr d" unfolding icmp_in_def by (rule if_not_P)
    then show ?thesis using ok s by simp
  qed
qed

lemma udp_open_ok: "dev_ok hw d \<Longrightarrow> udp_open d a p k = Inr (q, d') \<Longrightarrow> dev_ok hw d'"
  by (auto simp: dev_ok_def udp_open_def res_simps Let_def sorted_wrt_append takes_from_def find_open_udp_socket_def find_None_iff)

lemma erase_socket_sub: "set (erase_socket ss a p) \<subseteq> set ss"
  by (induction ss) auto

lemma erase_socket_sorted: "sorted_wrt R ss \<Longrightarrow> sorted_wrt R (erase_socket ss a p)"
  by (induction ss) (auto dest: subsetD [OF erase_socket_sub])

lemma eth_in_mailbox_ok: "dev_ok hw d \<Longrightarrow> eth_in mailbox f (c, d) = Inr (c', d') \<Longrightarrow> dev_ok hw d'"
  by (auto simp: eth_in_def ipv4_in_def udp_in_def mailbox_def res_simps Let_def intro: arp_in_ok icmp_in_ok
      split: if_splits option.splits)

lemma dev_run_ok: "dev_run hw d \<Longrightarrow> dev_ok hw d"
proof (induction rule: dev_run.induct)
  case dev_new
  then show ?case by (simp add: dev_ok_def ipv4_dev_new_def)
next
  case (dev_close d a p d')
  then show ?case by (auto simp: dev_ok_def udp_close_def res_simps erase_socket_sorted)
next
  case (dev_config d config d')
  then show ?case by (auto simp: dev_ok_def set_ipv4_config_def res_simps)
qed (blast intro: udp_open_ok udp_sendto_ok eth_in_mailbox_ok)+

lemma find_unshadowed: "sorted_wrt (\<lambda>s t. \<not> P s t) xs \<Longrightarrow> (\<And>x. P x x) \<Longrightarrow> x \<in> set xs \<Longrightarrow> List.find (\<lambda>s. P s x) xs = Some x"
  by (induction xs) auto

lemma distinct_map_sorted_wrt: "distinct (map f xs) \<Longrightarrow> sorted_wrt (\<lambda>x y. \<not> (f x = f y)) xs"
  by (induction xs) (auto simp: image_iff)

text \<open>C13: in every run, every frame sent is well formed (an ARP frame, or an IPv4 packet with its length and a header
  checksum that verifies, in at most 1500 bytes), the ARP cache has one entry per address, and every open socket is the
  one found for its address and port.\<close>

theorem device_runs_safe:
  assumes "dev_run hw d"
  shows "(\<forall>f \<in> set (dv_sent d). frame_ok hw f) \<and> (\<forall>e \<in> set (dv_arp d). find_arp_entry d (ae_pa e) = Some e) \<and>
     (\<forall>s \<in> set (dv_socks d). find_open_udp_socket d (us_addr s) (us_port s) = Some s)"
proof -
  have ok: "dev_ok hw d" by (rule dev_run_ok [OF assms])
  have s: "sorted_wrt (\<lambda>s t. \<not> takes_from s t) (dv_socks d)" using ok by (simp add: dev_ok_def)
  have "sorted_wrt (\<lambda>e e'. \<not> (ae_pa e = ae_pa e')) (dv_arp d)"
    using ok by (simp add: dev_ok_def distinct_map_sorted_wrt)
  from find_unshadowed [OF this] find_unshadowed [OF s] show ?thesis using ok
    by (auto simp: dev_ok_def find_arp_entry_def find_open_udp_socket_def takes_from_def)
qed

section \<open>Bounds of what is read\<close>

lemma inet_csum_total:
  assumes "n \<le> length b" "n < 65536"
  shows "\<exists>c. inet_csum b (of_nat n) 0 = Inr c"
proof -
  have "length (take n b) = n" using assms(1) by simp
  then show ?thesis using inet_csum_eq [of "take n b" "drop n b"] assms(2) by auto
qed

definition tame :: "'a res \<Rightarrow> bool" where
  "tame r \<longleftrightarrow> (\<forall>w. r \<noteq> Inl (Wild w))"

lemma tame_simps [simp]: "tame (Inr x)" "tame (Inl (Fatal d))" "tame (require c d k) \<longleftrightarrow> (c \<longrightarrow> tame k)"
  "tame (in_object c w k) \<longleftrightarrow> c \<and> tame k"
  by (auto simp: tame_def require_def in_object_def)

lemma tame_andThen: "tame r \<Longrightarrow> (\<And>x. r = Inr x \<Longrightarrow> tame (f x)) \<Longrightarrow> tame (andThen r f)"
  by (cases r) (auto simp: tame_def)

lemma tame_if: "(c \<Longrightarrow> tame x) \<Longrightarrow> (\<not> c \<Longrightarrow> tame y) \<Longrightarrow> tame (if c then x else y)"
  by simp

lemma tame_new_header: "tame (new_ipv4_header len protocol src dst)"
  using new_ipv4_header_ok [of len protocol src dst] by (auto simp: tame_def)

lemma tame_csum: "n \<le> length b \<Longrightarrow> n < 65536 \<Longrightarrow> tame (inet_csum b (of_nat n) 0)"
  using inet_csum_total [of n b] by (auto simp: tame_def)

lemma tame_ipv4_out: "tame (ipv4_out d b)"
  by (auto simp: ipv4_out_def Let_def split: option.splits)

lemma tame_arp_in: "tame (arp_in d ah)"
  by (auto simp: arp_in_def Let_def add_arp_entry_def tame_andThen split: option.splits)

lemma tame_icmp_in: "unat len \<le> length b \<Longrightarrow> tame (icmp_in d ih ic b len)"
  by (auto simp: icmp_in_def ethernet_max_bytes_def Let_def simp del: of_nat_add
      intro!: tame_andThen tame_new_header tame_csum tame_ipv4_out)

lemma tame_udp_in:
  "unat len \<le> length b \<Longrightarrow> (\<And>k p st. tame (recv k p st)) \<Longrightarrow> tame (udp_in recv ih uh b len st)"
  by (auto simp: udp_in_def Let_def split: option.splits)

lemma tame_ipv4_in:
  assumes "unat len \<le> length b" "unat len < 65536" "\<And>k p st. tame (recv k p st)"
  shows "tame (ipv4_in recv ih b len st)"
proof -
  have u: "(ucast len :: u16) = of_nat (unat len)" by simp
  have c: "tame (inet_csum b (ucast len) 0)" unfolding u by (rule tame_csum) (use assms in simp_all)
  have l: "unat (len - 8) \<le> length (drop 8 b)" if "8 \<le> len" using that assms(1) by (simp add: unat_sub word_le_nat_alt)
  show ?thesis using assms c l
    by (auto simp: ipv4_in_def word_le_nat_alt intro!: tame_andThen tame_icmp_in tame_udp_in)
qed


section \<open>Frames on the way to another device\<close>

lemma eth_in_ip_frame:
  assumes "inet_csum (ipv4_header_bytes ih @ b) 20 0 = Inr 0" "ih_ver ih = 4" "ih_ihl ih = 5"
    and "unat (ih_length ih) \<le> 20 + length b"
  shows "eth_in recv (ip_frame src dst ih b) st = ipv4_in recv ih b (ucast (ih_length ih) - 20) st"
  using assms by (simp add: eth_in_def ip_frame_def ethernet_header_round ipv4_header_round Let_def)

text \<open>The hardware address that a packet goes to, when the device knows it.\<close>

definition hop_known :: "'k ipv4_dev \<Rightarrow> ipv4_address \<Rightarrow> bool" where
  "hop_known d dst \<longleftrightarrow> dst \<noteq> inaddr_any \<and> (dst = inaddr_broadcast \<or>
     next_hop (dv_config d) dst \<noteq> inaddr_any \<and> find_arp_entry d (next_hop (dv_config d) dst) \<noteq> None)"

definition hop_mac :: "'k ipv4_dev \<Rightarrow> ipv4_address \<Rightarrow> mac_address" where
  "hop_mac d dst = (if dst = inaddr_broadcast then mac_broadcast else ae_ha (the (find_arp_entry d (next_hop (dv_config d) dst))))"

lemma ipv4_out_sends:
  assumes "length payload + 34 \<le> 1500" "ih_ver ih = 4" "ih_ihl ih = 5" "hop_known d (ih_dst ih)"
  shows "ipv4_out d (replicate 14 0 @ ipv4_header_bytes ih @ payload) =
     Inr (ethdev_send d (ip_frame (dv_hw d) (hop_mac d (ih_dst ih)) ih payload))"
  using assms
  by (auto simp: ipv4_out_def Let_def ipv4_header_round ethernet_max_bytes_def next_hop_def ip_frame_def hop_known_def hop_mac_def
    split: if_splits)

lemma payload_len:
  assumes "n \<le> 65515"
  shows "unat (of_nat (20 + n) :: u16) = 20 + n" "ucast (of_nat (20 + n) :: u16) - 20 = (of_nat n :: u32)"
    "unat (of_nat n :: u32) = n"
proof -
  show u: "unat (of_nat (20 + n) :: u16) = 20 + n" by (rule unat_of_nat_u16) (use assms in simp)
  have w: "unat (ucast (of_nat (20 + n) :: u16) :: u32) = 20 + n"
    using u assms by (simp add: unsigned_ucast_eq take_bit_eq_mod del: of_nat_add)
  show n: "unat (of_nat n :: u32) = n" by (rule unat_of_nat_u32) (use assms in simp)
  have "unat (ucast (of_nat (20 + n) :: u16) - 20 :: u32) = n"
    using w by (subst unat_sub) (simp_all add: word_le_nat_alt del: of_nat_add)
  then show "ucast (of_nat (20 + n) :: u16) - 20 = (of_nat n :: u32)" using n by (simp add: word_unat_eq_iff del: of_nat_add)
qed

text \<open>C40: the check that is missing: a datagram whose IPv4 length field is smaller than the header passes all checks
  of the code, and the receiver is then handed bytes from behind the frame.\<close>

theorem eth_in_short_length_overreads:
  assumes "find_open_udp_socket (snd st) dst port = Some s" "length b < 65527"
  shows "\<exists>ih. ih_length ih = 0 \<and> ih_dst ih = dst \<and>
     eth_in recv (ip_frame smac dmac ih (udp_header_bytes \<lparr>uh_src_port = p, uh_dst_port = port, uh_length = 0xFFFF, uh_checksum = 0\<rparr> @ b)) st
       = Inl (Wild ''data'')"
proof -
  obtain c where c: "\<And>r. inet_csum (ipv4_header_bytes (plain_header 0 protocol_udp 0 dst c) @ r) 20 0 = Inr 0"
    using new_ipv4_header_ok [of 0 protocol_udp 0 dst] by blast
  show ?thesis
    by (rule exI [of _ "plain_header 0 protocol_udp 0 dst c"])
      (use assms c in \<open>simp add: eth_in_ip_frame ipv4_in_def protocol_udp_def protocol_icmp_def protocol_igmp_def protocol_tcp_def
        udp_in_def udp_header_round Let_def\<close>)
qed

lemma udp_sendto_arrives:
  assumes "length b \<le> 1458" "hop_known a ra"
  shows "\<exists>f. udp_sendto a la lp ra rp b = Inr (ethdev_send a f) \<and> drop (14 + 20 + 8) f = b \<and>
     (\<forall>(recv :: ('k, 'c) udp_receiver) c d s. find_open_udp_socket d ra rp = Some s \<longrightarrow> eth_in recv f (c, d) = recv (us_recv s) b (c, d))"
proof -
  let ?h = "plain_header (of_nat (20 + (8 + length b))) protocol_udp la ra"
  let ?u = "\<lparr>uh_src_port = lp, uh_dst_port = rp, uh_length = of_nat (8 + length b), uh_checksum = 0\<rparr>"
  obtain k where k: "new_ipv4_header (of_nat (20 + (8 + length b))) protocol_udp la ra = Inr (?h k)"
    "\<And>r. inet_csum (ipv4_header_bytes (?h k) @ r) 20 0 = Inr 0"
    using new_ipv4_header_ok by blast
  let ?f = "ip_frame (dv_hw a) (hop_mac a ra) (?h k) (udp_header_bytes ?u @ b)"
  have out: "ipv4_out a (replicate 14 0 @ ipv4_header_bytes (?h k) @ udp_header_bytes ?u @ b) = Inr (ethdev_send a ?f)"
    using ipv4_out_sends [of "udp_header_bytes ?u @ b" "?h k" a] assms(1,2) by simp
  have send: "udp_sendto a la lp ra rp b = Inr (ethdev_send a ?f)"
    using assms(1) k(1) out by (simp add: udp_sendto_def ethernet_max_bytes_def Let_def add.assoc del: of_nat_add)
  have "8 + length b \<le> 65515" using assms(1) by simp
  note p = payload_len [OF this]
  have l8: "(8 :: u32) \<le> of_nat (8 + length b)" using p(3) by (simp add: word_le_nat_alt del: of_nat_add)
  have l8': "unat (of_nat (8 + length b) - 8 :: u32) = length b" using unat_sub [OF l8] p(3) by (simp del: of_nat_add)
  have l16: "unat (of_nat (8 + length b) :: u16) = 8 + length b" by (rule unat_of_nat_u16) (use assms(1) in simp)
  have "eth_in recv ?f (c, d) = recv (us_recv s) b (c, d)" if sock: "find_open_udp_socket d ra rp = Some s"
    for recv :: "('k, 'c) udp_receiver" and c d s
  proof -
  have "eth_in recv ?f (c, d) = ipv4_in recv (?h k) (udp_header_bytes ?u @ b) (of_nat (8 + length b)) (c, d)"
    using eth_in_ip_frame [of "?h k" "udp_header_bytes ?u @ b" recv "dv_hw a" "hop_mac a ra" "(c, d)"] k(2) p by (simp del: of_nat_add)
  also have "\<dots> = recv (us_recv s) b (c, d)"
    using l8 l8' l16 sock
    by (simp add: ipv4_in_def protocol_udp_def protocol_icmp_def protocol_igmp_def protocol_tcp_def udp_in_def udp_header_round Let_def
        del: of_nat_add)
  finally show ?thesis .
  qed
  moreover have "drop (14 + 20 + 8) ?f = b" by (simp add: ip_frame_def)
  ultimately show ?thesis using send by (intro exI [of _ ?f]) simp
qed

text \<open>C15: a datagram arrives: if the device knows the hardware address of the next hop (or broadcasts), \<open>sendto\<close> returns
  and sends one frame, and a device that gets this frame and has a socket open for the destination hands exactly the
  payload to it.\<close>

theorem udp_datagram_arrives:
  fixes recv :: "('k, 'c) udp_receiver"
  assumes "length b \<le> 1458" "hop_known a ra" "find_open_udp_socket d ra rp = Some s"
  shows "\<exists>a' f. udp_sendto a la lp ra rp b = Inr a' \<and> dv_sent a' = dv_sent a @ [f] \<and>
     eth_in recv f (c, d) = recv (us_recv s) b (c, d)"
proof -
  obtain f where "udp_sendto a la lp ra rp b = Inr (ethdev_send a f)" "eth_in recv f (c, d) = recv (us_recv s) b (c, d)"
    using udp_sendto_arrives [OF assms(1,2), where ?'c = 'c and ?'k = 'k] assms(3) by metis
  then show ?thesis by simp
qed


lemma eth_in_arp_frame:
  "eth_in recv (arp_frame hw oper spa tha tpa) (c, d) =
     andThen (arp_in d \<lparr>ah_htype = arp_htype_ethernet, ah_ptype = ethertype_ipv4, ah_hlen = 6, ah_plen = 4, ah_oper = oper,
        ah_sha = hw, ah_spa = spa, ah_tha = tha, ah_tpa = tpa\<rparr>) (\<lambda>d'. Inr (c, d'))"
  by (simp add: eth_in_def arp_frame_def ethernet_header_round arp_header_round [of _ "[]", simplified] Let_def ethertype_arp_def ethertype_ipv4_def)

lemma find_arp_set [simp]:
  "find_arp_entry (d\<lparr>dv_arp := arp_entries_set es ip ha\<rparr>) ip =
     (case List.find (\<lambda>e. ae_pa e = ip) es of None \<Rightarrow> None | Some e \<Rightarrow> Some (e\<lparr>ae_ha := ha\<rparr>))"
  unfolding find_arp_entry_def by (induction es) auto

lemma list_find_append: "List.find P (xs @ ys) = (case List.find P xs of None \<Rightarrow> List.find P ys | r \<Rightarrow> r)"
  by (induction xs) auto

text \<open>What \<open>arp_in\<close> does when this device is the target.\<close>

lemma arp_in_target:
  assumes "nc_addr (dv_config d) = me" "me \<noteq> inaddr_any" "sha \<noteq> mac_broadcast" "oper = arp_request \<or> oper = arp_reply"
  shows "\<exists>d'. arp_in d \<lparr>ah_htype = arp_htype_ethernet, ah_ptype = ethertype_ipv4, ah_hlen = 6, ah_plen = 4, ah_oper = oper,
        ah_sha = sha, ah_spa = spa, ah_tha = tha, ah_tpa = me\<rparr> = Inr d' \<and> map_option ae_ha (find_arp_entry d' spa) = Some sha \<and>
     dv_sent d' = dv_sent d @ (if oper = arp_request then [arp_frame (dv_hw d) arp_reply me sha spa] else [])"
proof (cases "find_arp_entry d spa")
  case None
  let ?d = "d\<lparr>dv_arp := dv_arp d @ [\<lparr>ae_pa = spa, ae_ha = sha\<rparr>]\<rparr>"
  have "find_arp_entry ?d spa = Some \<lparr>ae_pa = spa, ae_ha = sha\<rparr>"
    using None by (simp add: find_arp_entry_def list_find_append)
  then show ?thesis using None assms
    by (auto simp: arp_in_def add_arp_entry_def send_arp_frame find_arp_entry_def ethdev_send_def)
next
  case (Some e)
  let ?d = "if ae_ha e = sha then d else d\<lparr>dv_arp := arp_entries_set (dv_arp d) spa sha\<rparr>"
  have "map_option ae_ha (find_arp_entry ?d spa) = Some sha"
    using Some by (auto simp: find_arp_entry_def [of d] split: option.splits)
  then show ?thesis using Some assms
    by (auto simp: arp_in_def send_arp_frame ethdev_send_def Let_def find_arp_entry_def split: if_splits)
qed

text \<open>C17: two devices on a link find each other: the request that one broadcasts makes the other learn its address and
  answer, and the answer makes the first one learn the address it asked for.\<close>

theorem arp_exchange_resolves:
  assumes "nc_addr (dv_config a) = ipa" "ipa \<noteq> inaddr_any" "dv_hw a \<noteq> mac_broadcast"
    and "nc_addr (dv_config b) = ipb" "ipb \<noteq> inaddr_any" "dv_hw b \<noteq> mac_broadcast"
  shows "\<exists>b' reply a'. eth_in recv (arp_frame (dv_hw a) arp_request ipa mac_broadcast ipb) (c, b) = Inr (c, b') \<and>
     map_option ae_ha (find_arp_entry b' ipa) = Some (dv_hw a) \<and> dv_sent b' = dv_sent b @ [reply] \<and>
     eth_in recv' reply (c', a) = Inr (c', a') \<and> map_option ae_ha (find_arp_entry a' ipb) = Some (dv_hw b)"
proof -
  obtain b' where b: "eth_in recv (arp_frame (dv_hw a) arp_request ipa mac_broadcast ipb) (c, b) = Inr (c, b')"
    "map_option ae_ha (find_arp_entry b' ipa) = Some (dv_hw a)" "dv_sent b' = dv_sent b @ [arp_frame (dv_hw b) arp_reply ipb (dv_hw a) ipa]"
    using arp_in_target [OF assms(4,5,3), of arp_request ipa mac_broadcast] by (auto simp: eth_in_arp_frame)
  obtain a' where "eth_in recv' (arp_frame (dv_hw b) arp_reply ipb (dv_hw a) ipa) (c', a) = Inr (c', a')"
    "map_option ae_ha (find_arp_entry a' ipb) = Some (dv_hw b)"
    using arp_in_target [OF assms(1,2,6), of arp_reply ipb "dv_hw a"] by (auto simp: eth_in_arp_frame)
  then show ?thesis using b by blast
qed

section \<open>A concrete device\<close>

lemma inaddr_values: "inaddr_any = 0" "inaddr_broadcast = 0xFFFFFFFF"
  by (simp_all add: inaddr_any_def inaddr_broadcast_def ipv4_def)

definition demo_mac :: "u8 \<Rightarrow> mac_address" where "demo_mac i = Mac 2 0 0 0 0 i"

definition demo_dev :: "unit ipv4_dev" where
  "demo_dev = \<lparr>dv_hw = demo_mac 2, dv_config = \<lparr>nc_addr = 0xC0A80A02, nc_netmask = 0xFFFFFF00, nc_gateway = 0xC0A80A01\<rparr>,
     dv_arp = [\<lparr>ae_pa = 0xC0A80A01, ae_ha = demo_mac 1\<rparr>], dv_socks = [\<lparr>us_addr = 0, us_port = 68, us_recv = ()\<rparr>], dv_sent = []\<rparr>"

lemma demo_hop: "hop_known demo_dev 0xC0A80A01"
  by (simp add: hop_known_def demo_dev_def inaddr_values next_hop_def find_arp_entry_def)

theorem device_runs_safe_witness:
  "\<exists>d. udp_open (ipv4_dev_new (demo_mac 2)) inaddr_any 68 () = Inr (68, d) \<and>
     find_open_udp_socket d inaddr_any 68 = Some \<lparr>us_addr = inaddr_any, us_port = 68, us_recv = ()\<rparr>"
proof -
  obtain d where d: "udp_open (ipv4_dev_new (demo_mac 2)) inaddr_any 68 () = Inr (68, d)"
    "dv_socks d = [\<lparr>us_addr = inaddr_any, us_port = 68, us_recv = ()\<rparr>]"
    by (simp add: udp_open_def ipv4_dev_new_def find_open_udp_socket_def)
  have "dev_run (demo_mac 2) d" by (rule dev_run.dev_open [OF dev_run.dev_new d(1)])
  from device_runs_safe [OF this] d show ?thesis by auto
qed


theorem eth_in_short_length_overreads_witness:
  "\<exists>ih. ih_length ih = 0 \<and> eth_in mailbox (ip_frame (demo_mac 1) (demo_mac 2) ih
     (udp_header_bytes \<lparr>uh_src_port = 67, uh_dst_port = 68, uh_length = 0xFFFF, uh_checksum = 0\<rparr> @ [])) ([], demo_dev) = Inl (Wild ''data'')"
  using eth_in_short_length_overreads [of "([], demo_dev)" "0xC0A80A02" 68 "\<lparr>us_addr = 0, us_port = 68, us_recv = ()\<rparr>" "[]" mailbox
      "demo_mac 1" "demo_mac 2" 67]
  by (auto simp: demo_dev_def find_open_udp_socket_def inaddr_values)

theorem udp_datagram_arrives_witness:
  "\<exists>a' f. udp_sendto demo_dev 0xC0A80A02 68 0xC0A80A01 68 [1, 2, 3] = Inr a' \<and> dv_sent a' = [f] \<and>
     eth_in mailbox f ([], demo_dev) = Inr ([((), [1, 2, 3])], demo_dev)"
  using udp_datagram_arrives [OF _ demo_hop, of "[1, 2, 3]" demo_dev 68 "\<lparr>us_addr = 0, us_port = 68, us_recv = ()\<rparr>" "0xC0A80A02" 68 mailbox "[]"]
  by (auto simp: find_open_udp_socket_def inaddr_values mailbox_def demo_dev_def [THEN arg_cong, of dv_socks] demo_dev_def [THEN arg_cong, of dv_sent])


theorem arp_exchange_resolves_witness:
  "\<exists>b' reply a'. eth_in mailbox (arp_frame (demo_mac 2) arp_request 0xC0A80A02 mac_broadcast 0xC0A80A03)
       ([], demo_dev\<lparr>dv_hw := demo_mac 3, dv_config := \<lparr>nc_addr = 0xC0A80A03, nc_netmask = 0xFFFFFF00, nc_gateway = 0\<rparr>\<rparr>) = Inr ([], b') \<and>
     map_option ae_ha (find_arp_entry b' 0xC0A80A02) = Some (demo_mac 2) \<and> dv_sent b' = [reply] \<and>
     eth_in mailbox reply ([], demo_dev) = Inr ([], a') \<and> map_option ae_ha (find_arp_entry a' 0xC0A80A03) = Some (demo_mac 3)"
  using arp_exchange_resolves [of demo_dev "0xC0A80A02"
      "demo_dev\<lparr>dv_hw := demo_mac 3, dv_config := \<lparr>nc_addr = 0xC0A80A03, nc_netmask = 0xFFFFFF00, nc_gateway = 0\<rparr>\<rparr>" "0xC0A80A03" mailbox "[]" mailbox "[]"]
  by (simp add: demo_dev_def [THEN arg_cong, of dv_hw] demo_dev_def [THEN arg_cong, of dv_config] demo_dev_def [THEN arg_cong, of dv_sent]
      inaddr_values demo_mac_def mac_broadcast_def)

end
