(* ===== verification/Dhcp.thy ===== *)
theory Dhcp
  imports NetStack
begin

text \<open>
  The DHCP client of \<open>attos/net/tftp.cpp\<close> (\<open>dhcp_handler\<close> and \<open>do_dhcp\<close>). The handler is a state machine on top of one
  UDP socket of the device; \<open>dhcp_in\<close> is the function that the socket was opened with. \<open>do_dhcp\<close> runs before any other
  socket is open, so its receiver hands every datagram to the handler.
\<close>

section \<open>The code: messages\<close>

definition bootp_request :: u8 where "bootp_request = 1"
definition bootp_reply :: u8 where "bootp_reply = 2"
definition dhcp_magic_cookie :: u32 where "dhcp_magic_cookie = 0x63825363"
definition bootp_broadcast_flag :: u16 where "bootp_broadcast_flag = 0x8000"

definition opt_padding :: u8 where "opt_padding = 0"
definition opt_subnet_mask :: u8 where "opt_subnet_mask = 1"
definition opt_router :: u8 where "opt_router = 3"
definition opt_domain_name_server :: u8 where "opt_domain_name_server = 6"
definition opt_domain_name :: u8 where "opt_domain_name = 15"
definition opt_broadcast_address :: u8 where "opt_broadcast_address = 28"
definition opt_netbios_name_server :: u8 where "opt_netbios_name_server = 44"
definition opt_requested_ip :: u8 where "opt_requested_ip = 50"
definition opt_lease_time :: u8 where "opt_lease_time = 51"
definition opt_message_type :: u8 where "opt_message_type = 53"
definition opt_server_identifier :: u8 where "opt_server_identifier = 54"
definition opt_renewal_time :: u8 where "opt_renewal_time = 58"
definition opt_rebinding_time :: u8 where "opt_rebinding_time = 59"
definition opt_end :: u8 where "opt_end = 255"

lemmas opt_defs = opt_padding_def opt_subnet_mask_def opt_router_def opt_domain_name_server_def opt_domain_name_def
  opt_broadcast_address_def opt_netbios_name_server_def opt_requested_ip_def opt_lease_time_def opt_message_type_def
  opt_server_identifier_def opt_renewal_time_def opt_rebinding_time_def opt_end_def

definition dhcp_discover :: u8 where "dhcp_discover = 1"
definition dhcp_offer :: u8 where "dhcp_offer = 2"
definition dhcp_request :: u8 where "dhcp_request = 3"
definition dhcp_ack :: u8 where "dhcp_ack = 5"

record bootp_header =
  bh_op :: u8
  bh_htype :: u8
  bh_hlen :: u8
  bh_hops :: u8
  bh_xid :: u32
  bh_secs :: u16
  bh_flags :: u16
  bh_ciaddr :: ipv4_address
  bh_yiaddr :: ipv4_address
  bh_siaddr :: ipv4_address
  bh_giaddr :: ipv4_address
  bh_chaddr :: mac_address
  bh_chaddrpad :: bytes
  bh_sname :: bytes
  bh_file :: bytes

record dhcp_header = bootp_header +
  dh_cookie :: u32
  dh_message_type_opt :: u8
  dh_message_type_len :: u8
  dh_message_type :: u8

definition sizeof_dhcp_header :: nat where "sizeof_dhcp_header = 243"

definition dhcp_header_bytes :: "dhcp_header \<Rightarrow> bytes" where
  "dhcp_header_bytes h = [bh_op h, bh_htype h, bh_hlen h, bh_hops h] @ be32_bytes (bh_xid h) @ be16_bytes (bh_secs h) @
     be16_bytes (bh_flags h) @ be32_bytes (bh_ciaddr h) @ be32_bytes (bh_yiaddr h) @ be32_bytes (bh_siaddr h) @
     be32_bytes (bh_giaddr h) @ mac_bytes (bh_chaddr h) @ bh_chaddrpad h @ bh_sname h @ bh_file h @
     be32_bytes (dh_cookie h) @ [dh_message_type_opt h, dh_message_type_len h, dh_message_type h]"

definition dhcp_header_at :: "bytes \<Rightarrow> dhcp_header" where
  "dhcp_header_at b = \<lparr>bh_op = b ! 0, bh_htype = b ! 1, bh_hlen = b ! 2, bh_hops = b ! 3, bh_xid = be32_at b 4,
     bh_secs = be16_at b 8, bh_flags = be16_at b 10, bh_ciaddr = be32_at b 12, bh_yiaddr = be32_at b 16, bh_siaddr = be32_at b 20,
     bh_giaddr = be32_at b 24, bh_chaddr = mac_at b 28, bh_chaddrpad = take 10 (drop 34 b), bh_sname = take 64 (drop 44 b),
     bh_file = take 128 (drop 108 b), dh_cookie = be32_at b 236, dh_message_type_opt = b ! 240, dh_message_type_len = b ! 241,
     dh_message_type = b ! 242\<rparr>"

section \<open>The code: the handler\<close>

datatype dhcp_state = Wait_for_offer | Wait_for_ack | Finished

record dhcp_handler =
  dc_config :: ipv4_net_config
  dc_state :: dhcp_state
  dc_timeout :: u32

type_synonym 'k dhcp = "dhcp_handler \<times> 'k ipv4_dev"

definition dhcp_src_port :: u16 where "dhcp_src_port = 68"
definition dhcp_dst_port :: u16 where "dhcp_dst_port = 67"
definition dhcp_transaction_id :: u32 where "dhcp_transaction_id = 0x2A2A2A2A"

text \<open>The bytes of \<open>buffer_\<close> in front of the pointer that \<open>start_request\<close> returns. (It also stores an end octet
  behind them, which \<open>put_option\<close> or \<open>finish_request\<close> overwrites.)\<close>

definition start_request :: "mac_address \<Rightarrow> u8 \<Rightarrow> u16 \<Rightarrow> bytes" where
  "start_request hw message_type flags =
     dhcp_header_bytes \<lparr>bh_op = bootp_request, bh_htype = ucast arp_htype_ethernet, bh_hlen = 6, bh_hops = 0,
       bh_xid = dhcp_transaction_id, bh_secs = 0, bh_flags = flags, bh_ciaddr = 0, bh_yiaddr = 0, bh_siaddr = 0, bh_giaddr = 0,
       bh_chaddr = hw, bh_chaddrpad = replicate 10 0, bh_sname = replicate 64 0, bh_file = replicate 128 0,
       dh_cookie = dhcp_magic_cookie, dh_message_type_opt = opt_message_type, dh_message_type_len = 1,
       dh_message_type = message_type\<rparr>"

definition finish_request :: "bytes \<Rightarrow> 'k dhcp \<Rightarrow> 'k dhcp res" where
  "finish_request b st =
     require (length b \<ge> sizeof_dhcp_header \<and> length b < 511) ''b < &buffer_[sizeof(buffer_)-1]'' (
     andThen (udp_sendto (snd st) inaddr_any dhcp_src_port inaddr_broadcast dhcp_dst_port (b @ [opt_end])) (\<lambda>dev.
       Inr (fst st\<lparr>dc_timeout := 50\<rparr>, dev)))"

definition put_option :: "bytes \<Rightarrow> u8 \<Rightarrow> ipv4_address \<Rightarrow> bytes" where
  "put_option b opt addr = b @ [opt, 4] @ be32_bytes addr"

definition send_dhcp_discover :: "'k dhcp \<Rightarrow> 'k dhcp res" where
  "send_dhcp_discover st =
     andThen (finish_request (start_request (dv_hw (snd st)) dhcp_discover bootp_broadcast_flag) st) (\<lambda>(h, dev).
       Inr (h\<lparr>dc_state := Wait_for_offer\<rparr>, dev))"

definition send_dhcp_request :: "ipv4_address \<Rightarrow> ipv4_address \<Rightarrow> 'k dhcp \<Rightarrow> 'k dhcp res" where
  "send_dhcp_request address server_id st =
     (let b0 = start_request (dv_hw (snd st)) dhcp_request bootp_broadcast_flag;
          b1 = put_option b0 opt_requested_ip address;
          b2 = put_option b1 opt_server_identifier server_id
      in andThen (finish_request b2 st) (\<lambda>(h, dev). Inr (h\<lparr>dc_state := Wait_for_ack\<rparr>, dev)))"

section \<open>The code: replies\<close>

record dhcp_parse_result =
  pr_dh :: dhcp_header
  pr_server_id :: ipv4_address
  pr_netmask :: ipv4_address
  pr_router :: ipv4_address

text \<open>The \<open>switch\<close> over the options. Its \<open>default\<close> has no \<open>break\<close> and runs on into \<open>subnet_mask\<close>.\<close>

definition parse_option :: "u8 \<Rightarrow> u8 \<Rightarrow> bytes \<Rightarrow> dhcp_parse_result \<Rightarrow> dhcp_parse_result res" where
  "parse_option type len data r =
     (if type = opt_router then
        require (len \<ge> 4 \<and> len mod 4 = 0) ''len >= 4 && len % 4 == 0'' (Inr (r\<lparr>pr_router := be32_at data 0\<rparr>))
      else if type = opt_domain_name_server then
        require (len \<ge> 4 \<and> len mod 4 = 0) ''len >= 4 && len % 4 == 0'' (Inr r)
      else if type = opt_domain_name then require (len > 0) ''len > 0'' (Inr r)
      else if type = opt_broadcast_address then require (len = 4) ''len == 4'' (Inr r)
      else if type = opt_netbios_name_server then
        require (len \<ge> 4 \<and> len mod 4 = 0) ''len >= 4 && len % 4 == 0'' (Inr r)
      else if type = opt_lease_time then require (len = 4) ''len == 4'' (Inr r)
      else if type = opt_server_identifier then
        require (len = 4) ''len == 4'' (
        let id = be32_at data 0 in
        require (id \<noteq> inaddr_any \<and> id \<noteq> inaddr_broadcast) ''res.server_id != inaddr_any'' (Inr (r\<lparr>pr_server_id := id\<rparr>)))
      else if type = opt_renewal_time then require (len = 4) ''len == 4'' (Inr r)
      else if type = opt_rebinding_time then require (len = 4) ''len == 4'' (Inr r)
      else require (len = 4) ''len == 4'' (Inr (r\<lparr>pr_netmask := be32_at data 0\<rparr>)))"

text \<open>The loop over the options; a padding option makes it \<open>continue\<close> without going on to the next byte.\<close>

fun parse_options :: "nat \<Rightarrow> bytes \<Rightarrow> dhcp_parse_result \<Rightarrow> (bytes \<times> dhcp_parse_result) res" where
  "parse_options 0 data r = Inl No_return"
| "parse_options (Suc n) data r =
     (if length data > 1 then
        let type = data ! 0 in
        if type = opt_padding then parse_options n data r
        else if type = opt_end then Inr (data, r)
        else
          let len = data ! 1 in
          require (length data \<ge> unat len + 2) ''length >= len+2U'' (
          andThen (parse_option type len (drop 2 data) r) (\<lambda>r1.
            parse_options n (drop (unat len) (drop 2 data)) r1))
      else Inr (data, r))"

definition parse_reply :: "mac_address \<Rightarrow> u8 \<Rightarrow> bytes \<Rightarrow> dhcp_parse_result res" where
  "parse_reply hw expected_message data =
     require (length data \<ge> sizeof_dhcp_header + 1) ''length >= sizeof(dhcp_header) + 1'' (
     let dh = dhcp_header_at data;
         r0 = \<lparr>pr_dh = dh, pr_server_id = inaddr_any, pr_netmask = inaddr_any, pr_router = inaddr_any\<rparr>
     in require (bh_op dh = bootp_reply) ''dh.op == bootp_operation::reply'' (
        require (bh_htype dh = ucast arp_htype_ethernet) ''dh.htype'' (
        require (bh_hlen dh = 6) ''dh.hlen == 6'' (
        require (bh_xid dh = dhcp_transaction_id) ''dh.xid == transaction_id_'' (
        require (mac_equal (bh_chaddr dh) hw) ''dh.chaddr == dev_.hw_address()'' (
        require (dh_cookie dh = dhcp_magic_cookie) ''dh.cookie == dhcp_magic_cookie'' (
        require (dh_message_type_opt dh = opt_message_type) ''dh.message_type_opt'' (
        require (dh_message_type_len dh = 1) ''dh.message_type_len == 1'' (
        require (dh_message_type dh = expected_message) ''dh.message_type == expected_messge'' (
        require (bh_giaddr dh = inaddr_any) ''dh.giaddr == inaddr_any'' (
        andThen (parse_options (length data) (drop sizeof_dhcp_header data) r0) (\<lambda>(data1, r1).
        require (length data1 \<ge> 1 \<and> data1 ! 0 = 0xff) ''length >= 1 && *data == 0xff'' (
          Inr (if pr_server_id r1 = inaddr_any then r1\<lparr>pr_server_id := bh_siaddr dh\<rparr> else r1))))))))))))))"

definition dhcp_in :: "bytes \<Rightarrow> 'k dhcp \<Rightarrow> 'k dhcp res" where
  "dhcp_in data st =
     (let (h, dev) = st in
      case dc_state h of
        Wait_for_offer \<Rightarrow>
          andThen (parse_reply (dv_hw dev) dhcp_offer data) (\<lambda>pr.
          let config1 = \<lparr>nc_addr = bh_yiaddr (pr_dh pr), nc_netmask = pr_netmask pr, nc_gateway = pr_router pr\<rparr>
          in require (nc_addr config1 \<noteq> inaddr_any \<and> nc_addr config1 \<noteq> inaddr_broadcast) ''config_.addr != inaddr_any'' (
             let config2 = (if nc_netmask config1 = inaddr_any then config1\<lparr>nc_netmask := ipv4 255 255 255 0\<rparr> else config1)
             in send_dhcp_request (bh_yiaddr (pr_dh pr)) (pr_server_id pr) (h\<lparr>dc_config := config2, dc_state := Wait_for_ack\<rparr>, dev)))
      | Wait_for_ack \<Rightarrow>
          andThen (parse_reply (dv_hw dev) dhcp_ack data) (\<lambda>pr.
          require (bh_yiaddr (pr_dh pr) = nc_addr (dc_config h)) ''pr.dh->yiaddr == config_.addr'' (
            Inr (h\<lparr>dc_state := Finished\<rparr>, dev)))
      | Finished \<Rightarrow> Inr st)"

definition dhcp_tick :: "'k dhcp \<Rightarrow> 'k dhcp res" where
  "dhcp_tick st =
     (let (h, dev) = st in
      if dc_timeout h \<noteq> 0 then
        let h1 = h\<lparr>dc_timeout := dc_timeout h - 1\<rparr>
        in if dc_timeout h1 = 0 then send_dhcp_discover (h1, dev) else Inr (h1, dev)
      else Inr st)"

definition dhcp_handler_new :: "'k ipv4_dev \<Rightarrow> 'k \<Rightarrow> 'k dhcp res" where
  "dhcp_handler_new dev k =
     andThen (udp_open dev inaddr_any dhcp_src_port k) (\<lambda>(port, dev1).
       send_dhcp_discover (\<lparr>dc_config = ipv4_net_config_none, dc_state = Wait_for_offer, dc_timeout = 0\<rparr>, dev1))"

definition dhcp_config :: "dhcp_handler \<Rightarrow> ipv4_net_config res" where
  "dhcp_config h = require (dc_state h = Finished) ''finished()'' (Inr (dc_config h))"

definition dhcp_receiver :: "('k, dhcp_handler) udp_receiver" where
  "dhcp_receiver k data st = dhcp_in data st"

text \<open>The loop of \<open>do_dhcp\<close>: each round of the environment is the answer of \<open>should_quit\<close> and the frames that
  \<open>process_packets\<close> gets. When \<open>do_dhcp\<close> returns, the handler is destroyed and closes its socket.\<close>

fun dhcp_rounds :: "(bool \<times> bytes list) list \<Rightarrow> 'k dhcp \<Rightarrow> (bool \<times> 'k ipv4_dev) res" where
  "dhcp_rounds [] st = Inl No_return"
| "dhcp_rounds ((quit, frames) # env) st =
     (if quit then Inr (False, snd st)
      else if dc_state (fst st) = Finished then
        andThen (dhcp_config (fst st)) (\<lambda>config. andThen (set_ipv4_config (snd st) config) (\<lambda>dev. Inr (True, dev)))
      else
        andThen (dhcp_tick st) (\<lambda>st1. andThen (process_packets dhcp_receiver frames st1) (dhcp_rounds env)))"

definition do_dhcp :: "'k ipv4_dev \<Rightarrow> 'k \<Rightarrow> (bool \<times> bytes list) list \<Rightarrow> (bool \<times> 'k ipv4_dev) res" where
  "do_dhcp dev k env =
     andThen (dhcp_handler_new dev k) (\<lambda>st.
     andThen (dhcp_rounds env st) (\<lambda>(ok, dev1).
     andThen (udp_close dev1 inaddr_any dhcp_src_port) (\<lambda>dev2. Inr (ok, dev2))))"

section \<open>Messages read back\<close>

text \<open>The lengths of the arrays of a header.\<close>

definition header_sizes :: "dhcp_header \<Rightarrow> bool" where
  "header_sizes h \<longleftrightarrow> length (bh_chaddrpad h) = 10 \<and> length (bh_sname h) = 64 \<and> length (bh_file h) = 128"

lemma length_dhcp_header [simp]: "header_sizes h \<Longrightarrow> length (dhcp_header_bytes h) = 243"
  by (simp add: header_sizes_def dhcp_header_bytes_def)

lemma dhcp_header_round: "header_sizes h \<Longrightarrow> dhcp_header_at (dhcp_header_bytes h @ r) = h"
proof -
  assume h: "header_sizes h"
  have "Mac (mac_bytes a ! 0) (mac_bytes a ! Suc 0) (mac_bytes a ! 2) (mac_bytes a ! 3) (mac_bytes a ! 4) (mac_bytes a ! 5) = a" for a
    by (cases a) simp
  then show ?thesis
    using h by (cases h) (simp add: dhcp_header_at_def dhcp_header_bytes_def header_sizes_def be_eqs mac_at_def nth_append)
qed

text \<open>Options as (code, data) pairs, their bytes, and their effect one after the other.\<close>

fun option_bytes :: "(u8 \<times> bytes) list \<Rightarrow> bytes" where
  "option_bytes [] = []"
| "option_bytes ((t, p) # os) = t # of_nat (length p) # p @ option_bytes os"

fun apply_options :: "(u8 \<times> bytes) list \<Rightarrow> dhcp_parse_result \<Rightarrow> dhcp_parse_result res" where
  "apply_options [] r = Inr r"
| "apply_options ((t, p) # os) r = andThen (parse_option t (of_nat (length p)) p r) (apply_options os)"

definition plain_options :: "(u8 \<times> bytes) list \<Rightarrow> bool" where
  "plain_options os \<longleftrightarrow> (\<forall>(t, p) \<in> set os. t \<noteq> opt_padding \<and> t \<noteq> opt_end \<and> length p < 256)"

lemma parse_option_prefix:
  "unat len = length p \<Longrightarrow> parse_option t len (p @ q) r = parse_option t len p r"
proof -
  assume l: "unat len = length p"
  have "be32_at (p @ q) 0 = be32_at p 0" if "4 \<le> len"
    using that l by (auto simp: be32_at_eq word_le_nat_alt nth_append)
  then show ?thesis by (auto simp: parse_option_def require_def Let_def)
qed

lemma parse_options_spec:
  "plain_options os \<Longrightarrow> length os < n \<Longrightarrow>
   parse_options n (option_bytes os @ 255 # rest) r = andThen (apply_options os r) (\<lambda>r'. Inr (255 # rest, r'))"
proof (induction os arbitrary: n r)
  case Nil
  then obtain m where "n = Suc m" by (cases n) auto
  then show ?case by (simp add: opt_padding_def opt_end_def)
next
  case (Cons o1 os)
  obtain t p where o1: "o1 = (t, p)" by force
  obtain m where n: "n = Suc m" "length os < m" using Cons.prems(2) by (cases n) auto
  have p: "t \<noteq> opt_padding" "t \<noteq> opt_end" "length p < 256" "plain_options os"
    using Cons.prems(1) by (auto simp: plain_options_def o1)
  have len: "unat (of_nat (length p) :: u8) = length p" using p(3) by (simp add: unat_of_nat take_bit_eq_mod)
  have "parse_options n (option_bytes (o1 # os) @ 255 # rest) r =
      andThen (parse_option t (of_nat (length p)) (p @ option_bytes os @ 255 # rest) r) (\<lambda>r1.
        parse_options m (option_bytes os @ 255 # rest) r1)"
    using p(1,2) len by (simp add: n(1) o1 Let_def)
  also have "\<dots> = andThen (parse_option t (of_nat (length p)) p r) (\<lambda>r1.
      andThen (apply_options os r1) (\<lambda>r'. Inr (255 # rest, r')))"
    using Cons.IH [OF p(4) n(2)] parse_option_prefix [OF len] by simp
  finally show ?case by (simp add: o1 andThen_assoc)
qed

text \<open>A server's message: the fields that a client checks, the addresses, and the options.\<close>

definition server_header :: "mac_address \<Rightarrow> u8 \<Rightarrow> ipv4_address \<Rightarrow> ipv4_address \<Rightarrow> dhcp_header" where
  "server_header hw message_type yi si = \<lparr>bh_op = bootp_reply, bh_htype = 1, bh_hlen = 6, bh_hops = 0,
     bh_xid = dhcp_transaction_id, bh_secs = 0, bh_flags = bootp_broadcast_flag, bh_ciaddr = 0, bh_yiaddr = yi, bh_siaddr = si,
     bh_giaddr = inaddr_any, bh_chaddr = hw, bh_chaddrpad = replicate 10 0, bh_sname = replicate 64 0, bh_file = replicate 128 0,
     dh_cookie = dhcp_magic_cookie, dh_message_type_opt = opt_message_type, dh_message_type_len = 1,
     dh_message_type = message_type\<rparr>"

definition server_message :: "mac_address \<Rightarrow> u8 \<Rightarrow> ipv4_address \<Rightarrow> ipv4_address \<Rightarrow> (u8 \<times> bytes) list \<Rightarrow> bytes" where
  "server_message hw message_type yi si os = dhcp_header_bytes (server_header hw message_type yi si) @ option_bytes os @ [255]"

lemma header_sizes_server [simp]: "header_sizes (server_header hw m yi si)"
  by (simp add: header_sizes_def server_header_def)

definition start_result :: "dhcp_header \<Rightarrow> dhcp_parse_result" where
  "start_result dh = \<lparr>pr_dh = dh, pr_server_id = inaddr_any, pr_netmask = inaddr_any, pr_router = inaddr_any\<rparr>"

definition default_server :: "dhcp_parse_result \<Rightarrow> dhcp_parse_result" where
  "default_server r = (if pr_server_id r = inaddr_any then r\<lparr>pr_server_id := bh_siaddr (pr_dh r)\<rparr> else r)"

lemma parse_option_dh: "parse_option t len p r = Inr r' \<Longrightarrow> pr_dh r' = pr_dh r"
  by (auto simp: parse_option_def res_simps Let_def split: if_splits)

lemma apply_options_dh: "apply_options os r = Inr r' \<Longrightarrow> pr_dh r' = pr_dh r"
  by (induction os r rule: apply_options.induct) (auto simp: res_simps parse_option_dh)

lemma length_option_bytes: "length os \<le> length (option_bytes os)"
  by (induction os rule: option_bytes.induct) auto

lemma parse_reply_server:
  assumes "plain_options os"
  shows "parse_reply hw m (server_message hw m yi si os) =
     andThen (apply_options os (start_result (server_header hw m yi si))) (\<lambda>r. Inr (default_server r))"
proof -
  let ?h = "server_header hw m yi si"
  let ?b = "server_message hw m yi si os"
  have at: "dhcp_header_at ?b = ?h" by (simp add: server_message_def dhcp_header_round)
  have len: "length ?b = 243 + length (option_bytes os) + 1" by (simp add: server_message_def)
  have "parse_options (length ?b) (drop 243 ?b) (start_result ?h) =
      andThen (apply_options os (start_result ?h)) (\<lambda>r'. Inr ([255], r'))"
    using parse_options_spec [OF assms, of "length ?b" "[]"] length_option_bytes [of os] len by (simp add: server_message_def)
  moreover have "default_server r = (if pr_server_id r = inaddr_any then r\<lparr>pr_server_id := si\<rparr> else r)"
    if "apply_options os (start_result ?h) = Inr r" for r
    using apply_options_dh [OF that] by (simp add: default_server_def start_result_def server_header_def)
  moreover have "bh_siaddr ?h = si" by (simp add: server_header_def)
  ultimately show ?thesis using len
    by (cases "apply_options os (start_result ?h)")
      (simp_all add: parse_reply_def at sizeof_dhcp_header_def Let_def start_result_def [symmetric], simp_all add: server_header_def arp_htype_ethernet_def)
qed

section \<open>A lease\<close>

lemma parse_options_padding:
  "plain_options os \<Longrightarrow> apply_options os r = Inr r' \<Longrightarrow>
   parse_options n (option_bytes os @ 0 # x # rest) r = Inl No_return"
proof (induction os arbitrary: n r)
  case Nil
  then show ?case by (induction n) (simp_all add: opt_padding_def)
next
  case (Cons o1 os)
  obtain t p where o1: "o1 = (t, p)" by force
  have p: "t \<noteq> opt_padding" "t \<noteq> opt_end" "length p < 256" "plain_options os"
    using Cons.prems(1) by (auto simp: plain_options_def o1)
  have len: "unat (of_nat (length p) :: u8) = length p" using p(3) by (simp add: unat_of_nat take_bit_eq_mod)
  obtain r1 where r1: "parse_option t (of_nat (length p)) p r = Inr r1" "apply_options os r1 = Inr r'"
    using Cons.prems(2) by (auto simp: o1 res_simps)
  show ?case
  proof (cases n)
    case (Suc m)
    have "parse_options n (option_bytes (o1 # os) @ 0 # x # rest) r =
      andThen (parse_option t (of_nat (length p)) (p @ option_bytes os @ 0 # x # rest) r) (\<lambda>r1.
        parse_options m (option_bytes os @ 0 # x # rest) r1)"
      using p(1,2) len by (simp add: Suc o1 Let_def)
    then show ?thesis using parse_option_prefix [OF len] r1 Cons.IH [OF p(4)] by simp
  qed simp
qed

text \<open>a padding option hangs the client: with one between the options of a reply, the loop of \<open>parse_reply\<close> runs
  for ever, whatever the number of its rounds.\<close>

theorem dhcp_padding_never_returns:
  assumes "plain_options os" "apply_options os r = Inr r'"
  shows "\<forall>n. parse_options n (option_bytes os @ opt_padding # x # rest) r = Inl No_return"
  using parse_options_padding [OF assms] by (simp add: opt_padding_def)

theorem dhcp_padding_never_returns_witness:
  "\<forall>n. parse_options n (option_bytes [(opt_subnet_mask, [255, 255, 255, 0])] @ opt_padding # opt_end # [])
     (start_result (server_header (demo_mac 2) dhcp_offer 0xC0A80A02 0xC0A80A01)) = Inl No_return"
  by (rule dhcp_padding_never_returns [where r' = "start_result (server_header (demo_mac 2) dhcp_offer 0xC0A80A02 0xC0A80A01)
      \<lparr>pr_netmask := 0xFFFFFF00\<rparr>"])
    (simp_all add: plain_options_def opt_defs parse_option_def be32_at_eq)

text \<open>An option that the client does not know is taken for the network mask.\<close>

lemma unknown_option_sets_netmask:
  "parse_option 43 4 [10, 0, 0, 1] r = Inr (r\<lparr>pr_netmask := 0x0A000001\<rparr>)"
  by (simp add: parse_option_def opt_defs be32_at_eq)

lemma hop_known_broadcast [simp]: "hop_known d inaddr_broadcast"
  by (simp add: hop_known_def inaddr_values)

lemma ethdev_send_config [simp]: "ethdev_send d f\<lparr>dv_config := c\<rparr> = ethdev_send (d\<lparr>dv_config := c\<rparr>) f"
  by (simp add: ethdev_send_def)

lemma ethdev_send_inject [simp]: "ethdev_send d f = ethdev_send d f' \<longleftrightarrow> f = f'"
  by (auto simp: ethdev_send_def dest: arg_cong [of _ _ dv_sent])

lemma length_start_request [simp]: "length (start_request hw m fl) = 243"
  by (simp add: start_request_def header_sizes_def)

lemma finish_request_sends:
  assumes "243 \<le> length b" "length b < 511"
  shows "\<exists>f. finish_request b (h, dev) = Inr (h\<lparr>dc_timeout := 50\<rparr>, ethdev_send dev f)"
  using udp_sendto_arrives [of "b @ [opt_end]" dev inaddr_broadcast inaddr_any dhcp_src_port dhcp_dst_port] assms
  by (auto simp: finish_request_def sizeof_dhcp_header_def)

lemma discover_sends: "\<exists>f. send_dhcp_discover (h, dev) = Inr (h\<lparr>dc_timeout := 50, dc_state := Wait_for_offer\<rparr>, ethdev_send dev f)"
  using finish_request_sends [of "start_request (dv_hw dev) dhcp_discover bootp_broadcast_flag" h dev]
  by (auto simp: send_dhcp_discover_def)

lemma request_sends: "\<exists>f. send_dhcp_request a si (h, dev) = Inr (h\<lparr>dc_timeout := 50, dc_state := Wait_for_ack\<rparr>, ethdev_send dev f)"
  using finish_request_sends [of "put_option (put_option (start_request (dv_hw dev) dhcp_request bootp_broadcast_flag) opt_requested_ip a)
      opt_server_identifier si" h dev]
  by (auto simp: send_dhcp_request_def put_option_def Let_def)

text \<open>The configuration that an offer leads to.\<close>

definition offered_config :: "dhcp_parse_result \<Rightarrow> ipv4_net_config" where
  "offered_config r = \<lparr>nc_addr = bh_yiaddr (pr_dh r),
     nc_netmask = (if pr_netmask r = inaddr_any then ipv4 255 255 255 0 else pr_netmask r), nc_gateway = pr_router r\<rparr>"

lemma server_header_sel [simp]: "bh_yiaddr (server_header hw m yi si) = yi" "pr_dh (start_result h) = h"
  by (simp_all add: server_header_def start_result_def)

lemma offer_accepted:
  assumes "plain_options os" "apply_options os (start_result (server_header (dv_hw dev) dhcp_offer yi si)) = Inr r"
    and "yi \<noteq> inaddr_any" "yi \<noteq> inaddr_broadcast" "dc_state h = Wait_for_offer"
  shows "\<exists>f. dhcp_in (server_message (dv_hw dev) dhcp_offer yi si os) (h, dev) =
     Inr (h\<lparr>dc_config := offered_config r, dc_state := Wait_for_ack, dc_timeout := 50\<rparr>, ethdev_send dev f)"
proof -
  have dh: "bh_yiaddr (pr_dh r) = yi" using apply_options_dh [OF assms(2)] by simp
  have d: "pr_dh (default_server r) = pr_dh r" "pr_netmask (default_server r) = pr_netmask r" "pr_router (default_server r) = pr_router r"
    by (simp_all add: default_server_def)
  obtain f where "send_dhcp_request yi (pr_server_id (default_server r)) (h\<lparr>dc_config := offered_config r, dc_state := Wait_for_ack\<rparr>, dev) =
      Inr (h\<lparr>dc_config := offered_config r, dc_state := Wait_for_ack\<rparr>\<lparr>dc_timeout := 50, dc_state := Wait_for_ack\<rparr>, ethdev_send dev f)"
    using request_sends by blast
  moreover have "offered_config r = (if pr_netmask r = inaddr_any then \<lparr>nc_addr = yi, nc_netmask = ipv4 255 255 255 0, nc_gateway = pr_router r\<rparr>
      else \<lparr>nc_addr = yi, nc_netmask = pr_netmask r, nc_gateway = pr_router r\<rparr>)"
    by (simp add: offered_config_def dh)
  ultimately show ?thesis using assms parse_reply_server [OF assms(1), of "dv_hw dev" dhcp_offer yi si]
    by (auto simp: dhcp_in_def Let_def d dh split: if_splits)
qed

lemma ack_accepted:
  assumes "plain_options os" "apply_options os (start_result (server_header (dv_hw dev) dhcp_ack yi si)) = Inr r"
    and "nc_addr (dc_config h) = yi" "dc_state h = Wait_for_ack"
  shows "dhcp_in (server_message (dv_hw dev) dhcp_ack yi si os) (h, dev) = Inr (h\<lparr>dc_state := Finished\<rparr>, dev)"
proof -
  have "bh_yiaddr (pr_dh (default_server r)) = yi" using apply_options_dh [OF assms(2)] by (simp add: default_server_def)
  then show ?thesis using assms parse_reply_server [OF assms(1), of "dv_hw dev" dhcp_ack yi si] by (simp add: dhcp_in_def)
qed



end
