(* ===== verification/Tftp.thy ===== *)
theory Tftp
  imports NetStack
begin

text \<open>
  The TFTP messages (\<open>attos/net/tftp.h\<close>, the first part of \<open>attos/net/tftp.cpp\<close>) and the TFTP client (\<open>tftp_base\<close>,
  \<open>tftp_reader\<close>, \<open>tftp_writer\<close>, \<open>tftp_op\<close>). The two classes derived from \<open>tftp_base\<close> are record extensions of it; their
  virtual functions are passed to the functions of the base class as arguments. The packet buffer \<open>buffer_\<close> is the list
  of the bytes that were put into it.
\<close>

section \<open>The code: messages\<close>

definition tftp_dst_port :: u16 where "tftp_dst_port = 69"
definition block_size :: nat where "block_size = 512"

definition legal_size :: "nat \<Rightarrow> bool" where
  "legal_size sz \<longleftrightarrow> sz \<le> block_size * (65535 - 1)"

definition block_count :: "nat \<Rightarrow> u16" where
  "block_count sz = of_nat ((sz + 512) div block_size)"

definition op_rrq :: u16 where "op_rrq = 1"
definition op_wrq :: u16 where "op_wrq = 2"
definition op_data :: u16 where "op_data = 3"
definition op_ack :: u16 where "op_ack = 4"
definition op_error :: u16 where "op_error = 5"

lemmas op_defs = op_rrq_def op_wrq_def op_data_def op_ack_def op_error_def

definition err_file_not_found :: u16 where "err_file_not_found = 1"
definition err_access_violation :: u16 where "err_access_violation = 2"
definition err_illegal_operation :: u16 where "err_illegal_operation = 4"

definition put_u16 :: "bytes \<Rightarrow> u16 \<Rightarrow> bytes" where
  "put_u16 b x = b @ [ucast (drop_bit 8 x), ucast x]"

definition put_str :: "bytes \<Rightarrow> bytes \<Rightarrow> bytes res" where
  "put_str b s = andThen (string_length s) (\<lambda>l. Inr (b @ take (l + 1) s))"

definition put_error_reply :: "bytes \<Rightarrow> u16 \<Rightarrow> bytes \<Rightarrow> bytes res" where
  "put_error_reply b ec msg = put_str (put_u16 (put_u16 b op_error) ec) msg"

definition get_u16 :: "bytes \<Rightarrow> (u16 \<times> bytes) res" where
  "get_u16 data =
     require (length data \<ge> 2) ''length >= 2'' (Inr (ucast (data ! 0) * 256 + ucast (data ! 1), drop 2 data))"

text \<open>The pointer returned is the string with everything behind it.\<close>

fun get_string_loop :: "bytes \<Rightarrow> bytes \<Rightarrow> (bytes \<times> bytes) res" where
  "get_string_loop str [] = Inl (Fatal ''Invalid TFTP string'')"
| "get_string_loop str (c # data) = (if c = 0 then Inr (str, data) else get_string_loop str data)"

definition get_string :: "bytes \<Rightarrow> (bytes \<times> bytes) res" where
  "get_string data = get_string_loop data data"

section \<open>The code: the base class\<close>

record tftp_base =
  tb_local_addr :: ipv4_address
  tb_local_port :: u16
  tb_remote_addr :: ipv4_address
  tb_timeout :: u32

datatype tick_result = Running | Timeout | Done

definition default_timeout :: u32 where "default_timeout = 50"

text \<open>The operations that the derived classes override, for a derived state \<open>'s\<close>.\<close>

record ('s, 'k) tftp_virtual =
  is_done :: "'s \<Rightarrow> bool"
  on_timeout :: "'s \<times> 'k ipv4_dev \<Rightarrow> ('s \<times> 'k ipv4_dev) res"
  on_packet :: "u16 \<Rightarrow> bytes \<Rightarrow> 's \<times> 'k ipv4_dev \<Rightarrow> (bool \<times> 's \<times> 'k ipv4_dev) res"

definition start_packet :: "u16 \<Rightarrow> bytes" where
  "start_packet op = put_u16 [] op"

definition send_packet :: "bytes \<Rightarrow> 'a tftp_base_scheme \<times> 'k ipv4_dev \<Rightarrow> ('a tftp_base_scheme \<times> 'k ipv4_dev) res" where
  "send_packet b st =
     andThen (udp_sendto (snd st) (tb_local_addr (fst st)) (tb_local_port (fst st)) (tb_remote_addr (fst st)) tftp_dst_port b)
       (\<lambda>dev. Inr (fst st\<lparr>tb_timeout := default_timeout\<rparr>, dev))"

definition tftp_tick ::
  "('a tftp_base_scheme, 'k) tftp_virtual \<Rightarrow> 'a tftp_base_scheme \<times> 'k ipv4_dev \<Rightarrow> (tick_result \<times> 'a tftp_base_scheme \<times> 'k ipv4_dev) res" where
  "tftp_tick v st =
     (let (s, dev) = st in
      if is_done v s then Inr (Done, st)
      else if tb_timeout s \<noteq> 0 then
        let s1 = s\<lparr>tb_timeout := tb_timeout s - 1\<rparr>
        in if tb_timeout s1 = 0 then andThen (on_timeout v (s1, dev)) (\<lambda>st2. Inr (Timeout, st2)) else Inr (Running, (s1, dev))
      else Inr (Running, st))"

definition tftp_in ::
  "('a tftp_base_scheme, 'k) tftp_virtual \<Rightarrow> bytes \<Rightarrow> 'a tftp_base_scheme \<times> 'k ipv4_dev \<Rightarrow> ('a tftp_base_scheme \<times> 'k ipv4_dev) res" where
  "tftp_in v data st =
     require (length data \<le> 4 + block_size) ''length <= 4 + tftp::block_size'' (
     andThen (get_u16 data) (\<lambda>(opcode, data1).
     andThen (on_packet v opcode data1 st) (\<lambda>(handled, st1).
     if handled then Inr st1
     else if opcode = op_error then
       andThen (get_u16 data1) (\<lambda>(error_code, data2).
       andThen (get_string data2) (\<lambda>(error_msg, data3). Inl (Fatal ''false'')))
     else Inl (Fatal ''false''))))"

text \<open>The constructor up to the request that the derived constructor sends; \<open>timeout_\<close> is set by that.\<close>

definition tftp_base_new :: "'k ipv4_dev \<Rightarrow> 'k \<Rightarrow> ipv4_address \<Rightarrow> (tftp_base \<times> 'k ipv4_dev) res" where
  "tftp_base_new dev k remote_addr =
     (let local = nc_addr (dv_config dev) in
      andThen (udp_open dev local 0 k) (\<lambda>(port, dev1).
        Inr (\<lparr>tb_local_addr = local, tb_local_port = port, tb_remote_addr = remote_addr, tb_timeout = 0\<rparr>, dev1)))"

text \<open>A name is copied with its terminator into the 64 bytes of \<open>filename_\<close>.\<close>

definition copy_filename :: "bytes \<Rightarrow> bytes res" where
  "copy_filename filename =
     andThen (string_length filename) (\<lambda>filename_length.
     require (filename_length < 64) ''filename_length < sizeof(filename_)'' (Inr (take (filename_length + 1) filename)))"

section \<open>The code: reading\<close>

record tftp_reader = tftp_base +
  rd_filename :: bytes
  rd_last_block :: u16
  rd_data :: bytes
  rd_done :: bool

definition reader_send_rrq :: "tftp_reader \<times> 'k ipv4_dev \<Rightarrow> (tftp_reader \<times> 'k ipv4_dev) res" where
  "reader_send_rrq st =
     (let s1 = fst st\<lparr>rd_done := False, rd_last_block := 0, rd_data := []\<rparr> in
      andThen (put_str (start_packet op_rrq) (rd_filename s1)) (\<lambda>b.
      andThen (put_str b (c_str ''octet'')) (\<lambda>b1. send_packet b1 (s1, snd st))))"

definition reader_send_ack :: "u16 \<Rightarrow> tftp_reader \<times> 'k ipv4_dev \<Rightarrow> (tftp_reader \<times> 'k ipv4_dev) res" where
  "reader_send_ack block_number st = send_packet (put_u16 (start_packet op_ack) block_number) st"

definition reader_on_timeout :: "tftp_reader \<times> 'k ipv4_dev \<Rightarrow> (tftp_reader \<times> 'k ipv4_dev) res" where
  "reader_on_timeout st = (if rd_last_block (fst st) = 0 then reader_send_rrq st else Inl (Fatal ''false''))"

definition reader_on_packet :: "u16 \<Rightarrow> bytes \<Rightarrow> tftp_reader \<times> 'k ipv4_dev \<Rightarrow> (bool \<times> tftp_reader \<times> 'k ipv4_dev) res" where
  "reader_on_packet opcode data st =
     (if opcode \<noteq> op_data then Inr (False, st)
      else
        andThen (get_u16 data) (\<lambda>(block_number, data1).
        require (int (unat block_number) - 1 = int (unat (rd_last_block (fst st)))) ''block_number - 1 == last_block_'' (
        andThen (reader_send_ack block_number
          (fst st\<lparr>rd_data := rd_data (fst st) @ data1, rd_last_block := block_number\<rparr>, snd st)) (\<lambda>(s, dev).
        Inr (True, (if length data1 \<noteq> block_size then s\<lparr>rd_done := True\<rparr> else s), dev)))))"

definition reader_virtual :: "(tftp_reader, 'k) tftp_virtual" where
  "reader_virtual = \<lparr>is_done = rd_done, on_timeout = reader_on_timeout, on_packet = reader_on_packet\<rparr>"

definition reader_new :: "'k ipv4_dev \<Rightarrow> 'k \<Rightarrow> ipv4_address \<Rightarrow> bytes \<Rightarrow> (tftp_reader \<times> 'k ipv4_dev) res" where
  "reader_new dev k remote_addr filename =
     andThen (tftp_base_new dev k remote_addr) (\<lambda>(b, dev1).
     andThen (copy_filename filename) (\<lambda>name.
       reader_send_rrq (\<lparr>tb_local_addr = tb_local_addr b, tb_local_port = tb_local_port b, tb_remote_addr = tb_remote_addr b,
         tb_timeout = tb_timeout b, rd_filename = name, rd_last_block = 0, rd_data = [], rd_done = False\<rparr>, dev1)))"

definition reader_take_data :: "tftp_reader \<Rightarrow> bytes res" where
  "reader_take_data s = require (rd_done s) ''is_done()'' (Inr (rd_data s))"

section \<open>The code: writing\<close>

record tftp_writer = tftp_base +
  wr_filename :: bytes
  wr_data :: bytes
  wr_last_ack :: u16

definition no_acks :: u16 where "no_acks = - 1"

definition writer_block_count :: "tftp_writer \<Rightarrow> u16" where
  "writer_block_count s = block_count (length (wr_data s))"

definition writer_send_wrq :: "tftp_writer \<times> 'k ipv4_dev \<Rightarrow> (tftp_writer \<times> 'k ipv4_dev) res" where
  "writer_send_wrq st =
     (let s1 = fst st\<lparr>wr_last_ack := no_acks\<rparr> in
      andThen (put_str (start_packet op_wrq) (wr_filename s1)) (\<lambda>b.
      andThen (put_str b (c_str ''octet'')) (\<lambda>b1. send_packet b1 (s1, snd st))))"

definition writer_send_data :: "u16 \<Rightarrow> tftp_writer \<times> 'k ipv4_dev \<Rightarrow> (tftp_writer \<times> 'k ipv4_dev) res" where
  "writer_send_data block_number st =
     require (block_number \<ge> 1 \<and> block_number \<le> writer_block_count (fst st)) ''block_number >= 1'' (
     let index = (unat block_number - 1) * block_size;
         sz = min block_size (length (wr_data (fst st)) - index);
         b = put_u16 (start_packet op_data) block_number
     in send_packet (b @ take sz (drop index (wr_data (fst st)))) st)"

definition writer_is_done :: "tftp_writer \<Rightarrow> bool" where
  "writer_is_done s \<longleftrightarrow> wr_last_ack s = writer_block_count s"

definition writer_on_timeout :: "tftp_writer \<times> 'k ipv4_dev \<Rightarrow> (tftp_writer \<times> 'k ipv4_dev) res" where
  "writer_on_timeout st =
     (if wr_last_ack (fst st) = no_acks then writer_send_wrq st
      else if wr_last_ack (fst st) < writer_block_count (fst st) then writer_send_data (wr_last_ack (fst st) + 1) st
      else Inl (Fatal ''false''))"

definition writer_on_packet :: "u16 \<Rightarrow> bytes \<Rightarrow> tftp_writer \<times> 'k ipv4_dev \<Rightarrow> (bool \<times> tftp_writer \<times> 'k ipv4_dev) res" where
  "writer_on_packet opcode data st =
     (if opcode \<noteq> op_ack then Inr (False, st)
      else
        andThen (get_u16 data) (\<lambda>(block_number, data1).
        require (block_number \<le> writer_block_count (fst st)) ''block_number <= block_count()'' (
        let s1 = fst st\<lparr>wr_last_ack := block_number\<rparr>
        in if block_number < writer_block_count s1
           then andThen (writer_send_data (wr_last_ack s1 + 1) (s1, snd st)) (\<lambda>st2. Inr (True, st2))
           else Inr (True, s1, snd st))))"

definition writer_virtual :: "(tftp_writer, 'k) tftp_virtual" where
  "writer_virtual = \<lparr>is_done = writer_is_done, on_timeout = writer_on_timeout, on_packet = writer_on_packet\<rparr>"

definition writer_new :: "'k ipv4_dev \<Rightarrow> 'k \<Rightarrow> ipv4_address \<Rightarrow> bytes \<Rightarrow> bytes \<Rightarrow> (tftp_writer \<times> 'k ipv4_dev) res" where
  "writer_new dev k remote_addr filename data =
     andThen (tftp_base_new dev k remote_addr) (\<lambda>(b, dev1).
     andThen (copy_filename filename) (\<lambda>name.
     require (legal_size (length data)) ''tftp::legal_size(data_.size())'' (
       writer_send_wrq (\<lparr>tb_local_addr = tb_local_addr b, tb_local_port = tb_local_port b, tb_remote_addr = tb_remote_addr b,
         tb_timeout = tb_timeout b, wr_filename = name, wr_data = data, wr_last_ack = 0\<rparr>, dev1))))"

section \<open>The code: operations\<close>

text \<open>\<open>do_op\<close>: each round of the environment is the answer of \<open>should_quit\<close> and the frames that have arrived. The socket
  of the operation is the only one that is open.\<close>

definition tftp_receiver :: "('a tftp_base_scheme, 'k) tftp_virtual \<Rightarrow> ('k, 'a tftp_base_scheme) udp_receiver" where
  "tftp_receiver v k data st = tftp_in v data st"

fun tftp_rounds ::
  "('a tftp_base_scheme, 'k) tftp_virtual \<Rightarrow> (bool \<times> bytes list) list \<Rightarrow> 'a tftp_base_scheme \<times> 'k ipv4_dev \<Rightarrow>
     (bool \<times> 'a tftp_base_scheme \<times> 'k ipv4_dev) res" where
  "tftp_rounds v [] st = Inl No_return"
| "tftp_rounds v ((quit, frames) # env) st =
     (if quit then Inr (False, st)
      else
        andThen (process_packets (tftp_receiver v) frames st) (\<lambda>st1.
        andThen (tftp_tick v st1) (\<lambda>(r, st2). if r = Done then Inr (True, st2) else tftp_rounds v env st2)))"

definition tftp_address :: "'k ipv4_dev \<Rightarrow> ipv4_address" where
  "tftp_address dev = (if nc_addr (dv_config dev) = ipv4 192 168 10 2 then ipv4 192 168 10 1 else ipv4 192 168 1 67)"

definition tftp_read :: "'k ipv4_dev \<Rightarrow> 'k \<Rightarrow> bytes \<Rightarrow> (bool \<times> bytes list) list \<Rightarrow> (bytes \<times> 'k ipv4_dev) res" where
  "tftp_read dev k filename env =
     andThen (reader_new dev k (tftp_address dev) filename) (\<lambda>st.
     andThen (tftp_rounds reader_virtual env st) (\<lambda>(ok, s, dev1).
     andThen (if ok then reader_take_data s else Inr []) (\<lambda>data.
     andThen (udp_close dev1 (tb_local_addr s) (tb_local_port s)) (\<lambda>dev2. Inr (data, dev2)))))"

definition tftp_write :: "'k ipv4_dev \<Rightarrow> 'k \<Rightarrow> bytes \<Rightarrow> bytes \<Rightarrow> (bool \<times> bytes list) list \<Rightarrow> (bool \<times> 'k ipv4_dev) res" where
  "tftp_write dev k filename data env =
     andThen (writer_new dev k (tftp_address dev) filename data) (\<lambda>st.
     andThen (tftp_rounds writer_virtual env st) (\<lambda>(ok, s, dev1).
     andThen (udp_close dev1 (tb_local_addr s) (tb_local_port s)) (\<lambda>dev2. Inr (ok, dev2))))"

end
