(* ===== verification/TftpServer.thy ===== *)
theory TftpServer
  imports Tftp
begin

text \<open>
  The TFTP server \<open>exp/tftp/tftps.cpp\<close>, which runs on the host. Its sockets and files belong to the host's system: a
  round of the server is a datagram that \<open>recvfrom\<close> returned, the files are a map from names to contents, and the round
  yields the datagram handed to \<open>sendto\<close>. A session keeps the file name as a \<open>kvector<char>\<close> without terminator and
  later uses it as a C string: \<open>behind\<close>, an argument of the round, are the bytes that follow it in memory.
\<close>

section \<open>The code\<close>

record tftp_session =
  ss_addr :: ipv4_address
  ss_port :: u16
  ss_filename :: bytes
  ss_is_read :: bool
  ss_data :: bytes

record tftp_server =
  sv_sessions :: "tftp_session list"
  sv_files :: "bytes \<rightharpoonup> bytes"

definition write_session_new :: "ipv4_address \<Rightarrow> u16 \<Rightarrow> bytes \<Rightarrow> tftp_session" where
  "write_session_new addr port filename =
     \<lparr>ss_addr = addr, ss_port = port, ss_filename = filename, ss_is_read = False, ss_data = []\<rparr>"

definition read_session_new :: "ipv4_address \<Rightarrow> u16 \<Rightarrow> bytes \<Rightarrow> bytes \<Rightarrow> tftp_session res" where
  "read_session_new addr port filename data =
     require (legal_size (length data)) ''tftp::legal_size(data_.size())''
       (Inr \<lparr>ss_addr = addr, ss_port = port, ss_filename = filename, ss_is_read = True, ss_data = data\<rparr>)"

definition session_block_count :: "tftp_session \<Rightarrow> u16" where
  "session_block_count s = block_count (length (ss_data s))"

definition session_put_block :: "bytes \<Rightarrow> tftp_session \<Rightarrow> u16 \<Rightarrow> bytes res" where
  "session_put_block b s block =
     require (ss_is_read s) ''is_read()'' (
     require (block \<ge> 1 \<and> block \<le> session_block_count s) ''block >= 1 && block <= block_count()'' (
     let b1 = put_u16 (put_u16 b op_data) block;
         offset = (unat block - 1) * block_size;
         count = min block_size (length (ss_data s) - offset)
     in Inr (b1 @ take count (drop offset (ss_data s)))))"

definition got_data :: "tftp_session \<Rightarrow> u16 \<Rightarrow> bytes \<Rightarrow> (u16 \<times> tftp_session) res" where
  "got_data s block data =
     require (\<not> ss_is_read s) ''!is_read()'' (
     require (block > 0) ''block > 0'' (
     require (length data \<le> block_size) ''size <= tftp::block_size'' (
     let expected_block_number = of_nat (1 + length (ss_data s) div block_size)
     in if block = expected_block_number then Inr (expected_block_number, s\<lparr>ss_data := ss_data s @ data\<rparr>)
        else Inl (Fatal ''false''))))"

definition put_ack :: "bytes \<Rightarrow> u16 \<Rightarrow> bytes" where
  "put_ack b block_number = put_u16 (put_u16 b op_ack) block_number"

text \<open>The directory of the executable: the path up to its last separator.\<close>

fun exe_dir_scan :: "nat \<Rightarrow> bytes \<Rightarrow> bytes res" where
  "exe_dir_scan 0 buffer = Inl (Fatal ''false'')"
| "exe_dir_scan (Suc i) buffer =
     (if buffer ! i = 92 \<or> buffer ! i = 47 then Inr (take i buffer) else exe_dir_scan i buffer)"

definition exe_dir :: "bytes \<Rightarrow> bytes res" where
  "exe_dir buffer = andThen (string_length buffer) (\<lambda>n. exe_dir_scan (Suc n) buffer)"

definition complete_path :: "bytes \<Rightarrow> bytes \<Rightarrow> bytes res" where
  "complete_path buffer filename =
     andThen (exe_dir buffer) (\<lambda>d. andThen (string_length filename) (\<lambda>n. Inr (d @ [92] @ take n filename)))"

fun valid_filename_from :: "nat \<Rightarrow> bytes \<Rightarrow> bool res" where
  "valid_filename_from pos [] = Inl (Wild ''filename'')"
| "valid_filename_from pos (c # s) =
     (if c = 0 then Inr True
      else if c \<ge> 65 \<and> c \<le> 90 \<or> c \<ge> 97 \<and> c \<le> 122 \<or> c \<ge> 48 \<and> c \<le> 57 \<or> pos \<noteq> 0 \<and> c = 46 then valid_filename_from (Suc pos) s
      else Inr False)"

definition valid_filename :: "bytes \<Rightarrow> bool res" where
  "valid_filename filename = valid_filename_from 0 filename"

text \<open>The text of a C string, the key of the file that its path leads to.\<close>

definition c_text :: "bytes \<Rightarrow> bytes res" where
  "c_text s = andThen (string_length s) (\<lambda>n. Inr (take n s))"

definition file_exists :: "(bytes \<rightharpoonup> bytes) \<Rightarrow> bytes \<Rightarrow> bool res" where
  "file_exists files filename = andThen (c_text filename) (\<lambda>n. Inr (files n \<noteq> None))"

definition read_file :: "(bytes \<rightharpoonup> bytes) \<Rightarrow> bytes \<Rightarrow> bytes option res" where
  "read_file files filename = andThen (c_text filename) (\<lambda>n. Inr (files n))"

fun find_session :: "tftp_session list \<Rightarrow> ipv4_address \<Rightarrow> u16 \<Rightarrow> tftp_session option" where
  "find_session [] addr port = None"
| "find_session (s # ss) addr port = (if ss_addr s = addr \<and> ss_port s = port then Some s else find_session ss addr port)"

fun erase_session :: "tftp_session list \<Rightarrow> ipv4_address \<Rightarrow> u16 \<Rightarrow> tftp_session list" where
  "erase_session [] addr port = []"
| "erase_session (s # ss) addr port = (if ss_addr s = addr \<and> ss_port s = port then ss else s # erase_session ss addr port)"

fun update_session :: "tftp_session list \<Rightarrow> tftp_session \<Rightarrow> tftp_session list" where
  "update_session [] s' = []"
| "update_session (s # ss) s' =
     (if ss_addr s = ss_addr s' \<and> ss_port s = ss_port s' then s' # ss else s # update_session ss s')"

text \<open>A request to read or write: what it answers, and the new state.\<close>

definition serve_request :: "bool \<Rightarrow> ipv4_address \<Rightarrow> u16 \<Rightarrow> bytes \<Rightarrow> tftp_server \<Rightarrow> (bytes \<times> tftp_server) res" where
  "serve_request is_read addr port inb sv =
     andThen (get_string inb) (\<lambda>(filename, in1).
     andThen (get_string in1) (\<lambda>(mode, in2).
     let sv1 = sv\<lparr>sv_sessions := erase_session (sv_sessions sv) addr port\<rparr> in
     andThen (string_equal mode (c_str ''octet'')) (\<lambda>octet.
     if \<not> octet then
       andThen (put_error_reply [] err_illegal_operation (c_str ''Unsupported RRQ mode'')) (\<lambda>b. Inr (b, sv1))
     else
     andThen (valid_filename filename) (\<lambda>valid.
     if \<not> valid then andThen (put_error_reply [] err_file_not_found (c_str ''Invalid filename'')) (\<lambda>b. Inr (b, sv1))
     else
     andThen (c_text filename) (\<lambda>fname.
     if is_read then
       andThen (read_file (sv_files sv) filename) (\<lambda>file.
       case file of
         None \<Rightarrow> andThen (put_error_reply [] err_file_not_found (c_str ''File not found'')) (\<lambda>b. Inr (b, sv1))
       | Some data \<Rightarrow>
           andThen (read_session_new addr port fname data) (\<lambda>s.
           andThen (session_put_block [] s 1) (\<lambda>b. Inr (b, sv1\<lparr>sv_sessions := sv_sessions sv1 @ [s]\<rparr>))))
     else
       andThen (file_exists (sv_files sv) filename) (\<lambda>exists.
       if exists then andThen (put_error_reply [] err_access_violation (c_str ''File exists'')) (\<lambda>b. Inr (b, sv1))
       else Inr (put_ack [] 0, sv1\<lparr>sv_sessions := sv_sessions sv1 @ [write_session_new addr port fname]\<rparr>)))))))"

definition serve_ack :: "ipv4_address \<Rightarrow> u16 \<Rightarrow> bytes \<Rightarrow> tftp_server \<Rightarrow> (bytes \<times> tftp_server) res" where
  "serve_ack addr port inb sv =
     andThen (get_u16 inb) (\<lambda>(block_number, in1).
     case find_session (sv_sessions sv) addr port of
       None \<Rightarrow> Inl (Fatal ''it != sessions_.end()'')
     | Some s \<Rightarrow>
         require (block_number \<ge> 1 \<and> block_number \<le> session_block_count s) ''block_number >= 1'' (
         if block_number = session_block_count s then
           Inr ([], sv\<lparr>sv_sessions := erase_session (sv_sessions sv) addr port\<rparr>)
         else andThen (session_put_block [] s (block_number + 1)) (\<lambda>b. Inr (b, sv))))"

text \<open>A block of data. When the last one has come, the file name is used as a C string.\<close>

definition serve_data :: "bytes \<Rightarrow> ipv4_address \<Rightarrow> u16 \<Rightarrow> bytes \<Rightarrow> tftp_server \<Rightarrow> (bytes \<times> tftp_server) res" where
  "serve_data behind addr port inb sv =
     andThen (get_u16 inb) (\<lambda>(block_number, in1).
     case find_session (sv_sessions sv) addr port of
       None \<Rightarrow> Inl (Fatal ''it != sessions_.end()'')
     | Some s \<Rightarrow>
         andThen (got_data s block_number in1) (\<lambda>(expected, s1).
         let b = put_ack [] expected; sv1 = sv\<lparr>sv_sessions := update_session (sv_sessions sv) s1\<rparr> in
         if length in1 < block_size then
           andThen (c_text (ss_filename s1 @ behind)) (\<lambda>name.
           andThen (if sv_files sv name \<noteq> None
                    then andThen (put_error_reply b err_access_violation (c_str ''File exists'')) (\<lambda>b1. Inr (b1, sv1))
                    else Inr (b, sv1\<lparr>sv_files := (sv_files sv1)(name \<mapsto> ss_data s1)\<rparr>)) (\<lambda>(b2, sv2).
             Inr (b2, sv2\<lparr>sv_sessions := erase_session (sv_sessions sv2) addr port\<rparr>)))
         else Inr (b, sv1)))"

text \<open>A round of the loop in \<open>main\<close>: the answer (none when it is empty), whether the loop ends, and the new state.\<close>

definition serve :: "bytes \<Rightarrow> ipv4_address \<Rightarrow> u16 \<Rightarrow> bytes \<Rightarrow> tftp_server \<Rightarrow> (bytes \<times> bool \<times> tftp_server) res" where
  "serve behind remote_addr remote_port buf sv =
     require (remote_addr \<noteq> inaddr_broadcast) ''remote_addr != inaddr_broadcast'' (
     andThen (get_u16 buf) (\<lambda>(opcode, inb).
     if opcode = op_rrq \<or> opcode = op_wrq then
       andThen (serve_request (opcode = op_rrq) remote_addr remote_port inb sv) (\<lambda>(b, sv1). Inr (b, False, sv1))
     else if opcode = op_ack then
       andThen (serve_ack remote_addr remote_port inb sv) (\<lambda>(b, sv1). Inr (b, False, sv1))
     else if opcode = op_data then
       andThen (serve_data behind remote_addr remote_port inb sv) (\<lambda>(b, sv1). Inr (b, False, sv1))
     else
       andThen (put_error_reply [] err_illegal_operation (c_str ''Unsupported TFTP opcode'')) (\<lambda>b. Inr (b, True, sv))))"

end
