(* ===== verification/TftpTransfer.thy ===== *)
theory TftpTransfer
  imports TftpServer
begin

text \<open>
  The client and the server together: a lock-step link hands the payload of the frame that the client sent last to the
  server, and the server's answer to the client, unless the client is already done. With nothing lost, a read ends with the file at the client and a write
  with the file at the server.
\<close>

section \<open>The link\<close>

definition payload_of :: "bytes \<Rightarrow> bytes" where
  "payload_of f = drop (14 + 20 + 8) f"

fun transfer ::
  "('a tftp_base_scheme, 'k) tftp_virtual \<Rightarrow> nat \<Rightarrow> bytes \<Rightarrow> tftp_server \<times> 'a tftp_base_scheme \<times> 'k ipv4_dev \<Rightarrow>
     (tftp_server \<times> 'a tftp_base_scheme \<times> 'k ipv4_dev) res" where
  "transfer v 0 behind st = Inr st"
| "transfer v (Suc n) behind (sv, s, dev) =
     andThen (serve behind (tb_local_addr s) (tb_local_port s) (payload_of (last (dv_sent dev))) sv) (\<lambda>(q, fin, sv1).
     if q = [] \<or> is_done v s then Inr (sv1, s, dev)
     else andThen (tftp_in v q (s, dev)) (\<lambda>(s1, dev1). transfer v n behind (sv1, s1, dev1)))"

section \<open>Messages read back\<close>

lemma join16_arith: "ucast (ucast (drop_bit 8 x) :: u8) * 256 + ucast (ucast x :: u8) = (x :: u16)"
proof -
  have "push_bit 8 (ucast (ucast (drop_bit 8 x) :: u8)) OR ucast (ucast x :: u8) =
      push_bit 8 (ucast (ucast (drop_bit 8 x) :: u8)) + (ucast (ucast x :: u8) :: u16)"
    by (rule disjunctive_add [symmetric]) (auto simp: bit_simps)
  then show ?thesis using join16 [of x] by (simp add: push_bit_eq_mult mult.commute)
qed

lemma get_put_u16 [simp]: "get_u16 (put_u16 [] x @ r) = Inr (x, r)" "get_u16 (put_u16 [] x) = Inr (x, [])"
  by (simp_all add: get_u16_def put_u16_def join16_arith)

lemma put_u16_append: "put_u16 (put_u16 [] x) y = put_u16 [] x @ put_u16 [] y"
  by (simp add: put_u16_def)

lemma length_put_u16 [simp]: "length (put_u16 b x) = length b + 2"
  by (simp add: put_u16_def)

lemma get_string_loop_text: "0 \<notin> set t \<Longrightarrow> get_string_loop str (t @ 0 # r) = Inr (str, r)"
  by (induction t) auto

lemma get_string_text [simp]: "0 \<notin> set t \<Longrightarrow> get_string (t @ 0 # r) = Inr (t @ 0 # r, r)"
  by (simp add: get_string_def get_string_loop_text)

lemma put_str_text [simp]: "0 \<notin> set t \<Longrightarrow> put_str b (t @ 0 # r) = Inr (b @ t @ [0])"
  by (simp add: put_str_def)

lemma c_text_text [simp]: "0 \<notin> set t \<Longrightarrow> c_text (t @ 0 # r) = Inr t"
  by (simp add: c_text_def)

lemma octet: "c_str ''octet'' = [111, 99, 116, 101, 116] @ 0 # []" "0 \<notin> set [111 :: u8, 99, 116, 101, 116]"
  by (simp_all add: c_str_def ascii_def)

definition name_ok :: "bytes \<Rightarrow> bool" where
  "name_ok t \<longleftrightarrow> 0 \<notin> set t \<and> length t < 64 \<and> valid_filename (t @ [0]) = Inr True"

lemma valid_from_text: "0 \<notin> set t \<Longrightarrow> valid_filename_from pos (t @ 0 # r) = valid_filename_from pos (t @ [0])"
  by (induction t arbitrary: pos) auto

lemma valid_text: "name_ok t \<Longrightarrow> valid_filename (t @ 0 # r) = Inr True"
  unfolding name_ok_def valid_filename_def using valid_from_text by metis

definition request :: "u16 \<Rightarrow> bytes \<Rightarrow> bytes" where
  "request op t = put_u16 [] op @ t @ [0] @ [111, 99, 116, 101, 116, 0]"

definition data_packet :: "bytes \<Rightarrow> nat \<Rightarrow> bytes" where
  "data_packet file i = put_u16 [] op_data @ put_u16 [] (of_nat i) @ take block_size (drop ((i - 1) * block_size) file)"

definition ack_packet :: "nat \<Rightarrow> bytes" where
  "ack_packet i = put_u16 [] op_ack @ put_u16 [] (of_nat i)"

lemma send_packet_sends:
  assumes "length b \<le> 1458" "hop_known dev (tb_remote_addr s)"
  shows "\<exists>f. send_packet b (s, dev) = Inr (s\<lparr>tb_timeout := 50\<rparr>, ethdev_send dev f) \<and> payload_of f = b"
proof -
  obtain f where "udp_sendto dev (tb_local_addr s) (tb_local_port s) (tb_remote_addr s) tftp_dst_port b = Inr (ethdev_send dev f)"
    "drop (14 + 20 + 8) f = b"
    using udp_sendto_arrives [OF assms, where ?'c = unit and ?'k = unit] by metis
  then show ?thesis by (intro exI [of _ f]) (simp add: send_packet_def payload_of_def default_timeout_def)
qed

lemma hop_known_send [simp]: "hop_known (ethdev_send dev f) a = hop_known dev a"
  by (simp add: hop_known_def find_arp_entry_def)

section \<open>Blocks of a file\<close>

lemma block_count_less:
  assumes "legal_size (length file)"
  shows "unat (block_count (length file)) = (length file + 512) div 512" "(length file + 512) div 512 \<le> 65535"
proof -
  show b: "(length file + 512) div 512 \<le> 65535" using assms by (simp add: legal_size_def block_size_def)
  show "unat (block_count (length file)) = (length file + 512) div 512"
    unfolding block_count_def block_size_def by (rule unat_of_nat_u16) (use b in simp)
qed

abbreviation blocks_of :: "bytes \<Rightarrow> nat" where
  "blocks_of file \<equiv> (length file + 512) div 512"

lemma block_length:
  "i < blocks_of file \<Longrightarrow> 0 < i \<Longrightarrow> length (take 512 (drop ((i - 1) * 512) file)) = 512"
  "length (take 512 (drop ((blocks_of file - 1) * 512) file)) < 512"
  by auto

lemma take_blocks: "0 < i \<Longrightarrow> take ((i - 1) * 512) file @ take 512 (drop ((i - 1) * 512) file) = take (i * 512) file"
proof -
  assume "0 < i"
  then have "i * 512 = (i - 1) * 512 + 512" by (cases i) auto
  then show ?thesis by (metis take_add)
qed

lemma take_all_blocks: "take (blocks_of file * 512) file = file"
proof -
  have "length file \<le> blocks_of file * 512" by auto
  then show ?thesis by simp
qed

lemma u16_nat: "i \<le> 65535 \<Longrightarrow> unat (of_nat i :: u16) = i"
  by (rule unat_of_nat_u16) simp

lemma u16_suc: "i < 65535 \<Longrightarrow> (of_nat i :: u16) + 1 = of_nat (Suc i)"
  by simp

section \<open>The server on its own\<close>

lemma find_erased: "distinct (map (\<lambda>s. (ss_addr s, ss_port s)) ss) \<Longrightarrow> find_session (erase_session ss a p) a p = None"
proof (induction ss)
  case (Cons s ss)
  have "find_session ss a p = None" if "(a, p) \<notin> (\<lambda>s. (ss_addr s, ss_port s)) ` set ss"
    using that by (induction ss) force+
  then show ?case using Cons by auto
qed simp

lemma session_snoc:
  assumes "find_session ss (ss_addr s) (ss_port s) = None"
  shows "find_session (ss @ [s]) (ss_addr s) (ss_port s) = Some s" "erase_session (ss @ [s]) (ss_addr s) (ss_port s) = ss"
    "ss_addr s' = ss_addr s \<Longrightarrow> ss_port s' = ss_port s \<Longrightarrow> update_session (ss @ [s]) s' = ss @ [s']"
  using assms by (induction ss) (auto split: if_splits)

lemma take_min_drop: "take (min n (length xs - k)) (drop k xs) = take n (drop k xs)"
  by (simp add: min_def)

lemma session_put_block_packet:
  assumes "ss_is_read s" "legal_size (length (ss_data s))" "0 < i" "i \<le> blocks_of (ss_data s)"
  shows "session_put_block [] s (of_nat i) = Inr (data_packet (ss_data s) i)"
proof -
  note b = block_count_less [OF assms(2)]
  have i: "unat (of_nat i :: u16) = i" using assms(4) b(2) by (intro u16_nat) simp
  then have "1 \<le> (of_nat i :: u16)" "(of_nat i :: u16) \<le> session_block_count s"
    using assms(3,4) b by (simp_all add: word_le_nat_alt session_block_count_def)
  then show ?thesis using assms(1) i
    by (simp add: session_put_block_def data_packet_def put_u16_append take_min_drop)
qed

lemma serve_ack_packet:
  assumes s: "find_session (sv_sessions sv) a p = Some s" "ss_is_read s" "legal_size (length (ss_data s))"
    and i: "0 < i" "i \<le> blocks_of (ss_data s)" and a: "a \<noteq> inaddr_broadcast"
  shows "serve behind a p (ack_packet i) sv =
     (if i = blocks_of (ss_data s) then Inr ([], False, sv\<lparr>sv_sessions := erase_session (sv_sessions sv) a p\<rparr>)
      else Inr (data_packet (ss_data s) (i + 1), False, sv))"
proof -
  note b = block_count_less [OF s(3)]
  have u: "unat (of_nat i :: u16) = i" using i(2) b(2) by (intro u16_nat) simp
  have eq: "of_nat i = session_block_count s \<longleftrightarrow> i = blocks_of (ss_data s)"
    using u b by (simp add: word_unat_eq_iff session_block_count_def)
  have le: "1 \<le> (of_nat i :: u16)" "(of_nat i :: u16) \<le> session_block_count s"
    using i u b by (simp_all add: word_le_nat_alt session_block_count_def)
  have next1: "session_put_block [] s (of_nat i + 1) = Inr (data_packet (ss_data s) (i + 1))" if "i \<noteq> blocks_of (ss_data s)"
    using session_put_block_packet [OF s(2,3), of "i + 1"] that i by (simp add: add.commute)
  show ?thesis
    using a s(1) eq le next1
    by (simp add: serve_def ack_packet_def serve_ack_def op_defs)
qed

lemma serve_rrq:
  assumes "name_ok t" "sv_files sv t = Some file" "legal_size (length file)" "a \<noteq> inaddr_broadcast"
  shows "serve behind a p (request op_rrq t) sv =
     Inr (data_packet file 1, False, sv\<lparr>sv_sessions := erase_session (sv_sessions sv) a p @
       [\<lparr>ss_addr = a, ss_port = p, ss_filename = t, ss_is_read = True, ss_data = file\<rparr>]\<rparr>)"
proof -
  let ?s = "\<lparr>ss_addr = a, ss_port = p, ss_filename = t, ss_is_read = True, ss_data = file\<rparr>"
  have t: "0 \<notin> set t" using assms(1) by (simp add: name_ok_def)
  have b: "session_put_block [] ?s 1 = Inr (data_packet file 1)"
    using session_put_block_packet [of ?s 1] assms(3) by simp
  have oct: "string_equal [111, 99, 116, 101, 116, 0] (c_str ''octet'') = Inr True"
    by (simp add: c_str_def ascii_def)
  have g: "get_string [111, 99, 116, 101, 116, 0] = Inr ([111, 99, 116, 101, 116, 0], [])"
    by (simp add: get_string_def)
  show ?thesis
    using assms t b oct g valid_text [OF assms(1)]
    by (simp add: serve_def request_def serve_request_def op_defs read_file_def read_session_new_def Let_def)
qed

section \<open>A read\<close>

lemma reader_gets_block:
  assumes i: "0 < i" "i \<le> blocks_of file" and legal: "legal_size (length file)"
    and s: "rd_last_block s = of_nat (i - 1)" "rd_data s = take ((i - 1) * 512) file" "\<not> rd_done s"
    and hop: "hop_known dev (tb_remote_addr s)"
  shows "\<exists>s' f. tftp_in reader_virtual (data_packet file i) (s, dev) = Inr (s', ethdev_send dev f) \<and> payload_of f = ack_packet i \<and>
     rd_last_block s' = of_nat i \<and> rd_data s' = take (i * 512) file \<and> (rd_done s' \<longleftrightarrow> i = blocks_of file) \<and>
     tb_remote_addr s' = tb_remote_addr s \<and> tb_local_addr s' = tb_local_addr s \<and> tb_local_port s' = tb_local_port s"
proof -
  note b = block_count_less [OF legal]
  let ?d = "take 512 (drop ((i - 1) * 512) file)"
  let ?s1 = "s\<lparr>rd_data := rd_data s @ ?d, rd_last_block := of_nat i\<rparr>"
  have u: "unat (of_nat i :: u16) = i" "unat (of_nat (i - 1) :: u16) = i - 1"
    using i(2) b(2) by (intro u16_nat, simp)+
  obtain f where f: "send_packet (ack_packet i) (?s1, dev) = Inr (?s1\<lparr>tb_timeout := 50\<rparr>, ethdev_send dev f)" "payload_of f = ack_packet i"
    using send_packet_sends [of "ack_packet i" dev ?s1] hop by (auto simp: ack_packet_def)
  have ack: "reader_send_ack (of_nat i) (?s1, dev) = Inr (?s1\<lparr>tb_timeout := 50\<rparr>, ethdev_send dev f)"
    using f(1) by (simp add: reader_send_ack_def start_packet_def put_u16_append ack_packet_def)
  have last: "length ?d = 512 \<longleftrightarrow> i \<noteq> blocks_of file"
    using block_length(1) [of i "file"] block_length(2) [of "file"] i by (cases "i = blocks_of file") auto
  have ui: "uint (of_nat i :: u16) = int i" using u(1) by (simp only: uint_nat)
  let ?s2 = "if length ?d \<noteq> 512 then ?s1\<lparr>tb_timeout := 50, rd_done := True\<rparr> else ?s1\<lparr>tb_timeout := 50\<rparr>"
  have "tftp_in reader_virtual (data_packet file i) (s, dev) = Inr (?s2, ethdev_send dev f)"
    using ack u ui i s(1)
    by (simp add: tftp_in_def reader_virtual_def reader_on_packet_def data_packet_def block_size_def split: if_splits)
  then show ?thesis using f(2) s(2,3) i last take_blocks [OF i(1), of "file"]
    by (intro exI [of _ ?s2] exI [of _ f]) auto
qed

lemma read_rounds:
  assumes legal: "legal_size (length file)" and hop: "hop_known dev (tb_remote_addr s)"
    and la: "tb_local_addr s = la" "tb_local_port s = lp" "la \<noteq> inaddr_broadcast"
    and sess: "find_session (sv_sessions sv) la lp = Some \<lparr>ss_addr = la, ss_port = lp, ss_filename = t, ss_is_read = True, ss_data = file\<rparr>"
    and i: "0 < i" "i \<le> blocks_of file" "n = blocks_of file - i"
    and s: "rd_last_block s = of_nat i" "rd_data s = take (i * 512) file" "rd_done s \<longleftrightarrow> i = blocks_of file"
    and p: "payload_of (last (dv_sent dev)) = ack_packet i"
  shows "\<exists>s' dev'. transfer reader_virtual (Suc n) behind (sv, s, dev) =
      Inr (sv\<lparr>sv_sessions := erase_session (sv_sessions sv) la lp\<rparr>, s', dev') \<and> rd_done s' \<and> rd_data s' = file"
  using hop la(1,2) i s p
proof (induction n arbitrary: i s dev)
  case 0
  then have e: "i = blocks_of file" by simp
  then show ?case using serve_ack_packet [OF sess, of i behind] legal la(3) 0 by (simp add: take_all_blocks)
next
  case (Suc n)
  then have lt: "i < blocks_of file" by simp
  have srv: "serve behind la lp (ack_packet i) sv = Inr (data_packet file (i + 1), False, sv)"
    using serve_ack_packet [OF sess, of i behind] legal la(3) Suc.prems lt by simp
  have "rd_last_block s = of_nat (i + 1 - 1)" "rd_data s = take ((i + 1 - 1) * 512) file" "\<not> rd_done s" "i + 1 \<le> blocks_of file" "0 < i + 1"
    using Suc.prems lt by simp_all
  note r = reader_gets_block [OF this(5,4) legal this(1-3), of dev]
  obtain s' f where s': "tftp_in reader_virtual (data_packet file (i + 1)) (s, dev) = Inr (s', ethdev_send dev f)" "payload_of f = ack_packet (i + 1)"
     "rd_last_block s' = of_nat (i + 1)" "rd_data s' = take ((i + 1) * 512) file" "rd_done s' \<longleftrightarrow> i + 1 = blocks_of file"
     "tb_remote_addr s' = tb_remote_addr s" "tb_local_addr s' = tb_local_addr s" "tb_local_port s' = tb_local_port s"
    using r Suc.prems(1) by blast
  have ne: "data_packet file (i + 1) \<noteq> []" by (simp add: data_packet_def put_u16_def)
  have step: "transfer reader_virtual (Suc (Suc n)) behind (sv, s, dev) = transfer reader_virtual (Suc n) behind (sv, s', ethdev_send dev f)"
    using srv ne s'(1) Suc.prems(2,3,9,10) lt by (subst transfer.simps(2)) (simp del: transfer.simps add: reader_virtual_def [THEN arg_cong, of is_done])
  show ?case
    unfolding step
    by (rule Suc.IH [of "ethdev_send dev f" s' "i + 1"]) (use Suc.prems s' lt in simp_all)
qed

text \<open>The client's request.\<close>

lemma base_new_opens:
  assumes "dv_socks dev = []"
  shows "tftp_base_new dev k remote = Inr (\<lparr>tb_local_addr = nc_addr (dv_config dev), tb_local_port = 49152, tb_remote_addr = remote,
    tb_timeout = 0\<rparr>, dev\<lparr>dv_socks := [\<lparr>us_addr = nc_addr (dv_config dev), us_port = 49152, us_recv = k\<rparr>]\<rparr>)"
proof -
  have none: "find_open_udp_socket dev (nc_addr (dv_config dev)) 49152 = None" using assms by (simp add: find_open_udp_socket_def)
  have port: "find_unused_port dev (nc_addr (dv_config dev)) 49152 = 49152" using none by (simp add: find_unused_port.simps)
  show ?thesis using assms none port by (simp add: tftp_base_new_def udp_open_def Let_def)
qed

lemma put_octet: "put_str b (c_str ''octet'') = Inr (b @ [111, 99, 116, 101, 116, 0])"
  using put_str_text [OF octet(2), of b "[]"] octet(1) by simp

lemma reader_new_sends:
  assumes "name_ok t" "dv_socks dev = []" "hop_known dev remote"
  shows "\<exists>s f dev1. reader_new dev k remote (t @ 0 # r) = Inr (s, ethdev_send dev1 f) \<and> payload_of f = request op_rrq t \<and>
     rd_last_block s = 0 \<and> rd_data s = [] \<and> \<not> rd_done s \<and> tb_remote_addr s = remote \<and> tb_local_addr s = nc_addr (dv_config dev) \<and>
     tb_local_port s = 49152 \<and> dev1 = dev\<lparr>dv_socks := [\<lparr>us_addr = nc_addr (dv_config dev), us_port = 49152, us_recv = k\<rparr>]\<rparr>"
proof -
  let ?la = "nc_addr (dv_config dev)"
  let ?dev1 = "dev\<lparr>dv_socks := [\<lparr>us_addr = ?la, us_port = 49152, us_recv = k\<rparr>]\<rparr>"
  have t: "0 \<notin> set t" "length t < 64" using assms(1) by (simp_all add: name_ok_def)
  note base = base_new_opens [OF assms(2)]
  let ?s = "\<lparr>tb_local_addr = ?la, tb_local_port = 49152, tb_remote_addr = remote, tb_timeout = 0, rd_filename = t @ [0],
     rd_last_block = 0, rd_data = [], rd_done = False\<rparr> :: tftp_reader"
  have hop: "hop_known ?dev1 remote" using assms(3) by (simp add: hop_known_def find_arp_entry_def)
  obtain f where f: "send_packet (request op_rrq t) (?s, ?dev1) = Inr (?s\<lparr>tb_timeout := 50\<rparr>, ethdev_send ?dev1 f)" "payload_of f = request op_rrq t"
    using send_packet_sends [of "request op_rrq t" ?dev1 ?s] hop t(2) by (auto simp: request_def)
  have name: "copy_filename (t @ 0 # r) = Inr (t @ [0])" using t by (simp add: copy_filename_def)
  have "reader_send_rrq (?s, ?dev1) = Inr (?s\<lparr>tb_timeout := 50\<rparr>, ethdev_send ?dev1 f)"
    using f(1) t put_octet put_str_text [OF t(1), of _ "[]"]
    by (simp add: reader_send_rrq_def start_packet_def request_def)
  then show ?thesis using f(2) base name
    by (intro exI [of _ "?s\<lparr>tb_timeout := 50\<rparr>"] exI [of _ f] exI [of _ ?dev1]) (simp add: reader_new_def)
qed


section \<open>A write\<close>

lemma serve_wrq:
  assumes "name_ok t" "sv_files sv t = None" "a \<noteq> inaddr_broadcast"
  shows "serve behind a p (request op_wrq t) sv =
     Inr (ack_packet 0, False, sv\<lparr>sv_sessions := erase_session (sv_sessions sv) a p @ [write_session_new a p t]\<rparr>)"
proof -
  have t: "0 \<notin> set t" using assms(1) by (simp add: name_ok_def)
  have oct: "string_equal [111, 99, 116, 101, 116, 0] (c_str ''octet'') = Inr True"
    by (simp add: c_str_def ascii_def)
  have g: "get_string [111, 99, 116, 101, 116, 0] = Inr ([111, 99, 116, 101, 116, 0], [])"
    by (simp add: get_string_def)
  show ?thesis
    using assms t oct g valid_text [OF assms(1)]
    by (simp add: serve_def request_def serve_request_def op_defs file_exists_def Let_def put_ack_def ack_packet_def put_u16_append)
qed

lemma got_data_block:
  assumes "legal_size (length file)" "0 < i" "i \<le> blocks_of file" "\<not> ss_is_read s" "ss_data s = take ((i - 1) * 512) file"
  shows "got_data s (of_nat i) (take 512 (drop ((i - 1) * 512) file)) = Inr (of_nat i, s\<lparr>ss_data := take (i * 512) file\<rparr>)"
proof -
  note b = block_count_less [OF assms(1)]
  have "(i - 1) * 512 \<le> length file" using assms(2,3) by auto
  then have len: "length (ss_data s) = (i - 1) * 512" using assms(5) by simp
  have e: "1 + length (ss_data s) div 512 = i" using len assms(2) by simp
  have "unat (of_nat i :: u16) = i" using assms(3) b(2) by (intro u16_nat) simp
  then have "0 < (of_nat i :: u16)" using assms(2) by (simp add: word_less_nat_alt)
  then show ?thesis using assms(2,4,5) take_blocks [OF assms(2), of "file"] e
    by (simp add: got_data_def block_size_def Let_def)
qed

lemma serve_data_packet:
  assumes legal: "legal_size (length file)" and i: "0 < i" "i \<le> blocks_of file" and a: "a \<noteq> inaddr_broadcast"
    and s: "sv_sessions sv = ss @ [s]" "find_session ss a p = None" "ss_addr s = a" "ss_port s = p"
      "\<not> ss_is_read s" "ss_data s = take ((i - 1) * 512) file" "ss_filename s = t"
    and t: "0 \<notin> set t" "behind = 0 # rest" "sv_files sv t = None"
  shows "serve behind a p (data_packet file i) sv = Inr (ack_packet i, False,
     if i = blocks_of file then sv\<lparr>sv_sessions := ss, sv_files := (sv_files sv)(t \<mapsto> file)\<rparr>
     else sv\<lparr>sv_sessions := ss @ [s\<lparr>ss_data := take (i * 512) file\<rparr>]\<rparr>)"
proof -
  let ?d = "take 512 (drop ((i - 1) * 512) file)" and ?s1 = "s\<lparr>ss_data := take (i * 512) file\<rparr>"
  have got: "got_data s (of_nat i) ?d = Inr (of_nat i, ?s1)" by (rule got_data_block [OF legal i s(5,6)])
  have last: "length ?d < 512 \<longleftrightarrow> i = blocks_of file"
    using block_length(1) [of i "file"] block_length(2) [of "file"] i by (cases "i = blocks_of file") auto
  have find: "find_session (ss @ [s]) a p = Some s" "update_session (ss @ [s]) ?s1 = ss @ [?s1]" "erase_session (ss @ [?s1]) a p = ss"
    using session_snoc [of ss s] session_snoc(2) [of ss ?s1] s by auto
  show ?thesis
  proof (cases "i = blocks_of file")
    case True
    then have "take (i * 512) file = file" "length ?d < 512" using take_all_blocks [of "file"] last by simp_all
    then show ?thesis
      using True a got find s t
      by (simp add: serve_def data_packet_def serve_data_def op_defs block_size_def Let_def put_ack_def ack_packet_def put_u16_append del: length_take length_drop)
  next
    case False
    then have "\<not> length ?d < 512" using last by simp
    then show ?thesis
      using False a got find s t
      by (simp add: serve_def data_packet_def serve_data_def op_defs block_size_def Let_def put_ack_def ack_packet_def put_u16_append del: length_take length_drop)
  qed
qed

lemma writer_gets_ack:
  assumes legal: "legal_size (length file)" and i: "i \<le> blocks_of file" and s: "wr_data s = file"
    and hop: "hop_known dev (tb_remote_addr s)"
  shows "\<exists>s' dev'. tftp_in writer_virtual (ack_packet i) (s, dev) = Inr (s', dev') \<and> wr_data s' = file \<and>
     wr_last_ack s' = of_nat i \<and> tb_remote_addr s' = tb_remote_addr s \<and> tb_local_addr s' = tb_local_addr s \<and>
     tb_local_port s' = tb_local_port s \<and>
     (if i = blocks_of file then dev' = dev else \<exists>f. dev' = ethdev_send dev f \<and> payload_of f = data_packet file (i + 1))"
proof -
  note b = block_count_less [OF legal]
  have u: "unat (of_nat i :: u16) = i" using i b(2) by (intro u16_nat) simp
  have cnt: "writer_block_count s = of_nat (blocks_of file)" "unat (of_nat (blocks_of file) :: u16) = blocks_of file"
    using s b by (simp_all add: writer_block_count_def block_count_def block_size_def)
  have le: "of_nat i \<le> writer_block_count s" using u cnt i by (simp add: word_le_nat_alt)
  have lt: "of_nat i < writer_block_count s \<longleftrightarrow> i < blocks_of file" using u cnt by (simp add: word_less_nat_alt)
  let ?s1 = "s\<lparr>wr_last_ack := of_nat i\<rparr>"
  have cnt1: "writer_block_count ?s1 = writer_block_count s" by (simp add: writer_block_count_def)
  show ?thesis
  proof (cases "i = blocks_of file")
    case True
    have "tftp_in writer_virtual (ack_packet i) (s, dev) = Inr (?s1, dev)"
      using le lt cnt1 True
      by (simp add: tftp_in_def writer_virtual_def writer_on_packet_def ack_packet_def block_size_def Let_def)
    then show ?thesis using True s by simp
  next
    case False
    then have i1: "i < blocks_of file" "i + 1 \<le> blocks_of file" using i by simp_all
    have u1: "unat (of_nat i + 1 :: u16) = i + 1" using u16_nat [of "i + 1"] i1 b(2) by (simp add: add.commute)
    have ok: "1 \<le> (of_nat i + 1 :: u16)" "of_nat i + 1 \<le> writer_block_count ?s1"
      using u1 cnt cnt1 i1 by (simp_all add: word_le_nat_alt)
    obtain f where f: "send_packet (data_packet file (i + 1)) (?s1, dev) = Inr (?s1\<lparr>tb_timeout := 50\<rparr>, ethdev_send dev f)"
        "payload_of f = data_packet file (i + 1)"
    proof -
      have "length (data_packet file (i + 1)) \<le> 1458" "hop_known dev (tb_remote_addr ?s1)"
        using hop by (simp_all add: data_packet_def block_size_def min_le_iff_disj)
      from send_packet_sends [OF this] show ?thesis using that by blast
    qed
    have "writer_send_data (of_nat i + 1) (?s1, dev) = Inr (?s1\<lparr>tb_timeout := 50\<rparr>, ethdev_send dev f)"
      using ok u1 f(1) s
      by (simp add: writer_send_data_def start_packet_def put_u16_append data_packet_def take_min_drop Let_def add.commute)
    then have "tftp_in writer_virtual (ack_packet i) (s, dev) = Inr (?s1\<lparr>tb_timeout := 50\<rparr>, ethdev_send dev f)"
      using le lt cnt1 i1(1)
      by (simp add: tftp_in_def writer_virtual_def writer_on_packet_def ack_packet_def block_size_def Let_def)
    then show ?thesis using False f(2) s by (simp, blast)
  qed
qed

lemma not_done_at:
  assumes "legal_size (length file)" "wr_data s = file" "wr_last_ack s = of_nat j" "j < blocks_of file"
  shows "\<not> writer_is_done s"
proof -
  note b = block_count_less [OF assms(1)]
  have "unat (of_nat j :: u16) = j" using assms(4) b(2) by (intro u16_nat) simp
  then show ?thesis using assms(2-4) b(1) by (auto simp: writer_is_done_def writer_block_count_def word_unat_eq_iff)
qed

lemma write_rounds:
  assumes legal: "legal_size (length file)" and la: "la \<noteq> inaddr_broadcast" 
    and t: "0 \<notin> set t" "behind = 0 # rest" "sv_files sv t = None" and none: "find_session ss la lp = None"
    and i: "0 < i" "i \<le> blocks_of file" "n = blocks_of file - i"
    and s: "wr_data s = file" "wr_last_ack s = of_nat (i - 1)" "tb_local_addr s = la" "tb_local_port s = lp"
      "hop_known dev (tb_remote_addr s)"
    and sv: "sv_sessions sv = ss @ [\<lparr>ss_addr = la, ss_port = lp, ss_filename = t, ss_is_read = False, ss_data = take ((i - 1) * 512) file\<rparr>]"
    and p: "payload_of (last (dv_sent dev)) = data_packet file i"
  shows "\<exists>s' dev'. transfer writer_virtual (Suc n) behind (sv, s, dev) =
      Inr (sv\<lparr>sv_sessions := ss, sv_files := (sv_files sv)(t \<mapsto> file)\<rparr>, s', dev') \<and> writer_is_done s'"
  using t(3) i s sv p
proof (induction n arbitrary: i s dev sv)
  case 0
  note h = 0
  have e: "i = blocks_of file" using h(3,4) by simp
  have srv: "serve behind la lp (data_packet file i) sv = Inr (ack_packet i, False, sv\<lparr>sv_sessions := ss, sv_files := (sv_files sv)(t \<mapsto> file)\<rparr>)"
    using serve_data_packet [OF legal h(2,3) la h(10) none _ _ _ _ _ t(1,2) h(1)] e by simp
  obtain s' dev' where s': "tftp_in writer_virtual (ack_packet i) (s, dev) = Inr (s', dev')" "wr_data s' = file" "wr_last_ack s' = of_nat i"
    using writer_gets_ack [OF legal h(3,5,9)] by blast
  have "writer_is_done s'" using s' e by (simp add: writer_is_done_def writer_block_count_def block_count_def block_size_def)
  moreover have "\<not> writer_is_done s" by (rule not_done_at [OF legal h(5,6)]) (use h(2,3) in simp)
  moreover have "ack_packet i \<noteq> []" by (simp add: ack_packet_def put_u16_def)
  ultimately show ?case using srv s'(1) h(7,8,11)
    by (simp add: writer_virtual_def [THEN arg_cong, of is_done] fun_upd_def)
next
  case (Suc n)
  note h = Suc.prems
  have lt: "i < blocks_of file" using h(4) by simp
  let ?sess = "\<lparr>ss_addr = la, ss_port = lp, ss_filename = t, ss_is_read = False, ss_data = take (i * 512) file\<rparr>"
  let ?sv1 = "sv\<lparr>sv_sessions := ss @ [?sess]\<rparr>"
  have srv: "serve behind la lp (data_packet file i) sv = Inr (ack_packet i, False, ?sv1)"
    using serve_data_packet [OF legal h(2,3) la h(10) none _ _ _ _ _ t(1,2) h(1)] lt by simp
  obtain s' f where s': "tftp_in writer_virtual (ack_packet i) (s, dev) = Inr (s', ethdev_send dev f)" "wr_data s' = file" "wr_last_ack s' = of_nat i"
      "tb_remote_addr s' = tb_remote_addr s" "tb_local_addr s' = tb_local_addr s" "tb_local_port s' = tb_local_port s"
      "payload_of f = data_packet file (i + 1)"
    using writer_gets_ack [OF legal h(3,5,9)] lt by auto
  have "\<not> writer_is_done s" by (rule not_done_at [OF legal h(5,6)]) (use h(2,3) in simp)
  moreover have "ack_packet i \<noteq> []" by (simp add: ack_packet_def put_u16_def)
  ultimately have step: "transfer writer_virtual (Suc (Suc n)) behind (sv, s, dev) = transfer writer_virtual (Suc n) behind (?sv1, s', ethdev_send dev f)"
    using srv s'(1) h(7,8,11) by (subst transfer.simps(2)) (simp del: transfer.simps add: writer_virtual_def [THEN arg_cong, of is_done])
  have "\<exists>s'' dev'. transfer writer_virtual (Suc n) behind (?sv1, s', ethdev_send dev f) =
      Inr (?sv1\<lparr>sv_sessions := ss, sv_files := (sv_files ?sv1)(t \<mapsto> file)\<rparr>, s'', dev') \<and> writer_is_done s''"
    by (rule Suc.IH [of _ "i + 1"]) (use h s' lt in simp_all)
  then show ?case unfolding step by (simp add: fun_upd_def del: transfer.simps)
qed

lemma writer_new_sends:
  assumes "name_ok t" "dv_socks dev = []" "hop_known dev remote" "legal_size (length file)"
  shows "\<exists>s f dev1. writer_new dev k remote (t @ 0 # r) file = Inr (s, ethdev_send dev1 f) \<and> payload_of f = request op_wrq t \<and>
     wr_last_ack s = no_acks \<and> wr_data s = file \<and> tb_remote_addr s = remote \<and> tb_local_addr s = nc_addr (dv_config dev) \<and>
     tb_local_port s = 49152 \<and> dev1 = dev\<lparr>dv_socks := [\<lparr>us_addr = nc_addr (dv_config dev), us_port = 49152, us_recv = k\<rparr>]\<rparr>"
proof -
  let ?la = "nc_addr (dv_config dev)"
  let ?dev1 = "dev\<lparr>dv_socks := [\<lparr>us_addr = ?la, us_port = 49152, us_recv = k\<rparr>]\<rparr>"
  have t: "0 \<notin> set t" "length t < 64" using assms(1) by (simp_all add: name_ok_def)
  note base = base_new_opens [OF assms(2)]
  let ?s = "\<lparr>tb_local_addr = ?la, tb_local_port = 49152, tb_remote_addr = remote, tb_timeout = 0, wr_filename = t @ [0],
     wr_data = file, wr_last_ack = no_acks\<rparr> :: tftp_writer"
  have hop: "hop_known ?dev1 remote" using assms(3) by (simp add: hop_known_def find_arp_entry_def)
  obtain f where f: "send_packet (request op_wrq t) (?s, ?dev1) = Inr (?s\<lparr>tb_timeout := 50\<rparr>, ethdev_send ?dev1 f)" "payload_of f = request op_wrq t"
    using send_packet_sends [of "request op_wrq t" ?dev1 ?s] hop t(2) by (auto simp: request_def)
  have name: "copy_filename (t @ 0 # r) = Inr (t @ [0])" using t by (simp add: copy_filename_def)
  have "writer_send_wrq (?s\<lparr>wr_last_ack := 0\<rparr>, ?dev1) = Inr (?s\<lparr>tb_timeout := 50\<rparr>, ethdev_send ?dev1 f)"
    using f(1) t put_octet put_str_text [OF t(1), of _ "[]"]
    by (simp add: writer_send_wrq_def start_packet_def request_def)
  then show ?thesis using f(2) base name assms(4)
    by (intro exI [of _ "?s\<lparr>tb_timeout := 50\<rparr>"] exI [of _ f] exI [of _ ?dev1]) (simp add: writer_new_def)
qed


text \<open>C21: the largest file is lost: with exactly 33553408 bytes, a size that \<open>legal_size\<close> accepts, the number of blocks is
  the number that stands for ``no acknowledgement yet'', and the write counts as done when nothing but the request was sent.\<close>

theorem tftp_write_largest_lost:
  assumes "length file = 33553408" "name_ok t" "dv_socks dev = []" "hop_known dev remote"
  shows "legal_size (length file) \<and>
    (\<exists>s dev1 f. writer_new dev k remote (t @ 0 # r) file = Inr (s, dev1) \<and> dv_sent dev1 = dv_sent dev @ [f] \<and>
       payload_of f = request op_wrq t \<and> tftp_tick writer_virtual (s, dev1) = Inr (Done, s, dev1))"
proof -
  have legal: "legal_size (length file)" using assms(1) by (simp add: legal_size_def block_size_def)
  have cnt: "block_count (length file) = no_acks" using assms(1) by (simp add: block_count_def block_size_def no_acks_def)
  obtain s f dev1 where c: "writer_new dev k remote (t @ 0 # r) file = Inr (s, ethdev_send dev1 f)" "payload_of f = request op_wrq t"
     "wr_last_ack s = no_acks" "wr_data s = file" "dv_sent dev1 = dv_sent dev"
    using writer_new_sends [OF assms(2-4) legal, of k r] by auto
  have "writer_is_done s" using c cnt by (simp add: writer_is_done_def writer_block_count_def)
  then have "tftp_tick writer_virtual (s, ethdev_send dev1 f) = Inr (Done, s, ethdev_send dev1 f)"
    by (simp add: tftp_tick_def writer_virtual_def)
  then show ?thesis using c legal by (intro conjI exI [of _ s] exI [of _ "ethdev_send dev1 f"] exI [of _ f]) simp_all
qed

text \<open>The name of a session has no terminator of its own: whatever is behind it is read as part of the name.\<close>

lemma name_read_on:
  assumes "0 \<notin> set t" "0 \<notin> set x"
  shows "c_text (t @ x @ 0 # rest) = Inr (t @ x)" "c_text (t @ x) = Inl (Wild ''s'')"
proof -
  show "c_text (t @ x @ 0 # rest) = Inr (t @ x)" using c_text_text [of "t @ x" rest] assms by simp
  have "string_length (t @ x) = Inl (Wild ''s'')" using assms by (induction t) (simp_all, induction x, simp_all)
  then show "c_text (t @ x) = Inl (Wild ''s'')" by (simp add: c_text_def)
qed

section \<open>Witnesses\<close>

abbreviation "demo_name \<equiv> [97, 46, 98 :: u8]"

definition demo_client :: "unit ipv4_dev" where
  "demo_client = demo_dev\<lparr>dv_socks := []\<rparr>"

definition demo_server :: "bytes option \<Rightarrow> tftp_server" where
  "demo_server f = \<lparr>sv_sessions = [write_session_new 7 9 [120]], sv_files = (\<lambda>n. if n = demo_name then f else None)\<rparr>"

lemma demo_client: "dv_socks demo_client = []" "hop_known demo_client 0xC0A80A01" "nc_addr (dv_config demo_client) = 0xC0A80A02"
  "dv_sent demo_client = []"
  by (simp_all add: demo_client_def demo_dev_def hop_known_def inaddr_values next_hop_def find_arp_entry_def)

lemma demo_name: "name_ok demo_name"
  by (simp add: name_ok_def valid_filename_def)

lemma demo_server: "sv_files (demo_server f) demo_name = f" "sv_sessions (demo_server f) = [write_session_new 7 9 [120]]"
  by (simp_all add: demo_server_def)



theorem tftp_write_largest_lost_witness:
  "\<exists>s dev1 f. writer_new demo_client () 0xC0A80A01 (demo_name @ 0 # []) (replicate 33553408 0) = Inr (s, dev1) \<and> dv_sent dev1 = [f] \<and>
     payload_of f = request op_wrq demo_name \<and> tftp_tick writer_virtual (s, dev1) = Inr (Done, s, dev1)"
proof -
  have "length (replicate 33553408 (0 :: u8)) = 33553408" by (rule length_replicate)
  from tftp_write_largest_lost [OF this demo_name demo_client(1,2), of "()" "[]"]
  show ?thesis unfolding demo_client(4) append_Nil by blast
qed

end
