(* ===== verification/TextScreen.thy ===== *)
theory TextScreen
  imports Bytes
begin

text \<open>
  The text mode console \<open>kernel/text_screen.cpp\<close>. The video memory is a list of cells; a position outside of it would be
  a write to other memory and is \<open>Wild\<close>. The two cursor registers of the CRT controller are part of the state, and so are
  the values that the input status port will give, which \<open>wait_vsync\<close> reads until the retrace begins.
\<close>

section \<open>The code\<close>

definition screen_width :: int where "screen_width = 80"
definition screen_height :: int where "screen_height = 25"

record text_screen =
  ts_x :: int
  ts_y :: int
  ts_attr :: u8
  ts_cells :: "u16 list"
  ts_cursor_high :: u8
  ts_cursor_low :: u8
  ts_status :: "u8 list"

datatype crtc_register = Cursor_location_high | Cursor_location_low

fun set_register :: "crtc_register \<Rightarrow> u8 \<Rightarrow> text_screen \<Rightarrow> text_screen" where
  "set_register Cursor_location_high v s = s\<lparr>ts_cursor_high := v\<rparr>"
| "set_register Cursor_location_low v s = s\<lparr>ts_cursor_low := v\<rparr>"

fun get_register :: "crtc_register \<Rightarrow> text_screen \<Rightarrow> u8" where
  "get_register Cursor_location_high s = ts_cursor_high s"
| "get_register Cursor_location_low s = ts_cursor_low s"

definition set_cursor_location :: "u16 \<Rightarrow> text_screen \<Rightarrow> text_screen" where
  "set_cursor_location location s =
     set_register Cursor_location_low (ucast (location AND 0xff))
       (set_register Cursor_location_high (ucast (drop_bit 8 location)) s)"

definition cursor_location :: "text_screen \<Rightarrow> u16" where
  "cursor_location s =
     push_bit 8 (ucast (get_register Cursor_location_high s)) OR ucast (get_register Cursor_location_low s)"

definition input_status1_vsync_mask :: u8 where "input_status1_vsync_mask = 0x08"

fun wait_while :: "bool \<Rightarrow> u8 list \<Rightarrow> u8 list res" where
  "wait_while b [] = Inl No_return"
| "wait_while b (st # rest) = (if (st AND input_status1_vsync_mask \<noteq> 0) = b then wait_while b rest else Inr rest)"

definition wait_vsync :: "text_screen \<Rightarrow> text_screen res" where
  "wait_vsync s =
     andThen (wait_while True (ts_status s)) (\<lambda>r. andThen (wait_while False r) (\<lambda>r'. Inr (s\<lparr>ts_status := r'\<rparr>)))"

text \<open>A store to \<open>screen_buffer[i]\<close>.\<close>

definition store_cell :: "int \<Rightarrow> u16 \<Rightarrow> text_screen \<Rightarrow> text_screen res" where
  "store_cell i v s =
     in_object (0 \<le> i \<and> i < int (length (ts_cells s))) ''screen_buffer'' (Inr (s\<lparr>ts_cells := (ts_cells s)[nat i := v]\<rparr>))"

definition clear_line :: "int \<Rightarrow> text_screen \<Rightarrow> text_screen res" where
  "clear_line y s =
     for_range 0 (nat screen_width) (\<lambda>i s. store_cell (int i + y * screen_width) (push_bit 8 (ucast (ts_attr s))) s) s"

text \<open>\<open>move_memory\<close> of the lines below the first one.\<close>

definition scroll_cells :: "u16 list \<Rightarrow> u16 list" where
  "scroll_cells cells =
     (let n = nat (screen_width * (screen_height - 1)) in take n (drop (nat screen_width) cells) @ drop n cells)"

definition ts_newline :: "text_screen \<Rightarrow> text_screen res" where
  "ts_newline s =
     andThen
       (let s1 = s\<lparr>ts_y := ts_y s + 1\<rparr> in
        if ts_y s1 = screen_height then clear_line (screen_height - 1) (s1\<lparr>ts_y := screen_height - 1, ts_cells := scroll_cells (ts_cells s1)\<rparr>)
        else Inr s1)
       (\<lambda>s2. wait_vsync (s2\<lparr>ts_x := 0\<rparr>))"

definition ts_put :: "u8 \<Rightarrow> text_screen \<Rightarrow> text_screen res" where
  "ts_put c s =
     (if c = 13 then Inr (s\<lparr>ts_x := 0\<rparr>)
      else if c = 10 then ts_newline s
      else
        andThen (store_cell (ts_x s + ts_y s * screen_width) (push_bit 8 (ucast (ts_attr s)) OR ucast c) s) (\<lambda>s1.
          let s2 = s1\<lparr>ts_x := ts_x s1 + 1\<rparr> in if ts_x s2 = screen_width then ts_newline s2 else Inr s2))"

definition set_cursor :: "text_screen \<Rightarrow> text_screen" where
  "set_cursor s = set_cursor_location (of_int (ts_x s + ts_y s * screen_width)) s"

definition ts_clear :: "text_screen \<Rightarrow> text_screen res" where
  "ts_clear s =
     andThen (for_range 0 (nat screen_height) (\<lambda>i. clear_line (int i)) s) (\<lambda>s1. Inr (set_cursor (s1\<lparr>ts_x := 0, ts_y := 0\<rparr>)))"

fun ts_puts :: "bytes \<Rightarrow> text_screen \<Rightarrow> text_screen res" where
  "ts_puts [] s = Inr s"
| "ts_puts (c # cs) s = andThen (ts_put c s) (ts_puts cs)"

definition ts_write :: "bytes \<Rightarrow> text_screen \<Rightarrow> text_screen res" where
  "ts_write data s = andThen (ts_puts data s) (\<lambda>s1. Inr (set_cursor s1))"

definition text_screen_new :: "text_screen \<Rightarrow> text_screen" where
  "text_screen_new s =
     (let location = uint (cursor_location s) in
      s\<lparr>ts_x := location mod screen_width, ts_y := location div screen_width, ts_attr := 0x07\<rparr>)"

lemmas screen_size = screen_width_def screen_height_def

section \<open>A terminal\<close>

text \<open>The abstract terminal never scrolls: it keeps all lines, a line being 80 cells, and a column in the last line.\<close>

record terminal =
  tm_lines :: "u16 list list"
  tm_col :: nat

definition blank_line :: "u8 \<Rightarrow> u16 list" where
  "blank_line attr = replicate 80 (push_bit 8 (ucast attr))"

definition tm_newline :: "u8 \<Rightarrow> terminal \<Rightarrow> terminal" where
  "tm_newline attr t = t\<lparr>tm_lines := tm_lines t @ [blank_line attr], tm_col := 0\<rparr>"

definition tm_put :: "u8 \<Rightarrow> u8 \<Rightarrow> terminal \<Rightarrow> terminal" where
  "tm_put attr c t =
     (if c = 13 then t\<lparr>tm_col := 0\<rparr>
      else if c = 10 then tm_newline attr t
      else let t1 = t\<lparr>tm_lines := butlast (tm_lines t) @ [(last (tm_lines t))[tm_col t := push_bit 8 (ucast attr) OR ucast c]], tm_col := tm_col t + 1\<rparr>
           in if tm_col t1 = 80 then tm_newline attr t1 else t1)"

text \<open>The screen shows the last 25 lines, and blank lines below while there are fewer.\<close>

definition visible :: "u8 \<Rightarrow> u16 list list \<Rightarrow> u16 list list" where
  "visible attr ls = drop (length ls - 25) ls @ replicate (25 - length ls) (blank_line attr)"

definition shows_lines :: "text_screen \<Rightarrow> u16 list list \<Rightarrow> bool" where
  "shows_lines s ls \<longleftrightarrow> ls \<noteq> [] \<and> (\<forall>l\<in>set ls. length l = 80) \<and>
     ts_cells s = concat (visible (ts_attr s) ls) \<and> ts_y s = int (min (length ls) 25 - 1)"

definition displays :: "text_screen \<Rightarrow> terminal \<Rightarrow> bool" where
  "displays s t \<longleftrightarrow> shows_lines s (tm_lines t) \<and> tm_col t < 80 \<and> ts_x s = int (tm_col t)"

text \<open>The status port will show the beginnings of \<open>n\<close> retraces.\<close>

fun retraces :: "nat \<Rightarrow> u8 list \<Rightarrow> bool" where
  "retraces 0 st = True"
| "retraces (Suc n) st =
     (case wait_while True st of Inl e \<Rightarrow> False
      | Inr r \<Rightarrow> (case wait_while False r of Inl e \<Rightarrow> False | Inr r' \<Rightarrow> retraces n r'))"

section \<open>Lines and cells\<close>

lemma concat_update:
  "\<forall>l\<in>set ls. length l = n \<Longrightarrow> r < length ls \<Longrightarrow> c < n \<Longrightarrow>
     (concat ls)[r * n + c := v] = concat (ls[r := (ls ! r)[c := v]])"
proof (induction ls arbitrary: r)
  case (Cons l ls)
  then show ?case by (cases r) (simp_all add: list_update_append add.assoc)
qed simp

lemma length_concat_lines: "\<forall>l\<in>set ls. length l = n \<Longrightarrow> length (concat ls) = length ls * n"
  by (induction ls) auto

lemma take_drop_lines:
  "\<forall>l\<in>set ls. length l = n \<Longrightarrow> take (k * n) (concat ls) = concat (take k ls)"
  "\<forall>l\<in>set ls. length l = n \<Longrightarrow> drop (k * n) (concat ls) = concat (drop k ls)"
proof (induction ls arbitrary: k)
  case (Cons l ls)
  {
    case 1
    then show ?case using Cons(1) by (cases k) auto
  next
    case 2
    then show ?case using Cons(2) by (cases k) auto
  }
qed simp_all

lemma length_blank [simp]: "length (blank_line attr) = 80"
  by (simp add: blank_line_def)

lemma visible_lines:
  assumes "\<forall>l\<in>set ls. length l = 80"
  shows "length (visible attr ls) = 25" "\<forall>l\<in>set (visible attr ls). length l = 80"
  using assms by (auto simp: visible_def dest: in_set_dropD)

lemma visible_last:
  assumes "ls \<noteq> []"
  shows "visible attr ls ! (min (length ls) 25 - 1) = last ls"
    "visible attr (butlast ls @ [l]) = (visible attr ls)[min (length ls) 25 - 1 := l]"
proof -
  obtain xs x where ls: "ls = xs @ [x]" using assms by (cases ls rule: rev_cases) auto
  show "visible attr ls ! (min (length ls) 25 - 1) = last ls"
    by (cases "length ls < 25") (auto simp: visible_def ls nth_append)
  show "visible attr (butlast ls @ [l]) = (visible attr ls)[min (length ls) 25 - 1 := l]"
    by (cases "length ls < 25") (auto simp: visible_def ls list_update_append)
qed

lemma visible_newline:
  "length ls < 25 \<Longrightarrow> visible attr (ls @ [blank_line attr]) = visible attr ls"
  "25 \<le> length ls \<Longrightarrow> visible attr (ls @ [blank_line attr]) = drop 1 (visible attr ls) @ [blank_line attr]"
proof -
  assume "length ls < 25"
  then have "25 - length ls = Suc (25 - Suc (length ls))" by simp
  then show "visible attr (ls @ [blank_line attr]) = visible attr ls" using \<open>length ls < 25\<close> by (simp add: visible_def)
next
  assume "25 \<le> length ls"
  moreover from this have "length ls - 24 = Suc (length ls - 25)" by simp
  ultimately show "visible attr (ls @ [blank_line attr]) = drop 1 (visible attr ls) @ [blank_line attr]"
    by (simp add: visible_def)
qed

section \<open>The console implements the terminal\<close>

lemma clear_line_cells:
  assumes "0 \<le> y" "nat y * 80 + 80 \<le> length (ts_cells s)"
  shows "clear_line y s = Inr (s\<lparr>ts_cells := take (nat y * 80) (ts_cells s) @ blank_line (ts_attr s) @ drop (nat y * 80 + 80) (ts_cells s)\<rparr>)"
proof -
  let ?b = "push_bit 8 (ucast (ts_attr s)) :: u16"
  let ?o = "nat y * 80"
  have "for_range 0 n (\<lambda>i s. store_cell (int i + y * screen_width) (push_bit 8 (ucast (ts_attr s))) s) s =
      Inr (s\<lparr>ts_cells := take ?o (ts_cells s) @ replicate n ?b @ drop (?o + n) (ts_cells s)\<rparr>)" if "n \<le> 80" for n
    using that
  proof (induction n)
    case 0
    then show ?case by simp
  next
    case (Suc n)
    let ?c = "take ?o (ts_cells s) @ replicate n ?b @ drop (?o + n) (ts_cells s)"
    have y: "int n + y * 80 = int (?o + n)" using assms(1) by simp
    have lt: "?o + n < length (ts_cells s)" using assms(2) Suc.prems by simp
    have "drop (?o + n) (ts_cells s) = ts_cells s ! (?o + n) # drop (?o + Suc n) (ts_cells s)"
      using lt by (simp add: Cons_nth_drop_Suc)
    then have upd: "?c[?o + n := ?b] = take ?o (ts_cells s) @ replicate (Suc n) ?b @ drop (?o + Suc n) (ts_cells s)"
      using lt by (simp add: list_update_append replicate_append_same)
    have "length ?c = length (ts_cells s)" using lt by simp
    then have "store_cell (int n + y * screen_width) ?b (s\<lparr>ts_cells := ?c\<rparr>) = Inr (s\<lparr>ts_cells := ?c[?o + n := ?b]\<rparr>)"
      using lt unfolding store_cell_def screen_size y by (simp del: of_nat_add)
    then show ?case using Suc upd by (simp only: for_range_snoc) simp
  qed
  from this [of 80] show ?thesis by (simp add: clear_line_def screen_size blank_line_def)
qed

lemma retraces_wait:
  assumes "retraces (Suc n) (ts_status s)"
  shows "\<exists>st. wait_vsync s = Inr (s\<lparr>ts_status := st\<rparr>) \<and> retraces n st"
  using assms by (auto simp: wait_vsync_def split: sum.splits)

lemma retraces_less: "retraces (Suc n) st \<Longrightarrow> retraces n st"
proof (induction n arbitrary: st)
  case (Suc n)
  then show ?case by (subst retraces.simps(2), subst (asm) (2) retraces.simps(2)) (auto split: sum.splits)
qed simp

lemma newline_displays:
  assumes "shows_lines s (tm_lines t)" "retraces (Suc n) (ts_status s)"
  shows "\<exists>s'. ts_newline s = Inr s' \<and> displays s' (tm_newline (ts_attr s) t) \<and> retraces n (ts_status s') \<and> ts_attr s' = ts_attr s"
proof -
  let ?ls = "tm_lines t" and ?a = "ts_attr s"
  have d: "?ls \<noteq> []" "\<forall>l\<in>set ?ls. length l = 80" "ts_cells s = concat (visible ?a ?ls)"
    "ts_y s = int (min (length ?ls) 25 - 1)"
    using assms(1) by (simp_all add: shows_lines_def)
  note v = visible_lines [OF d(2), of ?a]
  show ?thesis
  proof (cases "length ?ls < 25")
    case True
    then have y: "ts_y s + 1 = int (length ?ls)" "ts_y s + 1 \<noteq> screen_height" using d(1,4) by (cases ?ls; simp add: screen_size)+
    obtain st where st: "wait_vsync (s\<lparr>ts_y := ts_y s + 1, ts_x := 0\<rparr>) = Inr (s\<lparr>ts_y := ts_y s + 1, ts_x := 0, ts_status := st\<rparr>)" "retraces n st"
      using retraces_wait [of n "s\<lparr>ts_y := ts_y s + 1, ts_x := 0\<rparr>"] assms(2) by auto
    have "ts_newline s = Inr (s\<lparr>ts_y := ts_y s + 1, ts_x := 0, ts_status := st\<rparr>)"
      using st(1) y(2) by (simp add: ts_newline_def Let_def)
    moreover have "displays (s\<lparr>ts_y := ts_y s + 1, ts_x := 0, ts_status := st\<rparr>) (tm_newline ?a t)"
      using d y(1) visible_newline(1) [OF True, of ?a] True by (auto simp: displays_def shows_lines_def tm_newline_def)
    ultimately show ?thesis using st(2) by auto
  next
    case False
    then have y: "ts_y s + 1 = screen_height" using d(4) by (simp add: screen_size)
    have sc: "scroll_cells (ts_cells s) = concat (drop 1 (visible ?a ?ls)) @ concat (drop 24 (visible ?a ?ls))"
      using v take_drop_lines(2) [OF v(2), of 1] take_drop_lines(2) [OF v(2), of 24]
        take_drop_lines(1) [of "drop 1 (visible ?a ?ls)" 80 24]
      by (simp add: scroll_cells_def screen_size d(3)) (auto dest: in_set_dropD)
    have len: "length (concat (drop 1 (visible ?a ?ls))) = 1920" "length (concat (drop 24 (visible ?a ?ls))) = 80"
      using v length_concat_lines [of "drop 1 (visible ?a ?ls)" 80] length_concat_lines [of "drop 24 (visible ?a ?ls)" 80]
      by (auto dest: in_set_dropD)
    let ?s1 = "s\<lparr>ts_y := 24, ts_cells := concat (drop 1 (visible ?a ?ls) @ [blank_line ?a])\<rparr>"
    have "clear_line (screen_height - 1) (s\<lparr>ts_y := ts_y s + 1, ts_y := screen_height - 1, ts_cells := scroll_cells (ts_cells s)\<rparr>) = Inr ?s1"
      using len by (subst clear_line_cells) (simp_all add: sc screen_size)
    moreover obtain st where st: "wait_vsync (?s1\<lparr>ts_x := 0\<rparr>) = Inr (?s1\<lparr>ts_x := 0, ts_status := st\<rparr>)" "retraces n st"
      using retraces_wait [of n "?s1\<lparr>ts_x := 0\<rparr>"] assms(2) by auto
    ultimately have "ts_newline s = Inr (?s1\<lparr>ts_x := 0, ts_status := st\<rparr>)"
      using y by (simp add: ts_newline_def Let_def)
    moreover have "displays (?s1\<lparr>ts_x := 0, ts_status := st\<rparr>) (tm_newline ?a t)"
      using d visible_newline(2) [of ?ls ?a] False by (auto simp: displays_def shows_lines_def tm_newline_def)
    ultimately show ?thesis using st(2) by auto
  qed
qed

lemma put_displays:
  assumes "displays s t" "retraces (Suc n) (ts_status s)"
  shows "\<exists>s'. ts_put c s = Inr s' \<and> displays s' (tm_put (ts_attr s) c t) \<and> retraces n (ts_status s') \<and> ts_attr s' = ts_attr s"
proof -
  let ?ls = "tm_lines t" and ?a = "ts_attr s"
  have d: "?ls \<noteq> []" "\<forall>l\<in>set ?ls. length l = 80" "tm_col t < 80" "ts_cells s = concat (visible ?a ?ls)"
    "ts_x s = int (tm_col t)" "ts_y s = int (min (length ?ls) 25 - 1)"
    using assms(1) by (simp_all add: displays_def shows_lines_def)
  note weaker = retraces_less [OF assms(2)]
  consider "c = 13" | "c = 10" | "c \<noteq> 13" "c \<noteq> 10" by blast
  then show ?thesis
  proof cases
    case 1
    then show ?thesis using assms weaker by (auto simp: ts_put_def tm_put_def displays_def shows_lines_def)
  next
    case 2
    then show ?thesis using newline_displays [of s t n] assms by (simp add: ts_put_def tm_put_def displays_def)
  next
    case 3
    let ?v = "push_bit 8 (ucast ?a) OR ucast c :: u16"
    let ?r = "min (length ?ls) 25 - 1"
    let ?t1 = "t\<lparr>tm_lines := butlast ?ls @ [(last ?ls)[tm_col t := ?v]], tm_col := tm_col t + 1\<rparr>"
    let ?s1 = "s\<lparr>ts_cells := concat (visible ?a (tm_lines ?t1)), ts_x := ts_x s + 1\<rparr>"
    note v = visible_lines [OF d(2), of ?a]
    have r: "?r < length (visible ?a ?ls)" using v(1) by simp
    have i: "ts_x s + ts_y s * screen_width = int (?r * 80 + tm_col t)" using d(5,6) by (simp add: screen_size)
    have "?r * 80 + tm_col t < length (ts_cells s)"
      using r d(3,4) v length_concat_lines [OF v(2)] by simp
    moreover have "(ts_cells s)[?r * 80 + tm_col t := ?v] = concat (visible ?a (tm_lines ?t1))"
      using concat_update [OF v(2) r d(3)] visible_last [OF d(1)] d(4) by simp
    ultimately have st: "store_cell (ts_x s + ts_y s * screen_width) ?v s = Inr (s\<lparr>ts_cells := concat (visible ?a (tm_lines ?t1))\<rparr>)"
      unfolding store_cell_def i nat_int by (simp del: of_nat_add of_nat_mult)
    have len: "length (tm_lines ?t1) = length ?ls" using d(1) by simp
    have all: "\<forall>l\<in>set (tm_lines ?t1). length l = 80" using d(1,2) by (auto dest: in_set_butlastD)
    have shown: "shows_lines ?s1 (tm_lines ?t1)" using d all len by (auto simp: shows_lines_def)
    show ?thesis
    proof (cases "tm_col t + 1 = 80")
      case False
      then have "ts_put c s = Inr ?s1" using 3 st d(5) by (auto simp: ts_put_def Let_def screen_size)
      moreover have "displays ?s1 (tm_put ?a c t)" using 3 False d shown by (auto simp: displays_def tm_put_def Let_def)
      ultimately show ?thesis using weaker by (intro exI [of _ ?s1]) simp
    next
      case True
      then have "ts_put c s = ts_newline ?s1" "tm_put ?a c t = tm_newline ?a ?t1"
        using 3 st d(5) by (auto simp: ts_put_def tm_put_def Let_def screen_size)
      then show ?thesis using newline_displays [OF shown, of n] assms(2) by simp
    qed
  qed
qed


lemma puts_displays:
  assumes "displays s t" "retraces (length cs) (ts_status s)"
  shows "\<exists>s'. ts_puts cs s = Inr s' \<and> displays s' (fold (tm_put (ts_attr s)) cs t)"
  using assms
proof (induction cs arbitrary: s t)
  case (Cons c cs)
  obtain s1 where s1: "ts_put c s = Inr s1" "displays s1 (tm_put (ts_attr s) c t)" "retraces (length cs) (ts_status s1)" "ts_attr s1 = ts_attr s"
    using put_displays [of s t "length cs" c] Cons.prems by auto
  then show ?case using Cons.IH [OF s1(2,3)] by simp
qed simp

lemma cursor_location_set: "cursor_location (set_cursor_location l s) = l"
proof -
  have "push_bit 8 (ucast (ucast (drop_bit 8 l) :: u8)) OR ucast (ucast (l AND 0xff) :: u8) = l"
  proof (rule bit_word_eqI)
    have m: "(0xff :: u16) = mask 8" by (simp add: mask_eq_exp_minus_1)
    fix n assume "n < LENGTH(16)"
    then show "bit (push_bit 8 (ucast (ucast (drop_bit 8 l) :: u8)) OR ucast (ucast (l AND 0xff) :: u8) :: u16) n = bit l n"
      unfolding m by (cases "n < 8") (auto simp: bit_simps)
  qed
  then show ?thesis by (simp add: cursor_location_def set_cursor_location_def)
qed

text \<open>C34: text appears as on a terminal: from a screen that shows the last lines of a terminal, a write of any bytes ends
  with the screen showing the last lines of the terminal that received the bytes, with the hardware cursor on the
  terminal's cursor. Lines that do not fit scroll away in order, nothing is written outside of the video memory, and the
  position stays on the screen. The status port must go through a vertical retrace for each byte.\<close>

theorem text_appears:
  assumes "displays s t" "retraces (length cs) (ts_status s)"
  shows "\<exists>s'. ts_write cs s = Inr s' \<and> displays s' (fold (tm_put (ts_attr s)) cs t) \<and>
     cursor_location s' = of_int (ts_x s' + ts_y s' * 80) \<and> ts_x s' + ts_y s' * 80 < 2000"
proof -
  obtain s1 where s1: "ts_puts cs s = Inr s1" "displays s1 (fold (tm_put (ts_attr s)) cs t)"
    using puts_displays [OF assms] by blast
  have "ts_y s1 \<le> 24" "ts_x s1 < 80" using s1(2) by (auto simp: displays_def shows_lines_def)
  then show ?thesis using s1
    by (auto simp: ts_write_def set_cursor_def cursor_location_set screen_size)
      (auto simp: displays_def shows_lines_def set_cursor_location_def)
qed

lemma clear_displays:
  assumes "length (ts_cells s) = 2000"
  shows "\<exists>s'. ts_clear s = Inr s' \<and> displays s' \<lparr>tm_lines = [blank_line (ts_attr s)], tm_col = 0\<rparr> \<and> ts_status s' = ts_status s \<and> ts_attr s' = ts_attr s"
proof -
  have rep: "blank_line a @ concat (replicate n (blank_line a)) = concat (replicate n (blank_line a)) @ blank_line a" for n and a :: u8
    by (induction n) simp_all
  have "for_range 0 n (\<lambda>i. clear_line (int i)) s =
      Inr (s\<lparr>ts_cells := concat (replicate n (blank_line (ts_attr s))) @ drop (n * 80) (ts_cells s)\<rparr>)" if "n \<le> 25" for n
    using that
  proof (induction n)
    case 0
    then show ?case by simp
  next
    case (Suc n)
    have len: "length (concat (replicate n (blank_line (ts_attr s)))) = n * 80" by (simp add: length_concat sum_list_replicate)
    have "clear_line (int n) (s\<lparr>ts_cells := concat (replicate n (blank_line (ts_attr s))) @ drop (n * 80) (ts_cells s)\<rparr>) =
        Inr (s\<lparr>ts_cells := concat (replicate (Suc n) (blank_line (ts_attr s))) @ drop (Suc n * 80) (ts_cells s)\<rparr>)"
      using assms Suc.prems len rep [of "ts_attr s" n] by (subst clear_line_cells) (simp_all add: add.commute)
    then show ?case using Suc by (simp only: for_range_snoc) simp
  qed
  from this [of 25] show ?thesis
    using assms replicate_Suc [of 24 "blank_line (ts_attr s)"]
    by (simp add: ts_clear_def screen_size displays_def shows_lines_def set_cursor_def set_cursor_location_def visible_def)
qed

definition demo_screen :: text_screen where
  "demo_screen = text_screen_new \<lparr>ts_x = 0, ts_y = 0, ts_attr = 0, ts_cells = replicate 2000 0, ts_cursor_high = 3, ts_cursor_low = 4,
     ts_status = [8, 0, 8, 0, 0, 8, 8, 0, 8]\<rparr>"

theorem text_appears_witness:
  "\<exists>s s'. ts_clear demo_screen = Inr s \<and> ts_write [72, 10, 105] s = Inr s' \<and>
     displays s' \<lparr>tm_lines = [(blank_line 7)[0 := 0x0748], (blank_line 7)[0 := 0x0769]], tm_col = 1\<rparr> \<and> cursor_location s' = 81"
proof -
  have d: "length (ts_cells demo_screen) = 2000" "ts_attr demo_screen = 7" "ts_status demo_screen = [8, 0, 8, 0, 0, 8, 8, 0, 8]"
    by (simp_all add: demo_screen_def text_screen_new_def Let_def)
  obtain s where s: "ts_clear demo_screen = Inr s" "displays s \<lparr>tm_lines = [blank_line 7], tm_col = 0\<rparr>"
      "ts_status s = [8, 0, 8, 0, 0, 8, 8, 0, 8]" "ts_attr s = 7"
    using clear_displays [OF d(1)] d(2,3) by auto
  have "retraces (length [72, 10, 105 :: u8]) (ts_status s)"
    unfolding s(3) by code_simp
  from text_appears [OF s(2) this] obtain s' where s': "ts_write [72, 10, 105] s = Inr s'"
      "displays s' (fold (tm_put 7) [72, 10, 105] \<lparr>tm_lines = [blank_line 7], tm_col = 0\<rparr>)"
      "cursor_location s' = of_int (ts_x s' + ts_y s' * 80)"
    using s(4) by auto
  have "fold (tm_put 7) [72, 10, 105] \<lparr>tm_lines = [blank_line 7], tm_col = 0\<rparr> =
      \<lparr>tm_lines = [(blank_line 7)[0 := 0x0748], (blank_line 7)[0 := 0x0769]], tm_col = 1\<rparr>"
    by (simp add: tm_put_def tm_newline_def Let_def)
  then show ?thesis using s(1) s' by (auto simp: displays_def shows_lines_def)
qed

end
