(* ===== verification/BoundedQueue.thy ===== *)
theory BoundedQueue
  imports Bytes
begin

text \<open>
  The interface of a bounded first-in first-out buffer, which the keyboard's ring buffer and the receive ring of the
  network card implement.
\<close>

text \<open>What a bounded first-in first-out buffer for the elements that fit promises its clients.\<close>

locale fifo =
  fixes ok :: "'q \<Rightarrow> bool" and fits :: "'a \<Rightarrow> bool" and room :: "'q \<Rightarrow> nat" and items :: "'q \<Rightarrow> 'a list"
    and is_full :: "'q \<Rightarrow> bool" and is_empty :: "'q \<Rightarrow> bool" and push :: "'q \<Rightarrow> 'a \<Rightarrow> 'q" and pop :: "'q \<Rightarrow> 'a \<times> 'q"
  assumes bounded: "ok q \<Longrightarrow> length (items q) \<le> room q"
    and full_iff: "ok q \<Longrightarrow> is_full q \<longleftrightarrow> length (items q) = room q"
    and empty_iff: "ok q \<Longrightarrow> is_empty q \<longleftrightarrow> items q = []"
    and push_ok: "ok q \<Longrightarrow> \<not> is_full q \<Longrightarrow> fits x \<Longrightarrow> ok (push q x) \<and> room (push q x) = room q \<and> items (push q x) = items q @ [x]"
    and pop_ok: "ok q \<Longrightarrow> \<not> is_empty q \<Longrightarrow> ok (snd (pop q)) \<and> room (snd (pop q)) = room q \<and> items q = fst (pop q) # items (snd (pop q))"
begin

definition offer :: "'q \<Rightarrow> 'a \<Rightarrow> 'q" where
  "offer q x = (if \<not> is_full q then push q x else q)"

lemma offer_items:
  assumes "ok q" "fits x"
  shows "ok (offer q x)" "room (offer q x) = room q" "items (offer q x) = (if length (items q) < room q then items q @ [x] else items q)"
  using push_ok [OF assms(1) _ assms(2)] full_iff [OF assms(1)] bounded [OF assms(1)] assms by (auto simp: offer_def)

lemma take_items:
  assumes "ok q" "items q = x # xs"
  shows "fst (pop q) = x" "ok (snd (pop q))" "room (snd (pop q)) = room q" "items (snd (pop q)) = xs"
  using pop_ok [OF assms(1)] empty_iff [OF assms(1)] assms(2) by auto

end

end
