(* ===== verification/Ps2.thy ===== *)
theory Ps2
  imports Bytes BoundedQueue
begin

text \<open>
  The keyboard driver \<open>kernel/ps2.cpp\<close>: the ring buffer \<open>fixed_size_queue\<close>, the interrupt handler that fills it, and the
  reader that turns scan codes into characters. The processor's ports and the arrival of interrupts are arguments: the
  bytes that the two ports give, and the codes that arrive before each look at the buffer.
\<close>

text \<open>Positions count modulo \<open>2 ^ 32\<close>.\<close>

lemma ring_dist:
  fixes w p :: u32
  shows "p \<noteq> w \<Longrightarrow> Suc (unat (w - (p + 1))) = unat (w - p)" "unat (w + 1 - p) \<le> Suc (unat (w - p))"
    "Suc (unat (w - p)) < 4294967296 \<Longrightarrow> unat (w + 1 - p) = Suc (unat (w - p))"
proof -
  have e: "w - (p + 1) = (w - p) - 1" "w + 1 - p = (w - p) + 1" by (simp_all only: diff_diff_add diff_add_eq)
  show "Suc (unat (w - (p + 1))) = unat (w - p)" if "p \<noteq> w"
  proof -
    have "w - p \<noteq> 0" using that by simp
    then show ?thesis unfolding e using measure_unat [of "w - p"] unat_minus_one [of "w - p"] by linarith
  qed
  show "unat (w + 1 - p) \<le> Suc (unat (w - p))" unfolding e by (simp add: unat_word_ariths(1) del: of_nat_add)
  show "unat (w + 1 - p) = Suc (unat (w - p))" if "Suc (unat (w - p)) < 4294967296"
    unfolding e using that by (simp add: unat_word_ariths(1))
qed

section \<open>The code: the queue\<close>

record 'a fixed_size_queue =
  fq_elems :: "'a list"
  fq_read :: u32
  fq_write :: u32

definition fq_new :: "'a list \<Rightarrow> 'a fixed_size_queue" where
  "fq_new garbage = \<lparr>fq_elems = garbage, fq_read = 0, fq_write = 0\<rparr>"

definition fq_slot :: "'a fixed_size_queue \<Rightarrow> u32 \<Rightarrow> nat" where
  "fq_slot q pos = unat pos AND (length (fq_elems q) - 1)"

definition fq_size :: "'a fixed_size_queue \<Rightarrow> nat" where
  "fq_size q = unat (fq_write q - fq_read q)"

definition fq_empty :: "'a fixed_size_queue \<Rightarrow> bool" where
  "fq_empty q \<longleftrightarrow> fq_size q = 0"

definition fq_full :: "'a fixed_size_queue \<Rightarrow> bool" where
  "fq_full q \<longleftrightarrow> fq_size q = length (fq_elems q)"

definition fq_push :: "'a fixed_size_queue \<Rightarrow> 'a \<Rightarrow> 'a fixed_size_queue" where
  "fq_push q elem = q\<lparr>fq_elems := (fq_elems q)[fq_slot q (fq_write q) := elem], fq_write := fq_write q + 1\<rparr>"

definition fq_pop :: "'a fixed_size_queue \<Rightarrow> 'a \<times> 'a fixed_size_queue" where
  "fq_pop q = (fq_elems q ! fq_slot q (fq_read q), q\<lparr>fq_read := fq_read q + 1\<rparr>)"

text \<open>The iterators from \<open>begin()\<close> to \<open>end()\<close>, and what they point at.\<close>

function fq_iterate :: "'a fixed_size_queue \<Rightarrow> u32 \<Rightarrow> 'a list" where
  "fq_iterate q pos = (if pos = fq_write q then [] else fq_elems q ! fq_slot q pos # fq_iterate q (pos + 1))"
  by auto
termination
proof (relation "measure (\<lambda>(q, pos). unat (fq_write q - pos))")
  fix q :: "'a fixed_size_queue" and pos
  assume ne: "pos \<noteq> fq_write q"
  then show "((q, pos + 1), (q, pos)) \<in> measure (\<lambda>(q, pos). unat (fq_write q - pos))"
    using ring_dist(1) [of pos "fq_write q"] by simp
qed simp

declare fq_iterate.simps [simp del]

definition fq_contents :: "'a fixed_size_queue \<Rightarrow> 'a list" where
  "fq_contents q = fq_iterate q (fq_read q)"

section \<open>The code: the controller\<close>

definition status_mask_output_full :: u8 where "status_mask_output_full = 0x01"
definition sc_invalid :: u8 where "sc_invalid = 0"

definition scan_code_set_1_size :: u8 where "scan_code_set_1_size = 0x58"

definition scan_code_set_1 :: "u8 list" where
  "scan_code_set_1 = [sc_invalid, 0x1b] @ ascii ''1234567890-='' @ [0x08, 0x09] @ ascii ''QWERTYUIOP[]'' @ [0x0A, sc_invalid] @
     ascii ''ASDFGHJKL;'' @ [39, 96, sc_invalid, 92] @ ascii ''ZXCVBNM,./'' @ [sc_invalid, sc_invalid, sc_invalid, 32] @
     replicate 13 sc_invalid @ ascii ''789-456+1230.'' @ replicate 4 sc_invalid"

text \<open>The handler of the keyboard interrupt, with the bytes that the status and the data port give. When the buffer is full
  the data port is not read.\<close>

definition kb_isr :: "u8 \<Rightarrow> u8 \<Rightarrow> u8 fixed_size_queue \<Rightarrow> u8 fixed_size_queue res" where
  "kb_isr st data q =
     require (st AND status_mask_output_full \<noteq> 0) ''st & status_mask_output_full''
       (Inr (if \<not> fq_full q then fq_push q data else q))"

text \<open>The test that \<open>key_available\<close> makes on a code, and \<open>any_of\<close> over the buffer.\<close>

definition is_release :: "u8 \<Rightarrow> bool" where
  "is_release c \<longleftrightarrow> c > 0x80 \<and> c < 0xE0"

definition kb_key_available :: "u8 fixed_size_queue \<Rightarrow> bool" where
  "kb_key_available q \<longleftrightarrow> list_ex is_release (fq_contents q)"

text \<open>Interrupts that arrive one after the other, each with a full output buffer.\<close>

fun kb_isrs :: "u8 list \<Rightarrow> u8 fixed_size_queue \<Rightarrow> u8 fixed_size_queue res" where
  "kb_isrs [] q = Inr q"
| "kb_isrs (c # cs) q = andThen (kb_isr status_mask_output_full c q) (kb_isrs cs)"

text \<open>\<open>get_scan_key\<close> looks at the buffer, halts until an interrupt when it is empty, and takes one code otherwise. Each
  element of the environment holds the codes that arrive before the next look; when it is used up no more interrupts
  come, and a look at an empty buffer is the last. A code that arrives between a look at a filled buffer and the
  removal has the same effect as one that arrives before the look.\<close>

fun get_scan_key :: "u8 list list \<Rightarrow> u8 fixed_size_queue \<Rightarrow> (u8 \<times> u8 list list \<times> u8 fixed_size_queue) res" where
  "get_scan_key [] q = (if fq_empty q then Inl No_return else let (c, q1) = fq_pop q in Inr (c, [], q1))"
| "get_scan_key (cs # env) q =
     andThen (kb_isrs cs q) (\<lambda>q1.
       if fq_empty q1 then get_scan_key env q1 else let (c, q2) = fq_pop q1 in Inr (c, env, q2))"

text \<open>The work left: codes in the buffer, codes to come and looks.\<close>

definition kb_work :: "u8 list list \<Rightarrow> u8 fixed_size_queue \<Rightarrow> nat" where
  "kb_work env q = fq_size q + sum_list (List.map (\<lambda>cs. Suc (length cs)) env)"

lemma fq_size_push: "fq_size (fq_push q c) \<le> Suc (fq_size q)"
  using ring_dist(2) [of "fq_write q" "fq_read q"] by (simp add: fq_size_def fq_push_def)

lemma fq_size_pop: "\<not> fq_empty q \<Longrightarrow> Suc (fq_size (snd (fq_pop q))) = fq_size q"
  using ring_dist(1) [of "fq_read q" "fq_write q"]
  by (cases "fq_read q = fq_write q") (simp_all add: fq_size_def fq_pop_def fq_empty_def)

lemma kb_isrs_size: "kb_isrs cs q = Inr q' \<Longrightarrow> fq_size q' \<le> fq_size q + length cs"
proof (induction cs arbitrary: q)
  case (Cons c cs)
  then have "fq_size q' \<le> fq_size (if \<not> fq_full q then fq_push q c else q) + length cs"
    by (auto simp: kb_isr_def res_simps)
  then show ?case using fq_size_push [of q c] by (auto split: if_splits)
qed simp

lemma get_scan_key_work: "get_scan_key env q = Inr (c, env', q') \<Longrightarrow> kb_work env' q' < kb_work env q"
proof (induction env q rule: get_scan_key.induct)
  case (1 q)
  then show ?case using fq_size_pop [of q] by (auto simp: kb_work_def split: if_splits prod.splits)
next
  case (2 cs env q)
  then obtain q1 where q1: "kb_isrs cs q = Inr q1" by (auto simp: res_simps)
  note le = kb_isrs_size [OF q1]
  show ?case
  proof (cases "fq_empty q1")
    case True
    then have "kb_work env' q' < kb_work env q1" using 2 q1 by simp
    then show ?thesis using le by (simp add: kb_work_def)
  next
    case False
    then have "Suc (fq_size q') = fq_size q1" "env' = env" using 2(2) q1 fq_size_pop [of q1] by (auto split: prod.splits)
    then show ?thesis using le by (simp add: kb_work_def)
  qed
qed

text \<open>The loop of \<open>read_key\<close>.\<close>

function read_key_loop :: "u8 list list \<Rightarrow> u8 fixed_size_queue \<Rightarrow> (u8 \<times> u8 list list \<times> u8 fixed_size_queue) res" where
  "read_key_loop env q =
     andThen (get_scan_key env q) (\<lambda>(sk, env1, q1).
     if sk = 0xE0 then
       andThen (get_scan_key env1 q1) (\<lambda>(sk2, env2, q2). read_key_loop env2 q2)
     else if sk = 0xE1 then
       andThen (get_scan_key env1 q1) (\<lambda>(sk2, env2, q2).
       andThen (get_scan_key env2 q2) (\<lambda>(sk3, env3, q3). read_key_loop env3 q3))
     else if sk AND 0x80 = 0 then read_key_loop env1 q1
     else
       let sk' = sk AND NOT 0x80 in
       if sk' < scan_code_set_1_size \<and> scan_code_set_1 ! unat sk' \<noteq> sc_invalid then
         Inr (scan_code_set_1 ! unat sk', env1, q1)
       else read_key_loop env1 q1)"
  by auto
termination
  by (relation "measure (\<lambda>(env, q). kb_work env q)") (auto dest!: get_scan_key_work)

declare read_key_loop.simps [simp del]

definition kb_read_key :: "bool \<Rightarrow> u8 list list \<Rightarrow> u8 fixed_size_queue \<Rightarrow> (u8 \<times> u8 list list \<times> u8 fixed_size_queue) res" where
  "kb_read_key interrupts_on env q = require interrupts_on ''__readeflags() & rflag_mask_if'' (read_key_loop env q)"

text \<open>Before the controller exists the ports are polled: each element of the environment is what the status and the data
  port give.\<close>

definition polled_key_available :: "u8 \<Rightarrow> bool" where
  "polled_key_available st \<longleftrightarrow> st AND status_mask_output_full \<noteq> 0"

fun polled_read_key :: "(u8 \<times> u8) list \<Rightarrow> (u8 \<times> (u8 \<times> u8) list) res" where
  "polled_read_key [] = Inl No_return"
| "polled_read_key ((st, scan_code) # env) =
     (if st AND status_mask_output_full = 0 then polled_read_key env
      else if scan_code > 0x80 \<and> scan_code < 0xE0 then Inr (scan_code, env)
      else polled_read_key env)"

text \<open>The functions of the namespace, with the instance of the controller if there is one.\<close>

definition ps2_key_available :: "u8 fixed_size_queue option \<Rightarrow> u8 \<Rightarrow> bool" where
  "ps2_key_available inst st = (case inst of Some q \<Rightarrow> kb_key_available q | None \<Rightarrow> polled_key_available st)"

section \<open>The queue is a queue\<close>

definition fq_ok :: "'a fixed_size_queue \<Rightarrow> bool" where
  "fq_ok q \<longleftrightarrow> (\<exists>k<32. length (fq_elems q) = 2 ^ k) \<and> fq_size q \<le> length (fq_elems q)"

lemma fq_slot_mod: "length (fq_elems q) = 2 ^ k \<Longrightarrow> fq_slot q pos = unat pos mod 2 ^ k"
  by (simp add: fq_slot_def flip: take_bit_eq_mod) (simp add: take_bit_eq_mask mask_eq_exp_minus_1)

lemma fq_iterate_nth:
  "n = unat (fq_write q - pos) \<Longrightarrow> fq_iterate q pos = List.map (\<lambda>i. fq_elems q ! fq_slot q (pos + of_nat i)) [0..<n]"
proof (induction n arbitrary: pos)
  case 0
  then have "pos = fq_write q" by (simp add: unat_eq_zero)
  then show ?case by (simp add: fq_iterate.simps)
next
  case (Suc n)
  then have ne: "pos \<noteq> fq_write q" "fq_write q - pos \<noteq> 0" by (auto simp: unat_eq_zero)
  have "n = unat (fq_write q - (pos + 1))" using Suc.prems ring_dist(1) [OF ne(1)] by simp
  then have "fq_iterate q (pos + 1) = List.map (\<lambda>i. fq_elems q ! fq_slot q (pos + of_nat (Suc i))) [0..<n]"
    using Suc.IH [of "pos + 1"] by (simp add: add.assoc)
  moreover have "[0..<Suc n] = 0 # List.map Suc [0..<n]" by (simp add: map_Suc_upt upt_conv_Cons del: upt_Suc)
  ultimately show ?case using ne(1) by (subst fq_iterate.simps) (simp del: upt_Suc of_nat_Suc)
qed

lemma fq_contents_nth: "fq_contents q = List.map (\<lambda>i. fq_elems q ! fq_slot q (fq_read q + of_nat i)) [0..<fq_size q]"
  by (simp add: fq_contents_def fq_size_def fq_iterate_nth)

lemma length_fq_contents [simp]: "length (fq_contents q) = fq_size q"
  by (simp add: fq_contents_nth)

lemma fq_push_contents:
  assumes "fq_ok q" "\<not> fq_full q"
  shows "fq_size (fq_push q x) = Suc (fq_size q)" "fq_contents (fq_push q x) = fq_contents q @ [x]"
proof -
  obtain k where k: "k < 32" "length (fq_elems q) = 2 ^ k" using assms(1) by (auto simp: fq_ok_def)
  have lt: "fq_size q < 2 ^ k" using assms k(2) by (auto simp: fq_ok_def fq_full_def)
  have "(2 :: nat) ^ k \<le> 2 ^ 31" using k(1) by (intro power_increasing) auto
  then have lim: "Suc (fq_size q) < 2 ^ 32" using lt by simp
  show sz: "fq_size (fq_push q x) = Suc (fq_size q)"
    using lim ring_dist(3) [of "fq_write q" "fq_read q"] by (simp add: fq_size_def fq_push_def)
  have w: "fq_write q = fq_read q + of_nat (fq_size q)" by (simp add: fq_size_def)
  have slot: "fq_slot (fq_push q x) p = unat p mod 2 ^ k" "fq_slot q p = unat p mod 2 ^ k" for p
    using k(2) by (simp_all add: fq_slot_mod fq_push_def)
  have neq: "unat (fq_read q + of_nat i) mod 2 ^ k \<noteq> unat (fq_write q) mod 2 ^ k" if "i < fq_size q" for i
  proof
    assume eq: "unat (fq_read q + of_nat i) mod 2 ^ k = unat (fq_write q) mod 2 ^ k"
    have dvd: "(2 :: nat) ^ k dvd 4294967296" using k(1) le_imp_power_dvd [of k 32 "2 :: nat"] by simp
    have at: "unat (fq_read q + of_nat j) mod 2 ^ k = (unat (fq_read q) + j) mod 2 ^ k" if "j \<le> fq_size q" for j
      using that lim dvd by (simp add: unat_word_ariths(1) unat_of_nat take_bit_eq_mod mod_mod_cancel)
    have "(unat (fq_read q) + i) mod 2 ^ k = (unat (fq_read q) + fq_size q) mod 2 ^ k"
      using eq at [of i] at [of "fq_size q"] that w by simp
    then have "2 ^ k dvd fq_size q - i"
      using that mod_eq_dvd_iff_nat [of "unat (fq_read q) + i" "unat (fq_read q) + fq_size q" "2 ^ k"] by simp
    then show False using that lt by (auto dest: dvd_imp_le)
  qed
  have len: "unat (fq_write q) mod 2 ^ k < length (fq_elems q)" using k(2) by simp
  have "fq_elems (fq_push q x) ! fq_slot (fq_push q x) (fq_read (fq_push q x) + of_nat i) =
      (if i = fq_size q then x else fq_elems q ! fq_slot q (fq_read q + of_nat i))" if "i < Suc (fq_size q)" for i
    using that neq [of i] len w unfolding slot by (auto simp: slot(2) fq_push_def less_Suc_eq nth_list_update)
  then show "fq_contents (fq_push q x) = fq_contents q @ [x]" by (simp add: fq_contents_nth sz)
qed

lemma fq_pop_contents:
  assumes "\<not> fq_empty q"
  shows "fq_contents q = fst (fq_pop q) # fq_contents (snd (fq_pop q))"
proof -
  have ne: "fq_read q \<noteq> fq_write q" using assms by (auto simp: fq_empty_def fq_size_def)
  have "fq_iterate (snd (fq_pop q)) p = fq_iterate q p" for p
    unfolding fq_iterate_nth [OF refl] by (simp add: fq_pop_def fq_slot_def)
  then show ?thesis using ne by (simp add: fq_contents_def fq_iterate.simps [of q "fq_read q"] fq_pop_def)
qed

interpretation fq: fifo fq_ok "\<lambda>_. True" "\<lambda>q. length (fq_elems q)" fq_contents fq_full fq_empty fq_push fq_pop
proof unfold_locales
  fix q :: "'a fixed_size_queue" and x
  assume ok: "fq_ok q"
  show "length (fq_contents q) \<le> length (fq_elems q)" "fq_full q \<longleftrightarrow> length (fq_contents q) = length (fq_elems q)"
    using ok by (simp_all add: fq_ok_def fq_full_def)
  show "fq_empty q \<longleftrightarrow> fq_contents q = []" by (simp add: fq_empty_def flip: length_0_conv)
  show "fq_ok (fq_push q x) \<and> length (fq_elems (fq_push q x)) = length (fq_elems q) \<and> fq_contents (fq_push q x) = fq_contents q @ [x]"
    if "\<not> fq_full q"
    using fq_push_contents [OF ok that] ok that by (auto simp: fq_ok_def fq_full_def fq_push_def)
  show "fq_ok (snd (fq_pop q)) \<and> length (fq_elems (snd (fq_pop q))) = length (fq_elems q) \<and>
      fq_contents q = fst (fq_pop q) # fq_contents (snd (fq_pop q))"
    if "\<not> fq_empty q"
    using fq_pop_contents [OF that] fq_size_pop [OF that] ok by (auto simp: fq_ok_def) (auto simp: fq_pop_def)
qed


section \<open>Interrupts and the reader\<close>

datatype kb_event = Arrive u8 u8 | Take u8

inductive kb_step :: "u8 fixed_size_queue \<Rightarrow> kb_event \<Rightarrow> u8 fixed_size_queue \<Rightarrow> bool" where
  arrive: "kb_isr st d q = Inr q' \<Longrightarrow> kb_step q (Arrive st d) q'"
| take_key: "\<not> fq_empty q \<Longrightarrow> fq_pop q = (c, q') \<Longrightarrow> kb_step q (Take c) q'"

inductive_cases kb_arriveE: "kb_step q (Arrive st d) q'"
inductive_cases kb_takeE: "kb_step q (Take c) q'"

inductive kb_trace :: "kb_event list \<Rightarrow> u8 fixed_size_queue \<Rightarrow> bool" where
  start: "length garbage = 32 \<Longrightarrow> kb_trace [] (fq_new garbage)"
| step: "kb_trace es q \<Longrightarrow> kb_step q e q' \<Longrightarrow> kb_trace (es @ [e]) q'"

text \<open>The abstract buffer: a list of at most 32 codes.\<close>

fun buffer_step :: "kb_event \<Rightarrow> u8 list \<Rightarrow> u8 list option" where
  "buffer_step (Arrive st d) l =
     (if \<not> bit st 0 then None else Some (if length l < 32 then l @ [d] else l))"
| "buffer_step (Take c) l = (case l of [] \<Rightarrow> None | x # l' \<Rightarrow> if x = c then Some l' else None)"

definition buffer_run :: "kb_event list \<Rightarrow> u8 list option" where
  "buffer_run es = fold (\<lambda>e r. Option.bind r (buffer_step e)) es (Some [])"

lemma buffer_run_snoc: "buffer_run (es @ [e]) = Option.bind (buffer_run es) (buffer_step e)"
  by (simp add: buffer_run_def)

lemma kb_isr_offer: "kb_isr st d q = require (bit st 0) ''st & status_mask_output_full'' (Inr (fq.offer q d))"
  by (simp add: kb_isr_def fq.offer_def status_mask_output_full_def and_one_eq odd_iff_mod_2_eq_one bit_0)

lemma fq_new_ok: "length g = 32 \<Longrightarrow> fq_ok (fq_new g)" "fq_contents (fq_new g) = []"
  by (auto simp: fq_ok_def fq_new_def fq_size_def fq_contents_nth intro!: exI [of _ 5])

abbreviation kb_ok :: "u8 fixed_size_queue \<Rightarrow> bool" where
  "kb_ok q \<equiv> fq_ok q \<and> length (fq_elems q) = 32"

lemma kb_step_simulates:
  assumes "kb_ok q"
  shows "kb_step q e q' \<Longrightarrow> kb_ok q' \<and> buffer_step e (fq_contents q) = Some (fq_contents q')"
    and "buffer_step e (fq_contents q) = Some l \<Longrightarrow> \<exists>q'. kb_step q e q' \<and> kb_ok q' \<and> fq_contents q' = l"
proof -
  have ok: "fq_ok q" using assms by simp
  note offer = fq.offer_items [OF ok TrueI] and taken = fq.take_items [OF ok]
  show "kb_ok q' \<and> buffer_step e (fq_contents q) = Some (fq_contents q')" if "kb_step q e q'"
    using that
  proof cases
    case (arrive st d)
    then show ?thesis using offer [of d] assms by (auto simp: kb_isr_offer res_simps simp del: length_fq_contents)
  next
    case (take_key c)
    then obtain xs where "fq_contents q = c # xs" using fq_pop_contents [of q] by auto
    then show ?thesis using take_key taken [of c xs] assms by simp
  qed
  show "\<exists>q'. kb_step q e q' \<and> kb_ok q' \<and> fq_contents q' = l" if s: "buffer_step e (fq_contents q) = Some l"
  proof (cases e)
    case (Arrive st d)
    then have "bit st 0" using s by (auto split: if_splits)
    then have "kb_step q e (fq.offer q d)" using Arrive by (auto intro: kb_step.arrive simp: kb_isr_offer)
    then show ?thesis using offer [of d] assms s Arrive
      by (intro exI [of _ "fq.offer q d"]) (auto split: if_splits simp del: length_fq_contents)
  next
    case (Take c)
    then have c: "fq_contents q = c # l" using s by (auto split: list.splits if_splits)
    then have "\<not> fq_empty q" using fq.empty_iff [OF ok] by simp
    then have "kb_step q e (snd (fq_pop q))" using Take taken(1) [OF c] by (auto intro!: kb_step.take_key prod_eqI)
    then show ?thesis using taken [OF c] assms by (intro exI [of _ "snd (fq_pop q)"]) simp
  qed
qed

lemma kb_trace_buffer: "kb_trace es q \<Longrightarrow> kb_ok q \<and> buffer_run es = Some (fq_contents q)"
proof (induction rule: kb_trace.induct)
  case (start g)
  then show ?case by (simp add: fq_new_ok) (simp add: fq_new_def buffer_run_def)
next
  case (step es q e q')
  then show ?case using kb_step_simulates(1) [of q e q'] by (simp add: buffer_run_snoc)
qed

lemma buffer_kb_trace: "buffer_run es = Some l \<Longrightarrow> \<exists>q. kb_trace es q \<and> fq_contents q = l"
proof (induction es arbitrary: l rule: rev_induct)
  case Nil
  then show ?case
    using kb_trace.start [of "replicate 32 0"] fq_new_ok(2) [of "replicate 32 0"] by (auto simp: buffer_run_def)
next
  case (snoc e es)
  then obtain l1 where l1: "buffer_run es = Some l1" "buffer_step e l1 = Some l"
    by (auto simp: buffer_run_snoc bind_eq_Some_conv)
  then obtain q where q: "kb_trace es q" "fq_contents q = l1" using snoc.IH by blast
  have "kb_ok q" using kb_trace_buffer [OF q(1)] by simp
  from kb_step_simulates(2) [OF this, of e l] show ?case using q l1(2) kb_trace.step by blast
qed

text \<open>C33: the keyboard buffer is a first-in first-out buffer of 32 codes: a sequence of interrupts and removals, of any length
  and in any order, is possible for the ring buffer exactly when it is possible for the list, and leaves the same codes.
  Codes are neither reordered nor lost, unless they arrive while 32 codes are unread; the positions wrap around.\<close>

theorem keyboard_buffer_is_fifo:
  "(\<exists>q. kb_trace es q \<and> fq_contents q = l) \<longleftrightarrow> buffer_run es = Some l"
  using kb_trace_buffer buffer_kb_trace by auto

section \<open>What the reader makes of the codes\<close>

text \<open>Prefix \<open>0xE0\<close> hides one code and \<open>0xE1\<close> two; of the other codes the releases of keys that have a character count.\<close>

definition released_char :: "u8 \<Rightarrow> u8 option" where
  "released_char c = (if 128 \<le> unat c \<and> unat c < 128 + 88 \<and> scan_code_set_1 ! (unat c - 128) \<noteq> 0
     then Some (scan_code_set_1 ! (unat c - 128)) else None)"

fun decode_keys :: "u8 list \<Rightarrow> (u8 \<times> u8 list) option" where
  "decode_keys [] = None"
| "decode_keys (c # cs) =
     (if c = 0xE0 then (case cs of [] \<Rightarrow> None | _ # r \<Rightarrow> decode_keys r)
      else if c = 0xE1 then (case cs of _ # _ # r \<Rightarrow> decode_keys r | _ \<Rightarrow> None)
      else case released_char c of Some k \<Rightarrow> Some (k, cs) | None \<Rightarrow> decode_keys cs)"

definition kb_sees :: "u8 list list \<Rightarrow> u8 fixed_size_queue \<Rightarrow> u8 list \<Rightarrow> bool" where
  "kb_sees env q l \<longleftrightarrow> fq_ok q \<and> l = fq_contents q @ concat env \<and> length l \<le> length (fq_elems q)"

lemma kb_isrs_items:
  "fq_ok q \<Longrightarrow> length (fq_contents q @ cs) \<le> length (fq_elems q) \<Longrightarrow>
     \<exists>q'. kb_isrs cs q = Inr q' \<and> fq_ok q' \<and> length (fq_elems q') = length (fq_elems q) \<and> fq_contents q' = fq_contents q @ cs"
proof (induction cs arbitrary: q)
  case (Cons c cs)
  note o = fq.offer_items [OF Cons.prems(1) TrueI, of c]
  have "fq_contents (fq.offer q c) = fq_contents q @ [c]" using o(3) Cons.prems(2) by (simp del: length_fq_contents)
  then show ?case using Cons.IH [OF o(1)] Cons.prems(2) o(2)
    by (simp add: kb_isr_offer status_mask_output_full_def del: length_fq_contents)
qed simp

lemma get_scan_key_sees:
  "kb_sees env q [] \<Longrightarrow> get_scan_key env q = Inl No_return"
  "kb_sees env q (c # l) \<Longrightarrow> \<exists>env' q'. get_scan_key env q = Inr (c, env', q') \<and> kb_sees env' q' l"
proof (induction env q rule: get_scan_key.induct)
  case (1 q)
  {
    case 1
    then show ?case using fq.empty_iff [of q] by (simp add: kb_sees_def)
  next
    case 2
    then show ?case using fq.empty_iff [of q] fq.take_items [of q c l]
      by (auto simp: kb_sees_def split: prod.splits simp del: length_fq_contents)
  }
next
  case (2 cs env q)
  {
    case 1
    then have "fq_ok q" "cs = []" "fq_contents q = []" "concat env = []" by (simp_all add: kb_sees_def)
    moreover have "kb_sees env q []" using 1 by (simp add: kb_sees_def)
    ultimately show ?case using "2.IH"(1) [of q] fq.empty_iff [of q] by simp
  next
    case 2
    then have l: "fq_ok q" "c # l = fq_contents q @ cs @ concat env" "length (c # l) \<le> length (fq_elems q)"
      unfolding kb_sees_def concat.simps by blast+
    have "length (fq_contents q @ cs) \<le> length (c # l)" unfolding l(2) by simp
    then have ok: "fq_ok q" "length (fq_contents q @ cs) \<le> length (fq_elems q)" "c # l = fq_contents q @ cs @ concat env"
      "length (c # l) \<le> length (fq_elems q)"
      using l le_trans by blast+
    obtain q1 where q1: "kb_isrs cs q = Inr q1" "fq_ok q1" "length (fq_elems q1) = length (fq_elems q)" "fq_contents q1 = fq_contents q @ cs"
      using kb_isrs_items [OF ok(1,2)] by blast
    show ?case
    proof (cases "fq_empty q1")
      case True
      then have "kb_sees env q1 (c # l)" using q1 ok fq.empty_iff [of q1] by (simp add: kb_sees_def)
      then show ?thesis using "2.IH"(2) [OF q1(1) True] q1(1) True by simp
    next
      case False
      then obtain xs where xs: "fq_contents q1 = c # xs" "l = xs @ concat env"
      proof -
        have "c # l = fq_contents q1 @ concat env" "fq_contents q1 \<noteq> []"
          using q1(4) ok(3) fq.empty_iff [OF q1(2)] False by (simp_all only: append_assoc) simp
        then show ?thesis using that by (cases "fq_contents q1") simp_all
      qed
      then show ?thesis using fq.take_items [OF q1(2) xs(1)] q1 ok False
        by (auto simp: kb_sees_def split: prod.splits simp del: length_fq_contents)
    qed
  }
qed

lemma u8_release: "(c :: u8) AND 0x80 = 0 \<longleftrightarrow> unat c < 128" "\<not> unat c < 128 \<Longrightarrow> unat (c AND NOT 0x80) = unat c - 128"
proof -
  have "list_all (\<lambda>n. let c = of_nat n :: u8 in (c AND 0x80 = 0 \<longleftrightarrow> unat c < 128) \<and> (unat c < 128 \<or> unat (c AND NOT 0x80) = unat c - 128))
    [0..<256]" by code_simp
  then have "let c = of_nat (unat c) :: u8 in (c AND 0x80 = 0 \<longleftrightarrow> unat c < 128) \<and> (unat c < 128 \<or> unat (c AND NOT 0x80) = unat c - 128)"
    unfolding list_all_iff by (rule bspec) (use u8_range [of c] in simp)
  then have "(c AND 0x80 = 0 \<longleftrightarrow> unat c < 128) \<and> (unat c < 128 \<or> unat (c AND NOT 0x80) = unat c - 128)"
    by (simp add: Let_def)
  then show "c AND 0x80 = 0 \<longleftrightarrow> unat c < 128" "\<not> unat c < 128 \<Longrightarrow> unat (c AND NOT 0x80) = unat c - 128" by blast+
qed

lemma scan_code_step:
  assumes "c \<noteq> 0xE0" "c \<noteq> 0xE1" "get_scan_key env q = Inr (c, env1, q1)"
  shows "read_key_loop env q = (case released_char c of Some k \<Rightarrow> Inr (k, env1, q1) | None \<Rightarrow> read_key_loop env1 q1)"
  using assms u8_release [of c]
  by (subst read_key_loop.simps) (auto simp: released_char_def Let_def word_less_nat_alt scan_code_set_1_size_def sc_invalid_def)

lemma read_key_sees:
  "kb_sees env q l \<Longrightarrow>
     case decode_keys l of
       None \<Rightarrow> read_key_loop env q = Inl No_return
     | Some (k, rest) \<Rightarrow> \<exists>env' q'. read_key_loop env q = Inr (k, env', q') \<and> kb_sees env' q' rest"
proof (induction l arbitrary: env q rule: decode_keys.induct)
  case 1
  then show ?case using get_scan_key_sees(1) by (subst read_key_loop.simps) simp
next
  case (2 c cs)
  obtain env1 q1 where g1: "get_scan_key env q = Inr (c, env1, q1)" "kb_sees env1 q1 cs"
    using get_scan_key_sees(2) [OF "2.prems"] by blast
  consider "c = 0xE0" | "c = 0xE1" | "c \<noteq> 0xE0" "c \<noteq> 0xE1" by blast
  then show ?case
  proof cases
    case 1
    show ?thesis
    proof (cases cs)
      case Nil
      then show ?thesis using 1 g1 get_scan_key_sees(1) by (subst read_key_loop.simps) simp
    next
      case (Cons d r)
      obtain env2 q2 where g2: "get_scan_key env1 q1 = Inr (d, env2, q2)" "kb_sees env2 q2 r"
        using get_scan_key_sees(2) g1(2) Cons by blast
      then have eq: "read_key_loop env q = read_key_loop env2 q2" using 1 g1 by (subst read_key_loop.simps) simp
      show ?thesis unfolding eq using "2.IH"(1) [OF 1 Cons g2(2)] 1 Cons by simp
    qed
  next
    case 2
    note e1 = this
    show ?thesis
    proof (cases cs)
      case Nil
      then show ?thesis using e1 g1 get_scan_key_sees(1) by (subst read_key_loop.simps) simp
    next
      case (Cons d r)
      obtain env2 q2 where g2: "get_scan_key env1 q1 = Inr (d, env2, q2)" "kb_sees env2 q2 r"
        using get_scan_key_sees(2) g1(2) Cons by blast
      show ?thesis
      proof (cases r)
        case Nil
        then show ?thesis using e1 g1 g2 Cons get_scan_key_sees(1) by (subst read_key_loop.simps) simp
      next
        case (Cons d' r')
        obtain env3 q3 where g3: "get_scan_key env2 q2 = Inr (d', env3, q3)" "kb_sees env3 q3 r'"
          using get_scan_key_sees(2) g2(2) Cons by blast
        then have eq: "read_key_loop env q = read_key_loop env3 q3" using e1 g1 g2 by (subst read_key_loop.simps) simp
        show ?thesis unfolding eq using "2.IH"(2) [OF _ e1 \<open>cs = d # r\<close> Cons g3(2)] e1 \<open>cs = d # r\<close> Cons by simp
      qed
    qed
  next
    case 3
    show ?thesis
    proof (cases "released_char c")
      case None
      then have eq: "read_key_loop env q = read_key_loop env1 q1" using scan_code_step [OF 3 g1(1)] by simp
      show ?thesis unfolding eq using "2.IH"(3) [OF 3 None g1(2)] 3 None by simp
    next
      case (Some k)
      then show ?thesis using scan_code_step [OF 3 g1(1)] 3 g1(2) by simp
    qed
  qed
qed


text \<open>C37: the reader decodes the stream of codes: with room for all the codes that come, \<open>read_key\<close> returns exactly the first
  character of the codes in the buffer and the codes that arrive, in that order, and leaves the codes after it, however
  the interrupts fall between its looks at the buffer; and it does not return when the codes hold no character.\<close>

theorem read_key_decodes:
  assumes "fq_ok q" "length (fq_contents q @ concat env) \<le> length (fq_elems q)"
  shows "case decode_keys (fq_contents q @ concat env) of
      None \<Rightarrow> kb_read_key True env q = Inl No_return
    | Some (k, rest) \<Rightarrow> \<exists>env' q'. kb_read_key True env q = Inr (k, env', q') \<and> fq_contents q' @ concat env' = rest"
proof -
  have "kb_sees env q (fq_contents q @ concat env)" using assms unfolding kb_sees_def by blast
  from read_key_sees [OF this] show ?thesis
    by (auto simp: kb_read_key_def kb_sees_def split: option.splits)
qed

text \<open>a key that is available need not be there: \<open>key_available\<close> counts the code behind a prefix as a release, which
  \<open>read_key\<close> drops; so it waits for as long as no other code comes.\<close>

theorem key_available_may_block:
  assumes "fq_ok q" "length (fq_elems q) = 32" "fq_contents q = [0xE0, c]" "is_release c" "concat env = []"
  shows "ps2_key_available (Some q) st \<and> kb_read_key True env q = Inl No_return"
proof -
  have "kb_sees env q [0xE0, c]" unfolding kb_sees_def using assms(1,2,3,5) by simp
  from read_key_sees [OF this] show ?thesis using assms(3,4) by (simp add: ps2_key_available_def kb_key_available_def kb_read_key_def)
qed

section \<open>Witnesses\<close>

definition demo_queue :: "u8 list \<Rightarrow> u8 fixed_size_queue" where
  "demo_queue cs = fold (\<lambda>c q. fq_push q c) cs (fq_new (replicate 32 0))"

lemma demo_queue: "fq_ok (demo_queue [0xE0, 0x9C])" "length (fq_elems (demo_queue [0xE0, 0x9C])) = 32" "fq_contents (demo_queue [0xE0, 0x9C]) = [0xE0, 0x9C]"
proof -
  note n = fq_new_ok(1) [where g = "replicate 32 0 :: u8 list"] fq_new_ok(2) [where g = "replicate 32 0 :: u8 list"]
  have f: "\<not> fq_full (fq_new (replicate 32 0 :: u8 list))" by (simp add: fq_full_def fq_size_def fq_new_def)
  have l: "length (fq_elems (fq_new (replicate 32 0 :: u8 list))) = 32" by (simp add: fq_new_def)
  note o1 = fq.offer_items [OF n(1) TrueI, of "0xE0"]
  have "fq_contents (fq.offer (fq_new (replicate 32 0 :: u8 list)) 0xE0) = [0xE0]" using o1(3) n(2) l by simp
  then have o: "fq_ok (fq.offer (fq.offer (fq_new (replicate 32 0 :: u8 list)) 0xE0) 0x9C)"
    "length (fq_elems (fq.offer (fq.offer (fq_new (replicate 32 0 :: u8 list)) 0xE0) 0x9C)) = 32"
    "fq_contents (fq.offer (fq.offer (fq_new (replicate 32 0 :: u8 list)) 0xE0) 0x9C) = [0xE0, 0x9C]"
    using fq.offer_items [OF o1(1) TrueI, of "0x9C"] o1 l by simp_all
  have "fq.offer (fq.offer (fq_new (replicate 32 0 :: u8 list)) 0xE0) 0x9C = demo_queue [0xE0, 0x9C]"
    by (simp add: demo_queue_def fq.offer_def fq_full_def fq_size_def fq_new_def fq_push_def)
  with o show "fq_ok (demo_queue [0xE0, 0x9C])" "length (fq_elems (demo_queue [0xE0, 0x9C])) = 32"
    "fq_contents (demo_queue [0xE0, 0x9C]) = [0xE0, 0x9C]" by simp_all
qed

text \<open>Release of the enter key behind a prefix, then the key A pressed and released.\<close>

theorem read_key_decodes_witness:
  "\<exists>env' q'. kb_read_key True [[], [0x1E], [0x9E, 0x2A]] (demo_queue [0xE0, 0x9C]) = Inr (65, env', q') \<and> fq_contents q' @ concat env' = [0x2A]"
  using read_key_decodes [of "demo_queue [0xE0, 0x9C]" "[[], [0x1E], [0x9E, 0x2A]]"] demo_queue
  by (simp add: released_char_def scan_code_set_1_def ascii_def sc_invalid_def)

theorem key_available_may_block_witness:
  "ps2_key_available (Some (demo_queue [0xE0, 0x9C])) 0 \<and> kb_read_key True [[], [], []] (demo_queue [0xE0, 0x9C]) = Inl No_return"
  by (rule key_available_may_block [OF demo_queue]) (simp_all add: is_release_def)

end
