(* ===== verification/Pci.thy ===== *)
theory Pci
  imports OutStream
begin

text \<open>
  The PCI bus, \<open>kernel/pci.h\<close> and \<open>kernel/pci.cpp\<close>: access to configuration space through the two ports, the size of
  base address registers, and the search for devices. What answers at the ports is the machine's: a state \<open>'b\<close> with a
  function that reads a double word of it and one that writes one. The code keeps the address it last put into the
  address port.
\<close>

section \<open>The code: addresses and tables\<close>

datatype device_address = Device_address (address_word: u32)

definition device_address_new :: "u8 \<Rightarrow> u8 \<Rightarrow> u8 \<Rightarrow> device_address res" where
  "device_address_new bus slot func =
     require (slot < 32) ''slot < 32'' (
     require (func < 8) ''func < 8'' (
       Inr (Device_address (push_bit 16 (ucast bus) OR push_bit 11 (ucast slot) OR push_bit 8 (ucast func)))))"

definition address_bus :: "device_address \<Rightarrow> u8" where
  "address_bus a = ucast (drop_bit 16 (address_word a) AND 0xFF)"

definition address_slot :: "device_address \<Rightarrow> u8" where
  "address_slot a = ucast (drop_bit 11 (address_word a) AND 0x1F)"

definition address_func :: "device_address \<Rightarrow> u8" where
  "address_func a = ucast (drop_bit 8 (address_word a) AND 0x7)"

definition put_device_address :: "device_address \<Rightarrow> bytes res" where
  "put_device_address dev =
     andThen (put_formatted_number (as_hex 1 (ucast (address_bus dev)))) (\<lambda>b.
     andThen (put_formatted_number (as_hex 1 (ucast (address_slot dev)))) (\<lambda>s.
     andThen (put_formatted_number ((as_hex 1 (ucast (address_func dev)))\<lparr>fn_width := 1\<rparr>)) (\<lambda>f.
       Inr (b @ put_char 58 @ s @ put_char 46 @ f))))"

definition vendor_lsi :: u16 where "vendor_lsi = 0x1000"
definition vendor_ensoniq :: u16 where "vendor_ensoniq = 0x1274"
definition vendor_vmware :: u16 where "vendor_vmware = 0x15AD"
definition vendor_intel :: u16 where "vendor_intel = 0x8086"

definition class_scsi_controller :: u16 where "class_scsi_controller = 0x0100"
definition class_ide_controller :: u16 where "class_ide_controller = 0x0101"
definition class_serial_ata_controller :: u16 where "class_serial_ata_controller = 0x0106"
definition class_ethernet_controller :: u16 where "class_ethernet_controller = 0x0200"
definition class_other_network_controller :: u16 where "class_other_network_controller = 0x0280"
definition class_vga_controller :: u16 where "class_vga_controller = 0x0300"
definition class_other_display_controller :: u16 where "class_other_display_controller = 0x0380"
definition class_bidi_audio_device :: u16 where "class_bidi_audio_device = 0x0401"
definition class_audio_device :: u16 where "class_audio_device = 0x0403"
definition class_host_bridge :: u16 where "class_host_bridge = 0x0600"
definition class_isa_bridge :: u16 where "class_isa_bridge = 0x0601"
definition class_pci_bridge :: u16 where "class_pci_bridge = 0x0604"
definition class_other_bridge :: u16 where "class_other_bridge = 0x0680"
definition class_generic_serial_controller :: u16 where "class_generic_serial_controller = 0x0700"
definition class_other_communications_device :: u16 where "class_other_communications_device = 0x0780"
definition class_other_system_peripheral :: u16 where "class_other_system_peripheral = 0x0880"
definition class_usb_controller :: u16 where "class_usb_controller = 0x0c03"
definition class_smbus :: u16 where "class_smbus = 0x0c05"

definition known_vendors :: "(u16 \<times> string) list" where
  "known_vendors = [
     (vendor_lsi, ''LSI Logic / Symbios Logic''),
     (vendor_ensoniq, ''Ensoniq''),
     (vendor_vmware, ''VMware Inc''),
     (vendor_intel, ''Intel Corporation'')]"

record device_desc =
  dd_vendor :: u16
  dd_device :: u16
  dd_class :: u16
  dd_text :: string

definition known_devices :: "device_desc list" where
  "known_devices = [
     \<lparr>dd_vendor = vendor_lsi, dd_device = 0x0030, dd_class = class_scsi_controller, dd_text = ''53c1030 PCI-X Fusion-MPT Dual Ultra320 SCSI''\<rparr>,
     \<lparr>dd_vendor = vendor_ensoniq, dd_device = 0x1371, dd_class = class_bidi_audio_device, dd_text = ''ES1371 / Creative Labs CT2518/ES1373''\<rparr>,
     \<lparr>dd_vendor = vendor_vmware, dd_device = 0x0405, dd_class = class_vga_controller, dd_text = ''SVGA II Adapter''\<rparr>,
     \<lparr>dd_vendor = vendor_vmware, dd_device = 0x0740, dd_class = class_other_system_peripheral, dd_text = ''Virtual Machine Communication Interface''\<rparr>,
     \<lparr>dd_vendor = vendor_vmware, dd_device = 0x0790, dd_class = class_pci_bridge, dd_text = ''PCI bridge''\<rparr>,
     \<lparr>dd_vendor = vendor_vmware, dd_device = 0x07A0, dd_class = class_pci_bridge, dd_text = ''PCI Express Root Port''\<rparr>,
     \<lparr>dd_vendor = vendor_intel, dd_device = 0x100E, dd_class = class_ethernet_controller, dd_text = ''82540EM Gigabit Ethernet Controller''\<rparr>,
     \<lparr>dd_vendor = vendor_intel, dd_device = 0x100F, dd_class = class_ethernet_controller, dd_text = ''82545EM Gigabit Ethernet Controller (Copper)''\<rparr>,
     \<lparr>dd_vendor = vendor_intel, dd_device = 0x10f5, dd_class = class_ethernet_controller, dd_text = ''82567LM Gigabit Network Connection''\<rparr>,
     \<lparr>dd_vendor = vendor_intel, dd_device = 0x1237, dd_class = class_host_bridge, dd_text = ''440FX - 82441FX PMC [Natoma]''\<rparr>,
     \<lparr>dd_vendor = vendor_intel, dd_device = 0x2448, dd_class = class_pci_bridge, dd_text = ''82801 Mobile PCI Bridge''\<rparr>,
     \<lparr>dd_vendor = vendor_intel, dd_device = 0x2917, dd_class = class_isa_bridge, dd_text = ''ICH9M-E LPC Interface Controller''\<rparr>,
     \<lparr>dd_vendor = vendor_intel, dd_device = 0x2929, dd_class = class_serial_ata_controller, dd_text = ''82801IBM/IEM SATA Controller''\<rparr>,
     \<lparr>dd_vendor = vendor_intel, dd_device = 0x2930, dd_class = class_smbus, dd_text = ''82801I (ICH9 Family) SMBus Controller''\<rparr>,
     \<lparr>dd_vendor = vendor_intel, dd_device = 0x2934, dd_class = class_usb_controller, dd_text = ''82801I (ICH9 Family) USB UHCI Controller #1''\<rparr>,
     \<lparr>dd_vendor = vendor_intel, dd_device = 0x2935, dd_class = class_usb_controller, dd_text = ''82801I (ICH9 Family) USB UHCI Controller #2''\<rparr>,
     \<lparr>dd_vendor = vendor_intel, dd_device = 0x2936, dd_class = class_usb_controller, dd_text = ''82801I (ICH9 Family) USB UHCI Controller #3''\<rparr>,
     \<lparr>dd_vendor = vendor_intel, dd_device = 0x2937, dd_class = class_usb_controller, dd_text = ''82801I (ICH9 Family) USB UHCI Controller #4''\<rparr>,
     \<lparr>dd_vendor = vendor_intel, dd_device = 0x2938, dd_class = class_usb_controller, dd_text = ''82801I (ICH9 Family) USB UHCI Controller #5''\<rparr>,
     \<lparr>dd_vendor = vendor_intel, dd_device = 0x2939, dd_class = class_usb_controller, dd_text = ''82801I (ICH9 Family) USB UHCI Controller #6''\<rparr>,
     \<lparr>dd_vendor = vendor_intel, dd_device = 0x293a, dd_class = class_usb_controller, dd_text = ''82801I (ICH9 Family) USB2 EHCI Controller #1''\<rparr>,
     \<lparr>dd_vendor = vendor_intel, dd_device = 0x293c, dd_class = class_usb_controller, dd_text = ''82801I (ICH9 Family) USB2 EHCI Controller #2''\<rparr>,
     \<lparr>dd_vendor = vendor_intel, dd_device = 0x293e, dd_class = class_audio_device, dd_text = ''82801I (ICH9 Family) HD Audio Controller''\<rparr>,
     \<lparr>dd_vendor = vendor_intel, dd_device = 0x2a40, dd_class = class_host_bridge, dd_text = ''Mobile 4 Series Chipset Memory Controller Hub''\<rparr>,
     \<lparr>dd_vendor = vendor_intel, dd_device = 0x2a42, dd_class = class_vga_controller, dd_text = ''Mobile 4 Series Chipset Integrated Graphics''\<rparr>,
     \<lparr>dd_vendor = vendor_intel, dd_device = 0x2a43, dd_class = class_other_display_controller, dd_text = ''Mobile 4 Series Chipset Integrated Graphics''\<rparr>,
     \<lparr>dd_vendor = vendor_intel, dd_device = 0x2a44, dd_class = class_other_communications_device, dd_text = ''Mobile 4 Series Chipset MEI Controller''\<rparr>,
     \<lparr>dd_vendor = vendor_intel, dd_device = 0x2a46, dd_class = class_ide_controller, dd_text = ''Mobile 4 Series Chipset PT IDER Controller''\<rparr>,
     \<lparr>dd_vendor = vendor_intel, dd_device = 0x2a47, dd_class = class_generic_serial_controller, dd_text = ''Mobile 4 Series Chipset AMT SOL Redirection''\<rparr>,
     \<lparr>dd_vendor = vendor_intel, dd_device = 0x4237, dd_class = class_other_network_controller, dd_text = ''PRO/Wireless 5100 AGN Network Connection''\<rparr>,
     \<lparr>dd_vendor = vendor_intel, dd_device = 0x7000, dd_class = class_isa_bridge, dd_text = ''82371SB PIIX3 ISA [Natoma/Triton II]''\<rparr>,
     \<lparr>dd_vendor = vendor_intel, dd_device = 0x7010, dd_class = class_ide_controller, dd_text = ''82371SB PIIX3 IDE [Natoma/Triton II]''\<rparr>,
     \<lparr>dd_vendor = vendor_intel, dd_device = 0x7020, dd_class = class_usb_controller, dd_text = ''82371SB PIIX3 USB [Natoma/Triton II]''\<rparr>,
     \<lparr>dd_vendor = vendor_intel, dd_device = 0x7110, dd_class = class_isa_bridge, dd_text = ''82371AB/EB/MB PIIX4 ISA''\<rparr>,
     \<lparr>dd_vendor = vendor_intel, dd_device = 0x7111, dd_class = class_ide_controller, dd_text = ''82371AB/EB/MB PIIX4 IDE''\<rparr>,
     \<lparr>dd_vendor = vendor_intel, dd_device = 0x7113, dd_class = class_other_bridge, dd_text = ''82371AB/EB/MB PIIX4 ACPI''\<rparr>,
     \<lparr>dd_vendor = vendor_intel, dd_device = 0x7190, dd_class = class_host_bridge, dd_text = ''440BX/ZX/DX - 82443BX/ZX/DX Host bridge''\<rparr>,
     \<lparr>dd_vendor = vendor_intel, dd_device = 0x7191, dd_class = class_pci_bridge, dd_text = ''440BX/ZX/DX - 82443BX/ZX/DX AGP bridge''\<rparr>]"

definition bar_is_io_mask :: u32 where "bar_is_io_mask = 0x01"
definition bar_mem_type_mask :: u32 where "bar_mem_type_mask = 0x06"
definition bar_mem_address_mask :: u64 where "bar_mem_address_mask = NOT 15"
definition bar_io_address_mask :: u64 where "bar_io_address_mask = NOT 3"

text \<open>A configuration area is read as 64 double words, which the fields of the \<open>struct\<close> overlay.\<close>

type_synonym config_area = "u32 list"

definition ca_vendor_id :: "config_area \<Rightarrow> u16" where "ca_vendor_id ca = ucast (ca ! 0)"
definition ca_device_id :: "config_area \<Rightarrow> u16" where "ca_device_id ca = ucast (drop_bit 16 (ca ! 0))"
definition ca_dev_class :: "config_area \<Rightarrow> u16" where "ca_dev_class ca = ucast (drop_bit 16 (ca ! 2))"
definition ca_header_type :: "config_area \<Rightarrow> u8" where "ca_header_type ca = ucast (drop_bit 16 (ca ! 3))"
definition ca_primary_bus :: "config_area \<Rightarrow> u8" where "ca_primary_bus ca = ucast (ca ! 6)"
definition ca_secondary_bus :: "config_area \<Rightarrow> u8" where "ca_secondary_bus ca = ucast (drop_bit 8 (ca ! 6))"

definition header_type_device_mask :: u8 where "header_type_device_mask = 0x03"
definition header_type_multi_function_mask :: u8 where "header_type_multi_function_mask = 0x80"

record bar_info =
  bar_address :: u64
  bar_size :: u64

record device_info =
  di_address :: device_address
  di_config :: config_area
  di_bars :: "bar_info list"

definition get_vendor_info :: "u16 \<Rightarrow> (u16 \<times> string) option" where
  "get_vendor_info v = List.find (\<lambda>vi. fst vi = v) known_vendors"

definition get_device_info :: "config_area \<Rightarrow> device_desc option" where
  "get_device_info ca =
     List.find (\<lambda>di. ca_vendor_id ca = dd_vendor di \<and> ca_device_id ca = dd_device di \<and> ca_dev_class ca = dd_class di) known_devices"

text \<open>The line that the search prints for a device.\<close>

definition describe_device :: "device_address \<Rightarrow> config_area \<Rightarrow> bytes res" where
  "describe_device dev_addr ca =
     andThen (put_device_address dev_addr) (\<lambda>a.
     andThen (put_formatted_number (as_hex 2 (ucast (ca_dev_class ca)))) (\<lambda>c.
     andThen (case get_vendor_info (ca_vendor_id ca) of
         Some vi \<Rightarrow> Inr (ascii (snd vi))
       | None \<Rightarrow> andThen (put_formatted_number (as_hex 2 (ucast (ca_vendor_id ca)))) (\<lambda>n. Inr (ascii ''Vendor '' @ n))) (\<lambda>v.
     andThen (case get_device_info ca of
         Some di \<Rightarrow> Inr (ascii (dd_text di))
       | None \<Rightarrow> andThen (put_formatted_number (as_hex 2 (ucast (ca_device_id ca)))) (\<lambda>n. Inr (ascii ''Device '' @ n))) (\<lambda>d.
       Inr (a @ ascii '' '' @ c @ ascii '': '' @ v @ ascii '' '' @ d @ [10])))))"

section \<open>The code: configuration space\<close>

record 'b pci_hw =
  cfg_read :: "u32 \<Rightarrow> 'b \<Rightarrow> u32"
  cfg_write :: "u32 \<Rightarrow> u32 \<Rightarrow> 'b \<Rightarrow> 'b"

record 'b pci_ports =
  pp_config_address :: u32
  pp_space :: 'b

definition config_area_num_dwords :: nat where "config_area_num_dwords = 64"

definition config_word :: "device_address \<Rightarrow> u8 \<Rightarrow> u32" where
  "config_word addr reg = 0x80000000 OR address_word addr OR push_bit 2 (ucast reg)"

definition read_config_dword :: "'b pci_hw \<Rightarrow> device_address \<Rightarrow> u8 \<Rightarrow> ('b, 'z) pci_ports_scheme \<Rightarrow> (u32 \<times> ('b, 'z) pci_ports_scheme) res" where
  "read_config_dword hw addr reg st =
     require (unat reg < config_area_num_dwords) ''reg < config_area_num_dwords'' (
       let st1 = st\<lparr>pp_config_address := config_word addr reg\<rparr>
       in Inr (cfg_read hw (pp_config_address st1) (pp_space st1), st1))"

definition write_config_dword :: "'b pci_hw \<Rightarrow> device_address \<Rightarrow> u8 \<Rightarrow> u32 \<Rightarrow> ('b, 'z) pci_ports_scheme \<Rightarrow> ('b, 'z) pci_ports_scheme res" where
  "write_config_dword hw addr reg value st =
     require (unat reg < config_area_num_dwords) ''reg < config_area_num_dwords'' (
       let st1 = st\<lparr>pp_config_address := config_word addr reg\<rparr>
       in Inr (st1\<lparr>pp_space := cfg_write hw (pp_config_address st1) value (pp_space st1)\<rparr>))"

fun read_dwords :: "'b pci_hw \<Rightarrow> device_address \<Rightarrow> nat \<Rightarrow> nat \<Rightarrow> ('b, 'z) pci_ports_scheme \<Rightarrow> (u32 list \<times> ('b, 'z) pci_ports_scheme) res" where
  "read_dwords hw dev i 0 st = Inr ([], st)"
| "read_dwords hw dev i (Suc n) st =
     andThen (read_config_dword hw dev (of_nat i) st) (\<lambda>(w, st1).
     andThen (read_dwords hw dev (Suc i) n st1) (\<lambda>(ws, st2). Inr (w # ws, st2)))"

definition read_config_area :: "'b pci_hw \<Rightarrow> device_address \<Rightarrow> ('b, 'z) pci_ports_scheme \<Rightarrow> (config_area \<times> ('b, 'z) pci_ports_scheme) res" where
  "read_config_area hw dev st = read_dwords hw dev 0 config_area_num_dwords st"

text \<open>Write all ones to a register, read what sticks, and put the old value back.\<close>

definition probe_bits :: "'b pci_hw \<Rightarrow> device_address \<Rightarrow> u8 \<Rightarrow> u32 \<Rightarrow> ('b, 'z) pci_ports_scheme \<Rightarrow> (u32 \<times> ('b, 'z) pci_ports_scheme) res" where
  "probe_bits hw addr reg orig st =
     andThen (write_config_dword hw addr reg (NOT 0) st) (\<lambda>st1.
     andThen (read_config_dword hw addr reg st1) (\<lambda>(sticky, st2).
     andThen (write_config_dword hw addr reg orig st2) (\<lambda>st3. Inr (sticky, st3))))"

definition bar_size_of :: "u32 \<Rightarrow> u32 \<Rightarrow> u64" where
  "bar_size_of orig sticky =
     (let bar_size = (if orig AND bar_is_io_mask \<noteq> 0 then sticky AND ucast bar_io_address_mask
                      else sticky AND ucast bar_mem_address_mask)
      in ucast (NOT bar_size + 1))"

text \<open>The loop of \<open>read_bars\<close> from register \<open>i\<close> on, with the entries of \<open>res\<close> that are filled.\<close>

function read_bars_from :: "'b pci_hw \<Rightarrow> device_address \<Rightarrow> nat \<Rightarrow> bar_info list \<Rightarrow> ('b, 'z) pci_ports_scheme \<Rightarrow>
     (bar_info list \<times> ('b, 'z) pci_ports_scheme) res" where
  "read_bars_from hw addr i res st =
     (if 6 \<le> i then Inr (res, st)
      else
        let reg = of_nat (4 + i) in
        andThen (read_config_dword hw addr reg st) (\<lambda>(orig, st1).
        if orig = 0 then read_bars_from hw addr (i + 1) res st1
        else
          andThen (probe_bits hw addr reg orig st1) (\<lambda>(sticky, st2).
          let res1 = res @ [\<lparr>bar_address = ucast orig, bar_size = bar_size_of orig sticky\<rparr>] in
          if orig AND bar_is_io_mask = 0 \<and> orig AND bar_mem_type_mask \<noteq> 0 then
            require (orig AND bar_mem_type_mask = 0x4) ''(orig & bar_mem_type_mask) == 0x4'' (
            require (i \<noteq> 5) ''i != 5'' (
            andThen (read_config_dword hw addr (reg + 1) st2) (\<lambda>(extra, st3).
            andThen (probe_bits hw addr (reg + 1) extra st3) (\<lambda>(s, st4).
            let sticky1 = NOT s in
            require (extra = 0) ''extra == 0'' (
            require (sticky1 = 0) ''sticky == 0'' (read_bars_from hw addr (i + 2) res1 st4))))))
          else read_bars_from hw addr (i + 1) res1 st2)))"
  by auto
termination by (relation "measure (\<lambda>(hw, addr, i, res, st). 6 - i)") auto

declare read_bars_from.simps [simp del]

definition read_bars :: "'b pci_hw \<Rightarrow> device_address \<Rightarrow> ('b, 'z) pci_ports_scheme \<Rightarrow> (bar_info list \<times> ('b, 'z) pci_ports_scheme) res" where
  "read_bars hw addr st =
     andThen (read_bars_from hw addr 0 [] st) (\<lambda>(res, st1).
       Inr (res @ replicate (6 - length res) \<lparr>bar_address = 0, bar_size = 0\<rparr>, st1))"

section \<open>The code: the manager\<close>

record 'b pci_manager = "'b pci_ports" +
  pm_devices :: "device_info list"
  pm_log :: bytes

definition pci_bus_master :: "'b pci_hw \<Rightarrow> device_address \<Rightarrow> bool \<Rightarrow> ('b, 'z) pci_ports_scheme \<Rightarrow> ('b, 'z) pci_ports_scheme res" where
  "pci_bus_master hw addr enabled st =
     andThen (read_config_dword hw addr 1 st) (\<lambda>(orig, st1).
     let was_enabled = (orig AND 0x4 \<noteq> 0) in
     if was_enabled \<noteq> enabled then
       write_config_dword hw addr 1 ((orig AND NOT 0x4) OR (if enabled then 0x4 else 0)) st1
     else Inr st1)"

text \<open>One function of a device; \<open>rec\<close> searches the bus behind a bridge. The result is the header type, if there is a
  function.\<close>

definition probe_function ::
  "'b pci_hw \<Rightarrow> (u8 \<Rightarrow> 'b pci_manager \<Rightarrow> 'b pci_manager res) \<Rightarrow> device_address \<Rightarrow> 'b pci_manager \<Rightarrow> (u8 option \<times> 'b pci_manager) res" where
  "probe_function hw rec dev_addr st =
     andThen (read_config_dword hw dev_addr 0 st) (\<lambda>(cfgdw, st1).
     if cfgdw AND 0xffff = 0xffff then Inr (None, st1)
     else
       andThen (read_config_area hw dev_addr st1) (\<lambda>(ca, st2).
       let header_type = ca_header_type ca AND header_type_device_mask in
       andThen
         (if header_type = 0 then
            andThen (describe_device dev_addr ca) (\<lambda>text.
            andThen (read_bars hw dev_addr (st2\<lparr>pm_log := pm_log st2 @ text\<rparr>)) (\<lambda>(bars, st3).
              Inr (st3\<lparr>pm_devices := pm_devices st3 @ [\<lparr>di_address = dev_addr, di_config = ca, di_bars = bars\<rparr>]\<rparr>)))
          else if header_type = 1 then
            require (address_bus dev_addr = ca_primary_bus ca) ''dev_addr.bus() == ca.header1.primary_bus''
              (rec (ca_secondary_bus ca) st2)
          else Inl (Fatal ''false''))
         (\<lambda>st4. Inr (Some (ca_header_type ca), st4))))"

text \<open>A device in a slot: function 0 and, when it says so, the other seven. Their addresses are not those of function 0,
  so that the code's recursion goes no deeper.\<close>

definition probe_slot ::
  "'b pci_hw \<Rightarrow> (u8 \<Rightarrow> 'b pci_manager \<Rightarrow> 'b pci_manager res) \<Rightarrow> device_address \<Rightarrow> 'b pci_manager \<Rightarrow> 'b pci_manager res" where
  "probe_slot hw rec dev_addr st =
     andThen (probe_function hw rec dev_addr st) (\<lambda>(h, st1).
     case h of
       None \<Rightarrow> Inr st1
     | Some header_type \<Rightarrow>
         if address_func dev_addr = 0 \<and> header_type AND header_type_multi_function_mask \<noteq> 0 then
           for_range 1 7 (\<lambda>func st.
             andThen (device_address_new (address_bus dev_addr) (address_slot dev_addr) (of_nat func)) (\<lambda>a.
             andThen (probe_function hw rec a st) (\<lambda>(h, st'). Inr st'))) st1
         else Inr st1)"

text \<open>The bus; the fuel bounds the number of bridges on the way.\<close>

primrec probe_bus :: "nat \<Rightarrow> 'b pci_hw \<Rightarrow> u8 \<Rightarrow> 'b pci_manager \<Rightarrow> 'b pci_manager res" where
  "probe_bus 0 = (\<lambda>hw bus st. Inl No_return)"
| "probe_bus (Suc n) = (\<lambda>hw bus st.
     for_range 0 32 (\<lambda>slot st. andThen (device_address_new bus (of_nat slot) 0) (\<lambda>a. probe_slot hw (probe_bus n hw) a st)) st)"

definition pci_manager_new :: "nat \<Rightarrow> 'b pci_hw \<Rightarrow> 'b pci_ports \<Rightarrow> 'b pci_manager res" where
  "pci_manager_new fuel hw p =
     probe_bus fuel hw 0 \<lparr>pp_config_address = pp_config_address p, pp_space = pp_space p, pm_devices = [], pm_log = []\<rparr>"


section \<open>Addresses\<close>

lemma u8_bit: "bit (x :: u8) n \<Longrightarrow> n < 8"
  using bit_imp_le_length by fastforce

lemma bit_small: "unat (x :: 'a::len word) < 2 ^ k \<Longrightarrow> bit x n \<Longrightarrow> n < k"
proof (rule ccontr)
  assume a: "unat x < 2 ^ k" "bit x n" "\<not> n < k"
  then have "(2 :: nat) ^ k \<le> 2 ^ n" by (intro power_increasing) auto
  then have "drop_bit n (unat x) = 0" using a(1) unfolding drop_bit_eq_div by (intro div_less) linarith
  then have "\<not> bit (unat x) n" by (simp add: bit_iff_odd_drop_bit)
  then show False using a(2) by (simp add: bit_unsigned_iff)
qed

lemma device_address_parts:
  assumes "device_address_new b s f = Inr a"
  shows "address_bus a = b" "address_slot a = s" "address_func a = f"
proof -
  have lt: "s < 32" "f < 8" "address_word a = push_bit 16 (ucast b) OR push_bit 11 (ucast s) OR push_bit 8 (ucast f)"
    using assms by (auto simp: device_address_new_def res_simps)
  have s: "n < 5" if "bit s n" for n using bit_small [of s 5 n] lt(1) that by (simp add: word_less_nat_alt)
  have f: "n < 3" if "bit f n" for n using bit_small [of f 3 n] lt(2) that by (simp add: word_less_nat_alt)
  have m: "(0xFF :: u32) = mask 8" "(0x1F :: u32) = mask 5" "(7 :: u32) = mask 3" by (simp_all add: mask_eq_exp_minus_1)
  show "address_bus a = b"
    unfolding address_bus_def lt(3) m
    by (rule bit_word_eqI) (auto simp: bit_simps dest: s f u8_bit)
  show "address_slot a = s"
    unfolding address_slot_def lt(3) m
    by (rule bit_word_eqI) (auto simp: bit_simps dest: s f u8_bit)
  show "address_func a = f"
    unfolding address_func_def lt(3) m
    by (rule bit_word_eqI) (auto simp: bit_simps dest: s f u8_bit)
qed

section \<open>Sizes of base address registers\<close>

text \<open>Each bit of configuration space keeps what is written to it or is read-only.\<close>

definition rw_bits :: "'b pci_hw \<Rightarrow> (u32 \<Rightarrow> u32) \<Rightarrow> bool" where
  "rw_bits hw m \<longleftrightarrow> (\<forall>a v s b. cfg_read hw b (cfg_write hw a v s) =
     (if b = a then (cfg_read hw a s AND NOT (m a)) OR (v AND m a) else cfg_read hw b s))"

definition same_config :: "'b pci_hw \<Rightarrow> ('b, 'z) pci_ports_scheme \<Rightarrow> ('b, 'z) pci_ports_scheme \<Rightarrow> bool" where
  "same_config hw st st' \<longleftrightarrow> (\<forall>b. cfg_read hw b (pp_space st') = cfg_read hw b (pp_space st)) \<and>
     pci_ports.more st' = pci_ports.more st"

lemma same_config_refl [simp]: "same_config hw st st"
  by (simp add: same_config_def)

lemma same_config_trans: "same_config hw st st' \<Longrightarrow> same_config hw st' st'' \<Longrightarrow> same_config hw st st''"
  by (simp add: same_config_def)

lemma read_config_ok:
  "unat reg < 64 \<Longrightarrow> \<exists>st'. read_config_dword hw addr reg st = Inr (cfg_read hw (config_word addr reg) (pp_space st), st') \<and> same_config hw st st'"
  by (simp add: read_config_dword_def config_area_num_dwords_def Let_def same_config_def)

lemma sticky_bits: "((x AND NOT m) OR (NOT 0 AND m)) = (x OR m :: u32)" "((x OR m) AND NOT m) OR (x AND m) = (x :: u32)"
  by (rule bit_word_eqI; auto simp: bit_simps)+

lemma probe_bits_ok:
  assumes "rw_bits hw m" "unat reg < 64" "orig = cfg_read hw (config_word addr reg) (pp_space st)"
  shows "\<exists>st'. probe_bits hw addr reg orig st = Inr (orig OR m (config_word addr reg), st') \<and> same_config hw st st'"
proof -
  let ?w = "config_word addr reg"
  let ?s1 = "cfg_write hw ?w (NOT 0) (pp_space st)"
  have r1: "cfg_read hw ?w ?s1 = orig OR m ?w" "\<And>b. b \<noteq> ?w \<Longrightarrow> cfg_read hw b ?s1 = cfg_read hw b (pp_space st)"
    using assms(1,3) sticky_bits(1) by (simp_all only: rw_bits_def if_True if_False simp_thms)
  have "cfg_read hw b (cfg_write hw ?w orig ?s1) = cfg_read hw b (pp_space st)" for b
    using assms(1,3) r1 sticky_bits(2) by (cases "b = ?w") (simp_all only: rw_bits_def if_True if_False simp_thms)
  then show ?thesis
    using assms(2) r1(1)
    by (simp add: probe_bits_def read_config_dword_def write_config_dword_def config_area_num_dwords_def Let_def same_config_def)
qed

text \<open>The registers of a device: not set, a 32 bit range of \<open>2 ^ k\<close> bytes, or a 64 bit range whose upper register is 0. The
  low bits of a value are its type, the bits between them and \<open>k\<close> are 0.\<close>

datatype bar = Unset u32 | Bar u32 nat | Wide_bar u32 nat

fun bar_regs :: "bar \<Rightarrow> (u32 \<times> u32) list" where
  "bar_regs (Unset m) = [(0, m)]"
| "bar_regs (Bar v k) = [(v, NOT (mask k))]"
| "bar_regs (Wide_bar v k) = [(v, NOT (mask k)), (0, NOT 0)]"

definition bar_type_bits :: "u32 \<Rightarrow> nat" where
  "bar_type_bits v = (if bit v 0 then 2 else 4)"

definition range_ok :: "u32 \<Rightarrow> nat \<Rightarrow> bool" where
  "range_ok v k \<longleftrightarrow> v \<noteq> 0 \<and> bar_type_bits v \<le> k \<and> k < 32 \<and> v AND mask k = v AND mask (bar_type_bits v)"

fun bar_ok :: "bar \<Rightarrow> bool" where
  "bar_ok (Unset m) = True"
| "bar_ok (Bar v k) = (range_ok v k \<and> (bit v 0 \<or> v AND 6 = 0))"
| "bar_ok (Wide_bar v k) = (range_ok v k \<and> \<not> bit v 0 \<and> v AND 6 = 4)"

fun bar_infos :: "bar \<Rightarrow> bar_info list" where
  "bar_infos (Unset m) = []"
| "bar_infos (Bar v k) = [\<lparr>bar_address = ucast v, bar_size = 2 ^ k\<rparr>]"
| "bar_infos (Wide_bar v k) = [\<lparr>bar_address = ucast v, bar_size = 2 ^ k\<rparr>]"

lemma and_1_bit: "(v :: u32) AND 1 \<noteq> 0 \<longleftrightarrow> bit v 0"
  by (simp add: and_one_eq odd_iff_mod_2_eq_one bit_0)

lemma bar_size_range:
  assumes "range_ok v k"
  shows "bar_size_of v (v OR NOT (mask k)) = 2 ^ k"
proof -
  let ?t = "bar_type_bits v"
  have k: "?t \<le> k" "k < 32" using assms by (simp_all add: range_ok_def)
  have low: "\<not> bit v n" if "?t \<le> n" "n < k" for n
  proof -
    have "bit (v AND mask k) n = bit (v AND mask ?t) n" using assms by (simp add: range_ok_def)
    then show ?thesis using that k(2) by (simp add: bit_and_iff bit_mask_iff)
  qed
  have m: "(15 :: u64) = mask 4" "(3 :: u64) = mask 2" by (simp_all add: mask_eq_exp_minus_1)
  have "(v OR NOT (mask k)) AND ucast (NOT (mask ?t) :: u64) = NOT (mask k)"
    using k low by (intro bit_word_eqI) (auto simp: bit_simps)
  moreover have "(if v AND bar_is_io_mask \<noteq> 0 then (v OR NOT (mask k)) AND ucast bar_io_address_mask
      else (v OR NOT (mask k)) AND ucast bar_mem_address_mask) = (v OR NOT (mask k)) AND ucast (NOT (mask ?t) :: u64)"
    unfolding bar_is_io_mask_def bar_io_address_mask_def bar_mem_address_mask_def m and_1_bit bar_type_bits_def by simp
  moreover have "ucast (mask k + 1 :: u32) = (2 ^ k :: u64)"
  proof -
    have "(mask k + 1 :: u32) = 2 ^ k" by (simp add: mask_eq_exp_minus_1)
    moreover have "ucast ((2 :: u32) ^ k) = (2 ^ k :: u64)"
      using k(2) by (intro bit_word_eqI) (auto simp: bit_simps)
    ultimately show ?thesis by simp
  qed
  ultimately show ?thesis by (simp add: bar_size_of_def Let_def)
qed

fun has_regs :: "'b pci_hw \<Rightarrow> (u32 \<Rightarrow> u32) \<Rightarrow> device_address \<Rightarrow> nat \<Rightarrow> (u32 \<times> u32) list \<Rightarrow> 'b \<Rightarrow> bool" where
  "has_regs hw m addr i [] s = True"
| "has_regs hw m addr i ((v, k) # r) s =
     (cfg_read hw (config_word addr (of_nat (4 + i))) s = v \<and> m (config_word addr (of_nat (4 + i))) = k \<and> has_regs hw m addr (Suc i) r s)"

lemma has_regs_same: "\<forall>b. cfg_read hw b s' = cfg_read hw b s \<Longrightarrow> has_regs hw m addr i r s' = has_regs hw m addr i r s"
  by (induction r arbitrary: i) auto

lemma read_bars_from_ok:
  assumes rw: "rw_bits hw m"
  shows "has_regs hw m addr i (concat (List.map bar_regs bars)) (pp_space st) \<Longrightarrow> list_all bar_ok bars \<Longrightarrow>
    i + length (concat (List.map bar_regs bars)) = 6 \<Longrightarrow>
    \<exists>st'. read_bars_from hw addr i res st = Inr (res @ concat (List.map bar_infos bars), st') \<and> same_config hw st st'"
proof (induction bars arbitrary: i res st)
  case Nil
  then show ?case by (simp add: read_bars_from.simps)
next
  case (Cons b bars)
  let ?reg = "of_nat (4 + i) :: u8"
  have i: "i < 6" using Cons.prems(3) by (cases b) auto
  have small: "unat ?reg < 64" "unat (?reg + 1) < 64"
    using i by (simp_all add: unat_word_ariths(1) unat_of_nat take_bit_eq_mod)
  have next_reg: "?reg + 1 = of_nat (4 + Suc i)" by simp
  obtain st1 where st1: "read_config_dword hw addr ?reg st = Inr (cfg_read hw (config_word addr ?reg) (pp_space st), st1)" "same_config hw st st1"
    using read_config_ok [OF small(1), of hw addr st] by blast
  have regs: "has_regs hw m addr j r (pp_space st') = has_regs hw m addr j r (pp_space st)" if "same_config hw st st'" for st' j r
    using that has_regs_same [of hw "pp_space st'" "pp_space st"] by (simp add: same_config_def)
  show ?case
  proof (cases b)
    case (Unset mk)
    then have "has_regs hw m addr (Suc i) (concat (List.map bar_regs bars)) (pp_space st1)"
      using Cons.prems(1) regs [OF st1(2)] by simp
    from Cons.IH [OF this, of res] obtain st' where
      "read_bars_from hw addr (Suc i) res st1 = Inr (res @ concat (List.map bar_infos bars), st')" "same_config hw st1 st'"
      using Cons.prems Unset by auto
    then show ?thesis using st1 i Cons.prems(1) Unset same_config_trans [OF st1(2)]
      by (subst read_bars_from.simps) (auto simp del: of_nat_add)
  next
    case (Bar v k)
    have v: "cfg_read hw (config_word addr ?reg) (pp_space st) = v" "m (config_word addr ?reg) = NOT (mask k)" "v \<noteq> 0"
      using Cons.prems(1,2) Bar by (auto simp: range_ok_def simp del: of_nat_add)
    have "v = cfg_read hw (config_word addr ?reg) (pp_space st1)" using v(1) st1(2) by (simp add: same_config_def)
    from probe_bits_ok [OF rw small(1) this] obtain st2 where
      st2: "probe_bits hw addr ?reg v st1 = Inr (v OR NOT (mask k), st2)" "same_config hw st1 st2"
      using v(2) by auto
    have sc: "same_config hw st st2" by (rule same_config_trans [OF st1(2) st2(2)])
    have size: "bar_size_of v (v OR NOT (mask k)) = 2 ^ k" using Cons.prems(2) Bar by (intro bar_size_range) simp
    have "has_regs hw m addr (Suc i) (concat (List.map bar_regs bars)) (pp_space st2)"
      using Cons.prems(1) regs [OF sc] Bar by simp
    from Cons.IH [OF this, of "res @ bar_infos b"] obtain st' where
      "read_bars_from hw addr (Suc i) (res @ bar_infos b) st2 = Inr (res @ bar_infos b @ concat (List.map bar_infos bars), st')" "same_config hw st2 st'"
      using Cons.prems Bar by auto
    moreover have "\<not> (v AND bar_is_io_mask = 0 \<and> v AND bar_mem_type_mask \<noteq> 0)"
      using Cons.prems(2) Bar and_1_bit [of v] by (auto simp: bar_is_io_mask_def bar_mem_type_mask_def)
    ultimately show ?thesis using st1(1) st2(1) i v size Bar same_config_trans [OF sc]
      by (subst read_bars_from.simps) (auto simp: Let_def simp del: of_nat_add)
  next
    case (Wide_bar v k)
    let ?w = "config_word addr ?reg" and ?w1 = "config_word addr (?reg + 1)"
    have v: "cfg_read hw ?w (pp_space st) = v" "m ?w = NOT (mask k)" "v \<noteq> 0" "cfg_read hw ?w1 (pp_space st) = 0" "m ?w1 = NOT 0"
      using Cons.prems(1,2) Wide_bar unfolding next_reg by (auto simp: range_ok_def simp del: of_nat_add)
    have "v = cfg_read hw ?w (pp_space st1)" using v(1) st1(2) by (simp add: same_config_def)
    from probe_bits_ok [OF rw small(1) this] obtain st2 where
      st2: "probe_bits hw addr ?reg v st1 = Inr (v OR NOT (mask k), st2)" "same_config hw st1 st2"
      using v(2) by auto
    have sc: "same_config hw st st2" by (rule same_config_trans [OF st1(2) st2(2)])
    obtain st3 where st3: "read_config_dword hw addr (?reg + 1) st2 = Inr (0, st3)" "same_config hw st2 st3"
      using read_config_ok [OF small(2), of hw addr st2] v(4) sc by (auto simp: same_config_def)
    have sc3: "same_config hw st st3" by (rule same_config_trans [OF sc st3(2)])
    have "0 = cfg_read hw ?w1 (pp_space st3)" using v(4) sc3 by (simp add: same_config_def)
    from probe_bits_ok [OF rw small(2) this] obtain st4 where
      st4: "probe_bits hw addr (?reg + 1) 0 st3 = Inr (NOT 0, st4)" "same_config hw st3 st4"
      using v(5) by auto
    have sc4: "same_config hw st st4" by (rule same_config_trans [OF sc3 st4(2)])
    have size: "bar_size_of v (v OR NOT (mask k)) = 2 ^ k" using Cons.prems(2) Wide_bar by (intro bar_size_range) simp
    have "has_regs hw m addr (Suc (Suc i)) (concat (List.map bar_regs bars)) (pp_space st4)"
      using Cons.prems(1) regs [OF sc4] Wide_bar by simp
    from Cons.IH [OF this, of "res @ bar_infos b"] obtain st' where
      "read_bars_from hw addr (Suc (Suc i)) (res @ bar_infos b) st4 = Inr (res @ bar_infos b @ concat (List.map bar_infos bars), st')" "same_config hw st4 st'"
      using Cons.prems Wide_bar by auto
    moreover have "v AND bar_is_io_mask = 0" "v AND bar_mem_type_mask = 4" "i \<noteq> 5"
      using Cons.prems(2,3) Wide_bar and_1_bit [of v] by (auto simp: bar_is_io_mask_def bar_mem_type_mask_def)
    ultimately show ?thesis using st1(1) st2(1) st3(1) st4(1) i v size Wide_bar same_config_trans [OF sc4]
      by (subst read_bars_from.simps) (auto simp: Let_def simp del: of_nat_add)
  qed
qed

definition bars_decode :: "'b pci_hw \<Rightarrow> (u32 \<Rightarrow> u32) \<Rightarrow> device_address \<Rightarrow> bar list \<Rightarrow> 'b \<Rightarrow> bool" where
  "bars_decode hw m addr bars s \<longleftrightarrow>
     has_regs hw m addr 0 (concat (List.map bar_regs bars)) s \<and> list_all bar_ok bars \<and> length (concat (List.map bar_regs bars)) = 6"

lemma length_bar_infos: "length (concat (List.map bar_infos bars)) \<le> length (concat (List.map bar_regs bars))"
proof (induction bars)
  case (Cons b bars)
  then show ?case by (cases b) auto
qed simp

lemma read_bars_ok:
  assumes "rw_bits hw m" "bars_decode hw m addr bars (pp_space st)"
  shows "\<exists>st'. read_bars hw addr st = Inr (take 6 (concat (List.map bar_infos bars) @ replicate 6 \<lparr>bar_address = 0, bar_size = 0\<rparr>), st') \<and>
     same_config hw st st'"
proof -
  obtain st' where "read_bars_from hw addr 0 [] st = Inr (concat (List.map bar_infos bars), st')" "same_config hw st st'"
    using read_bars_from_ok [OF assms(1), of addr 0 bars st "[]"] assms(2) by (auto simp: bars_decode_def)
  moreover have "length (concat (List.map bar_infos bars)) \<le> 6" using length_bar_infos [of bars] assms(2) by (simp add: bars_decode_def)
  ultimately show ?thesis by (simp add: read_bars_def)
qed

section \<open>The devices that are found\<close>

text \<open>What the search sees in a state of configuration space.\<close>

definition config_of :: "'b pci_hw \<Rightarrow> 'b \<Rightarrow> device_address \<Rightarrow> config_area" where
  "config_of hw s a = List.map (\<lambda>j. cfg_read hw (config_word a (of_nat j)) s) [0..<64]"

definition fn_present :: "'b pci_hw \<Rightarrow> 'b \<Rightarrow> device_address \<Rightarrow> bool" where
  "fn_present hw s a \<longleftrightarrow> ca_vendor_id (config_of hw s a) \<noteq> 0xFFFF"

definition fn_kind :: "'b pci_hw \<Rightarrow> 'b \<Rightarrow> device_address \<Rightarrow> u8" where
  "fn_kind hw s a = ca_header_type (config_of hw s a) AND 3"

definition fn_behind :: "'b pci_hw \<Rightarrow> 'b \<Rightarrow> device_address \<Rightarrow> u8" where
  "fn_behind hw s a = ca_secondary_bus (config_of hw s a)"

definition multi_function :: "'b pci_hw \<Rightarrow> 'b \<Rightarrow> device_address \<Rightarrow> bool" where
  "multi_function hw s a \<longleftrightarrow> fn_present hw s a \<and> ca_header_type (config_of hw s a) AND 0x80 \<noteq> 0"

definition fn_address :: "u8 \<Rightarrow> nat \<Rightarrow> nat \<Rightarrow> device_address" where
  "fn_address bus slot func =
     Device_address (push_bit 16 (ucast bus) OR push_bit 11 (ucast (of_nat slot :: u8)) OR push_bit 8 (ucast (of_nat func :: u8)))"

definition slot_functions :: "'b pci_hw \<Rightarrow> 'b \<Rightarrow> u8 \<Rightarrow> nat \<Rightarrow> device_address set" where
  "slot_functions hw s bus slot =
     {fn_address bus slot func |func. func = 0 \<or> func < 8 \<and> multi_function hw s (fn_address bus slot 0)}"

definition bus_functions :: "'b pci_hw \<Rightarrow> 'b \<Rightarrow> u8 \<Rightarrow> device_address set" where
  "bus_functions hw s bus = {a. fn_present hw s a \<and> (\<exists>slot<32. a \<in> slot_functions hw s bus slot)}"

inductive on_bus :: "'b pci_hw \<Rightarrow> 'b \<Rightarrow> u8 \<Rightarrow> u8 \<Rightarrow> bool" for hw s root where
  root_bus: "on_bus hw s root root"
| behind_bridge: "on_bus hw s root bus \<Longrightarrow> a \<in> bus_functions hw s bus \<Longrightarrow> fn_kind hw s a = 1 \<Longrightarrow> on_bus hw s root (fn_behind hw s a)"

text \<open>The functions are devices and bridges, bridges nest at most \<open>n\<close> deep and know the bus they are on, and the base
  address registers of the devices are regular.\<close>

primrec bus_ok :: "nat \<Rightarrow> 'b pci_hw \<Rightarrow> (u32 \<Rightarrow> u32) \<Rightarrow> 'b \<Rightarrow> u8 \<Rightarrow> bool" where
  "bus_ok 0 hw m s bus = False"
| "bus_ok (Suc n) hw m s bus = (\<forall>a\<in>bus_functions hw s bus.
     fn_kind hw s a = 0 \<and> (\<exists>bars. bars_decode hw m a bars s) \<or>
     fn_kind hw s a = 1 \<and> ca_primary_bus (config_of hw s a) = bus \<and> bus_ok n hw m s (fn_behind hw s a))"

text \<open>What the search adds, as the code finds it.\<close>

definition found_at :: "'b pci_hw \<Rightarrow> (u8 \<Rightarrow> device_address set) \<Rightarrow> 'b \<Rightarrow> device_address \<Rightarrow> device_address set" where
  "found_at hw rec s a = (if \<not> fn_present hw s a then {} else if fn_kind hw s a = 0 then {a} else rec (fn_behind hw s a))"

primrec found :: "nat \<Rightarrow> 'b pci_hw \<Rightarrow> 'b \<Rightarrow> u8 \<Rightarrow> device_address set" where
  "found 0 = (\<lambda>hw s bus. {})"
| "found (Suc n) = (\<lambda>hw s bus. \<Union>slot<32. \<Union>(found_at hw (found n hw s) s ` slot_functions hw s bus slot))"

definition searched :: "'b pci_hw \<Rightarrow> 'b \<Rightarrow> device_address set \<Rightarrow> 'b pci_manager \<Rightarrow> bool" where
  "searched hw s A st \<longleftrightarrow> (\<forall>b. cfg_read hw b (pp_space st) = cfg_read hw b s) \<and>
     (\<lambda>d. (di_address d, di_config d)) ` set (pm_devices st) = (\<lambda>a. (a, config_of hw s a)) ` A"

lemma searched_same:
  "searched hw s A st \<Longrightarrow> same_config hw st st' \<Longrightarrow> searched hw s A st'"
proof -
  assume a: "searched hw s A st" "same_config hw st st'"
  then have "pm_devices st' = pm_devices st" by (cases st; cases st') (simp add: same_config_def)
  then show ?thesis using a by (simp add: searched_def same_config_def)
qed

lemma read_dwords_ok:
  "i + n \<le> 64 \<Longrightarrow> \<exists>st'. read_dwords hw dev i n st = Inr (List.map (\<lambda>j. cfg_read hw (config_word dev (of_nat j)) (pp_space st)) [i..<i + n], st') \<and>
     same_config hw st st'"
proof (induction n arbitrary: i st)
  case (Suc n)
  have "unat (of_nat i :: u8) < 64" using Suc.prems by (simp add: unat_of_nat take_bit_eq_mod)
  from read_config_ok [OF this, of hw dev st] obtain st1 where
    st1: "read_config_dword hw dev (of_nat i) st = Inr (cfg_read hw (config_word dev (of_nat i)) (pp_space st), st1)" "same_config hw st st1"
    by blast
  obtain st2 where
    "read_dwords hw dev (Suc i) n st1 = Inr (List.map (\<lambda>j. cfg_read hw (config_word dev (of_nat j)) (pp_space st1)) [Suc i..<Suc i + n], st2)" "same_config hw st1 st2"
    using Suc.IH [of "Suc i" st1] Suc.prems by auto
  then show ?case using st1 same_config_trans [OF st1(2)]
    by (simp add: upt_conv_Cons same_config_def del: upt_Suc)
qed simp

lemma read_config_area_ok:
  assumes "searched hw s A st"
  shows "\<exists>st'. read_config_area hw a st = Inr (config_of hw s a, st') \<and> searched hw s A st'"
  using read_dwords_ok [of 0 64 hw a st] searched_same [OF assms] assms
  by (auto simp: read_config_area_def config_area_num_dwords_def config_of_def searched_def)

lemma hex_total: "fn_base f = 16 \<Longrightarrow> \<exists>t. put_formatted_number f = Inr t"
proof -
  have f: "\<exists>ds. format_number n 16 w c = Inr ds" for n w c
    using format_loop_64 [of 16 n] by (auto simp: format_number_def)
  assume b: "fn_base f = 16"
  show ?thesis
  proof (cases "fn_width f = 16 \<and> fn_fill f = 48")
    case True
    obtain hi lo where "format_number (drop_bit 32 (fn_num f)) 16 8 48 = Inr hi" "format_number (fn_num f AND 0xffffffff) 16 8 48 = Inr lo"
      using f by blast
    then show ?thesis using b True by (simp add: put_formatted_number_def)
  next
    case False
    then show ?thesis using b f [of "fn_num f" "fn_width f" "fn_fill f"] by (auto simp: put_formatted_number_def)
  qed
qed

lemma describe_total: "\<exists>t. describe_device a ca = Inr t"
proof -
  have h: "\<exists>t. put_formatted_number (as_hex n i) = Inr t" "\<exists>t. put_formatted_number ((as_hex n i)\<lparr>fn_width := 1\<rparr>) = Inr t" for n i
    by (rule hex_total; simp add: as_hex_def)+
  obtain b s f c v d where "put_formatted_number (as_hex 1 (ucast (address_bus a))) = Inr b"
      "put_formatted_number (as_hex 1 (ucast (address_slot a))) = Inr s"
      "put_formatted_number ((as_hex 1 (ucast (address_func a)))\<lparr>fn_width := 1\<rparr>) = Inr f"
      "put_formatted_number (as_hex 2 (ucast (ca_dev_class ca))) = Inr c"
      "put_formatted_number (as_hex 2 (ucast (ca_vendor_id ca))) = Inr v"
      "put_formatted_number (as_hex 2 (ucast (ca_device_id ca))) = Inr d"
    using h by meson
  then show ?thesis by (simp add: describe_device_def put_device_address_def split: option.split)
qed

lemma low16: "(x :: u32) AND 0xffff = 0xffff \<longleftrightarrow> (ucast x :: u16) = 0xffff"
proof -
  have m: "(0xffff :: u32) = mask 16" "(0xffff :: u16) = mask 16" by (simp_all add: mask_eq_exp_minus_1)
  have "x AND mask 16 = mask 16 \<longleftrightarrow> (\<forall>n<32. (bit x n \<and> n < 16) = (n < 16))"
    by (auto simp: bit_eq_iff bit_simps)
  also have "\<dots> \<longleftrightarrow> (\<forall>n<16. bit x n)"
  proof (rule iffI; intro allI impI)
    fix n :: nat
    assume h: "\<forall>n<32. (bit x n \<and> n < 16) = (n < 16)" "n < 16"
    then have "n < 32" by simp
    with h show "bit x n" by blast
  next
    fix n :: nat
    assume "\<forall>n<16. bit x n"
    then show "(bit x n \<and> n < 16) = (n < 16)" by (cases "n < 16") simp_all
  qed
  finally have "x AND mask 16 = mask 16 \<longleftrightarrow> (\<forall>n<16. bit x n)" .
  moreover have "(ucast x :: u16) = mask 16 \<longleftrightarrow> (\<forall>n<16. bit x n)"
    by (auto simp: bit_eq_iff bit_simps)
  ultimately show ?thesis unfolding m by simp
qed

lemma probe_function_ok:
  assumes rw: "rw_bits hw m" and st: "searched hw s A st"
    and rec: "\<And>st A. searched hw s A st \<Longrightarrow> fn_present hw s a \<Longrightarrow> fn_kind hw s a = 1 \<Longrightarrow>
        \<exists>st'. rec (fn_behind hw s a) st = Inr st' \<and> searched hw s (A \<union> F (fn_behind hw s a)) st'"
    and ok: "fn_present hw s a \<Longrightarrow> fn_kind hw s a = 0 \<and> (\<exists>bars. bars_decode hw m a bars s) \<or>
        fn_kind hw s a = 1 \<and> ca_primary_bus (config_of hw s a) = address_bus a"
  shows "\<exists>st'. probe_function hw rec a st = Inr (if fn_present hw s a then Some (ca_header_type (config_of hw s a)) else None, st') \<and>
     searched hw s (A \<union> found_at hw F s a) st'"
proof -
  have "unat (0 :: u8) < 64" by simp
  from read_config_ok [OF this, of hw a st] obtain st1 where
    st1: "read_config_dword hw a 0 st = Inr (cfg_read hw (config_word a 0) s, st1)" "searched hw s A st1"
    using searched_same [OF st] st by (auto simp: searched_def)
  have first: "config_of hw s a ! 0 = cfg_read hw (config_word a 0) s" by (simp add: config_of_def)
  have pres: "cfg_read hw (config_word a 0) s AND 0xffff = 0xffff \<longleftrightarrow> \<not> fn_present hw s a"
    using low16 [of "config_of hw s a ! 0"] first by (simp add: fn_present_def ca_vendor_id_def)
  show ?thesis
  proof (cases "fn_present hw s a")
    case False
    then show ?thesis using st1 pres by (simp add: probe_function_def found_at_def)
  next
    case True
    obtain st2 where st2: "read_config_area hw a st1 = Inr (config_of hw s a, st2)" "searched hw s A st2"
      using read_config_area_ok [OF st1(2), of a] by blast
    show ?thesis
    proof (cases "fn_kind hw s a = 0")
      case kind: True
      then obtain bars where bars: "bars_decode hw m a bars s" using ok [OF True] by auto
      obtain out where out: "describe_device a (config_of hw s a) = Inr out" using describe_total by blast
      let ?st2 = "st2\<lparr>pm_log := pm_log st2 @ out\<rparr>"
      have s2: "searched hw s A ?st2" using st2(2) by (simp add: searched_def)
      then have "bars_decode hw m a bars (pp_space ?st2)"
        using bars has_regs_same [of hw "pp_space ?st2" s] by (simp add: bars_decode_def searched_def)
      from read_bars_ok [OF rw this] obtain bs st3 where st3: "read_bars hw a ?st2 = Inr (bs, st3)" "same_config hw ?st2 st3" by blast
      have "searched hw s A st3" by (rule searched_same [OF s2 st3(2)])
      then show ?thesis using st1 st2 out st3 True kind pres
        by (simp add: probe_function_def found_at_def fn_kind_def header_type_device_mask_def Let_def searched_def)
    next
      case False
      then have kind: "fn_kind hw s a = 1" "ca_primary_bus (config_of hw s a) = address_bus a" using ok [OF True] by auto
      obtain st3 where "rec (fn_behind hw s a) st2 = Inr st3" "searched hw s (A \<union> F (fn_behind hw s a)) st3"
        using rec [OF st2(2) True kind(1)] by blast
      then show ?thesis using st1 st2 True kind pres
        by (simp add: probe_function_def found_at_def fn_kind_def fn_behind_def header_type_device_mask_def Let_def)
    qed
  qed
qed


lemma probe_slot_ok:
  assumes rw: "rw_bits hw m" and st: "searched hw s A st" and slot: "slot < 32"
    and rec: "\<And>a st A. searched hw s A st \<Longrightarrow> a \<in> bus_functions hw s bus \<Longrightarrow> fn_kind hw s a = 1 \<Longrightarrow>
        \<exists>st'. rec (fn_behind hw s a) st = Inr st' \<and> searched hw s (A \<union> F (fn_behind hw s a)) st'"
    and ok: "\<And>a. a \<in> bus_functions hw s bus \<Longrightarrow> fn_kind hw s a = 0 \<and> (\<exists>bars. bars_decode hw m a bars s) \<or>
        fn_kind hw s a = 1 \<and> ca_primary_bus (config_of hw s a) = bus"
  shows "\<exists>st'. probe_slot hw rec (fn_address bus slot 0) st = Inr st' \<and>
     searched hw s (A \<union> \<Union>(found_at hw F s ` slot_functions hw s bus slot)) st'"
proof -
  have sl: "unat (of_nat slot :: u8) = slot" using slot by (simp add: unat_of_nat take_bit_eq_mod)
  have new: "device_address_new bus (of_nat slot) (of_nat f) = Inr (fn_address bus slot f)" if "f < 8" for f
    using that slot sl by (simp add: device_address_new_def fn_address_def word_less_nat_alt unat_of_nat take_bit_eq_mod)
  have parts: "address_bus (fn_address bus slot f) = bus" "address_slot (fn_address bus slot f) = of_nat slot"
    "address_func (fn_address bus slot f) = of_nat f" if "f < 8" for f
    using device_address_parts [OF new [OF that]] by simp_all
  have one: "\<exists>st'. probe_function hw rec a st = Inr (if fn_present hw s a then Some (ca_header_type (config_of hw s a)) else None, st') \<and>
      searched hw s (A \<union> found_at hw F s a) st'"
    if "a = fn_address bus slot f" "f < 8" "f = 0 \<or> multi_function hw s (fn_address bus slot 0)" "searched hw s A st" for a f st A
  proof (rule probe_function_ok [OF rw that(4)])
    have a: "a \<in> bus_functions hw s bus" if "fn_present hw s a"
      using that \<open>a = _\<close> \<open>f < 8\<close> \<open>f = 0 \<or> _\<close> slot by (auto simp: bus_functions_def slot_functions_def)
    show "fn_kind hw s a = 0 \<and> (\<exists>bars. bars_decode hw m a bars s) \<or> fn_kind hw s a = 1 \<and> ca_primary_bus (config_of hw s a) = address_bus a"
      if "fn_present hw s a" using ok [OF a [OF that]] parts(1) \<open>a = _\<close> \<open>f < 8\<close> by simp
    show "\<exists>st'. rec (fn_behind hw s a) st = Inr st' \<and> searched hw s (A \<union> F (fn_behind hw s a)) st'"
      if "searched hw s A st" "fn_present hw s a" "fn_kind hw s a = 1" for st A
      using rec [OF that(1) a [OF that(2)] that(3)] .
  qed
  let ?a0 = "fn_address bus slot 0"
  obtain st1 where st1: "probe_function hw rec ?a0 st = Inr (if fn_present hw s ?a0 then Some (ca_header_type (config_of hw s ?a0)) else None, st1)"
      "searched hw s (A \<union> found_at hw F s ?a0) st1"
    using one [of ?a0 0 A st] st by auto
  have f0: "address_func ?a0 = 0" using parts(3) [of 0] by simp
  show ?thesis
  proof (cases "multi_function hw s ?a0")
    case False
    then have "slot_functions hw s bus slot = {?a0}" by (auto simp: slot_functions_def)
    moreover have "probe_slot hw rec ?a0 st = Inr st1"
      using False st1(1) by (auto simp: probe_slot_def multi_function_def header_type_multi_function_mask_def)
    ultimately show ?thesis using st1(2) by simp
  next
    case True
    let ?step = "\<lambda>func st. andThen (device_address_new (address_bus ?a0) (address_slot ?a0) (of_nat func)) (\<lambda>a.
       andThen (probe_function hw rec a st) (\<lambda>(h, st'). Inr st'))"
    let ?P = "\<lambda>i st. searched hw s (A \<union> \<Union>(found_at hw F s ` fn_address bus slot ` {..<i})) st"
    have "\<exists>st'. for_range 1 7 ?step st1 = Inr st' \<and> ?P (1 + 7) st'"
    proof (rule for_range_inv)
      show "?P 1 st1" using st1(2) by (simp add: lessThan_Suc)
      fix i st2 assume i: "1 \<le> i" "i < 1 + 7" "?P i st2"
      obtain st3 h where "probe_function hw rec (fn_address bus slot i) st2 = Inr (h, st3)"
          "searched hw s (A \<union> \<Union>(found_at hw F s ` fn_address bus slot ` {..<i}) \<union> found_at hw F s (fn_address bus slot i)) st3"
        using one [OF refl _ _ i(3), of i] i(2) True by auto
      then show "\<exists>st'. ?step i st2 = Inr st' \<and> ?P (Suc i) st'"
        using new [of i] i(2) parts(1,2) [of 0] by (simp add: lessThan_Suc Un_ac)
    qed
    then obtain st' where st': "for_range 1 7 ?step st1 = Inr st'" "?P 8 st'" by auto
    have "slot_functions hw s bus slot = fn_address bus slot ` {..<8}"
      using True by (auto simp: slot_functions_def)
    moreover have "probe_slot hw rec ?a0 st = Inr st'"
      using True st1(1) st'(1) f0 by (simp add: probe_slot_def multi_function_def header_type_multi_function_mask_def)
    ultimately show ?thesis using st'(2) by simp
  qed
qed

lemma probe_bus_ok:
  assumes rw: "rw_bits hw m"
  shows "bus_ok n hw m s bus \<Longrightarrow> searched hw s A st \<Longrightarrow>
    \<exists>st'. probe_bus n hw bus st = Inr st' \<and> searched hw s (A \<union> found n hw s bus) st'"
proof (induction n arbitrary: bus st A)
  case (Suc n)
  let ?step = "\<lambda>slot st. andThen (device_address_new bus (of_nat slot) 0) (\<lambda>a. probe_slot hw (probe_bus n hw) a st)"
  let ?P = "\<lambda>i st. searched hw s (A \<union> (\<Union>slot<i. \<Union>(found_at hw (found n hw s) s ` slot_functions hw s bus slot))) st"
  have "\<exists>st'. for_range 0 32 ?step st = Inr st' \<and> ?P (0 + 32) st'"
  proof (rule for_range_inv)
    show "?P 0 st" using Suc.prems(2) by simp
    fix i st1 assume i: "i < 0 + 32" "?P i st1"
    have new: "device_address_new bus (of_nat i) 0 = Inr (fn_address bus i 0)"
      using i(1) by (simp add: device_address_new_def fn_address_def word_less_nat_alt unat_of_nat take_bit_eq_mod)
    obtain st2 where "probe_slot hw (probe_bus n hw) (fn_address bus i 0) st1 = Inr st2"
        "searched hw s (A \<union> (\<Union>slot<i. \<Union>(found_at hw (found n hw s) s ` slot_functions hw s bus slot)) \<union>
           \<Union>(found_at hw (found n hw s) s ` slot_functions hw s bus i)) st2"
    proof -
      have "\<exists>st'. probe_bus n hw (fn_behind hw s a) st = Inr st' \<and> searched hw s (A \<union> found n hw s (fn_behind hw s a)) st'"
        if "searched hw s A st" "a \<in> bus_functions hw s bus" "fn_kind hw s a = 1" for a st A
        using Suc.IH [OF _ that(1)] Suc.prems(1) that(2,3) by force
      moreover have "fn_kind hw s a = 0 \<and> (\<exists>bars. bars_decode hw m a bars s) \<or> fn_kind hw s a = 1 \<and> ca_primary_bus (config_of hw s a) = bus"
        if "a \<in> bus_functions hw s bus" for a using Suc.prems(1) that by auto
      ultimately have "\<exists>st'. probe_slot hw (probe_bus n hw) (fn_address bus i 0) st1 = Inr st' \<and>
          searched hw s (A \<union> (\<Union>slot<i. \<Union>(found_at hw (found n hw s) s ` slot_functions hw s bus slot)) \<union>
           \<Union>(found_at hw (found n hw s) s ` slot_functions hw s bus i)) st'"
        using i(1) by (intro probe_slot_ok [OF rw i(2)]) simp_all
      then show ?thesis using that by blast
    qed
    then show "\<exists>st'. ?step i st1 = Inr st' \<and> ?P (Suc i) st'"
      using new by (simp add: lessThan_Suc Un_ac)
  qed
  then show ?case by simp
qed simp

lemma on_bus_start:
  assumes "a \<in> bus_functions hw s root" "fn_kind hw s a = 1" "on_bus hw s (fn_behind hw s a) bus"
  shows "on_bus hw s root bus"
  using assms(3)
proof (induction rule: on_bus.induct)
  case root_bus
  show ?case by (rule on_bus.behind_bridge [OF on_bus.root_bus assms(1,2)])
next
  case (behind_bridge bus b)
  then show ?case by (intro on_bus.behind_bridge)
qed

lemma on_bus_first:
  "on_bus hw s root bus \<Longrightarrow> bus = root \<or> (\<exists>a\<in>bus_functions hw s root. fn_kind hw s a = 1 \<and> on_bus hw s (fn_behind hw s a) bus)"
proof (induction rule: on_bus.induct)
  case (behind_bridge bus b)
  then show ?case using on_bus.root_bus on_bus.behind_bridge by metis
qed simp

lemma found_reachable:
  "bus_ok n hw m s root \<Longrightarrow> found n hw s root = {a. \<exists>bus. on_bus hw s root bus \<and> a \<in> bus_functions hw s bus \<and> fn_kind hw s a = 0}"
proof (induction n arbitrary: root)
  case (Suc n)
  have f: "x \<in> found (Suc n) hw s root \<longleftrightarrow> (\<exists>a\<in>bus_functions hw s root. if fn_kind hw s a = 0 then x = a else x \<in> found n hw s (fn_behind hw s a))" for x
    by (auto simp: bus_functions_def found_at_def split: if_splits)
  show ?case
  proof (intro set_eqI iffI)
    fix x assume "x \<in> found (Suc n) hw s root"
    then obtain a where a: "a \<in> bus_functions hw s root" "if fn_kind hw s a = 0 then x = a else x \<in> found n hw s (fn_behind hw s a)"
      using f by blast
    show "x \<in> {a. \<exists>bus. on_bus hw s root bus \<and> a \<in> bus_functions hw s bus \<and> fn_kind hw s a = 0}"
    proof (cases "fn_kind hw s a = 0")
      case True
      then have "x = a" using a(2) by simp
      then show ?thesis using a(1) True on_bus.root_bus [of hw s root] by blast
    next
      case False
      then have b: "fn_kind hw s a = 1" "bus_ok n hw m s (fn_behind hw s a)" using a(1) Suc.prems by auto
      have "x \<in> found n hw s (fn_behind hw s a)" using a(2) False by simp
      then obtain bus where "on_bus hw s (fn_behind hw s a) bus" "x \<in> bus_functions hw s bus" "fn_kind hw s x = 0"
        unfolding Suc.IH [OF b(2)] by blast
      then show ?thesis using on_bus_start [OF a(1) b(1)] by blast
    qed
  next
    fix x assume "x \<in> {a. \<exists>bus. on_bus hw s root bus \<and> a \<in> bus_functions hw s bus \<and> fn_kind hw s a = 0}"
    then obtain bus where x: "on_bus hw s root bus" "x \<in> bus_functions hw s bus" "fn_kind hw s x = 0" by blast
    from on_bus_first [OF x(1)] show "x \<in> found (Suc n) hw s root"
    proof
      assume "bus = root"
      then show ?thesis using f x by auto
    next
      assume "\<exists>a\<in>bus_functions hw s root. fn_kind hw s a = 1 \<and> on_bus hw s (fn_behind hw s a) bus"
      then obtain a where a: "a \<in> bus_functions hw s root" "fn_kind hw s a = 1" "on_bus hw s (fn_behind hw s a) bus" by blast
      then have "bus_ok n hw m s (fn_behind hw s a)" using Suc.prems by auto
      then have "x \<in> found n hw s (fn_behind hw s a)" using Suc.IH x a(3) by blast
      then show ?thesis unfolding f by (intro bexI [OF _ a(1)]) (simp add: a(2))
    qed
  qed
qed simp

text \<open>base address registers are measured and left alone: on hardware whose configuration bits each keep what is written
  to them or are read-only, \<open>read_bars\<close> gives the value and the exact size of each range that is set, 64 bit ranges with
  an upper register of 0 included, in order and padded with zeros, and every register reads as before.\<close>

theorem read_bars_sizes:
  assumes "rw_bits hw m" "bars_decode hw m addr bars (pp_space st)"
  shows "\<exists>st'. read_bars hw addr st = Inr (take 6 (concat (List.map bar_infos bars) @ replicate 6 \<lparr>bar_address = 0, bar_size = 0\<rparr>), st') \<and>
     (\<forall>b. cfg_read hw b (pp_space st') = cfg_read hw b (pp_space st))"
  using read_bars_ok [OF assms] unfolding same_config_def by blast



section \<open>Witnesses\<close>

text \<open>A machine with a device in slot 0 that has a memory range of 16 bytes at \<open>0xF0000000\<close>, and a bridge to bus 1, which
  is empty, in slot 1.\<close>

definition demo_space :: "u32 \<Rightarrow> u32" where
  "demo_space w = (case map_of [(0x80000000, 0x71908086), (0x8000000C, 0), (0x80000010, 0xF0000000), (0x80000014, 0), (0x80000018, 0),
     (0x8000001C, 0), (0x80000020, 0), (0x80000024, 0), (0x80000800, 0x71918086), (0x8000080C, 0x00010000), (0x80000818, 0x00000100)] w
     of Some v \<Rightarrow> v | None \<Rightarrow> 0xFFFFFFFF)"

definition demo_bits :: "u32 \<Rightarrow> u32" where
  "demo_bits w = (if w = 0x80000010 then NOT (mask 4) else 0)"

definition demo_hw :: "(u32 \<Rightarrow> u32) pci_hw" where
  "demo_hw = \<lparr>cfg_read = (\<lambda>w s. s w), cfg_write = (\<lambda>w v s. s(w := (s w AND NOT (demo_bits w)) OR (v AND demo_bits w)))\<rparr>"

lemma demo_hw: "rw_bits demo_hw demo_bits"
  by (simp only: rw_bits_def demo_hw_def pci_hw.simps fun_upd_apply) blast

lemma demo_host_bars: "bars_decode demo_hw demo_bits (Device_address 0) [Bar 0xF0000000 4, Unset 0, Unset 0, Unset 0, Unset 0, Unset 0] demo_space"
  by code_simp

theorem read_bars_sizes_witness:
  "\<exists>st'. read_bars demo_hw (Device_address 0) \<lparr>pp_config_address = 0, pp_space = demo_space\<rparr> =
       Inr (\<lparr>bar_address = 0xF0000000, bar_size = 16\<rparr> # replicate 5 \<lparr>bar_address = 0, bar_size = 0\<rparr>, st') \<and>
     pp_space st' = demo_space"
proof -
  let ?st = "\<lparr>pp_config_address = 0, pp_space = demo_space\<rparr>"
  have "bars_decode demo_hw demo_bits (Device_address 0) [Bar 0xF0000000 4, Unset 0, Unset 0, Unset 0, Unset 0, Unset 0] (pp_space ?st)"
    using demo_host_bars by simp
  from read_bars_sizes [OF demo_hw this] obtain st' where
    st': "read_bars demo_hw (Device_address 0) ?st = Inr (take 6 (concat (List.map bar_infos [Bar 0xF0000000 4, Unset 0, Unset 0, Unset 0, Unset 0, Unset 0]) @
      replicate 6 \<lparr>bar_address = 0, bar_size = 0\<rparr>), st')" "\<forall>b. cfg_read demo_hw b (pp_space st') = cfg_read demo_hw b (pp_space ?st)"
    by blast
  have "pp_space st' = demo_space" using st'(2) by (simp add: demo_hw_def fun_eq_iff)
  moreover have "take 6 (concat (List.map bar_infos [Bar 0xF0000000 4, Unset 0, Unset 0, Unset 0, Unset 0, Unset 0]) @
      replicate 6 \<lparr>bar_address = 0, bar_size = 0\<rparr>) = \<lparr>bar_address = 0xF0000000, bar_size = 16\<rparr> # replicate 5 \<lparr>bar_address = 0, bar_size = 0\<rparr>"
    by code_simp
  ultimately show ?thesis using st'(1) by (intro exI [of _ st']) simp
qed

lemma demo_present: "fn_present demo_hw demo_space a \<longleftrightarrow> demo_space (config_word a 0) AND 0xffff \<noteq> 0xffff"
proof -
  have "config_of demo_hw demo_space a ! 0 = demo_space (config_word a 0)" by (simp add: config_of_def demo_hw_def)
  then show ?thesis using low16 [of "config_of demo_hw demo_space a ! 0"] by (simp add: fn_present_def ca_vendor_id_def)
qed

lemma fn_address_word:
  assumes "slot < 32" "func < 8"
  shows "config_word (fn_address bus slot func) 0 AND 0x00FFFF00 = address_word (fn_address bus slot func)"
    "address_bus (fn_address bus slot func) = bus"
proof -
  have s: "n < 5" if "bit (of_nat slot :: u8) n" for n
    using bit_small [of "of_nat slot :: u8" 5 n] assms(1) that by (simp add: unat_of_nat take_bit_eq_mod)
  have f: "n < 3" if "bit (of_nat func :: u8) n" for n
    using bit_small [of "of_nat func :: u8" 3 n] assms(2) that by (simp add: unat_of_nat take_bit_eq_mod)
  have m: "(0x00FFFF00 :: u32) = push_bit 8 (mask 16)" by (simp add: mask_eq_exp_minus_1 push_bit_eq_mult)
  have "address_word (fn_address bus slot func) AND 0x00FFFF00 = address_word (fn_address bus slot func)"
    unfolding fn_address_def m device_address.sel by (rule bit_word_eqI) (auto simp: bit_simps dest: s f u8_bit)
  then show "config_word (fn_address bus slot func) 0 AND 0x00FFFF00 = address_word (fn_address bus slot func)"
    by (simp add: config_word_def bit.conj_disj_distrib2)
  have "device_address_new bus (of_nat slot) (of_nat func) = Inr (fn_address bus slot func)"
    using assms by (simp add: device_address_new_def fn_address_def word_less_nat_alt unat_of_nat take_bit_eq_mod)
  then show "address_bus (fn_address bus slot func) = bus" by (rule device_address_parts)
qed

lemma demo_functions:
  "bus_functions demo_hw demo_space 0 = {Device_address 0, Device_address 0x800}" "bus_functions demo_hw demo_space 1 = {}"
proof -
  have words: "w AND 0x00FFFF00 = 0 \<or> w AND 0x00FFFF00 = 0x800" if "demo_space w AND 0xffff \<noteq> 0xffff" for w
    using that by (auto simp: demo_space_def split: if_splits)
  have sub: "a \<in> {Device_address 0, Device_address 0x800} \<and> address_bus a = bus"
    if a: "a \<in> bus_functions demo_hw demo_space bus" for a bus
  proof -
    obtain slot where slot: "slot < 32" "a \<in> slot_functions demo_hw demo_space bus slot" "fn_present demo_hw demo_space a"
      using a unfolding bus_functions_def by blast
    obtain func where x: "func < 8" "a = fn_address bus slot func"
      using slot(2) unfolding slot_functions_def by (auto intro: that [of 0])
    have "address_word a = config_word a 0 AND 0x00FFFF00" using fn_address_word(1) [OF slot(1) x(1), of bus] x(2) by simp
    moreover have "demo_space (config_word a 0) AND 0xffff \<noteq> 0xffff" using slot(3) unfolding demo_present .
    ultimately have "address_word a = 0 \<or> address_word a = 0x800" using words [of "config_word a 0"] by simp
    then have "a = Device_address 0 \<or> a = Device_address 0x800" by (metis device_address.collapse)
    then show ?thesis using fn_address_word(2) [OF slot(1) x(1), of bus] x(2) by auto
  qed
  have a: "fn_address 0 0 0 = Device_address 0" "fn_address 0 1 0 = Device_address 0x800" by (simp_all add: fn_address_def)
  have p: "fn_present demo_hw demo_space (Device_address 0)" "fn_present demo_hw demo_space (Device_address 0x800)"
    unfolding demo_present by (simp_all add: config_word_def demo_space_def)
  have b: "address_bus (Device_address 0) = 0" "address_bus (Device_address 0x800) = 0" by (simp_all add: address_bus_def)
  show "bus_functions demo_hw demo_space 1 = {}" using sub [of _ 1] b by force
  show "bus_functions demo_hw demo_space 0 = {Device_address 0, Device_address 0x800}"
  proof (intro equalityI subsetI)
    fix x assume x: "x \<in> {Device_address 0, Device_address 0x800}"
    have "Device_address 0 \<in> slot_functions demo_hw demo_space 0 0" "Device_address 0x800 \<in> slot_functions demo_hw demo_space 0 1"
      unfolding slot_functions_def using a by (auto intro: exI [of _ 0])
    then show "x \<in> bus_functions demo_hw demo_space 0" using x p unfolding bus_functions_def
      by (auto intro: exI [of _ 0] exI [of _ 1])
  qed (use sub in blast)
qed

lemma demo_kinds:
  "fn_kind demo_hw demo_space (Device_address 0) = 0" "fn_kind demo_hw demo_space (Device_address 0x800) = 1"
  "fn_behind demo_hw demo_space (Device_address 0x800) = 1" "ca_primary_bus (config_of demo_hw demo_space (Device_address 0x800)) = 0"
  by (simp_all add: fn_kind_def fn_behind_def ca_header_type_def ca_secondary_bus_def ca_primary_bus_def config_of_def demo_hw_def
    config_word_def demo_space_def)


end
