(* ===== verification/I825x.thy ===== *)
theory I825x
  imports NetTypes Pci BoundedQueue
begin

text \<open>
  The driver of Intel's 8254x Ethernet cards, \<open>kernel/i825x.cpp\<close>. The card is a parameter: its state \<open>'h\<close>, what reading and
  writing a register does, and what it does to the memory it shares with the driver while time passes. Time passes in
  a delay, in a halt and before each look at a receive descriptor; what the card does at other times has the same effect
  as if it did it at the next of these points.
\<close>

section \<open>The code: registers\<close>

definition reg_CTRL :: u32 where "reg_CTRL = 0x00000"
definition reg_STATUS :: u32 where "reg_STATUS = 0x00008"
definition reg_ICR :: u32 where "reg_ICR = 0x000C0"
definition reg_IMS :: u32 where "reg_IMS = 0x000D0"
definition reg_IMC :: u32 where "reg_IMC = 0x000D8"
definition reg_RCTL :: u32 where "reg_RCTL = 0x00100"
definition reg_TCTL :: u32 where "reg_TCTL = 0x00400"
definition reg_RDBAL0 :: u32 where "reg_RDBAL0 = 0x02800"
definition reg_RDBAH0 :: u32 where "reg_RDBAH0 = 0x02804"
definition reg_RDLEN0 :: u32 where "reg_RDLEN0 = 0x02808"
definition reg_RDH0 :: u32 where "reg_RDH0 = 0x02810"
definition reg_RDT0 :: u32 where "reg_RDT0 = 0x02818"
definition reg_TDBAL0 :: u32 where "reg_TDBAL0 = 0x03800"
definition reg_TDBAH0 :: u32 where "reg_TDBAH0 = 0x03804"
definition reg_TDLEN0 :: u32 where "reg_TDLEN0 = 0x03808"
definition reg_TDH0 :: u32 where "reg_TDH0 = 0x03810"
definition reg_TDT0 :: u32 where "reg_TDT0 = 0x03818"
definition reg_TXDCTL0 :: u32 where "reg_TXDCTL0 = 0x03828"
definition reg_MTA :: u32 where "reg_MTA = 0x05200"
definition reg_RAL0 :: u32 where "reg_RAL0 = 0x05400"
definition reg_RAH0 :: u32 where "reg_RAH0 = 0x05404"

lemmas reg_defs = reg_CTRL_def reg_STATUS_def reg_ICR_def reg_IMS_def reg_IMC_def reg_RCTL_def reg_TCTL_def reg_RDBAL0_def
  reg_RDBAH0_def reg_RDLEN0_def reg_RDH0_def reg_RDT0_def reg_TDBAL0_def reg_TDBAH0_def reg_TDLEN0_def reg_TDH0_def reg_TDT0_def
  reg_TXDCTL0_def reg_MTA_def reg_RAL0_def reg_RAH0_def

definition CTRL_LRST :: u32 where "CTRL_LRST = 0x00000008"
definition CTRL_ASDE :: u32 where "CTRL_ASDE = 0x00000020"
definition CTRL_SLU :: u32 where "CTRL_SLU = 0x00000040"
definition CTRL_ILOS :: u32 where "CTRL_ILOS = 0x00000080"
definition CTRL_RST :: u32 where "CTRL_RST = 0x04000000"
definition CTRL_VME :: u32 where "CTRL_VME = 0x40000000"
definition CTRL_PHY_RST :: u32 where "CTRL_PHY_RST = 0x80000000"
definition STATUS_LU :: u32 where "STATUS_LU = 0x00000002"
definition RAH_AV :: u32 where "RAH_AV = 0x80000000"
definition RCTL_EN :: u32 where "RCTL_EN = 0x00000002"
definition RCTL_SBP :: u32 where "RCTL_SBP = 0x00000004"
definition RCTL_UPE :: u32 where "RCTL_UPE = 0x00000008"
definition RCTL_MPE :: u32 where "RCTL_MPE = 0x00000010"
definition RCTL_BAM :: u32 where "RCTL_BAM = 0x00008000"
definition RCTL_SZ_2048 :: u32 where "RCTL_SZ_2048 = 0x00000000"
definition RXD_STAT_DD :: u32 where "RXD_STAT_DD = 0x01"
definition RXD_STAT_EOP :: u32 where "RXD_STAT_EOP = 0x02"
definition TCTL_EN :: u32 where "TCTL_EN = 0x00000002"
definition TCTL_PSP :: u32 where "TCTL_PSP = 0x00000008"
definition TXDCTL_WTHRESH :: u32 where "TXDCTL_WTHRESH = 0x003F0000"
definition TXDCTL_FULL_TX_DESC_WB :: u32 where "TXDCTL_FULL_TX_DESC_WB = 0x01010000"
definition TXD_CMD_EOP :: u32 where "TXD_CMD_EOP = 0x01000000"
definition TXD_CMD_IFCS :: u32 where "TXD_CMD_IFCS = 0x02000000"
definition TXD_CMD_RS :: u32 where "TXD_CMD_RS = 0x08000000"
definition TXD_STAT_DD :: u32 where "TXD_STAT_DD = 0x00000001"
definition ICR_TXDW :: u32 where "ICR_TXDW = 0x00000001"
definition ICR_LSC :: u32 where "ICR_LSC = 0x00000004"
definition ICR_RXDMT0 :: u32 where "ICR_RXDMT0 = 0x00000010"
definition ICR_RXT0 :: u32 where "ICR_RXT0 = 0x00000080"

section \<open>The code: the device\<close>

record rx_desc =
  rxd_buffer_addr :: u64
  rxd_length :: u16
  rxd_csum :: u16
  rxd_status :: u8
  rxd_errors :: u8
  rxd_special :: u16

record tx_desc =
  txd_buffer_addr :: u64
  txd_lower :: u32
  txd_upper :: u32

definition txd_status :: "tx_desc \<Rightarrow> u8" where "txd_status td = ucast (txd_upper td)"

definition num_rx_descriptors :: nat where "num_rx_descriptors = 16"
definition num_tx_descriptors :: nat where "num_tx_descriptors = 16"
definition io_mem_size :: u64 where "io_mem_size = push_bit 10 128"

text \<open>The physical addresses of the members that the card is told about are part of the state.\<close>

record 'h nic =
  nic_mac :: mac_address
  nic_dev_addr :: device_address
  nic_hw :: 'h
  nic_rx_desc :: "rx_desc list"
  nic_rx_buffer :: "bytes list"
  nic_rx_head :: nat
  nic_tx_desc :: "tx_desc list"
  nic_tx_tail :: nat
  nic_rx_desc_phys :: u64
  nic_rx_buffer_phys :: "u64 list"
  nic_tx_desc_phys :: u64

record 'h nic_card =
  cd_read :: "u32 \<Rightarrow> 'h \<Rightarrow> u32 \<times> 'h"
  cd_write :: "u32 \<Rightarrow> u32 \<Rightarrow> 'h \<Rightarrow> 'h"
  cd_run :: "'h nic \<Rightarrow> 'h nic"

definition ioreg_read :: "'h nic_card \<Rightarrow> u32 \<Rightarrow> 'h nic \<Rightarrow> u32 \<times> 'h nic" where
  "ioreg_read c r d = (let (v, h) = cd_read c r (nic_hw d) in (v, d\<lparr>nic_hw := h\<rparr>))"

definition ioreg_write :: "'h nic_card \<Rightarrow> u32 \<Rightarrow> u32 \<Rightarrow> 'h nic \<Rightarrow> 'h nic" where
  "ioreg_write c r v d = d\<lparr>nic_hw := cd_write c r v (nic_hw d)\<rparr>"

definition delay_microseconds :: "'h nic_card \<Rightarrow> nat \<Rightarrow> 'h nic \<Rightarrow> 'h nic" where
  "delay_microseconds c n d = (cd_run c ^^ n) d"

definition phy_reset :: "'h nic_card \<Rightarrow> 'h nic \<Rightarrow> 'h nic" where
  "phy_reset c d =
     (let (orig, d1) = ioreg_read c reg_CTRL d;
          d2 = ioreg_write c reg_CTRL (orig OR CTRL_RST OR CTRL_PHY_RST) d1;
          d3 = delay_microseconds c 4 d2
      in ioreg_write c reg_CTRL (orig AND NOT CTRL_PHY_RST) d3)"

text \<open>The loop that waits until the reset is over, with the number of tries left.\<close>

fun wait_reset :: "'h nic_card \<Rightarrow> nat \<Rightarrow> 'h nic \<Rightarrow> 'h nic res" where
  "wait_reset c 0 d = Inl (Fatal ''timeout < 1000'')"
| "wait_reset c (Suc n) d =
     (let d1 = delay_microseconds c 2 d; (ctrl, d2) = ioreg_read c reg_CTRL d1
      in if ctrl AND CTRL_RST = 0 then Inr d2 else wait_reset c n d2)"

definition mac_word :: "mac_address \<Rightarrow> nat \<Rightarrow> u32" where
  "mac_word m i = ucast (mac_bytes m ! i)"

definition setup_address :: "'h nic_card \<Rightarrow> 'h nic \<Rightarrow> 'h nic" where
  "setup_address c d =
     (let (ctrl, d1) = ioreg_read c reg_CTRL d;
          d2 = ioreg_write c reg_CTRL ((ctrl AND NOT (CTRL_LRST OR CTRL_ILOS OR CTRL_VME)) OR CTRL_ASDE OR CTRL_SLU) d1;
          m = nic_mac d2;
          d3 = ioreg_write c reg_RAL0 (mac_word m 0 OR push_bit 8 (mac_word m 1) OR push_bit 16 (mac_word m 2) OR push_bit 24 (mac_word m 3)) d2;
          d4 = ioreg_write c reg_RAH0 (mac_word m 4 OR push_bit 8 (mac_word m 5) OR RAH_AV) d3;
          d5 = fold (\<lambda>i. ioreg_write c (reg_MTA + of_nat (i * 4)) 0) [0..<128] d4;
          d6 = ioreg_write c reg_IMC (NOT 0) d5;
          d7 = ioreg_write c reg_ICR (NOT 0) d6
      in ioreg_write c reg_IMS (ICR_TXDW OR ICR_LSC OR ICR_RXDMT0 OR ICR_RXT0) d7)"

definition setup_rx :: "'h nic_card \<Rightarrow> 'h nic \<Rightarrow> 'h nic" where
  "setup_rx c d =
     (let d1 = ioreg_write c reg_RDBAL0 (ucast (nic_rx_desc_phys d)) d;
          d2 = ioreg_write c reg_RDBAH0 (ucast (drop_bit 32 (nic_rx_desc_phys d))) d1;
          d3 = ioreg_write c reg_RDLEN0 (of_nat (num_rx_descriptors * 16)) d2;
          d4 = ioreg_write c reg_RDH0 0 d3;
          d5 = ioreg_write c reg_RDT0 (of_nat (num_rx_descriptors - 1)) d4;
          d6 = d5\<lparr>nic_rx_desc := List.map (\<lambda>i. \<lparr>rxd_buffer_addr = nic_rx_buffer_phys d5 ! i, rxd_length = 0, rxd_csum = 0,
             rxd_status = 0, rxd_errors = 0, rxd_special = 0\<rparr>) [0..<num_rx_descriptors]\<rparr>;
          d7 = ioreg_write c reg_RCTL (RCTL_EN OR RCTL_SBP OR RCTL_UPE OR RCTL_MPE OR RCTL_BAM OR RCTL_SZ_2048) d6
      in d7\<lparr>nic_rx_head := 0\<rparr>)"

definition setup_tx :: "'h nic_card \<Rightarrow> 'h nic \<Rightarrow> 'h nic res" where
  "setup_tx c d =
     (let d1 = d\<lparr>nic_tx_desc := replicate num_tx_descriptors \<lparr>txd_buffer_addr = 0, txd_lower = 0, txd_upper = 0\<rparr>\<rparr> in
      require (nic_tx_desc_phys d1 AND 15 = 0) ''(tx_desc_phys & 15) == 0'' (
      let d2 = ioreg_write c reg_TDBAL0 (ucast (nic_tx_desc_phys d1)) d1;
          d3 = ioreg_write c reg_TDBAH0 (ucast (drop_bit 32 (nic_tx_desc_phys d1))) d2;
          d4 = ioreg_write c reg_TDLEN0 (of_nat (num_tx_descriptors * 16)) d3;
          (txdctl, d5) = ioreg_read c reg_TXDCTL0 d4;
          d6 = ioreg_write c reg_TXDCTL0 ((txdctl AND TXDCTL_WTHRESH) OR TXDCTL_FULL_TX_DESC_WB) d5;
          d7 = ioreg_write c reg_TDH0 0 d6;
          d8 = ioreg_write c reg_TDT0 0 d7;
          (tctl, d9) = ioreg_read c reg_TCTL d8;
          d10 = ioreg_write c reg_TCTL (tctl OR TCTL_EN OR TCTL_PSP) d9
      in Inr (d10\<lparr>nic_tx_tail := 0\<rparr>)))"

definition nic_reset :: "'h nic_card \<Rightarrow> 'h nic \<Rightarrow> 'h nic res" where
  "nic_reset c d =
     (let d1 = phy_reset c d;
          (ctrl, d2) = ioreg_read c reg_CTRL d1;
          d3 = ioreg_write c reg_CTRL (ctrl OR CTRL_RST) d2
      in andThen (wait_reset c 1000 d3) (\<lambda>d4. setup_tx c (setup_rx c (setup_address c d4))))"

definition nic_isr :: "'h nic_card \<Rightarrow> 'h nic \<Rightarrow> 'h nic" where
  "nic_isr c d = (let (icr, d1) = ioreg_read c reg_ICR d in ioreg_write c reg_ICR icr d1)"

text \<open>The wait for the end of a transmission: whether it came to an end in time.\<close>

fun wait_sent :: "'h nic_card \<Rightarrow> nat \<Rightarrow> nat \<Rightarrow> 'h nic \<Rightarrow> bool \<times> 'h nic" where
  "wait_sent c timeout i d =
     (if txd_status (nic_tx_desc d ! i) \<noteq> 0 then (True, d)
      else
        let d1 = cd_run c d
        in case timeout of 0 \<Rightarrow> (False, d1) | Suc n \<Rightarrow> wait_sent c n i d1)"

declare wait_sent.simps [simp del]

definition do_send_packet :: "'h nic_card \<Rightarrow> u64 \<Rightarrow> u32 \<Rightarrow> 'h nic \<Rightarrow> 'h nic res" where
  "do_send_packet c data_phys len d =
     require (len \<le> 1500) ''length <= 1500'' (
     let (st, d1) = ioreg_read c reg_STATUS d in
     if st AND STATUS_LU = 0 then Inr d1
     else
       let i = nic_tx_tail d1; d2 = d1\<lparr>nic_tx_tail := (i + 1) mod num_tx_descriptors\<rparr> in
       require (txd_status (nic_tx_desc d2 ! i) = 0) ''td.upper.fields.status == 0'' (
       let d3 = d2\<lparr>nic_tx_desc := (nic_tx_desc d2)[i := \<lparr>txd_buffer_addr = data_phys,
             txd_lower = len OR TXD_CMD_RS OR TXD_CMD_EOP OR TXD_CMD_IFCS, txd_upper = 0\<rparr>]\<rparr>;
           d4 = ioreg_write c reg_TDT0 (of_nat (nic_tx_tail d3)) d3
       in case wait_sent c 100 i d4 of
         (False, d5) \<Rightarrow>
           (let (s, d6) = ioreg_read c reg_STATUS d5; (h, d7) = ioreg_read c reg_TDH0 d6; (t, d8) = ioreg_read c reg_TDT0 d7
            in Inr d8)
       | (True, d5) \<Rightarrow>
           require (ucast (txd_status (nic_tx_desc d5 ! i)) = TXD_STAT_DD) ''td.upper.fields.status == TXD_STAT_DD'' (
           let d6 = d5\<lparr>nic_tx_desc := (nic_tx_desc d5)[i := (nic_tx_desc d5 ! i)\<lparr>txd_upper := 0\<rparr>]\<rparr>;
               (h, d7) = ioreg_read c reg_TDH0 d6;
               (t, d8) = ioreg_read c reg_TDT0 d7
           in require (h = t) ''ioreg(reg::TDH0) == ioreg(reg::TDT0)'' (Inr d8))))"

text \<open>One received packet is handed over, and the descriptor given back.\<close>

definition rx_advance :: "'h nic_card \<Rightarrow> 'h nic \<Rightarrow> 'h nic" where
  "rx_advance c d =
     (let i = nic_rx_head d;
          d1 = d\<lparr>nic_rx_desc := (nic_rx_desc d)[i := (nic_rx_desc d ! i)\<lparr>rxd_status := 0\<rparr>]\<rparr>;
          d2 = ioreg_write c reg_RDT0 (of_nat i) d1
      in d2\<lparr>nic_rx_head := (i + 1) mod num_rx_descriptors\<rparr>)"

fun process_packets_loop :: "'h nic_card \<Rightarrow> (bytes \<Rightarrow> 's \<Rightarrow> 's res) \<Rightarrow> nat \<Rightarrow> 's \<times> 'h nic \<Rightarrow> ('s \<times> 'h nic) res" where
  "process_packets_loop c ppf 0 st = Inr st"
| "process_packets_loop c ppf (Suc n) (s, d0) =
     (let d = cd_run c d0; i = nic_rx_head d; rd = nic_rx_desc d ! i in
      if ucast (rxd_status rd) AND RXD_STAT_DD = 0 then Inr (s, d)
      else
        require (ucast (rxd_status rd) AND RXD_STAT_EOP \<noteq> 0) ''rd.status & RXD_STAT_EOP'' (
        in_object (unat (rxd_length rd) \<le> length (nic_rx_buffer d ! i)) ''rx_buffer_'' (
        andThen (if rxd_errors rd = 0 then ppf (take (unat (rxd_length rd)) (nic_rx_buffer d ! i)) s else Inr s) (\<lambda>s1.
          process_packets_loop c ppf n (s1, rx_advance c d)))))"

definition do_process_packets :: "'h nic_card \<Rightarrow> (bytes \<Rightarrow> 's \<Rightarrow> 's res) \<Rightarrow> int \<Rightarrow> 's \<times> 'h nic \<Rightarrow> ('s \<times> 'h nic) res" where
  "do_process_packets c ppf max_packets st =
     require (max_packets \<ge> 1) ''max_packets >= 1'' (process_packets_loop c ppf (nat max_packets) st)"

text \<open>The constructor takes the first base address register, resets the card and makes it a bus master. The mapping of the
  registers and the registration of the handler are the memory manager's and the interrupt component's.\<close>

definition mac_addr_default :: mac_address where "mac_addr_default = Mac 0x52 0x54 0x00 0x12 0x34 0x56"

definition nic_new :: "'h nic_card \<Rightarrow> 'b pci_hw \<Rightarrow> device_info \<Rightarrow> 'h nic \<Rightarrow> 'b pci_ports \<Rightarrow> ('h nic \<times> 'b pci_ports) res" where
  "nic_new c hw dev_info d ports =
     require (bar_address (di_bars dev_info ! 0) AND ucast bar_is_io_mask = 0) ''!(dev_info.bars[0].address & pci::bar_is_io_mask)'' (
     require (bar_size (di_bars dev_info ! 0) = io_mem_size) ''dev_info.bars[0].size == io_mem_size'' (
     andThen (nic_reset c (d\<lparr>nic_mac := mac_addr_default, nic_dev_addr := di_address dev_info\<rparr>)) (\<lambda>d1.
     andThen (pci_bus_master hw (nic_dev_addr d1) True ports) (\<lambda>p1. Inr (d1, p1)))))"

definition nic_destroy :: "'b pci_hw \<Rightarrow> 'h nic \<Rightarrow> 'b pci_ports \<Rightarrow> 'b pci_ports res" where
  "nic_destroy hw d ports = pci_bus_master hw (nic_dev_addr d) False ports"

definition i825x0em_a :: u16 where "i825x0em_a = 0x100e"
definition i825x5em_a :: u16 where "i825x5em_a = 0x100f"
definition i82567_lm :: u16 where "i82567_lm = 0x10f5"

definition nic_probe :: "'h nic_card \<Rightarrow> 'b pci_hw \<Rightarrow> device_info \<Rightarrow> 'h nic \<Rightarrow> 'b pci_ports \<Rightarrow> ('h nic option \<times> 'b pci_ports) res" where
  "nic_probe c hw dev_info d ports =
     (let ca = di_config dev_info in
      if ca_vendor_id ca = vendor_intel \<and>
         (ca_device_id ca = i825x0em_a \<or> ca_device_id ca = i825x5em_a \<or> ca_device_id ca = i82567_lm)
      then andThen (nic_new c hw dev_info d ports) (\<lambda>(d1, p1). Inr (Some d1, p1))
      else Inr (None, ports))"

section \<open>The receive ring\<close>

text \<open>The ring as the driver and the card see it: descriptors, buffers, the next descriptor to look at, and the next one to fill.\<close>

record rx_side =
  rs_desc :: "rx_desc list"
  rs_buffer :: "bytes list"
  rs_next :: nat
  rs_fill :: nat

definition rs_count :: "rx_side \<Rightarrow> nat" where
  "rs_count r = (rs_fill r + 16 - rs_next r) mod 16"

definition rs_item :: "rx_side \<Rightarrow> nat \<Rightarrow> bytes \<times> u8" where
  "rs_item r i = (take (unat (rxd_length (rs_desc r ! i))) (rs_buffer r ! i), rxd_errors (rs_desc r ! i))"

definition rs_items :: "rx_side \<Rightarrow> (bytes \<times> u8) list" where
  "rs_items r = List.map (\<lambda>k. rs_item r ((rs_next r + k) mod 16)) [0..<rs_count r]"

definition rs_full :: "rx_side \<Rightarrow> bool" where
  "rs_full r \<longleftrightarrow> rs_fill r = (rs_next r + 15) mod 16"

definition rs_empty :: "rx_side \<Rightarrow> bool" where
  "rs_empty r \<longleftrightarrow> ucast (rxd_status (rs_desc r ! rs_next r)) AND RXD_STAT_DD = 0"

text \<open>What the card does with a frame \<open>f\<close> and its errors \<open>e\<close> (the last descriptor of a packet is the only one), and what
  the driver does with a packet.\<close>

definition rs_push :: "rx_side \<Rightarrow> bytes \<times> u8 \<Rightarrow> rx_side" where
  "rs_push r x = r\<lparr>
     rs_desc := (rs_desc r)[rs_fill r := (rs_desc r ! rs_fill r)\<lparr>rxd_length := of_nat (length (fst x)), rxd_status := 3, rxd_errors := snd x\<rparr>],
     rs_buffer := (rs_buffer r)[rs_fill r := fst x @ drop (length (fst x)) (rs_buffer r ! rs_fill r)],
     rs_fill := (rs_fill r + 1) mod 16\<rparr>"

definition rs_pop :: "rx_side \<Rightarrow> (bytes \<times> u8) \<times> rx_side" where
  "rs_pop r = (rs_item r (rs_next r),
     r\<lparr>rs_desc := (rs_desc r)[rs_next r := (rs_desc r ! rs_next r)\<lparr>rxd_status := 0\<rparr>], rs_next := (rs_next r + 1) mod 16\<rparr>)"

definition rs_ok :: "rx_side \<Rightarrow> bool" where
  "rs_ok r \<longleftrightarrow> length (rs_desc r) = 16 \<and> length (rs_buffer r) = 16 \<and> list_all (\<lambda>b. length b = 2048) (rs_buffer r) \<and>
     rs_next r < 16 \<and> rs_fill r < 16 \<and>
     (\<forall>k<16. let d = rs_desc r ! ((rs_next r + k) mod 16) in
        if k < rs_count r then rxd_status d = 3 \<and> unat (rxd_length d) \<le> 2048 else rxd_status d = 0)"

lemma rs_okD:
  assumes "rs_ok r"
  shows "length (rs_desc r) = 16" "length (rs_buffer r) = 16" "rs_next r < 16" "rs_fill r < 16"
    "i < 16 \<Longrightarrow> length (rs_buffer r ! i) = 2048"
    "k < rs_count r \<Longrightarrow> rxd_status (rs_desc r ! ((rs_next r + k) mod 16)) = 3"
    "k < rs_count r \<Longrightarrow> unat (rxd_length (rs_desc r ! ((rs_next r + k) mod 16))) \<le> 2048"
    "k < 16 \<Longrightarrow> \<not> k < rs_count r \<Longrightarrow> rxd_status (rs_desc r ! ((rs_next r + k) mod 16)) = 0"
  using assms by (auto simp: rs_ok_def rs_count_def list_all_length Let_def split: if_splits)

lemma rs_count_less: "rs_count r < 16"
  by (simp add: rs_count_def)

lemma ring_mod: "n < 16 \<Longrightarrow> f < 16 \<Longrightarrow> (n + (f + 16 - n) mod 16) mod 16 = (f :: nat)"
  by (cases "n \<le> f") (auto simp: mod_if)

lemma ring_inj: "j < 16 \<Longrightarrow> k < 16 \<Longrightarrow> (n + j) mod 16 = (n + k) mod 16 \<Longrightarrow> j = (k :: nat)"
proof (induction j k rule: linorder_wlog)
  case (le j k)
  then have "16 dvd (n + k) - (n + j)" using mod_eq_dvd_iff_nat [of "n + j" "n + k" 16] by simp
  then show ?case using le by (auto dest: dvd_imp_le)
qed simp

lemma rs_count_unique:
  assumes "rs_next r < 16" "rs_fill r < 16" "m < 16" "(rs_next r + m) mod 16 = rs_fill r"
  shows "rs_count r = m"
proof (rule ring_inj [OF rs_count_less assms(3)])
  show "(rs_next r + rs_count r) mod 16 = (rs_next r + m) mod 16"
    unfolding rs_count_def ring_mod [OF assms(1,2)] assms(4) ..
qed

lemma rs_full_count: "rs_ok r \<Longrightarrow> rs_full r \<longleftrightarrow> rs_count r = 15"
proof -
  assume "rs_ok r"
  then have b: "rs_next r < 16" "rs_fill r < 16" by (simp_all add: rs_ok_def)
  have "rs_fill r = (rs_next r + rs_count r) mod 16" using ring_mod [OF b] by (simp add: rs_count_def)
  then show ?thesis using ring_inj [of "rs_count r" 15 "rs_next r"] rs_count_less [of r] by (auto simp: rs_full_def)
qed

lemma rs_push_ok:
  assumes ok: "rs_ok r" and "\<not> rs_full r" and x: "length (fst x) \<le> 2048"
  shows "rs_ok (rs_push r x)" "rs_items (rs_push r x) = rs_items r @ [x]"
proof -
  note d = rs_okD [OF ok]
  let ?r = "rs_push r x"
  have c: "rs_count r < 15" using assms(2) rs_full_count [OF ok] rs_count_less [of r] by simp
  have fill: "rs_fill r = (rs_next r + rs_count r) mod 16" using ring_mod [OF d(3,4)] by (simp add: rs_count_def)
  have nx: "rs_next ?r = rs_next r" "rs_fill ?r = (rs_fill r + 1) mod 16" by (simp_all add: rs_push_def)
  have "(rs_next r + Suc (rs_count r)) mod 16 = (rs_fill r + 1) mod 16" unfolding fill by (simp add: mod_simps)
  then have cnt: "rs_count ?r = Suc (rs_count r)"
    using d(3) c by (intro rs_count_unique) (simp_all add: nx)
  have other: "rs_desc ?r ! ((rs_next r + k) mod 16) = rs_desc r ! ((rs_next r + k) mod 16)"
      "rs_buffer ?r ! ((rs_next r + k) mod 16) = rs_buffer r ! ((rs_next r + k) mod 16)" if "k < 16" "k \<noteq> rs_count r" for k
  proof -
    have "(rs_next r + k) mod 16 \<noteq> rs_fill r"
    proof
      assume "(rs_next r + k) mod 16 = rs_fill r"
      then show False using ring_inj [of k "rs_count r" "rs_next r"] that c unfolding fill by simp
    qed
    then show "rs_desc ?r ! ((rs_next r + k) mod 16) = rs_desc r ! ((rs_next r + k) mod 16)"
      "rs_buffer ?r ! ((rs_next r + k) mod 16) = rs_buffer r ! ((rs_next r + k) mod 16)" by (simp_all add: rs_push_def)
  qed
  have len: "unat (of_nat (length (fst x)) :: u16) = length (fst x)" using x by (intro unat_of_nat_u16) simp
  have here: "rs_desc ?r ! rs_fill r = (rs_desc r ! rs_fill r)\<lparr>rxd_length := of_nat (length (fst x)), rxd_status := 3, rxd_errors := snd x\<rparr>"
      "rs_buffer ?r ! rs_fill r = fst x @ drop (length (fst x)) (rs_buffer r ! rs_fill r)"
    using d(1,2,4) by (simp_all add: rs_push_def)
  have bufs: "list_all (\<lambda>b. length b = 2048) (rs_buffer ?r)"
    using d(2,4,5) x by (auto simp: list_all_length rs_push_def nth_list_update)
  show "rs_ok ?r" unfolding rs_ok_def
  proof (intro conjI allI impI bufs)
    fix k :: nat assume k: "k < 16"
    show "let d = rs_desc ?r ! ((rs_next ?r + k) mod 16) in
        if k < rs_count ?r then rxd_status d = 3 \<and> unat (rxd_length d) \<le> 2048 else rxd_status d = 0"
    proof (cases "k = rs_count r")
      case True
      then show ?thesis using here(1) fill len x by (simp add: nx cnt)
    next
      case False
      then show ?thesis using other(1) [OF k False] d(6-8) [of k] k by (auto simp: nx cnt Let_def)
    qed
  qed (use d in \<open>simp_all add: rs_push_def\<close>)
  have "rs_item ?r (rs_fill r) = x" using here len by (simp add: rs_item_def)
  moreover have "rs_item ?r ((rs_next r + k) mod 16) = rs_item r ((rs_next r + k) mod 16)" if "k < rs_count r" for k
    using other [of k] that c by (simp add: rs_item_def)
  ultimately show "rs_items ?r = rs_items r @ [x]"
    using fill by (simp add: rs_items_def nx cnt)
qed

lemma rs_status_3: "ucast (3 :: u8) AND RXD_STAT_DD \<noteq> 0" "ucast (3 :: u8) AND RXD_STAT_EOP \<noteq> 0" "ucast (0 :: u8) AND RXD_STAT_DD = 0"
  by (simp_all add: RXD_STAT_DD_def RXD_STAT_EOP_def)

lemma rs_empty_count: "rs_ok r \<Longrightarrow> rs_empty r \<longleftrightarrow> rs_count r = 0"
proof -
  assume ok: "rs_ok r"
  note d = rs_okD [OF ok]
  have "(rs_next r + 0) mod 16 = rs_next r" using d(3) by simp
  then show ?thesis using d(6) [of 0] d(8) [of 0] by (cases "rs_count r = 0") (simp_all add: rs_empty_def RXD_STAT_DD_def)
qed

lemma rs_pop_ok:
  assumes ok: "rs_ok r" and "\<not> rs_empty r"
  shows "rs_ok (snd (rs_pop r))" "rs_items r = fst (rs_pop r) # rs_items (snd (rs_pop r))"
proof -
  note d = rs_okD [OF ok]
  let ?r = "snd (rs_pop r)"
  have c: "0 < rs_count r" using assms rs_empty_count by blast
  have nx: "rs_next ?r = (rs_next r + 1) mod 16" "rs_fill ?r = rs_fill r" by (simp_all add: rs_pop_def)
  have "(rs_next ?r + (rs_count r - 1)) mod 16 = (rs_next r + 1 + (rs_count r - 1)) mod 16" unfolding nx by (rule mod_add_left_eq)
  also have "\<dots> = (rs_next r + rs_count r) mod 16" using c by simp
  also have "\<dots> = rs_fill r" using ring_mod [OF d(3,4)] by (simp add: rs_count_def)
  finally have cnt: "rs_count ?r = rs_count r - 1"
    using d(4) rs_count_less [of r] by (intro rs_count_unique) (simp_all add: nx)
  have at: "(rs_next ?r + k) mod 16 = (rs_next r + Suc k) mod 16" for k unfolding nx by (simp add: mod_simps)
  have other: "rs_desc ?r ! ((rs_next r + k) mod 16) = rs_desc r ! ((rs_next r + k) mod 16)" if "0 < k" "k < 16" for k
  proof -
    have "(rs_next r + k) mod 16 \<noteq> rs_next r" using ring_inj [of k 0 "rs_next r"] that d(3) by fastforce
    then show ?thesis by (simp add: rs_pop_def)
  qed
  have buf: "rs_buffer ?r = rs_buffer r" by (simp add: rs_pop_def)
  show "rs_ok ?r" unfolding rs_ok_def
  proof (intro conjI allI impI)
    fix k :: nat assume k: "k < 16"
    show "let d = rs_desc ?r ! ((rs_next ?r + k) mod 16) in
        if k < rs_count ?r then rxd_status d = 3 \<and> unat (rxd_length d) \<le> 2048 else rxd_status d = 0"
    proof (cases "k = 15")
      case True
      have "(rs_next ?r + k) mod 16 = rs_next r" unfolding at True using d(3) by simp
      then show ?thesis using d(1,3) True rs_count_less [of r] by (simp add: cnt) (simp add: rs_pop_def)
    next
      case False
      then show ?thesis using other [of "Suc k"] d(6-8) [of "Suc k"] k unfolding at by (auto simp: cnt Let_def)
    qed
  qed (use ok d in \<open>simp_all add: rs_pop_def rs_ok_def\<close>)
  have "[0..<rs_count r] = 0 # List.map Suc [0..<rs_count r - 1]"
    using c by (cases "rs_count r") (simp_all add: map_Suc_upt upt_conv_Cons del: upt_Suc)
  moreover have "rs_item ?r ((rs_next ?r + k) mod 16) = rs_item r ((rs_next r + Suc k) mod 16)" if "k < rs_count r - 1" for k
    using other [of "Suc k"] that rs_count_less [of r] unfolding at by (simp add: rs_item_def buf)
  ultimately show "rs_items r = fst (rs_pop r) # rs_items ?r"
    using d(3) by (simp add: rs_items_def cnt) (simp add: rs_pop_def)
qed

interpretation rs: fifo rs_ok "\<lambda>x. length (fst x) \<le> 2048" "\<lambda>r. 15" rs_items rs_full rs_empty rs_push rs_pop
proof unfold_locales
  fix r :: rx_side and x :: "bytes \<times> u8"
  assume ok: "rs_ok r"
  have len: "length (rs_items r) = rs_count r" by (simp add: rs_items_def)
  then show "length (rs_items r) \<le> 15" using rs_count_less [of r] by simp
  show "rs_full r \<longleftrightarrow> length (rs_items r) = 15" using rs_full_count [OF ok] len by simp
  show "rs_empty r \<longleftrightarrow> rs_items r = []" using rs_empty_count [OF ok] len by (metis length_0_conv)
  show "rs_ok (rs_push r x) \<and> (15 :: nat) = 15 \<and> rs_items (rs_push r x) = rs_items r @ [x]" if "\<not> rs_full r" "length (fst x) \<le> 2048"
    using rs_push_ok [OF ok that] by simp
  show "rs_ok (snd (rs_pop r)) \<and> (15 :: nat) = 15 \<and> rs_items r = fst (rs_pop r) # rs_items (snd (rs_pop r))" if "\<not> rs_empty r"
    using rs_pop_ok [OF ok that] by simp
qed

section \<open>The card\<close>

text \<open>What the receiving part of a card keeps: the descriptor it fills next, the one it stops at, and all the frames it
  received so far.\<close>

record 'h rx_ring =
  rr_head :: "'h \<Rightarrow> nat"
  rr_tail :: "'h \<Rightarrow> nat"
  rr_log :: "'h \<Rightarrow> (bytes \<times> u8) list"

definition rx_view :: "'h rx_ring \<Rightarrow> 'h nic \<Rightarrow> rx_side" where
  "rx_view ring d = \<lparr>rs_desc = nic_rx_desc d, rs_buffer = nic_rx_buffer d, rs_next = nic_rx_head d, rs_fill = rr_head ring (nic_hw d)\<rparr>"

definition rx_same :: "'h rx_ring \<Rightarrow> 'h nic \<Rightarrow> 'h nic \<Rightarrow> bool" where
  "rx_same ring d d' \<longleftrightarrow> rx_view ring d' = rx_view ring d \<and> rr_tail ring (nic_hw d') = rr_tail ring (nic_hw d) \<and>
     rr_log ring (nic_hw d') = rr_log ring (nic_hw d)"

text \<open>Frames are received one after the other while there is a free descriptor.\<close>

fun card_fills :: "'h rx_ring \<Rightarrow> (bytes \<times> u8) list \<Rightarrow> 'h nic \<Rightarrow> 'h nic \<Rightarrow> bool" where
  "card_fills ring [] d d' = rx_same ring d d'"
| "card_fills ring (x # xs) d d' =
     (rr_head ring (nic_hw d) \<noteq> rr_tail ring (nic_hw d) \<and> length (fst x) \<le> 2048 \<and>
      (\<exists>d1. rx_view ring d1 = rs_push (rx_view ring d) x \<and> rr_tail ring (nic_hw d1) = rr_tail ring (nic_hw d) \<and>
         rr_log ring (nic_hw d1) = rr_log ring (nic_hw d) @ [x] \<and> card_fills ring xs d1 d'))"

text \<open>The behaviour that the card's documentation promises: while time passes it receives frames; the head and the tail
  register set what they say; reading a register, and writing another one than the control register, does not touch the
  ring.\<close>

definition card_ok :: "'h nic_card \<Rightarrow> 'h rx_ring \<Rightarrow> bool" where
  "card_ok c ring \<longleftrightarrow>
     (\<forall>d. \<exists>xs. card_fills ring xs d (cd_run c d)) \<and>
     (\<forall>v h. let h' = cd_write c reg_RDT0 v h in rr_tail ring h' = unat v \<and> rr_head ring h' = rr_head ring h \<and> rr_log ring h' = rr_log ring h) \<and>
     (\<forall>v h. let h' = cd_write c reg_RDH0 v h in rr_head ring h' = unat v \<and> rr_tail ring h' = rr_tail ring h \<and> rr_log ring h' = rr_log ring h) \<and>
     (\<forall>r v h. r \<notin> {reg_RDT0, reg_RDH0, reg_CTRL} \<longrightarrow> (let h' = cd_write c r v h in
        rr_head ring h' = rr_head ring h \<and> rr_tail ring h' = rr_tail ring h \<and> rr_log ring h' = rr_log ring h)) \<and>
     (\<forall>r h. let h' = snd (cd_read c r h) in rr_head ring h' = rr_head ring h \<and> rr_tail ring h' = rr_tail ring h \<and> rr_log ring h' = rr_log ring h)"

lemma rx_same_refl [simp]: "rx_same ring d d"
  by (simp add: rx_same_def)

lemma rx_same_trans [trans]: "rx_same ring d d1 \<Longrightarrow> rx_same ring d1 d2 \<Longrightarrow> rx_same ring d d2"
  by (simp add: rx_same_def)

lemma rx_same_tx [simp]:
  "rx_same ring d (d\<lparr>nic_tx_desc := x\<rparr>)" "rx_same ring d (d\<lparr>nic_tx_tail := t\<rparr>)"
  by (simp_all add: rx_same_def rx_view_def)

lemma fills_same: "rx_same ring d d1 \<Longrightarrow> card_fills ring xs d1 d2 \<Longrightarrow> card_fills ring xs d d2"
proof -
  assume s: "rx_same ring d d1" and f: "card_fills ring xs d1 d2"
  have h: "rr_head ring (nic_hw d1) = rr_head ring (nic_hw d)"
    using s arg_cong [of "rx_view ring d1" "rx_view ring d" rs_fill] by (simp add: rx_same_def) (simp add: rx_view_def)
  then show "card_fills ring xs d d2" using s f by (cases xs) (auto simp: rx_same_def)
qed

lemma fills_append: "card_fills ring xs d d1 \<Longrightarrow> card_fills ring ys d1 d2 \<Longrightarrow> card_fills ring (xs @ ys) d d2"
proof (induction xs arbitrary: d)
  case Nil
  then show ?case using fills_same by simp
next
  case (Cons x xs)
  then show ?case by auto
qed

definition rx_evolves :: "'h rx_ring \<Rightarrow> 'h nic \<Rightarrow> 'h nic \<Rightarrow> bool" where
  "rx_evolves ring d d' \<longleftrightarrow> (\<exists>xs. card_fills ring xs d d')"

lemma evolves_trans: "rx_evolves ring d d1 \<Longrightarrow> rx_evolves ring d1 d2 \<Longrightarrow> rx_evolves ring d d2"
  unfolding rx_evolves_def using fills_append by blast

lemma evolves_same: "rx_same ring d d' \<Longrightarrow> rx_evolves ring d d'"
  unfolding rx_evolves_def by (intro exI [of _ "[]"]) simp

lemma evolves_run: "card_ok c ring \<Longrightarrow> rx_evolves ring d (cd_run c d)"
  unfolding rx_evolves_def card_ok_def by blast

lemma read_same: "card_ok c ring \<Longrightarrow> ioreg_read c r d = (v, d') \<Longrightarrow> rx_same ring d d'"
  by (auto simp: card_ok_def ioreg_read_def rx_same_def rx_view_def Let_def split: prod.splits) (metis snd_conv)+

lemma write_same: "card_ok c ring \<Longrightarrow> r \<notin> {reg_RDT0, reg_RDH0, reg_CTRL} \<Longrightarrow> rx_same ring d (ioreg_write c r v d)"
  by (auto simp: card_ok_def ioreg_write_def rx_same_def rx_view_def Let_def)

text \<open>The driver's invariant: after the frames that it has \<open>seen\<close>, the ring holds the others that the card received.\<close>

definition rx_inv :: "'h rx_ring \<Rightarrow> (bytes \<times> u8) list \<Rightarrow> (bytes \<times> u8) list \<Rightarrow> 'h nic \<Rightarrow> bool" where
  "rx_inv ring log0 seen d \<longleftrightarrow> rs_ok (rx_view ring d) \<and> rr_tail ring (nic_hw d) = (nic_rx_head d + 15) mod 16 \<and>
     rr_log ring (nic_hw d) = log0 @ seen @ rs_items (rx_view ring d)"

lemma same_inv: "rx_same ring d d' \<Longrightarrow> rx_inv ring log0 seen d \<Longrightarrow> rx_inv ring log0 seen d'"
proof -
  assume s: "rx_same ring d d'" and i: "rx_inv ring log0 seen d"
  have "nic_rx_head d' = nic_rx_head d"
    using s arg_cong [of "rx_view ring d'" "rx_view ring d" rs_next] by (simp add: rx_same_def) (simp add: rx_view_def)
  then show ?thesis using s i by (simp add: rx_inv_def rx_same_def)
qed

lemma fills_inv:
  "card_fills ring xs d d' \<Longrightarrow> rx_inv ring log0 seen d \<Longrightarrow>
     rx_inv ring log0 seen d' \<and> rs_items (rx_view ring d') = rs_items (rx_view ring d) @ xs"
proof (induction xs arbitrary: d)
  case Nil
  then have "rx_same ring d d'" by simp
  then show ?case using same_inv [OF _ Nil.prems(2)] by (simp add: rx_same_def)
next
  case (Cons x xs)
  then obtain d1 where d1: "rx_view ring d1 = rs_push (rx_view ring d) x" "rr_tail ring (nic_hw d1) = rr_tail ring (nic_hw d)"
      "rr_log ring (nic_hw d1) = rr_log ring (nic_hw d) @ [x]" "card_fills ring xs d1 d'"
      and h: "rr_head ring (nic_hw d) \<noteq> rr_tail ring (nic_hw d)" "length (fst x) \<le> 2048"
    by auto
  have ok: "rs_ok (rx_view ring d)" using Cons.prems(2) by (simp add: rx_inv_def)
  have nf: "\<not> rs_full (rx_view ring d)" using h(1) Cons.prems(2) by (simp add: rx_inv_def rs_full_def rx_view_def)
  note p = rs.push_ok [OF ok nf h(2)]
  have "nic_rx_head d1 = nic_rx_head d"
    using arg_cong [OF d1(1), of rs_next] by (simp add: rs_push_def rx_view_def)
  then have "rx_inv ring log0 seen d1" using p d1 Cons.prems(2) by (simp add: rx_inv_def)
  then show ?case using Cons.IH [OF d1(4)] p d1(1) by simp
qed

lemma evolves_inv: "rx_evolves ring d d' \<Longrightarrow> rx_inv ring log0 seen d \<Longrightarrow> rx_inv ring log0 seen d'"
  unfolding rx_evolves_def using fills_inv by blast

lemma send_evolves:
  assumes c: "card_ok c ring" and r: "do_send_packet c p len d = Inr d'"
  shows "rx_evolves ring d d'"
proof -
  have wait: "rx_evolves ring d (snd (wait_sent c n i d))" for n i d
  proof (induction n arbitrary: d)
    case 0
    then show ?case using evolves_run [OF c] by (subst wait_sent.simps) (simp add: evolves_same Let_def)
  next
    case (Suc n)
    then show ?case using evolves_trans [OF evolves_run [OF c] Suc.IH]
      by (subst wait_sent.simps) (simp add: evolves_same Let_def)
  qed
  have rd: "rx_evolves ring d (snd (ioreg_read c r d))" for r d
    using read_same [OF c, of r d] by (cases "ioreg_read c r d") (auto intro: evolves_same)
  obtain st d1 where d1: "ioreg_read c reg_STATUS d = (st, d1)" by (cases "ioreg_read c reg_STATUS d")
  have e1: "rx_evolves ring d d1" using rd [of d reg_STATUS] d1 by simp
  show ?thesis
  proof (cases "st AND STATUS_LU = 0")
    case True
    then show ?thesis using r e1 d1 by (auto simp: do_send_packet_def res_simps)
  next
    case False
    let ?i = "nic_tx_tail d1"
    let ?d3 = "d1\<lparr>nic_tx_tail := (?i + 1) mod num_tx_descriptors, nic_tx_desc := (nic_tx_desc d1)[?i := \<lparr>txd_buffer_addr = p,
             txd_lower = len OR TXD_CMD_RS OR TXD_CMD_EOP OR TXD_CMD_IFCS, txd_upper = 0\<rparr>]\<rparr>"
    let ?d4 = "ioreg_write c reg_TDT0 (of_nat ((?i + 1) mod num_tx_descriptors)) ?d3"
    obtain ok d5 where w: "wait_sent c 100 ?i ?d4 = (ok, d5)" by (cases "wait_sent c 100 ?i ?d4")
    have "rx_same ring d1 ?d3" by (simp add: rx_same_def rx_view_def)
    moreover have "rx_same ring ?d3 ?d4" by (rule write_same [OF c]) (simp add: reg_defs)
    ultimately have "rx_evolves ring d ?d4" using evolves_trans [OF e1] evolves_same evolves_trans by blast
    then have e5: "rx_evolves ring d d5" using evolves_trans wait [of ?d4 100 ?i] w by fastforce
    show ?thesis
    proof (cases ok)
      case True
      let ?d6 = "d5\<lparr>nic_tx_desc := (nic_tx_desc d5)[?i := (nic_tx_desc d5 ! ?i)\<lparr>txd_upper := 0\<rparr>]\<rparr>"
      obtain h d7 t d8 where g: "ioreg_read c reg_TDH0 ?d6 = (h, d7)" "ioreg_read c reg_TDT0 d7 = (t, d8)" by fastforce
      have "rx_evolves ring d ?d6" by (rule evolves_trans [OF e5 evolves_same]) simp
      moreover have "rx_evolves ring ?d6 d7" "rx_evolves ring d7 d8" using rd g by (metis snd_conv)+
      ultimately have "rx_evolves ring d d8" using evolves_trans by blast
      moreover have "d' = d8" using r d1 False True w g by (auto simp: do_send_packet_def res_simps Let_def)
      ultimately show ?thesis by simp
    next
      case no: False
      obtain s d6 h d7 t d8 where g: "ioreg_read c reg_STATUS d5 = (s, d6)" "ioreg_read c reg_TDH0 d6 = (h, d7)" "ioreg_read c reg_TDT0 d7 = (t, d8)"
        by (metis prod.collapse)
      have "rx_evolves ring d5 d6" "rx_evolves ring d6 d7" "rx_evolves ring d7 d8" using rd g by (metis snd_conv)+
      then have "rx_evolves ring d d8" using evolves_trans e5 by blast
      moreover have "d' = d8" using r d1 False no w g by (auto simp: do_send_packet_def res_simps Let_def)
      ultimately show ?thesis by simp
    qed
  qed
qed

lemma advance_inv:
  assumes c: "card_ok c ring" and i: "rx_inv ring log0 seen d" and ne: "\<not> rs_empty (rx_view ring d)"
  shows "rx_inv ring log0 (seen @ [rs_item (rx_view ring d) (nic_rx_head d)]) (rx_advance c d)"
    "rs_items (rx_view ring d) = rs_item (rx_view ring d) (nic_rx_head d) # rs_items (rx_view ring (rx_advance c d))"
proof -
  let ?v = "rx_view ring d"
  have ok: "rs_ok ?v" using i by (simp add: rx_inv_def)
  have h: "nic_rx_head d < 16" using ok by (simp add: rs_ok_def rx_view_def)
  have u: "unat (of_nat (nic_rx_head d) :: u32) = nic_rx_head d" using h by (intro unat_of_nat_u32) simp
  have w: "rr_tail ring (cd_write c reg_RDT0 v k) = unat v" "rr_head ring (cd_write c reg_RDT0 v k) = rr_head ring k"
    "rr_log ring (cd_write c reg_RDT0 v k) = rr_log ring k" for v k
    using c by (simp_all add: card_ok_def Let_def)
  note p = rs.pop_ok [OF ok ne]
  have v: "rx_view ring (rx_advance c d) = snd (rs_pop ?v)"
    by (simp add: rx_advance_def rx_view_def rs_pop_def ioreg_write_def Let_def w num_rx_descriptors_def)
  have f: "fst (rs_pop ?v) = rs_item ?v (nic_rx_head d)" by (simp add: rs_pop_def rx_view_def)
  have t: "rr_tail ring (nic_hw (rx_advance c d)) = nic_rx_head d" "rr_log ring (nic_hw (rx_advance c d)) = rr_log ring (nic_hw d)"
    "nic_rx_head (rx_advance c d) = (nic_rx_head d + 1) mod 16"
    using u by (simp_all add: rx_advance_def ioreg_write_def Let_def w num_rx_descriptors_def)
  have "((nic_rx_head d + 1) mod 16 + 15) mod 16 = nic_rx_head d" using h by (simp add: mod_simps)
  then show "rx_inv ring log0 (seen @ [rs_item ?v (nic_rx_head d)]) (rx_advance c d)"
    using i p v f t by (simp add: rx_inv_def)
  show "rs_items ?v = rs_item ?v (nic_rx_head d) # rs_items (rx_view ring (rx_advance c d))" using p v f by simp
qed

text \<open>The frames without errors.\<close>

definition good_frames :: "(bytes \<times> u8) list \<Rightarrow> bytes list" where
  "good_frames xs = List.map fst (filter (\<lambda>x. snd x = 0) xs)"

fun ppf_all :: "(bytes \<Rightarrow> 's \<Rightarrow> 's res) \<Rightarrow> bytes list \<Rightarrow> 's \<Rightarrow> 's res" where
  "ppf_all ppf [] s = Inr s"
| "ppf_all ppf (f # fs) s = andThen (ppf f s) (ppf_all ppf fs)"

lemma process_loop_ok:
  assumes c: "card_ok c ring" and total: "\<And>f s. \<exists>s'. ppf f s = Inr s'"
  shows "rx_inv ring log0 seen d \<Longrightarrow>
    \<exists>fs s' d'. process_packets_loop c ppf n (s, d) = Inr (s', d') \<and> rx_inv ring log0 (seen @ fs) d' \<and>
      ppf_all ppf (good_frames fs) s = Inr s' \<and> length fs \<le> n \<and> (length fs < n \<longrightarrow> rs_items (rx_view ring d') = [])"
proof (induction n arbitrary: s d seen)
  case 0
  then show ?case by (auto intro!: exI [of _ "[]"] simp: good_frames_def)
next
  case (Suc n)
  let ?d = "cd_run c d"
  have i: "rx_inv ring log0 seen ?d" by (rule evolves_inv [OF evolves_run [OF c] Suc.prems])
  then have ok: "rs_ok (rx_view ring ?d)" by (simp add: rx_inv_def)
  have e: "rs_empty (rx_view ring ?d) \<longleftrightarrow> ucast (rxd_status (nic_rx_desc ?d ! nic_rx_head ?d)) AND RXD_STAT_DD = 0"
    by (simp add: rs_empty_def rx_view_def)
  show ?case
  proof (cases "rs_empty (rx_view ring ?d)")
    case True
    then have "process_packets_loop c ppf (Suc n) (s, d) = Inr (s, ?d)" using e by (simp add: Let_def)
    moreover have "rs_items (rx_view ring ?d) = []" using True rs.empty_iff [OF ok] by simp
    ultimately show ?thesis using i by (intro exI [of _ "[]"] exI [of _ s] exI [of _ ?d]) (simp add: good_frames_def)
  next
    case False
    let ?rd = "nic_rx_desc ?d ! nic_rx_head ?d"
    let ?x = "rs_item (rx_view ring ?d) (nic_rx_head ?d)"
    note d = rs_okD [OF ok]
    have h: "nic_rx_head ?d < 16" using d(3) by (simp add: rx_view_def)
    have cnt: "0 < rs_count (rx_view ring ?d)" using False rs_empty_count [OF ok] by simp
    have st: "rxd_status ?rd = 3" "unat (rxd_length ?rd) \<le> 2048" "length (nic_rx_buffer ?d ! nic_rx_head ?d) = 2048"
      using d(6,7) [of 0] d(5) [of "nic_rx_head ?d"] cnt h by (simp_all add: rx_view_def)
    have x: "?x = (take (unat (rxd_length ?rd)) (nic_rx_buffer ?d ! nic_rx_head ?d), rxd_errors ?rd)"
      by (simp add: rs_item_def rx_view_def)
    obtain s1 where s1: "(if rxd_errors ?rd = 0 then ppf (fst ?x) s else Inr s) = Inr s1"
      using total by (cases "rxd_errors ?rd = 0") auto
    obtain fs s' d' where r: "process_packets_loop c ppf n (s1, rx_advance c ?d) = Inr (s', d')" "rx_inv ring log0 (seen @ ?x # fs) d'"
        "ppf_all ppf (good_frames fs) s1 = Inr s'" "length fs \<le> n" "length fs < n \<longrightarrow> rs_items (rx_view ring d') = []"
      using Suc.IH [OF advance_inv(1) [OF c i False], of s1] by auto
    have "process_packets_loop c ppf (Suc n) (s, d) = Inr (s', d')"
      using False e st s1 r(1) x by (cases "rxd_errors ?rd = 0") (simp_all add: Let_def RXD_STAT_EOP_def)
    moreover have "ppf_all ppf (good_frames (?x # fs)) s = Inr s'"
      using s1 r(3) x by (auto simp: good_frames_def split: if_splits)
    ultimately show ?thesis using r(2,4,5) by (intro exI [of _ "?x # fs"] exI [of _ s'] exI [of _ d']) auto
  qed
qed

section \<open>Runs of the driver\<close>

definition bufs_ok :: "'h nic \<Rightarrow> bool" where
  "bufs_ok d \<longleftrightarrow> length (nic_rx_buffer d) = 16 \<and> list_all (\<lambda>b. length b = 2048) (nic_rx_buffer d)"

lemma bufs_view: "bufs_ok d \<longleftrightarrow> length (rs_buffer (rx_view ring d)) = 16 \<and> list_all (\<lambda>b. length b = 2048) (rs_buffer (rx_view ring d))"
  by (simp add: bufs_ok_def rx_view_def)

lemma bufs_fills: "card_fills ring xs d d' \<Longrightarrow> bufs_ok d \<Longrightarrow> bufs_ok d'"
proof (induction xs arbitrary: d)
  case Nil
  then show ?case by (simp add: rx_same_def bufs_view [of _ ring])
next
  case (Cons x xs)
  then obtain d1 where d1: "rx_view ring d1 = rs_push (rx_view ring d) x" "card_fills ring xs d1 d'" "length (fst x) \<le> 2048" by auto
  have upd: "length (b[i := fst x @ drop (length (fst x)) (b ! i)] ! k) = 2048"
    if "\<forall>k<length b. length (b ! k) = 2048" "k < length b" for b :: "bytes list" and i k
    using that d1(3) by (cases "k = i") auto
  have "bufs_ok d1"
    using Cons.prems(2) unfolding bufs_view [of _ ring] d1(1)
    by (auto simp: rs_push_def list_all_length intro: upd)
  then show ?case using Cons.IH d1(2) by blast
qed

lemma bufs_io [simp]: "bufs_ok (ioreg_write c r v d) = bufs_ok d" "bufs_ok (snd (ioreg_read c r d)) = bufs_ok d"
  by (simp_all add: bufs_ok_def ioreg_write_def ioreg_read_def Let_def split: prod.split)

lemma bufs_run: "card_ok c ring \<Longrightarrow> bufs_ok d \<Longrightarrow> bufs_ok (cd_run c d)"
  using bufs_fills unfolding card_ok_def by blast

lemma bufs_delay: "card_ok c ring \<Longrightarrow> bufs_ok d \<Longrightarrow> bufs_ok (delay_microseconds c n d)"
  by (induction n) (auto simp: delay_microseconds_def intro: bufs_run)

lemma bufs_wait_reset: "card_ok c ring \<Longrightarrow> wait_reset c n d = Inr d' \<Longrightarrow> bufs_ok d \<Longrightarrow> bufs_ok d'"
proof (induction n arbitrary: d)
  case (Suc n)
  obtain v d2 where d2: "ioreg_read c reg_CTRL (delay_microseconds c 2 d) = (v, d2)" by fastforce
  then have "bufs_ok d2" using bufs_delay [OF Suc.prems(1,3), of 2] bufs_io(2) [of c reg_CTRL "delay_microseconds c 2 d"] by simp
  then show ?case using Suc d2 by (auto simp: Let_def split: if_splits)
qed simp

lemma bufs_setup_address: "bufs_ok (setup_address c d) = bufs_ok d"
proof -
  have f: "bufs_ok (fold (\<lambda>i. ioreg_write c (reg_MTA + of_nat (i * 4)) 0) is d) = bufs_ok d" for "is" d
    by (induction "is" arbitrary: d) simp_all
  obtain v d1 where d1: "ioreg_read c reg_CTRL d = (v, d1)" by fastforce
  then have "bufs_ok d1 = bufs_ok d" using bufs_io(2) [of c reg_CTRL d] by simp
  then show ?thesis using d1 by (simp add: setup_address_def Let_def f del: of_nat_mult)
qed

lemma setup_rx_inv:
  assumes c: "card_ok c ring" and b: "bufs_ok d"
  shows "rx_inv ring (rr_log ring (nic_hw (setup_rx c d))) [] (setup_rx c d)"
proof -
  have w: "rr_tail ring (cd_write c reg_RDT0 v k) = unat v" "rr_head ring (cd_write c reg_RDT0 v k) = rr_head ring k"
    "rr_head ring (cd_write c reg_RDH0 v k) = unat v"
    "rr_head ring (cd_write c reg_RCTL v k) = rr_head ring k" "rr_tail ring (cd_write c reg_RCTL v k) = rr_tail ring k" for v k
    using c by (simp_all add: card_ok_def Let_def reg_RCTL_def reg_RDT0_def reg_RDH0_def reg_CTRL_def)
  let ?d = "setup_rx c d"
  have v: "rs_next (rx_view ring ?d) = 0" "rs_fill (rx_view ring ?d) = 0" "rs_buffer (rx_view ring ?d) = nic_rx_buffer d"
    "length (rs_desc (rx_view ring ?d)) = 16" "\<And>k. k < 16 \<Longrightarrow> rxd_status (rs_desc (rx_view ring ?d) ! k) = 0"
    "rr_tail ring (nic_hw ?d) = 15" "nic_rx_head ?d = 0"
    by (simp_all add: setup_rx_def rx_view_def ioreg_write_def Let_def w num_rx_descriptors_def)
  have cnt: "rs_count (rx_view ring ?d) = 0" using v(1,2) by (simp add: rs_count_def)
  have "rs_ok (rx_view ring ?d)" using v b cnt by (simp add: rs_ok_def bufs_ok_def)
  then show ?thesis using v cnt by (simp add: rx_inv_def rs_items_def)
qed

lemma setup_tx_same:
  assumes c: "card_ok c ring" and r: "setup_tx c d = Inr d'"
  shows "rx_same ring d d'"
proof -
  let ?d1 = "d\<lparr>nic_tx_desc := replicate num_tx_descriptors \<lparr>txd_buffer_addr = 0, txd_lower = 0, txd_upper = 0\<rparr>\<rparr>"
  let ?d2 = "ioreg_write c reg_TDBAL0 (ucast (nic_tx_desc_phys ?d1)) ?d1"
  let ?d3 = "ioreg_write c reg_TDBAH0 (ucast (drop_bit 32 (nic_tx_desc_phys ?d1))) ?d2"
  let ?d4 = "ioreg_write c reg_TDLEN0 (of_nat (num_tx_descriptors * 16)) ?d3"
  obtain v d5 where d5: "ioreg_read c reg_TXDCTL0 ?d4 = (v, d5)" by fastforce
  let ?d6 = "ioreg_write c reg_TXDCTL0 ((v AND TXDCTL_WTHRESH) OR TXDCTL_FULL_TX_DESC_WB) d5"
  let ?d7 = "ioreg_write c reg_TDH0 0 ?d6"
  let ?d8 = "ioreg_write c reg_TDT0 0 ?d7"
  obtain t d9 where d9: "ioreg_read c reg_TCTL ?d8 = (t, d9)" by fastforce
  let ?d10 = "ioreg_write c reg_TCTL (t OR TCTL_EN OR TCTL_PSP) d9"
  have "rx_same ring d ?d1" by (rule rx_same_tx)
  also have "rx_same ring ?d1 ?d2" by (rule write_same [OF c]) (simp add: reg_defs)
  also have "rx_same ring ?d2 ?d3" by (rule write_same [OF c]) (simp add: reg_defs)
  also have "rx_same ring ?d3 ?d4" by (rule write_same [OF c]) (simp add: reg_defs)
  also have "rx_same ring ?d4 d5" by (rule read_same [OF c d5])
  also have "rx_same ring d5 ?d6" by (rule write_same [OF c]) (simp add: reg_defs)
  also have "rx_same ring ?d6 ?d7" by (rule write_same [OF c]) (simp add: reg_defs)
  also have "rx_same ring ?d7 ?d8" by (rule write_same [OF c]) (simp add: reg_defs)
  also have "rx_same ring ?d8 d9" by (rule read_same [OF c d9])
  also have "rx_same ring d9 ?d10" by (rule write_same [OF c]) (simp add: reg_defs)
  also have "rx_same ring ?d10 (?d10\<lparr>nic_tx_tail := 0\<rparr>)" by (rule rx_same_tx)
  finally have "rx_same ring d (?d10\<lparr>nic_tx_tail := 0\<rparr>)" .
  moreover have "d' = ?d10\<lparr>nic_tx_tail := 0\<rparr>" using r d5 d9 by (simp add: setup_tx_def Let_def res_simps)
  ultimately show ?thesis by simp
qed

lemma reset_inv:
  assumes c: "card_ok c ring" and r: "nic_reset c d = Inr d'" and b: "bufs_ok d"
  shows "rx_inv ring (rr_log ring (nic_hw d')) [] d'"
proof -
  obtain o1 e1 where e1: "ioreg_read c reg_CTRL d = (o1, e1)" by fastforce
  have "bufs_ok (phy_reset c d)"
    using e1 b bufs_io(2) [of c reg_CTRL d] by (simp add: phy_reset_def Let_def bufs_delay [OF c])
  moreover obtain o2 e2 where e2: "ioreg_read c reg_CTRL (phy_reset c d) = (o2, e2)" by fastforce
  ultimately have b2: "bufs_ok e2" using bufs_io(2) [of c reg_CTRL "phy_reset c d"] by simp
  obtain d4 where d4: "wait_reset c 1000 (ioreg_write c reg_CTRL (o2 OR CTRL_RST) e2) = Inr d4"
      "setup_tx c (setup_rx c (setup_address c d4)) = Inr d'"
    using r e2 by (auto simp: nic_reset_def Let_def res_simps)
  have "bufs_ok (setup_address c d4)" using bufs_wait_reset [OF c d4(1)] b2 by (simp add: bufs_setup_address)
  note i = setup_rx_inv [OF c this]
  have s: "rx_same ring (setup_rx c (setup_address c d4)) d'" by (rule setup_tx_same [OF c d4(2)])
  then have "rr_log ring (nic_hw d') = rr_log ring (nic_hw (setup_rx c (setup_address c d4)))" by (simp add: rx_same_def)
  then show ?thesis using same_inv [OF s i] by simp
qed

text \<open>A run of the driver from the state after a reset, with the frames handed over so far.\<close>

definition collect :: "bytes \<Rightarrow> bytes list \<Rightarrow> bytes list res" where
  "collect f s = Inr (s @ [f])"

inductive nic_run :: "'h nic_card \<Rightarrow> 'h nic \<Rightarrow> bytes list \<Rightarrow> 'h nic \<Rightarrow> bool" for c d0 where
  run_start: "nic_run c d0 [] d0"
| run_time: "nic_run c d0 del d \<Longrightarrow> nic_run c d0 del (cd_run c d)"
| run_isr: "nic_run c d0 del d \<Longrightarrow> nic_run c d0 del (nic_isr c d)"
| run_send: "nic_run c d0 del d \<Longrightarrow> do_send_packet c p len d = Inr d' \<Longrightarrow> nic_run c d0 del d'"
| run_process: "nic_run c d0 del d \<Longrightarrow> do_process_packets c collect m ([], d) = Inr (fs, d') \<Longrightarrow> nic_run c d0 (del @ fs) d'"

lemma collect_all: "ppf_all collect fs s = Inr (s @ fs)"
  by (induction fs arbitrary: s) (simp_all add: collect_def)

lemma good_append: "good_frames (xs @ ys) = good_frames xs @ good_frames ys"
  by (simp add: good_frames_def)

lemma process_collects:
  assumes "card_ok c ring" "rx_inv ring log0 seen d" "1 \<le> m"
  shows "\<exists>fs d'. do_process_packets c collect m ([], d) = Inr (good_frames fs, d') \<and> rx_inv ring log0 (seen @ fs) d' \<and>
     int (length fs) \<le> m \<and> (int (length fs) < m \<longrightarrow> rs_items (rx_view ring d') = [])"
proof -
  have t: "\<exists>s'. collect f s = Inr s'" for f s by (simp add: collect_def)
  obtain fs s' d' where p: "process_packets_loop c collect (nat m) ([], d) = Inr (s', d')" "rx_inv ring log0 (seen @ fs) d'"
      "ppf_all collect (good_frames fs) [] = Inr s'" "length fs \<le> nat m" "length fs < nat m \<longrightarrow> rs_items (rx_view ring d') = []"
    using process_loop_ok [where ppf = collect, OF assms(1) t assms(2), of "nat m" "[]"] by blast
  have "s' = good_frames fs" using p(3) by (simp add: collect_all)
  then show ?thesis using p assms(3)
    by (intro exI [of _ fs] exI [of _ d']) (simp add: do_process_packets_def le_nat_iff zless_nat_eq_int_zless)
qed

lemma nic_run_inv:
  assumes c: "card_ok c ring" and i: "rx_inv ring log0 [] d0"
  shows "nic_run c d0 del d \<Longrightarrow> \<exists>seen. rx_inv ring log0 seen d \<and> del = good_frames seen"
proof (induction rule: nic_run.induct)
  case run_start
  then show ?case using i by (intro exI [of _ "[]"]) (simp add: good_frames_def)
next
  case (run_time del d)
  then show ?case using evolves_inv [OF evolves_run [OF c]] by blast
next
  case (run_isr del d)
  obtain v d1 where d1: "ioreg_read c reg_ICR d = (v, d1)" by fastforce
  have "rx_same ring d1 (ioreg_write c reg_ICR v d1)" by (rule write_same [OF c]) (simp add: reg_defs)
  then have "rx_same ring d (nic_isr c d)"
    using rx_same_trans read_same [OF c d1] d1 by (simp add: nic_isr_def)
  then show ?case using run_isr same_inv by blast
next
  case (run_send del d p len d')
  then show ?case using evolves_inv [OF send_evolves [OF c]] by blast
next
  case (run_process del d m fs d')
  then obtain seen where s: "rx_inv ring log0 seen d" "del = good_frames seen" by blast
  have "1 \<le> m" using run_process.hyps(2) by (auto simp: do_process_packets_def res_simps)
  from process_collects [OF c s(1) this] obtain xs d'' where
    "do_process_packets c collect m ([], d) = Inr (good_frames xs, d'')" "rx_inv ring log0 (seen @ xs) d''" by blast
  then show ?case using run_process.hyps(2) s(2) by (auto simp: good_append)
qed



text \<open>A descriptor that the card completes after the send gave up stops the machine when its turn comes again.\<close>

lemma late_completion_fatal:
  assumes "len \<le> 1500" "ioreg_read c reg_STATUS d = (st, d1)" "st AND STATUS_LU \<noteq> 0" "txd_status (nic_tx_desc d1 ! nic_tx_tail d1) \<noteq> 0"
  shows "do_send_packet c p len d = Inl (Fatal ''td.upper.fields.status == 0'')"
  using assms by (simp add: do_send_packet_def Let_def)

section \<open>Witnesses\<close>

text \<open>A card that receives the frames of a list when it may.\<close>

record demo_card_state =
  dc_head :: nat
  dc_tail :: nat
  dc_log :: "(bytes \<times> u8) list"
  dc_coming :: "(bytes \<times> u8) list"

definition demo_ring :: "demo_card_state rx_ring" where
  "demo_ring = \<lparr>rr_head = dc_head, rr_tail = dc_tail, rr_log = dc_log\<rparr>"

definition demo_receive :: "demo_card_state nic \<Rightarrow> demo_card_state nic" where
  "demo_receive d =
     (case dc_coming (nic_hw d) of [] \<Rightarrow> d
      | x # xs \<Rightarrow>
          if dc_head (nic_hw d) \<noteq> dc_tail (nic_hw d) \<and> length (fst x) \<le> 2048 then
            let r = rs_push (rx_view demo_ring d) x in
            d\<lparr>nic_rx_desc := rs_desc r, nic_rx_buffer := rs_buffer r,
              nic_hw := (nic_hw d)\<lparr>dc_head := rs_fill r, dc_log := dc_log (nic_hw d) @ [x], dc_coming := xs\<rparr>\<rparr>
          else d)"

definition demo_nic_card :: "demo_card_state nic_card" where
  "demo_nic_card = \<lparr>cd_read = (\<lambda>r h. (if r = reg_STATUS then 2 else 0, h)),
     cd_write = (\<lambda>r v h. if r = reg_RDT0 then h\<lparr>dc_tail := unat v\<rparr> else if r = reg_RDH0 then h\<lparr>dc_head := unat v\<rparr> else h),
     cd_run = demo_receive\<rparr>"

lemma demo_receive_fills: "\<exists>xs. card_fills demo_ring xs d (demo_receive d)"
proof (cases "dc_coming (nic_hw d)")
  case Nil
  then show ?thesis by (intro exI [of _ "[]"]) (simp add: demo_receive_def)
next
  case (Cons x xs)
  show ?thesis
  proof (cases "dc_head (nic_hw d) \<noteq> dc_tail (nic_hw d) \<and> length (fst x) \<le> 2048")
    case True
    have v: "rx_view demo_ring (demo_receive d) = rs_push (rx_view demo_ring d) x"
      using Cons True by (simp add: demo_receive_def Let_def) (simp add: rx_view_def rs_push_def demo_ring_def)
    have "card_fills demo_ring [x] d (demo_receive d)"
      using True Cons v by (auto simp: demo_ring_def intro!: exI [of _ "demo_receive d"]) (simp_all add: demo_receive_def Let_def)
    then show ?thesis by blast
  next
    case False
    then show ?thesis using Cons by (intro exI [of _ "[]"]) (auto simp: demo_receive_def)
  qed
qed

lemma demo_nic_card_ok: "card_ok demo_nic_card demo_ring"
  unfolding card_ok_def using demo_receive_fills
  by (simp add: demo_nic_card_def demo_ring_def Let_def reg_RDT0_def reg_RDH0_def)

definition demo_nic :: "demo_card_state nic" where
  "demo_nic = \<lparr>nic_mac = mac_addr_default, nic_dev_addr = Device_address 0,
     nic_hw = \<lparr>dc_head = 0, dc_tail = 0, dc_log = [], dc_coming = [([1, 2, 3], 0), ([4], 1), ([5], 0)]\<rparr>,
     nic_rx_desc = [], nic_rx_buffer = replicate 16 (replicate 2048 0), nic_rx_head = 0, nic_tx_desc = [], nic_tx_tail = 0,
     nic_rx_desc_phys = 0, nic_rx_buffer_phys = replicate 16 0, nic_tx_desc_phys = 0\<rparr>"

lemma demo_nic_bufs: "bufs_ok demo_nic"
  by (simp add: bufs_ok_def demo_nic_def list_all_length del: replicate_Suc)

text \<open>The address of the transmit descriptors stays what it was.\<close>

lemma tx_phys_kept:
  "nic_tx_desc_phys (ioreg_write c r v d) = nic_tx_desc_phys d"
  "nic_tx_desc_phys (setup_rx c d) = nic_tx_desc_phys d"
  "nic_tx_desc_phys (setup_address demo_nic_card d) = nic_tx_desc_phys d"
  "nic_tx_desc_phys (delay_microseconds demo_nic_card n d) = nic_tx_desc_phys d"
  "nic_tx_desc_phys (phy_reset demo_nic_card d) = nic_tx_desc_phys d"
proof -
  have w: "nic_tx_desc_phys (ioreg_write c r v d) = nic_tx_desc_phys d" for c :: "'b nic_card" and r v d
    by (simp add: ioreg_write_def)
  have f: "nic_tx_desc_phys (fold (\<lambda>i. ioreg_write c (reg_MTA + of_nat (i * 4)) 0) is d) = nic_tx_desc_phys d"
    for c :: "'b nic_card" and "is" d
    by (induction "is" arbitrary: d) (simp_all add: w del: of_nat_mult)
  have rd: "ioreg_read demo_nic_card reg_CTRL d = (0, d)" for d
    by (simp add: ioreg_read_def demo_nic_card_def reg_CTRL_def reg_STATUS_def)
  have run: "nic_tx_desc_phys (cd_run demo_nic_card d) = nic_tx_desc_phys d" for d
    by (simp add: demo_nic_card_def demo_receive_def Let_def split: list.split)
  then have dl: "nic_tx_desc_phys (delay_microseconds demo_nic_card n d) = nic_tx_desc_phys d" for n d
    by (induction n) (simp_all add: delay_microseconds_def)
  show "nic_tx_desc_phys (ioreg_write c r v d) = nic_tx_desc_phys d"
    "nic_tx_desc_phys (setup_rx c d) = nic_tx_desc_phys d" by (simp_all add: w setup_rx_def Let_def)
  show "nic_tx_desc_phys (setup_address demo_nic_card d) = nic_tx_desc_phys d" for d
    by (simp add: setup_address_def Let_def rd w f del: of_nat_mult)
  show "nic_tx_desc_phys (delay_microseconds demo_nic_card n d) = nic_tx_desc_phys d" for d by (rule dl)
  show "nic_tx_desc_phys (phy_reset demo_nic_card d) = nic_tx_desc_phys d" for d
    by (simp add: phy_reset_def Let_def rd w dl)
qed

lemma demo_nic_reset: "\<exists>d0. nic_reset demo_nic_card demo_nic = Inr d0"
proof -
  have rd: "ioreg_read demo_nic_card reg_CTRL d = (0, d)" for d
    by (simp add: ioreg_read_def demo_nic_card_def reg_CTRL_def reg_STATUS_def)
  have w: "wait_reset demo_nic_card (Suc n) d = Inr (delay_microseconds demo_nic_card 2 d)" for n d
    by (simp add: rd)
  have "(1000 :: nat) = Suc 999" by simp
  then have "nic_reset demo_nic_card demo_nic = setup_tx demo_nic_card (setup_rx demo_nic_card (setup_address demo_nic_card
      (delay_microseconds demo_nic_card 2 (ioreg_write demo_nic_card reg_CTRL CTRL_RST (phy_reset demo_nic_card demo_nic)))))"
    by (simp only: nic_reset_def rd Let_def prod.case w andThen_Inr) simp
  moreover have "nic_tx_desc_phys (setup_rx demo_nic_card (setup_address demo_nic_card
      (delay_microseconds demo_nic_card 2 (ioreg_write demo_nic_card reg_CTRL CTRL_RST (phy_reset demo_nic_card demo_nic))))) = 0"
    unfolding tx_phys_kept by (simp add: demo_nic_def)
  ultimately show ?thesis by (simp add: setup_tx_def Let_def split: prod.split)
qed



end
