(* ===== verification/Ports.thy ===== *)
theory Ports
  imports Bytes
begin

text \<open>
  The processor's I/O ports. What answers at them belongs to the machine: a state \<open>'p\<close> and what the instructions for
  reading and writing a port do to it.
\<close>

record 'p ports =
  in8 :: "u16 \<Rightarrow> 'p \<Rightarrow> u8 \<times> 'p"
  in16 :: "u16 \<Rightarrow> 'p \<Rightarrow> u16 \<times> 'p"
  in32 :: "u16 \<Rightarrow> 'p \<Rightarrow> u32 \<times> 'p"
  out8 :: "u16 \<Rightarrow> u8 \<Rightarrow> 'p \<Rightarrow> 'p"

text \<open>The string instructions \<open>__inwordstring\<close> and \<open>__indwordstring\<close>: \<open>n\<close> units, as the bytes that are stored.\<close>

fun inwordstring :: "'p ports \<Rightarrow> u16 \<Rightarrow> nat \<Rightarrow> 'p \<Rightarrow> bytes \<times> 'p" where
  "inwordstring hw port 0 s = ([], s)"
| "inwordstring hw port (Suc n) s =
     (let (w, s1) = in16 hw port s; (r, s2) = inwordstring hw port n s1 in (store16 w @ r, s2))"

fun indwordstring :: "'p ports \<Rightarrow> u16 \<Rightarrow> nat \<Rightarrow> 'p \<Rightarrow> bytes \<times> 'p" where
  "indwordstring hw port 0 s = ([], s)"
| "indwordstring hw port (Suc n) s =
     (let (w, s1) = in32 hw port s; (r, s2) = indwordstring hw port n s1 in (store32 w @ r, s2))"

lemma length_wordstring [simp]:
  "length (fst (inwordstring hw port n s)) = 2 * n" "length (fst (indwordstring hw port n s)) = 4 * n"
  by (induction n arbitrary: s) (simp_all add: Let_def split: prod.splits, (metis fst_conv)+)

lemma unat_shr: "unat (drop_bit k (x :: 'a::len word)) = unat x div 2 ^ k"
  by (simp only: unsigned_drop_bit_eq) (simp add: drop_bit_eq_div take_bit_nat_eq_self unsigned_less [where 'a = nat])

lemma unat_low_bits: "unat ((x :: 'a::len word) AND mask k) = unat x mod 2 ^ k"
  by (simp only: take_bit_eq_mask [symmetric] unsigned_take_bit_eq) (simp add: take_bit_eq_mod)

text \<open>A sequence of writes.\<close>

definition outs :: "'p ports \<Rightarrow> (u16 \<times> u8) list \<Rightarrow> 'p \<Rightarrow> 'p" where
  "outs hw l = fold (\<lambda>(p, v). out8 hw p v) l"

lemma outs_simps [simp]: "outs hw [] s = s" "outs hw ((p, v) # l) s = outs hw l (out8 hw p v s)"
  by (simp_all add: outs_def)

end
