(* ===== verification/Ata.thy ===== *)
theory Ata
  imports Ports
begin

text \<open>
  The ATA driver of \<open>kernel/ata.cpp\<close>: a device is identified when it is constructed, and sectors are read with programmed
  I/O. The drive is behind the ports, which are a parameter.
\<close>

section \<open>The code\<close>

definition port_data :: u16 where "port_data = 0"
definition port_sector_count :: u16 where "port_sector_count = 2"
definition port_lba_low :: u16 where "port_lba_low = 3"
definition port_lba_mid :: u16 where "port_lba_mid = 4"
definition port_lba_high :: u16 where "port_lba_high = 5"
definition port_drive :: u16 where "port_drive = 6"
definition port_command :: u16 where "port_command = 7"
definition port_status :: u16 where "port_status = 7"

definition status_mask_err :: u8 where "status_mask_err = push_bit 0 1"
definition status_mask_drq :: u8 where "status_mask_drq = push_bit 3 1"
definition status_mask_df :: u8 where "status_mask_df = push_bit 5 1"
definition status_mask_bsy :: u8 where "status_mask_bsy = push_bit 7 1"
definition drive_slave_bit :: nat where "drive_slave_bit = 4"
definition command_read_pio :: u8 where "command_read_pio = 0x20"
definition command_identify :: u8 where "command_identify = 0xEC"

record ata_info =
  ai_command_block :: u16
  ai_control_block :: u16
  ai_irq :: u8
  ai_slave :: bool

definition primary_master :: ata_info where
  "primary_master = \<lparr>ai_command_block = 0x1F0, ai_control_block = 0x3F6, ai_irq = 14, ai_slave = False\<rparr>"
definition primary_slave :: ata_info where
  "primary_slave = \<lparr>ai_command_block = 0x1F0, ai_control_block = 0x3F6, ai_irq = 14, ai_slave = True\<rparr>"
definition secondary_master :: ata_info where
  "secondary_master = \<lparr>ai_command_block = 0x170, ai_control_block = 0x376, ai_irq = 15, ai_slave = False\<rparr>"
definition secondary_slave :: ata_info where
  "secondary_slave = \<lparr>ai_command_block = 0x170, ai_control_block = 0x376, ai_irq = 15, ai_slave = True\<rparr>"

text \<open>\<open>ata_string\<close>: pairs of characters are stored swapped, and blanks at the end become terminators.\<close>

fun strip_blanks :: "nat \<Rightarrow> bytes \<Rightarrow> bytes" where
  "strip_blanks 0 dst = dst"
| "strip_blanks (Suc i) dst = (if dst ! i = 32 then strip_blanks i (dst[i := 0]) else dst)"

definition ata_string :: "nat \<Rightarrow> bytes \<Rightarrow> bytes res" where
  "ata_string sz src =
     in_object (2 * (sz div 2) \<le> length src) ''src'' (
       let dst = concat (List.map (\<lambda>i. [src ! (i * 2 + 1), src ! (i * 2)]) [0..<sz div 2])
       in Inr (strip_blanks (sz - 1) (take (sz - 1) dst @ [0])))"

record ata_device =
  ad_info :: ata_info
  ad_lba_count :: u32

definition port_number :: "ata_info \<Rightarrow> u16 \<Rightarrow> u16" where
  "port_number di port = ai_command_block di + port"

definition inbyte :: "'p ports \<Rightarrow> ata_info \<Rightarrow> u16 \<Rightarrow> 'p \<Rightarrow> u8 \<times> 'p" where
  "inbyte hw di port = in8 hw (port_number di port)"

definition outbyte :: "'p ports \<Rightarrow> ata_info \<Rightarrow> u16 \<Rightarrow> u8 \<Rightarrow> 'p \<Rightarrow> 'p" where
  "outbyte hw di port = out8 hw (port_number di port)"

definition ata_delay :: "'p ports \<Rightarrow> ata_info \<Rightarrow> 'p \<Rightarrow> 'p" where
  "ata_delay hw di s = ((\<lambda>s. snd (in8 hw (ai_control_block di) s)) ^^ 4) s"

fun wait_status_from :: "'p ports \<Rightarrow> ata_info \<Rightarrow> nat \<Rightarrow> 'p \<Rightarrow> (u8 \<times> 'p) res" where
  "wait_status_from hw di 0 s = Inl (Fatal ''timed out in ata::device::wait_ready'')"
| "wait_status_from hw di (Suc cnt) s =
     (let (status, s1) = inbyte hw di port_status (ata_delay hw di s) in
      if status AND status_mask_bsy = 0 then
        require (status AND (status_mask_err OR status_mask_df) = 0) ''false'' (Inr (status, s1))
      else wait_status_from hw di cnt s1)"

definition wait_status :: "'p ports \<Rightarrow> ata_info \<Rightarrow> 'p \<Rightarrow> (u8 \<times> 'p) res" where
  "wait_status hw di = wait_status_from hw di 1000"

definition slave_bits :: "ata_info \<Rightarrow> u8" where
  "slave_bits di = push_bit drive_slave_bit (if ai_slave di then 1 else 0)"

text \<open>The constructor; the model and the serial number are what it prints.\<close>

definition ata_device_new :: "'p ports \<Rightarrow> ata_info \<Rightarrow> 'p \<Rightarrow> (ata_device \<times> bytes \<times> bytes \<times> 'p) res" where
  "ata_device_new hw di s =
     andThen (wait_status hw di s) (\<lambda>(_, s1).
     andThen (wait_status hw di (outbyte hw di port_drive (0xA0 OR slave_bits di) s1)) (\<lambda>(_, s2).
     andThen (wait_status hw di (outbyte hw di port_command command_identify s2)) (\<lambda>(id_status, s3).
     require (id_status \<noteq> 0) ''id_status != 0'' (
     require (id_status AND status_mask_drq \<noteq> 0) ''id_status & status_mask_drq'' (
     let (id_buffer, s4) = indwordstring hw (port_number di port_data) 128 s3 in
     andThen (ata_string 41 (drop 0x36 id_buffer)) (\<lambda>model.
     andThen (ata_string 21 (drop 0x14 id_buffer)) (\<lambda>ser.
       Inr (\<lparr>ad_info = di, ad_lba_count = load32 id_buffer 0x78\<rparr>, model, ser, s4))))))))"

definition read_sector_writes :: "ata_info \<Rightarrow> u32 \<Rightarrow> (u16 \<times> u8) list" where
  "read_sector_writes di lba =
     [(port_number di port_drive, 0xE0 OR slave_bits di OR ucast (drop_bit 24 lba AND 0xf)),
      (port_number di port_sector_count, 1),
      (port_number di port_lba_low, ucast (lba AND 0xff)),
      (port_number di port_lba_mid, ucast (drop_bit 8 lba AND 0xff)),
      (port_number di port_lba_high, ucast (drop_bit 16 lba AND 0xff)),
      (port_number di port_command, command_read_pio)]"

definition read_sector :: "'p ports \<Rightarrow> ata_device \<Rightarrow> u32 \<Rightarrow> 'p \<Rightarrow> (bytes \<times> 'p) res" where
  "read_sector hw dev lba s =
     require (lba < ad_lba_count dev) ''lba < lba_count_'' (
     require (drop_bit 28 lba = 0) ''(lba>>28) == 0'' (
     andThen (wait_status hw (ad_info dev) s) (\<lambda>(_, s1).
     andThen (wait_status hw (ad_info dev) (outs hw (read_sector_writes (ad_info dev) lba) s1)) (\<lambda>(status, s2).
     require (status AND status_mask_drq \<noteq> 0) ''wait_status() & status_mask_drq'' (
       Inr (inwordstring hw (port_number (ad_info dev) port_data) 256 s2))))))"

definition ata_test :: "'p ports \<Rightarrow> 'p \<Rightarrow> 'p res" where
  "ata_test hw s =
     andThen (ata_device_new hw primary_master s) (\<lambda>(dev, _, _, s1).
     andThen (read_sector hw dev 0 s1) (\<lambda>(boot_sector, s2).
     require (boot_sector ! 510 = 0x55) ''boot_sector[510] == 0x55'' (
     require (boot_sector ! 511 = 0xAA) ''boot_sector[511] == 0xAA'' (Inr s2))))"

section \<open>Identification strings\<close>

lemma strip_blanks_text:
  "length xs = n \<Longrightarrow> strip_blanks n (xs @ ys) =
     rev (dropWhile (\<lambda>c. c = 32) (rev xs)) @ replicate (length (takeWhile (\<lambda>c. c = 32) (rev xs))) 0 @ ys"
proof (induction n arbitrary: xs ys)
  case (Suc n)
  obtain zs c where xs: "xs = zs @ [c]" "length zs = n" using Suc.prems by (cases xs rule: rev_cases) auto
  show ?case
  proof (cases "c = 32")
    case True
    then have "strip_blanks (Suc n) (xs @ ys) = strip_blanks n (zs @ 0 # ys)" using xs by (auto simp: nth_append)
    also have "\<dots> = rev (dropWhile (\<lambda>c. c = 32) (rev zs)) @ replicate (length (takeWhile (\<lambda>c. c = 32) (rev zs))) 0 @ 0 # ys"
      by (rule Suc.IH [OF xs(2)])
    finally show ?thesis using True xs(1) by (simp add: replicate_app_Cons_same)
  qed (use xs in \<open>simp add: nth_append\<close>)
qed simp

section \<open>A drive\<close>

text \<open>What the part of a drive that the driver uses keeps: how often its status will still say busy, what the status says
  then, its registers, and the words that wait at the data port.\<close>

record drive =
  dr_busy :: nat
  dr_status :: u8
  dr_regs :: "u16 \<Rightarrow> u8"
  dr_data :: "u16 list"

definition drive_lba :: "drive \<Rightarrow> nat" where
  "drive_lba v = unat (dr_regs v port_lba_low) + 256 * unat (dr_regs v port_lba_mid) + 65536 * unat (dr_regs v port_lba_high)
     + 16777216 * (unat (dr_regs v port_drive) mod 16)"

definition drive_idle :: "drive \<Rightarrow> bool" where
  "drive_idle v \<longleftrightarrow> dr_busy v < 1000 \<and> dr_status v AND (status_mask_bsy OR status_mask_err OR status_mask_df) = 0"

text \<open>The behaviour that the ATA documents promise of a drive with the contents \<open>disk\<close>, as far as the driver relies on
  it: reading the alternate status changes nothing, a status that is busy becomes idle in the end, registers keep what
  is written, and the command to read one sector by its number of 28 bits (selected by bit 6 of the drive register) puts
  its 256 words at the data port.\<close>

definition drive_status_ok :: "'p ports \<Rightarrow> ata_info \<Rightarrow> ('p \<Rightarrow> drive) \<Rightarrow> bool" where
  "drive_status_ok hw di view \<longleftrightarrow>
     (\<forall>s. view (snd (in8 hw (ai_control_block di) s)) = view s) \<and>
     (\<forall>s v s'. in8 hw (port_number di port_status) s = (v, s') \<longrightarrow>
        (if dr_busy (view s) = 0 then v = dr_status (view s) \<and> view s' = view s
         else v AND status_mask_bsy \<noteq> 0 \<and> view s' = (view s)\<lparr>dr_busy := dr_busy (view s) - 1\<rparr>))"

definition drive_registers_ok :: "'p ports \<Rightarrow> ata_info \<Rightarrow> ('p \<Rightarrow> drive) \<Rightarrow> bool" where
  "drive_registers_ok hw di view \<longleftrightarrow>
     (\<forall>s v. \<forall>p \<in> {port_drive, port_sector_count, port_lba_low, port_lba_mid, port_lba_high}.
        view (out8 hw (port_number di p) v s) = (view s)\<lparr>dr_regs := (dr_regs (view s))(p := v)\<rparr>) \<and>
     (\<forall>s w ws x s'. dr_data (view s) = w # ws \<and> in16 hw (port_number di port_data) s = (x, s') \<longrightarrow>
        x = w \<and> view s' = (view s)\<lparr>dr_data := ws\<rparr>)"

definition drive_reads_ok :: "'p ports \<Rightarrow> ata_info \<Rightarrow> ('p \<Rightarrow> drive) \<Rightarrow> (nat \<Rightarrow> u16 list) \<Rightarrow> bool" where
  "drive_reads_ok hw di view disk \<longleftrightarrow>
     (\<forall>s v'. dr_busy (view s) = 0 \<and> bit (dr_regs (view s) port_drive) 6 \<and> bit (dr_regs (view s) port_drive) 4 = ai_slave di \<and>
        dr_regs (view s) port_sector_count = 1 \<and> v' = view (out8 hw (port_number di port_command) command_read_pio s) \<longrightarrow>
        drive_idle v' \<and> dr_status v' AND status_mask_drq \<noteq> 0 \<and> dr_data v' = disk (drive_lba (view s)))"

definition drive_ok :: "'p ports \<Rightarrow> ata_info \<Rightarrow> ('p \<Rightarrow> drive) \<Rightarrow> (nat \<Rightarrow> u16 list) \<Rightarrow> bool" where
  "drive_ok hw di view disk \<longleftrightarrow> drive_status_ok hw di view \<and> drive_registers_ok hw di view \<and> drive_reads_ok hw di view disk"

lemma delay_view: "drive_ok hw di view disk \<Longrightarrow> view (ata_delay hw di s) = view s"
  by (simp add: ata_delay_def drive_ok_def drive_status_ok_def numeral_eq_Suc)

lemma mask_parts:
  assumes "x AND (a OR b OR c) = 0"
  shows "x AND a = 0" "x AND (b OR c) = (0 :: u8)"
proof -
  have p: "x AND y = 0 \<longleftrightarrow> (\<forall>n<8. \<not> (bit x n \<and> bit y n))" for y
    by (simp add: bit_eq_iff bit_simps)
  show "x AND a = 0" "x AND (b OR c) = 0" using assms unfolding p by (auto simp: bit_simps)
qed

lemma drive_status:
  "drive_ok hw di view disk \<Longrightarrow> in8 hw (port_number di port_status) s = (v, s') \<Longrightarrow>
     if dr_busy (view s) = 0 then v = dr_status (view s) \<and> view s' = view s
     else v AND status_mask_bsy \<noteq> 0 \<and> view s' = (view s)\<lparr>dr_busy := dr_busy (view s) - 1\<rparr>"
  unfolding drive_ok_def drive_status_ok_def by blast

lemma drive_register:
  "drive_ok hw di view disk \<Longrightarrow> p \<in> {port_drive, port_sector_count, port_lba_low, port_lba_mid, port_lba_high} \<Longrightarrow>
     view (out8 hw (port_number di p) v s) = (view s)\<lparr>dr_regs := (dr_regs (view s))(p := v)\<rparr>"
  unfolding drive_ok_def drive_registers_ok_def by blast

lemma drive_word:
  "drive_ok hw di view disk \<Longrightarrow> dr_data (view s) = w # ws \<Longrightarrow> in16 hw (port_number di port_data) s = (x, s') \<Longrightarrow>
     x = w \<and> view s' = (view s)\<lparr>dr_data := ws\<rparr>"
  unfolding drive_ok_def drive_registers_ok_def by blast

lemma drive_command:
  "drive_ok hw di view disk \<Longrightarrow> dr_busy (view s) = 0 \<Longrightarrow> bit (dr_regs (view s) port_drive) 6 \<Longrightarrow>
     bit (dr_regs (view s) port_drive) 4 = ai_slave di \<Longrightarrow> dr_regs (view s) port_sector_count = 1 \<Longrightarrow>
     v' = view (out8 hw (port_number di port_command) command_read_pio s) \<Longrightarrow>
     drive_idle v' \<and> dr_status v' AND status_mask_drq \<noteq> 0 \<and> dr_data v' = disk (drive_lba (view s))"
  unfolding drive_ok_def drive_reads_ok_def by blast

lemma wait_status_idle:
  assumes ok: "drive_ok hw di view disk"
  shows "dr_busy (view s) < n \<Longrightarrow> dr_status (view s) AND (status_mask_bsy OR status_mask_err OR status_mask_df) = 0 \<Longrightarrow>
    \<exists>s'. wait_status_from hw di n s = Inr (dr_status (view s), s') \<and> view s' = (view s)\<lparr>dr_busy := 0\<rparr>"
proof (induction n arbitrary: s)
  case (Suc n)
  note st = mask_parts [OF Suc.prems(2)]
  obtain v s1 where r: "inbyte hw di port_status (ata_delay hw di s) = (v, s1)" by fastforce
  have i: "if dr_busy (view s) = 0 then v = dr_status (view s) \<and> view s1 = view s
        else v AND status_mask_bsy \<noteq> 0 \<and> view s1 = (view s)\<lparr>dr_busy := dr_busy (view s) - 1\<rparr>"
    using drive_status [OF ok r [unfolded inbyte_def]] unfolding delay_view [OF ok] .
  show ?case
  proof (cases "dr_busy (view s) = 0")
    case True
    then show ?thesis using i st r by (intro exI [of _ s1]) simp
  next
    case False
    then have "dr_busy (view s1) < n" "dr_status (view s1) = dr_status (view s)" using i Suc.prems(1) by auto
    then show ?thesis using Suc.IH [of s1] Suc.prems(2) i False r by auto
  qed
qed simp

lemma inwordstring_view:
  assumes ok: "drive_ok hw di view disk"
  shows "dr_data (view s) = ws \<Longrightarrow>
    fst (inwordstring hw (port_number di port_data) (length ws) s) = concat (List.map store16 ws)"
proof (induction ws arbitrary: s)
  case (Cons w ws)
  obtain x s1 where r: "in16 hw (port_number di port_data) s = (x, s1)" by fastforce
  have "x = w" "view s1 = (view s)\<lparr>dr_data := ws\<rparr>" using drive_word [OF ok Cons.prems r] by simp_all
  then show ?case using Cons.IH [of s1] r by (auto simp: Let_def split: prod.split)
qed simp

text \<open>The number of the sector is put together again from the four registers.\<close>

lemma unat_u8_of_word: "unat (ucast (x :: u32) :: u8) = unat x mod 256"
  by (simp add: unsigned_ucast_eq take_bit_eq_mod)

lemma u8_of_word: "(ucast (x AND 0xff :: u32) :: u8) = ucast x"
proof -
  have m: "(0xff :: u32) = mask 8" by (simp add: mask_eq_exp_minus_1)
  show ?thesis unfolding m by (rule bit_word_eqI) (simp add: bit_simps)
qed

lemma drive_register_nibble:
  fixes di :: ata_info
  assumes "drop_bit 28 lba = (0 :: u32)"
  defines "r \<equiv> 0xE0 OR slave_bits di OR ucast (drop_bit 24 lba AND 0xf) :: u8"
  shows "unat r mod 16 = unat lba div 16777216" "bit r 6" "bit r 4 = ai_slave di"
proof -
  have lt: "unat lba div 16777216 < 16"
    using assms(1) unfolding word_unat_eq_iff unat_shr by (simp add: div_eq_0_iff less_mult_imp_div_less)
  have "(drop_bit 24 lba AND 0xf) = drop_bit 24 lba"
  proof (rule word_unat_eq_iff [THEN iffD2])
    have "(0xf :: u32) = mask 4" by (simp add: mask_eq_exp_minus_1)
    then show "unat (drop_bit 24 lba AND 0xf) = unat (drop_bit 24 lba)"
      using lt by (simp only: take_bit_eq_mask [symmetric] unsigned_take_bit_eq unat_shr) (simp add: take_bit_eq_mod)
  qed
  then have k: "ucast (drop_bit 24 lba AND 0xf) = (of_nat (unat lba div 16777216) :: u8)"
    using lt by (simp add: word_unat_eq_iff unat_u8_of_word unat_shr unat_of_nat take_bit_eq_mod)
  have all: "list_all (\<lambda>k. unat (0xE0 OR b OR of_nat k :: u8) mod 16 = k \<and> bit (0xE0 OR b OR of_nat k :: u8) 6 \<and>
      bit (0xE0 OR b OR of_nat k :: u8) 4 = (b = 16)) [0..<16]" if "b = 0 \<or> b = 16" for b
    using that by (elim disjE; hypsubst; code_simp)
  have "slave_bits di = (if ai_slave di then 16 else 0)" by (simp add: slave_bits_def drive_slave_bit_def)
  then show "unat r mod 16 = unat lba div 16777216" "bit r 6" "bit r 4 = ai_slave di"
    using all [of "slave_bits di"] lt by (auto simp: r_def k list_all_length dest: spec [of _ "unat lba div 16777216"] split: if_splits)
qed

lemma lba_registers:
  assumes "drop_bit 28 lba = (0 :: u32)"
  shows "unat (ucast (lba AND 0xff) :: u8) + 256 * unat (ucast (drop_bit 8 lba AND 0xff) :: u8)
     + 65536 * unat (ucast (drop_bit 16 lba AND 0xff) :: u8)
     + 16777216 * (unat (0xE0 OR slave_bits di OR ucast (drop_bit 24 lba AND 0xf) :: u8) mod 16) = unat lba"
proof -
  have d: "n div 65536 = n div 256 div 256" "n div 16777216 = n div 256 div 256 div 256" for n :: nat
    by (simp_all flip: div_mult2_eq)
  have "n mod 256 + 256 * (n div 256 mod 256) + 65536 * (n div 256 div 256 mod 256) + 16777216 * (n div 256 div 256 div 256) = n" for n :: nat
    using mult_div_mod_eq [of 256 n] mult_div_mod_eq [of 256 "n div 256"] mult_div_mod_eq [of 256 "n div 256 div 256"] by linarith
  then show ?thesis
    unfolding drive_register_nibble(1) [OF assms] u8_of_word unat_u8_of_word unat_shr
    by (simp add: d)
qed


section \<open>Witness\<close>

text \<open>A drive that answers at once.\<close>

definition demo_disk :: "nat \<Rightarrow> u16 list" where "demo_disk n = replicate 256 (of_nat n)"

definition demo_drive :: "drive ports" where
  "demo_drive = \<lparr>in8 = (\<lambda>p d. if p = 0x1F7 \<and> dr_busy d \<noteq> 0 then (0x80, d\<lparr>dr_busy := dr_busy d - 1\<rparr>) else (dr_status d, d)),
     in16 = (\<lambda>p d. case dr_data d of [] \<Rightarrow> (0, d) | w # ws \<Rightarrow> (w, d\<lparr>dr_data := ws\<rparr>)),
     in32 = (\<lambda>p d. (0, d)),
     out8 = (\<lambda>p v d. if p = 0x1F7 then d\<lparr>dr_busy := 3, dr_status := 8, dr_data := demo_disk (drive_lba d)\<rparr>
        else d\<lparr>dr_regs := (dr_regs d)(p - 0x1F0 := v)\<rparr>)\<rparr>"

lemma demo_drive_ok: "drive_ok demo_drive primary_master (\<lambda>d. d) demo_disk"
  by (auto simp: drive_ok_def drive_status_ok_def drive_registers_ok_def drive_reads_ok_def demo_drive_def primary_master_def port_number_def port_status_def port_command_def port_drive_def port_data_def
      port_sector_count_def port_lba_low_def port_lba_mid_def port_lba_high_def status_mask_bsy_def status_mask_drq_def drive_idle_def
      status_mask_err_def status_mask_df_def Let_def split: prod.split)

definition demo_drive_state :: drive where
  "demo_drive_state = \<lparr>dr_busy = 2, dr_status = 0x50, dr_regs = (\<lambda>_. 0), dr_data = []\<rparr>"


end
