(* ===== verification/Cpu.thy ===== *)
theory Cpu
  imports Ports
begin

text \<open>
  The processor: \<open>attos/cpu.h\<close> and \<open>kernel/cpu_manager.cpp\<close>. Segment descriptors and the task state segment, the switch
  between contexts, the system call entry and the model specific registers. The assembly stubs and what the
  instructions do to the processor are a record of its state; the stub that saves and loads all registers is a parameter.
\<close>

section \<open>The code: \<open>cpu.h\<close>\<close>

definition rflag_bit_res1 :: nat where "rflag_bit_res1 = 1"
definition rflag_bit_tf :: nat where "rflag_bit_tf = 8"
definition rflag_bit_if :: nat where "rflag_bit_if = 9"
definition rflag_bit_df :: nat where "rflag_bit_df = 10"
definition rflag_bit_iopl :: nat where "rflag_bit_iopl = 12"
definition rflag_bit_ac :: nat where "rflag_bit_ac = 18"

definition rflag_mask_res1 :: u32 where "rflag_mask_res1 = push_bit rflag_bit_res1 1"
definition rflag_mask_tf :: u32 where "rflag_mask_tf = push_bit rflag_bit_tf 1"
definition rflag_mask_if :: u32 where "rflag_mask_if = push_bit rflag_bit_if 1"
definition rflag_mask_df :: u32 where "rflag_mask_df = push_bit rflag_bit_df 1"
definition rflag_mask_iopl :: u32 where "rflag_mask_iopl = push_bit rflag_bit_iopl 3"
definition rflag_mask_ac :: u32 where "rflag_mask_ac = push_bit rflag_bit_ac 1"

text \<open>The saved registers; \<open>fx_state\<close> is the 512 bytes of the floating point unit.\<close>

record registers =
  r_rax :: u64
  r_rbx :: u64
  r_rcx :: u64
  r_rdx :: u64
  r_rbp :: u64
  r_rsi :: u64
  r_rdi :: u64
  r_r8 :: u64
  r_r9 :: u64
  r_r10 :: u64
  r_r11 :: u64
  r_r12 :: u64
  r_r13 :: u64
  r_r14 :: u64
  r_r15 :: u64
  r_fx_state :: bytes
  r_interrupt_no :: u8
  r_error_code :: u64
  r_rip :: u64
  r_cs :: u16
  r_eflags :: u32
  r_rsp :: u64
  r_ss :: u16

definition registers_zero :: registers where
  "registers_zero = \<lparr>r_rax = 0, r_rbx = 0, r_rcx = 0, r_rdx = 0, r_rbp = 0, r_rsi = 0, r_rdi = 0, r_r8 = 0, r_r9 = 0, r_r10 = 0,
     r_r11 = 0, r_r12 = 0, r_r13 = 0, r_r14 = 0, r_r15 = 0, r_fx_state = replicate 512 0, r_interrupt_no = 0, r_error_code = 0,
     r_rip = 0, r_cs = 0, r_eflags = 0, r_rsp = 0, r_ss = 0\<rparr>"

definition msr_efer :: u32 where "msr_efer = 0xc0000080"
definition msr_star :: u32 where "msr_star = 0xc0000081"
definition msr_lstar :: u32 where "msr_lstar = 0xc0000082"
definition msr_fmask :: u32 where "msr_fmask = 0xc0000084"
definition efer_mask_sce :: u64 where "efer_mask_sce = push_bit 0 1"
definition efer_mask_nxe :: u64 where "efer_mask_nxe = push_bit 11 1"

lemmas msr_defs = msr_efer_def msr_star_def msr_lstar_def msr_fmask_def

text \<open>\<open>interrupt_toggler\<close>: the flag in the processor, and what the object remembers.\<close>

definition toggler_new :: "bool \<Rightarrow> bool \<Rightarrow> bool \<times> bool" where
  "toggler_new enable flag =
     (flag, if enable \<and> \<not> flag then True else if \<not> enable \<and> flag then False else flag)"

definition toggler_destroy :: "bool \<Rightarrow> bool \<Rightarrow> bool \<Rightarrow> bool" where
  "toggler_destroy enable were_enabled flag =
     (if enable \<and> \<not> were_enabled then False else if \<not> enable \<and> were_enabled then True else flag)"

datatype privilege_level = Kernel_level | User_level

definition privilege_level_value :: "privilege_level \<Rightarrow> u8" where
  "privilege_level_value l = (case l of Kernel_level \<Rightarrow> 0 | User_level \<Rightarrow> 3)"

section \<open>The code: segments\<close>

definition kernel_cs :: u16 where "kernel_cs = 0x08"
definition kernel_ds :: u16 where "kernel_ds = 0x10"
definition user_cs :: u16 where "user_cs = 0x23"
definition user_ds :: u16 where "user_ds = 0x1b"

lemmas selector_defs = kernel_cs_def kernel_ds_def user_cs_def user_ds_def

definition gdt_entry :: "u16 \<Rightarrow> u32 \<Rightarrow> u32 \<Rightarrow> u64" where
  "gdt_entry flags base limit =
     (ucast limit AND 0x0000ffff)
     OR push_bit 16 (ucast (base AND 0x00ffffff))
     OR push_bit 40 (ucast (flags AND 0xf0ff))
     OR push_bit (48 - 16) (ucast (limit AND 0x000f0000))
     OR push_bit (56 - 24) (ucast (base AND 0xff000000))"

definition io_bitmap_elems :: nat where "io_bitmap_elems = 65536 div 8 div 8"

text \<open>The task state segment, as far as the code uses it: the stack pointers and the bits of the ports.\<close>

record tss =
  tss_rsp0 :: u64
  tss_rsp1 :: u64
  tss_rsp2 :: u64
  tss_io_bitmap :: "u64 list"

definition tss_size :: u64 where "tss_size = 0x68 + 8 * (of_nat io_bitmap_elems + 1)"

definition tss_allow_port :: "tss \<Rightarrow> u16 \<Rightarrow> tss" where
  "tss_allow_port t port =
     (let i = unat (drop_bit 6 port) in
      t\<lparr>tss_io_bitmap := (tss_io_bitmap t)[i := tss_io_bitmap t ! i AND NOT (push_bit (unat (port AND 63)) 1)]\<rparr>)"

definition gdt_tss0_low :: nat where "gdt_tss0_low = 5"

definition gdt_table :: "u64 \<Rightarrow> u64 list" where
  "gdt_table tss_base =
     (let tss_limit = tss_size - 1; tss_type = 0x89 in
      [gdt_entry 0x0000 0 0x00000,
       gdt_entry 0xa09a 0 0xfffff,
       gdt_entry 0x8092 0 0xfffff,
       gdt_entry 0x80f2 0 0xfffff,
       gdt_entry 0xa0fa 0 0xfffff,
       (tss_limit AND 0xFFFF) OR push_bit 16 (tss_base AND 0xFFFFFF) OR push_bit 40 tss_type
         OR push_bit 32 (tss_limit AND 0xF0000) OR push_bit 32 (tss_base AND 0xFF000000),
       drop_bit 32 tss_base])"

section \<open>The code: the processor\<close>

text \<open>The descriptor tables that the processor uses are named by limit and base; \<open>'h\<close> is a system call handler.\<close>

record gdt_descriptor =
  gd_limit :: u16
  gd_base :: u64

record processor =
  p_gdtr :: gdt_descriptor
  p_cs :: u16
  p_tr :: u16
  p_msr :: "u32 \<Rightarrow> u64"

record cpu_manager =
  cm_old_gdt_desc :: gdt_descriptor
  cm_old_cs :: u16
  cm_tss :: tss
  cm_old_efer :: u64
  cm_gdt :: "u64 list"

definition cpu_manager_new :: "u64 \<Rightarrow> u64 \<Rightarrow> tss \<Rightarrow> processor \<Rightarrow> cpu_manager \<times> processor" where
  "cpu_manager_new gdt_base tss_base t p =
     (let old_cs = p_cs p;
          table = gdt_table tss_base;
          old_gdt = p_gdtr p;
          p1 = p\<lparr>p_gdtr := \<lparr>gd_limit = of_nat (8 * length table) - 1, gd_base = gdt_base\<rparr>\<rparr>;
          p2 = p1\<lparr>p_tr := of_nat (gdt_tss0_low * 8)\<rparr>;
          p3 = p2\<lparr>p_cs := kernel_cs\<rparr>;
          old_efer = p_msr p3 msr_efer;
          p4 = p3\<lparr>p_msr := (p_msr p3)(msr_efer := old_efer OR efer_mask_nxe)\<rparr>
      in (\<lparr>cm_old_gdt_desc = old_gdt, cm_old_cs = old_cs, cm_tss = t, cm_old_efer = old_efer, cm_gdt = table\<rparr>, p4))"

definition cpu_manager_destroy :: "cpu_manager \<Rightarrow> processor \<Rightarrow> processor" where
  "cpu_manager_destroy c p =
     (let p1 = p\<lparr>p_msr := (p_msr p)(msr_efer := cm_old_efer c)\<rparr>;
          p2 = p1\<lparr>p_gdtr := cm_old_gdt_desc c\<rparr>
      in p2\<lparr>p_cs := cm_old_cs c\<rparr>)"

text \<open>\<open>switch_to\<close> saves the kernel's stack pointer, runs the context, and comes back through \<open>switch_to_restore\<close>, which
  takes it from there. \<open>run\<close> is what happens in between: it is given the registers and the stack pointer that was saved.\<close>

definition switch_to_context :: "(registers \<Rightarrow> cpu_manager \<Rightarrow> 's \<Rightarrow> (cpu_manager \<times> 's) res) \<Rightarrow> u64 \<Rightarrow> registers \<Rightarrow> cpu_manager \<Rightarrow> 's \<Rightarrow> (cpu_manager \<times> 's) res" where
  "switch_to_context run rsp regs c s =
     require (tss_rsp0 (cm_tss c) = 0) ''tss_.rsp0 == 0'' (
     require (tss_rsp1 (cm_tss c) = 0) ''tss_.rsp1 == 0'' (
     require (tss_rsp2 (cm_tss c) = 0) ''tss_.rsp2 == 0'' (
     andThen (run regs (c\<lparr>cm_tss := (cm_tss c)\<lparr>tss_rsp0 := rsp\<rparr>\<rparr>) s) (\<lambda>(c1, s1).
       Inr (c1\<lparr>cm_tss := (cm_tss c1)\<lparr>tss_rsp0 := 0\<rparr>\<rparr>, s1)))))"

definition cpu_restore_original_context :: "cpu_manager \<Rightarrow> u64 res" where
  "cpu_restore_original_context c = require (tss_rsp0 (cm_tss c) \<noteq> 0) ''tss_.rsp0 != 0'' (Inr (tss_rsp0 (cm_tss c)))"

section \<open>The code: system calls\<close>

type_synonym 's handler = "registers \<Rightarrow> 's \<Rightarrow> (registers \<times> 's) res"

definition syscall_service_routine :: "'s handler option \<Rightarrow> registers \<Rightarrow> 's \<Rightarrow> (registers \<times> 's) res" where
  "syscall_service_routine syscall_handler regs s =
     (case syscall_handler of
        None \<Rightarrow> Inl (Fatal ''syscall_handler_'')
      | Some handler \<Rightarrow>
          let regs1 = regs\<lparr>r_cs := user_cs, r_rip := r_rcx regs, r_ss := user_ds, r_eflags := ucast (r_r11 regs)\<rparr> in
          andThen (handler regs1 s) (\<lambda>(regs2, s1).
          require (r_cs regs2 = user_cs) ''regs.cs == user_cs'' (
          require (r_ss regs2 = user_ds) ''regs.ss == user_ds'' (
            Inr (regs2\<lparr>r_rcx := r_rip regs2, r_r11 := ucast (r_eflags regs2)\<rparr>, s1)))))"

definition syscall_fmask :: u32 where
  "syscall_fmask = rflag_mask_tf OR rflag_mask_if OR rflag_mask_df OR rflag_mask_iopl OR rflag_mask_ac"

definition syscall_enabler_new :: "'h \<Rightarrow> u64 \<Rightarrow> 'h option \<Rightarrow> processor \<Rightarrow> ('h option \<times> processor) res" where
  "syscall_enabler_new handler entry syscall_handler p =
     require (p_msr p msr_efer AND efer_mask_sce = 0) ''!(__readmsr(msr_efer) & efer_mask_sce)'' (
     require (syscall_handler = None) ''!syscall_handler_'' (
     let msr1 = (p_msr p)(msr_star := push_bit 32 (ucast kernel_cs) OR push_bit 48 (ucast (user_ds - 8)));
         msr2 = msr1(msr_lstar := entry);
         msr3 = msr2(msr_fmask := ucast syscall_fmask);
         msr4 = msr3(msr_efer := msr3 msr_efer OR efer_mask_sce)
     in Inr (Some handler, p\<lparr>p_msr := msr4\<rparr>)))"

definition syscall_enabler_destroy :: "processor \<Rightarrow> ('h option \<times> processor) res" where
  "syscall_enabler_destroy p =
     require (p_msr p msr_efer AND efer_mask_sce \<noteq> 0) ''__readmsr(msr_efer) & efer_mask_sce'' (
       Inr (None, p\<lparr>p_msr := (p_msr p)(msr_efer := p_msr p msr_efer AND NOT efer_mask_sce)\<rparr>))"

section \<open>Interrupts are restored\<close>

lemma toggler_restores:
  assumes "toggler_new enable flag = (were, flag1)"
  shows "flag1 = enable" "toggler_destroy enable were flag1 = flag"
  using assms by (auto simp: toggler_new_def toggler_destroy_def split: if_splits)

section \<open>Segment descriptors\<close>

text \<open>How the processor reads a segment descriptor.\<close>

definition desc_base :: "u64 \<Rightarrow> u32" where
  "desc_base d = ucast (drop_bit 16 d AND 0xffffff) OR push_bit 24 (ucast (drop_bit 56 d AND 0xff))"

definition desc_limit :: "u64 \<Rightarrow> u32" where
  "desc_limit d = ucast (d AND 0xffff) OR push_bit 16 (ucast (drop_bit 48 d AND 0xf))"

definition desc_flags :: "u64 \<Rightarrow> u16" where
  "desc_flags d = ucast (drop_bit 40 d) AND 0xf0ff"

definition desc_dpl :: "u64 \<Rightarrow> nat" where "desc_dpl d = unat (drop_bit 45 d AND 3)"
definition desc_present :: "u64 \<Rightarrow> bool" where "desc_present d = bit d 47"
definition desc_code :: "u64 \<Rightarrow> bool" where "desc_code d \<longleftrightarrow> bit d 44 \<and> bit d 43"
definition desc_long :: "u64 \<Rightarrow> bool" where "desc_long d = bit d 53"

lemma desc_masks:
  "(0xffff :: u64) = mask 16" "(0xffffff :: u32) = mask 24" "(0xffffff :: u64) = mask 24" "(0xff :: u64) = mask 8" "(0xf :: u64) = mask 4"
  "(0xf0000 :: u32) = push_bit 16 (mask 4)" "(0xf0000 :: u64) = push_bit 16 (mask 4)" "(0xff000000 :: u32) = push_bit 24 (mask 8)"
  "(0xff000000 :: u64) = push_bit 24 (mask 8)" "(0xf0ff :: u16) = push_bit 12 (mask 4) OR mask 8"
  by (simp_all add: mask_eq_exp_minus_1)

lemma gdt_entry_bits:
  "k < 16 \<Longrightarrow> bit (gdt_entry f b l) k = bit l k"
  "k < 24 \<Longrightarrow> bit (gdt_entry f b l) (16 + k) = bit b k"
  "k < 8 \<Longrightarrow> bit (gdt_entry f b l) (40 + k) = bit f k"
  "k < 4 \<Longrightarrow> bit (gdt_entry f b l) (48 + k) = bit l (16 + k)"
  "k < 4 \<Longrightarrow> bit (gdt_entry f b l) (52 + k) = bit f (12 + k)"
  "k < 8 \<Longrightarrow> bit (gdt_entry f b l) (56 + k) = bit b (24 + k)"
  unfolding gdt_entry_def desc_masks(1,2,6,8,10) by (simp_all add: bit_simps) auto

lemma desc_base_word:
  assumes "\<And>k. k < 24 \<Longrightarrow> bit d (16 + k) = bit b k" "\<And>k. k < 8 \<Longrightarrow> bit d (56 + k) = bit b (24 + k)"
  shows "desc_base d = b"
proof (rule bit_word_eqI)
  fix n assume n: "n < LENGTH(32)"
  show "bit (desc_base d) n = bit b n"
  proof (cases "n < 24")
    case True
    then show ?thesis using assms(1) [of n] n unfolding desc_base_def desc_masks(3,4) by (simp add: bit_simps)
  next
    case False
    then obtain m where "n = 24 + m" "m < 8" using n le_Suc_ex [of 24 n] by auto
    then show ?thesis using assms(2) [of m] unfolding desc_base_def desc_masks(3,4) by (simp add: bit_simps)
  qed
qed

lemma desc_limit_word:
  assumes "\<And>k. k < 16 \<Longrightarrow> bit d k = bit l k" "\<And>k. k < 4 \<Longrightarrow> bit d (48 + k) = bit l (16 + k)"
  shows "desc_limit d = l AND 0xfffff"
proof (rule bit_word_eqI)
  have f: "(0xfffff :: u32) = mask 20" by (simp add: mask_eq_exp_minus_1)
  fix n assume n: "n < LENGTH(32)"
  show "bit (desc_limit d) n = bit (l AND 0xfffff) n"
  proof (cases "n < 16")
    case True
    then show ?thesis using assms(1) [of n] n unfolding desc_limit_def desc_masks(1,5) f by (simp add: bit_simps)
  next
    case False
    then obtain m where "n = 16 + m" "m < 16" using n le_Suc_ex [of 16 n] by auto
    then show ?thesis using assms(2) [of m] unfolding desc_limit_def desc_masks(1,5) f by (auto simp: bit_simps)
  qed
qed

lemma desc_flags_word:
  fixes f :: u16
  assumes "\<And>k. k < 8 \<Longrightarrow> bit d (40 + k) = bit f k" "\<And>k. k < 4 \<Longrightarrow> bit d (52 + k) = bit f (12 + k)"
  shows "desc_flags d = f AND 0xf0ff"
proof (rule bit_word_eqI)
  fix n assume n: "n < LENGTH(16)"
  consider "n < 8" | "8 \<le> n" "n < 12" | m where "n = 12 + m" "m < 4" using n le_Suc_ex [of 12 n] by fastforce
  then show "bit (desc_flags d) n = bit (f AND 0xf0ff) n"
  proof cases
    case 1
    then show ?thesis using assms(1) [of n] unfolding desc_flags_def desc_masks(10) by (simp add: bit_simps)
  next
    case 2
    then show ?thesis unfolding desc_flags_def desc_masks(10) by (simp add: bit_simps)
  next
    case 3
    then show ?thesis using assms(2) [of m] unfolding desc_flags_def desc_masks(10) by (simp add: bit_simps)
  qed
qed

lemma gdt_entry_core:
  "desc_base (gdt_entry f b l) = b" "desc_limit (gdt_entry f b l) = l AND 0xfffff" "desc_flags (gdt_entry f b l) = f AND 0xf0ff"
  by (intro desc_base_word desc_limit_word desc_flags_word gdt_entry_bits; assumption)+

text \<open>The descriptor of the task state segment spans two entries.\<close>

lemma tss_size_value: "tss_size = 8304"
  by (simp add: tss_size_def io_bitmap_elems_def)

lemma tss_low_bits:
  fixes base :: u64
  assumes lim: "\<And>k. k < 48 \<Longrightarrow> \<not> bit limit (16 + k)" and ty: "\<And>k. k < 56 \<Longrightarrow> \<not> bit type (8 + k)"
  defines "d \<equiv> limit OR push_bit 16 (base AND 0xFFFFFF) OR push_bit 40 type OR push_bit 32 (base AND 0xFF000000) :: u64"
  shows "k < 16 \<Longrightarrow> bit d k = bit limit k" "k < 24 \<Longrightarrow> bit d (16 + k) = bit base k"
    "k < 16 \<Longrightarrow> bit d (40 + k) = bit type k" "k < 8 \<Longrightarrow> bit d (56 + k) = bit base (24 + k)"
proof -
  have m: "(0xffffff :: u64) = mask 24" "(0xff000000 :: u64) = push_bit 24 (mask 8)" by (simp_all add: mask_eq_exp_minus_1)
  show "k < 16 \<Longrightarrow> bit d k = bit limit k" unfolding d_def m by (auto simp: bit_simps)
  show "k < 24 \<Longrightarrow> bit d (16 + k) = bit base k" using lim [of k] unfolding d_def m by (auto simp: bit_simps)
  show "k < 16 \<Longrightarrow> bit d (40 + k) = bit type k" using lim [of "24 + k"] unfolding d_def m by (auto simp: bit_simps)
  show "k < 8 \<Longrightarrow> bit d (56 + k) = bit base (24 + k)"
    using lim [of "40 + k"] ty [of "8 + k"] unfolding d_def m by (auto simp: bit_simps)
qed

lemma tss_descriptor:
  "desc_base (gdt_table base ! gdt_tss0_low) = ucast base" "gdt_table base ! Suc gdt_tss0_low = drop_bit 32 base"
  "desc_limit (gdt_table base ! gdt_tss0_low) = 8303" "desc_flags (gdt_table base ! gdt_tss0_low) = 0x89"
proof -
  have t: "gdt_table base ! gdt_tss0_low = 8303 OR push_bit 16 (base AND 0xFFFFFF) OR push_bit 40 0x89 OR push_bit 32 (base AND 0xFF000000)"
    by (simp add: gdt_table_def tss_size_value gdt_tss0_low_def Let_def)
  have c: "list_all (\<lambda>k. \<not> bit (8303 :: u64) (16 + k)) [0..<48]" "list_all (\<lambda>k. \<not> bit (0x89 :: u64) (8 + k)) [0..<56]"
    "list_all (\<lambda>k. bit (8303 :: u64) k = bit (8303 :: u32) k \<and> bit (0x89 :: u64) k = bit (0x89 :: u16) k) [0..<16]" by code_simp+
  have z: "k < 48 \<Longrightarrow> \<not> bit (8303 :: u64) (16 + k)" "k < 56 \<Longrightarrow> \<not> bit (0x89 :: u64) (8 + k)"
    "k < 16 \<Longrightarrow> bit (8303 :: u64) k = bit (8303 :: u32) k" "k < 16 \<Longrightarrow> bit (0x89 :: u64) k = bit (0x89 :: u16) k" for k
    using c by (auto simp: list_all_length)
  note b = tss_low_bits [where limit = 8303 and type = "0x89" and base = base, OF z(1,2), folded t]
  show "gdt_table base ! Suc gdt_tss0_low = drop_bit 32 base" by (simp add: gdt_table_def gdt_tss0_low_def Let_def)
  show "desc_base (gdt_table base ! gdt_tss0_low) = ucast base"
    using b(2,4) by (intro desc_base_word) (simp_all add: bit_simps)
  have "desc_limit (gdt_table base ! gdt_tss0_low) = 8303 AND 0xfffff"
  proof (rule desc_limit_word)
    fix k :: nat assume "k < 16"
    then show "bit (gdt_table base ! gdt_tss0_low) k = bit (8303 :: u32) k" using b(1) [of k] z(3) [of k] by simp
  next
    fix k :: nat assume k: "k < 4"
    then have "bit (gdt_table base ! gdt_tss0_low) (48 + k) = bit (0x89 :: u64) (8 + k)" using b(3) [of "8 + k"] by simp
    moreover have "list_all (\<lambda>k. \<not> bit (8303 :: u32) (16 + k)) [0..<4]" by code_simp
    ultimately show "bit (gdt_table base ! gdt_tss0_low) (48 + k) = bit (8303 :: u32) (16 + k)"
      using z(2) [of k] k by (simp add: list_all_length)
  qed
  then show "desc_limit (gdt_table base ! gdt_tss0_low) = 8303" by simp
  have "desc_flags (gdt_table base ! gdt_tss0_low) = 0x89 AND 0xf0ff"
  proof (rule desc_flags_word)
    fix k :: nat assume k: "k < 8"
    then show "bit (gdt_table base ! gdt_tss0_low) (40 + k) = bit (0x89 :: u16) k" using b(3) [of k] z(4) [of k] by simp
  next
    fix k :: nat assume k: "k < 4"
    then show "bit (gdt_table base ! gdt_tss0_low) (52 + k) = bit (0x89 :: u16) (12 + k)" using b(3) [of "12 + k"] z(4) [of "12 + k"] by simp
  qed
  then show "desc_flags (gdt_table base ! gdt_tss0_low) = 0x89" by simp
qed

section \<open>System calls\<close>

text \<open>The selectors that the instructions \<open>syscall\<close> and \<open>sysret\<close> load, according to the processor's manual.\<close>

definition syscall_selectors :: "u64 \<Rightarrow> u16 \<times> u16" where
  "syscall_selectors star = (ucast (drop_bit 32 star) AND 0xfffc, ucast (drop_bit 32 star) + 8)"

definition sysret_selectors :: "u64 \<Rightarrow> u16 \<times> u16" where
  "sysret_selectors star = ((ucast (drop_bit 48 star) + 16) OR 3, (ucast (drop_bit 48 star) + 8) OR 3)"

lemma star_selectors:
  assumes "syscall_enabler_new h entry None p = Inr (sh, p')"
  shows "syscall_selectors (p_msr p' msr_star) = (kernel_cs, kernel_ds)" "sysret_selectors (p_msr p' msr_star) = (user_cs, user_ds)"
    "p_msr p' msr_efer = p_msr p msr_efer OR efer_mask_sce" "p_msr p' msr_lstar = entry" "bit (p_msr p' msr_fmask) rflag_bit_if"
  using assms by (auto simp: syscall_enabler_new_def res_simps Let_def syscall_selectors_def sysret_selectors_def msr_defs selector_defs
      syscall_fmask_def rflag_mask_tf_def rflag_mask_if_def rflag_mask_df_def rflag_mask_iopl_def rflag_mask_ac_def rflag_bit_tf_def
      rflag_bit_if_def rflag_bit_df_def rflag_bit_iopl_def rflag_bit_ac_def bit_simps)

text \<open>The descriptor that a selector selects, and the kinds of segment.\<close>

definition selected :: "u64 list \<Rightarrow> u16 \<Rightarrow> u64" where "selected table sel = table ! unat (drop_bit 3 sel)"

definition code_segment :: "nat \<Rightarrow> u64 \<Rightarrow> bool" where
  "code_segment dpl d \<longleftrightarrow> desc_present d \<and> desc_code d \<and> desc_long d \<and> desc_dpl d = dpl \<and> desc_base d = 0 \<and> desc_limit d = 0xfffff"

definition data_segment :: "nat \<Rightarrow> u64 \<Rightarrow> bool" where
  "data_segment dpl d \<longleftrightarrow> desc_present d \<and> bit d 44 \<and> \<not> bit d 43 \<and> bit d 41 \<and> desc_dpl d = dpl \<and> desc_base d = 0 \<and> desc_limit d = 0xfffff"

lemma gdt_segments:
  "code_segment 0 (selected (gdt_table base) kernel_cs)" "data_segment 0 (selected (gdt_table base) kernel_ds)"
  "code_segment 3 (selected (gdt_table base) user_cs)" "data_segment 3 (selected (gdt_table base) user_ds)"
  by (simp_all add: selected_def selector_defs gdt_table_def Let_def code_segment_def data_segment_def gdt_entry_core
      desc_present_def desc_code_def desc_long_def desc_dpl_def) (simp_all add: gdt_entry_def)


text \<open>What the user sees of a system call whose handler leaves the return address and the flags alone, and what the destructors
  restore.\<close>

lemma syscall_returns_to_caller:
  assumes "handler (regs\<lparr>r_cs := user_cs, r_rip := r_rcx regs, r_ss := user_ds, r_eflags := ucast (r_r11 regs)\<rparr>) s = Inr (regs2, s1)"
    "r_cs regs2 = user_cs" "r_ss regs2 = user_ds" "r_rip regs2 = r_rcx regs" "r_eflags regs2 = ucast (r_r11 regs)"
    "r_r11 regs < 0x100000000"
  shows "\<exists>regs'. syscall_service_routine (Some handler) regs s = Inr (regs', s1) \<and> r_rcx regs' = r_rcx regs \<and> r_r11 regs' = r_r11 regs"
proof -
  have "ucast (ucast (r_r11 regs) :: u32) = r_r11 regs"
    using assms(6) by (simp add: word_unat_eq_iff unsigned_ucast_eq take_bit_eq_mod word_less_nat_alt unat_mod)
  then show ?thesis using assms by (simp add: syscall_service_routine_def Let_def)
qed

lemma cpu_manager_restores:
  assumes "cpu_manager_new gdt_base tss_base t p = (c, p1)"
  shows "cpu_manager_destroy c (p1\<lparr>p_msr := m\<rparr>) = p\<lparr>p_msr := m(msr_efer := p_msr p msr_efer), p_tr := p_tr p1\<rparr>"
  using assms by (auto simp: cpu_manager_new_def cpu_manager_destroy_def Let_def)

lemma switch_to_context_again:
  assumes "switch_to_context run rsp regs c s = Inr (c', s')"
  shows "tss_rsp0 (cm_tss c') = 0"
  using assms by (auto simp: switch_to_context_def res_simps)

text \<open>\<open>allow_port\<close> clears the bit of its port only.\<close>

definition port_denied :: "tss \<Rightarrow> u16 \<Rightarrow> bool" where
  "port_denied t p = bit (tss_io_bitmap t ! unat (drop_bit 6 p)) (unat (p AND 63))"

lemma allow_port_exact:
  assumes "length (tss_io_bitmap t) = io_bitmap_elems + 1"
  shows "port_denied (tss_allow_port t q) p \<longleftrightarrow> port_denied t p \<and> p \<noteq> q"
proof -
  have m: "(63 :: u16) = mask 6" by (simp add: mask_eq_exp_minus_1)
  have lt: "unat (drop_bit 6 x) < length (tss_io_bitmap t)" "unat (x AND 63) < 64" for x :: u16
    using assms u16_range [of x] unfolding m unat_low_bits by (simp_all add: unat_shr io_bitmap_elems_def less_mult_imp_div_less)
  have eq: "p = q \<longleftrightarrow> unat (drop_bit 6 p) = unat (drop_bit 6 q) \<and> unat (p AND 63) = unat (q AND 63)"
    unfolding m word_unat_eq_iff unat_shr unat_low_bits by (metis div_mult_mod_eq)
  show ?thesis using lt [of p] lt [of q]
    by (auto simp: port_denied_def tss_allow_port_def Let_def eq bit_simps nth_list_update)
qed

section \<open>Witness\<close>

definition demo_processor :: processor where
  "demo_processor = \<lparr>p_gdtr = \<lparr>gd_limit = 0xff, gd_base = 0x1000\<rparr>, p_cs = 0x38, p_tr = 0, p_msr = (\<lambda>_. 0)\<rparr>"

definition demo_tss :: tss where
  "demo_tss = \<lparr>tss_rsp0 = 0, tss_rsp1 = 0, tss_rsp2 = 0, tss_io_bitmap = replicate (io_bitmap_elems + 1) 0\<rparr>"


end
