(* ===== verification/Isr.thy ===== *)
theory Isr
  imports OutStream Cpu
begin

text \<open>
  Interrupts: \<open>kernel/isr.cpp\<close>. The descriptor table and the code of its 256 stubs, which is generated at run time, the two
  interrupt controllers behind their ports, the registration and the dispatch of handlers, and the symbol table that the
  stack trace prints from. What runs when an interrupt arrives is the assembly \<open>isr_common\<close>, which calls
  \<open>interrupt_service_routine\<close>; handlers are functions on the state \<open>'s\<close> of the rest of the kernel.
\<close>

section \<open>The code: interrupt numbers\<close>

definition int_DE :: u8 where "int_DE = 0x00"
definition int_DB :: u8 where "int_DB = 0x01"
definition int_NMI :: u8 where "int_NMI = 0x02"
definition int_BP :: u8 where "int_BP = 0x03"
definition int_OF :: u8 where "int_OF = 0x04"
definition int_BR :: u8 where "int_BR = 0x05"
definition int_UD :: u8 where "int_UD = 0x06"
definition int_NM :: u8 where "int_NM = 0x07"
definition int_DF :: u8 where "int_DF = 0x08"
definition int_TS :: u8 where "int_TS = 0x0A"
definition int_NP :: u8 where "int_NP = 0x0B"
definition int_SS :: u8 where "int_SS = 0x0C"
definition int_GP :: u8 where "int_GP = 0x0D"
definition int_PF :: u8 where "int_PF = 0x0E"
definition int_MF :: u8 where "int_MF = 0x10"
definition int_AC :: u8 where "int_AC = 0x11"
definition int_MC :: u8 where "int_MC = 0x12"
definition int_XF :: u8 where "int_XF = 0x13"
definition int_SX :: u8 where "int_SX = 0x1E"
definition int_IRQ0 :: u8 where "int_IRQ0 = 0x30"
definition int_IRQF :: u8 where "int_IRQF = 0x3F"

lemmas int_defs = int_DE_def int_DB_def int_NMI_def int_BP_def int_OF_def int_BR_def int_UD_def int_NM_def int_DF_def int_TS_def
  int_NP_def int_SS_def int_GP_def int_PF_def int_MF_def int_AC_def int_MC_def int_XF_def int_SX_def int_IRQ0_def int_IRQF_def

definition irq_number :: "u8 \<Rightarrow> u8" where "irq_number n = n - int_IRQ0"

definition is_irq :: "u8 \<Rightarrow> bool" where "is_irq n \<longleftrightarrow> n \<ge> int_IRQ0 \<and> n \<le> int_IRQF"

definition has_error_code :: "u8 \<Rightarrow> bool" where
  "has_error_code n \<longleftrightarrow> n = int_DF \<or> n = int_TS \<or> n = int_NP \<or> n = int_SS \<or> n = int_GP \<or> n = int_PF \<or> n = int_AC"

definition interrupt_names :: "(u8 \<times> string) list" where
  "interrupt_names = [(int_DE, ''#DE''), (int_DB, ''#DB''), (int_NMI, ''NMI''), (int_BP, ''#BP''), (int_OF, ''#OF''), (int_BR, ''#BR''),
     (int_UD, ''#UD''), (int_NM, ''#NM''), (int_DF, ''#DF''), (int_TS, ''#TS''), (int_NP, ''#NP''), (int_SS, ''#SS''), (int_GP, ''#GP''),
     (int_PF, ''#PF''), (int_MF, ''#MF''), (int_AC, ''#AC''), (int_MC, ''#MC''), (int_XF, ''#XF''), (int_SX, ''#SX'')]"

definition put_interrupt_number :: "u8 \<Rightarrow> bytes res" where
  "put_interrupt_number n =
     (case map_of interrupt_names n of
        Some name \<Rightarrow> put_string (c_str name)
      | None \<Rightarrow>
          if is_irq n then andThen (put_string (c_str ''IRQ#'')) (\<lambda>a. andThen (put_i32 (ucast (irq_number n))) (\<lambda>b. Inr (a @ b)))
          else andThen (put_string (c_str ''0x'')) (\<lambda>a. andThen (put_formatted_number (as_hex 1 (ucast n))) (\<lambda>b. Inr (a @ b))))"

section \<open>The code: stubs and gates\<close>

text \<open>A code builder: the address of the code, and the bytes that are written so far.\<close>

record code_builder =
  cb_code :: u64
  cb_bytes :: bytes

definition push_imm8 :: "u8 \<Rightarrow> code_builder \<Rightarrow> code_builder" where
  "push_imm8 imm c = c\<lparr>cb_bytes := cb_bytes c @ [0x6A, imm]\<rparr>"

definition jmp_rel32 :: "u64 \<Rightarrow> code_builder \<Rightarrow> code_builder res" where
  "jmp_rel32 target c =
     (let offset = target - (cb_code c + of_nat (length (cb_bytes c)) + 5) in
      require (sint offset \<ge> - 2147483648 \<and> sint offset \<le> 2147483647) ''offset >= INT32_MIN && offset <= INT32_MAX'' (
        Inr (c\<lparr>cb_bytes := cb_bytes c @ [0xE9] @ store32 (ucast offset)\<rparr>)))"

record interrupt_gate =
  ig_offset_low :: u16
  ig_selector :: u16
  ig_ist :: u8
  ig_type :: u8
  ig_offset_mid :: u16
  ig_offset_high :: u32
  ig_reserved :: u32

definition set_idt_entry :: "u64 \<Rightarrow> privilege_level \<Rightarrow> interrupt_gate" where
  "set_idt_entry base dpl = \<lparr>ig_offset_low = ucast (base AND 0xffff), ig_selector = kernel_cs, ig_ist = 0,
     ig_type = 0x8E OR push_bit 5 (privilege_level_value dpl), ig_offset_mid = ucast (drop_bit 16 base AND 0xffff),
     ig_offset_high = ucast (drop_bit 32 base), ig_reserved = 0\<rparr>"

definition idt_count :: nat where "idt_count = 256"
definition isr_code_size :: nat where "isr_code_size = 9"

text \<open>The stub of an interrupt, and the loop of the constructor that makes all stubs and gates.\<close>

definition isr_stub :: "u64 \<Rightarrow> u64 \<Rightarrow> nat \<Rightarrow> bytes res" where
  "isr_stub isr_common code i =
     (let n = of_nat i;
          c0 = \<lparr>cb_code = code, cb_bytes = []\<rparr>;
          c1 = (if \<not> has_error_code n then push_imm8 0 c0 else c0);
          c2 = push_imm8 (of_nat i) c1
      in andThen (jmp_rel32 isr_common c2) (\<lambda>c3. Inr (cb_bytes c3)))"

definition isr_table :: "u64 \<Rightarrow> u64 \<Rightarrow> ((u64 \<times> bytes \<times> interrupt_gate) list) res" where
  "isr_table isr_common isr_code =
     for_range 0 idt_count (\<lambda>i t.
       let code = isr_code + of_nat (isr_code_size * i) in
       andThen (isr_stub isr_common code i) (\<lambda>b. Inr (t @ [(code, b, set_idt_entry code Kernel_level)]))) []"

section \<open>The code: the interrupt controllers\<close>

definition pic1_command :: u16 where "pic1_command = 0x20"
definition pic1_data :: u16 where "pic1_data = 0x21"
definition pic2_command :: u16 where "pic2_command = 0xA0"
definition pic2_data :: u16 where "pic2_data = 0xA1"
definition pic_irq_mask_all :: u16 where "pic_irq_mask_all = 0xFFFF"

definition pic_irq_mask :: "'p ports \<Rightarrow> 'p \<Rightarrow> u16 \<times> 'p" where
  "pic_irq_mask hw s =
     (let (a, s1) = in8 hw pic1_data s; (b, s2) = in8 hw pic2_data s1 in (ucast a OR push_bit 8 (ucast b), s2))"

definition set_pic_irq_mask :: "'p ports \<Rightarrow> u16 \<Rightarrow> 'p \<Rightarrow> 'p" where
  "set_pic_irq_mask hw m = outs hw [(pic1_data, ucast (m AND 0xff)), (pic2_data, ucast (drop_bit 8 m))]"

definition pic_icw1_icw4 :: u8 where "pic_icw1_icw4 = 0x01"
definition pic_icw1_init :: u8 where "pic_icw1_init = 0x10"
definition pic_icw4_8086 :: u8 where "pic_icw4_8086 = 0x01"

definition pic_remap :: "'p ports \<Rightarrow> u8 \<Rightarrow> u8 \<Rightarrow> 'p \<Rightarrow> 'p" where
  "pic_remap hw pic1_offset pic2_offset s =
     (let s1 = set_pic_irq_mask hw pic_irq_mask_all s;
          s2 = outs hw [
            (pic1_command, pic_icw1_init OR pic_icw1_icw4), (pic2_command, pic_icw1_init OR pic_icw1_icw4),
            (pic1_data, pic1_offset), (pic2_data, pic2_offset),
            (pic1_data, 4), (pic2_data, 2),
            (pic1_data, pic_icw4_8086), (pic2_data, pic_icw4_8086)] s1
      in set_pic_irq_mask hw pic_irq_mask_all s2)"

definition pic_mask_irq :: "'p ports \<Rightarrow> u8 \<Rightarrow> 'p \<Rightarrow> 'p res" where
  "pic_mask_irq hw irq s =
     require (irq < 16 \<and> irq \<noteq> 2) ''irq < 16 && irq != 2'' (
     let irq_bit = push_bit (unat irq) 1; (irq_mask, s1) = pic_irq_mask hw s in
     require (irq_mask AND irq_bit = 0) ''!(irq_mask & mask)'' (
     let (m, s2) = pic_irq_mask hw s1 in Inr (set_pic_irq_mask hw (m OR irq_bit) s2)))"

definition pic_unmask_irq :: "'p ports \<Rightarrow> u8 \<Rightarrow> 'p \<Rightarrow> 'p res" where
  "pic_unmask_irq hw irq s =
     require (irq < 16 \<and> irq \<noteq> 2) ''irq < 16 && irq != 2'' (
     let irq_bit = push_bit (unat irq) 1; (irq_mask, s1) = pic_irq_mask hw s in
     require (irq_mask AND irq_bit \<noteq> 0) ''irq_mask & mask'' (
     let (m, s2) = pic_irq_mask hw s1 in Inr (set_pic_irq_mask hw (m AND NOT irq_bit) s2)))"

definition pic_send_eoi :: "'p ports \<Rightarrow> u8 \<Rightarrow> 'p \<Rightarrow> 'p" where
  "pic_send_eoi hw irq s =
     (let s1 = (if irq \<ge> 8 then out8 hw pic2_command 0x20 s else s) in out8 hw pic1_command 0x20 s1)"

text \<open>A \<open>pic_state\<close> is the mask that it found.\<close>

definition pic_state_new :: "'p ports \<Rightarrow> 'p \<Rightarrow> u16 \<times> 'p" where
  "pic_state_new hw s =
     (let (old, s1) = pic_irq_mask hw s;
          s2 = pic_remap hw int_IRQ0 (int_IRQ0 + 0x08) s1
      in (old, set_pic_irq_mask hw (pic_irq_mask_all AND NOT (push_bit 2 1)) s2))"

definition pic_state_destroy :: "'p ports \<Rightarrow> u16 \<Rightarrow> 'p \<Rightarrow> 'p" where
  "pic_state_destroy hw old_pic_mask s = set_pic_irq_mask hw old_pic_mask (pic_remap hw 0x08 0x70 s)"

section \<open>The code: handlers\<close>

type_synonym 's irq_handler = "'s \<Rightarrow> 's res"
type_synonym 's irq_handlers = "'s irq_handler option list"

definition register_irq_handler ::
  "'p ports \<Rightarrow> u8 \<Rightarrow> 's irq_handler \<Rightarrow> 's irq_handlers \<times> 'p \<Rightarrow> ('s irq_handlers \<times> 'p) res" where
  "register_irq_handler hw irq irq_handler st =
     (let (hs, s) = st in
      in_object (unat irq < length hs) ''irq_handlers_'' (
      require (hs ! unat irq = None) ''!irq_handlers_[irq]'' (
      andThen (pic_unmask_irq hw irq s) (\<lambda>s1. Inr (hs[unat irq := Some irq_handler], s1)))))"

text \<open>The destructor of a registration.\<close>

definition isr_registration_destroy :: "'p ports \<Rightarrow> u8 \<Rightarrow> 's irq_handlers \<times> 'p \<Rightarrow> ('s irq_handlers \<times> 'p) res" where
  "isr_registration_destroy hw irq st =
     (let (hs, s) = st in
      andThen (pic_mask_irq hw irq s) (\<lambda>s1.
      in_object (unat irq < length hs) ''irq_handlers_'' (
      require (hs ! unat irq \<noteq> None) ''!!parent_.irq_handlers_[irq_]'' (Inr (hs[unat irq := None], s1)))))"

definition on_irq :: "'p ports \<Rightarrow> u8 \<Rightarrow> 's irq_handlers \<Rightarrow> 's \<times> 'p \<Rightarrow> (bool \<times> 's \<times> 'p) res" where
  "on_irq hw irq hs st =
     in_object (unat irq < length hs) ''irq_handlers_'' (
       case hs ! unat irq of
         Some handler \<Rightarrow> andThen (handler (fst st)) (\<lambda>s1. Inr (True, s1, pic_send_eoi hw irq (snd st)))
       | None \<Rightarrow> Inr (False, st))"

text \<open>An interrupt that nobody handles is reported, and the processor is halted.\<close>

definition interrupt_service_routine :: "'p ports \<Rightarrow> u8 \<Rightarrow> 's irq_handlers \<Rightarrow> 's \<times> 'p \<Rightarrow> ('s \<times> 'p) res" where
  "interrupt_service_routine hw interrupt_no hs st =
     andThen (if is_irq interrupt_no then on_irq hw (irq_number interrupt_no) hs st else Inr (False, st)) (\<lambda>(handled, st1).
     if handled then Inr st1 else Inl (Fatal ''Unhandled interrupt. Halting.''))"

definition isr_handler_new :: "'p ports \<Rightarrow> 'p \<Rightarrow> u16 \<times> 's irq_handlers \<times> 'p" where
  "isr_handler_new hw s = (let (old, s1) = pic_state_new hw s in (old, replicate 16 None, s1))"

definition isr_handler_destroy :: "'p ports \<Rightarrow> u16 \<Rightarrow> 's irq_handlers \<Rightarrow> 'p \<Rightarrow> 'p res" where
  "isr_handler_destroy hw old hs s =
     require (\<not> list_ex (\<lambda>h. h \<noteq> None) hs) ''std::none_of(irq_handlers_)'' (Inr (pic_state_destroy hw old s))"

section \<open>What a stub does\<close>

text \<open>The two instructions of the stubs, as the processor executes them at \<open>rip\<close>, and where a jump ends.\<close>

function stub_exec :: "u64 \<Rightarrow> bytes \<Rightarrow> u64 list \<Rightarrow> (u64 \<times> u64 list) option" where
  "stub_exec rip b stack =
     (if 2 \<le> length b \<and> b ! 0 = 0x6A then stub_exec (rip + 2) (drop 2 b) (scast (b ! 1) # stack)
      else if 5 \<le> length b \<and> b ! 0 = 0xE9 then Some (rip + 5 + scast (load32 b 1), stack)
      else None)"
  by pat_completeness auto
termination by (relation "measure (\<lambda>(_, b, _). length b)") auto

declare stub_exec.simps [simp del]

definition gate_offset :: "interrupt_gate \<Rightarrow> u64" where
  "gate_offset g = ucast (ig_offset_low g) OR push_bit 16 (ucast (ig_offset_mid g)) OR push_bit 32 (ucast (ig_offset_high g))"

lemma gate_offset_base: "gate_offset (set_idt_entry base dpl) = base"
proof (rule bit_word_eqI)
  have m: "(0xffff :: u64) = mask 16" by (simp add: mask_eq_exp_minus_1)
  fix n assume n: "n < LENGTH(64)"
  consider "n < 16" | k where "n = 16 + k" "k < 16" | k where "n = 32 + k" "k < 32"
    using n le_Suc_ex [of 16 n] le_Suc_ex [of 32 n] by fastforce
  then show "bit (gate_offset (set_idt_entry base dpl)) n = bit base n"
    unfolding gate_offset_def set_idt_entry_def m by cases (auto simp: bit_simps)
qed

lemma near_word:
  assumes "- 2147483648 \<le> sint x" "sint x \<le> 2147483647"
  shows "scast (ucast (x :: u64) :: u32) = x"
proof (rule signed_word_eqI)
  have "signed_take_bit 31 (uint x) = signed_take_bit 31 (sint x)"
    unfolding sint_uint by (simp add: signed_take_bit_signed_take_bit)
  also have "\<dots> = sint x" using assms by (intro signed_take_bit_int_eq_self) simp_all
  finally have s: "sint (ucast x :: u32) = sint x" by (simp only: signed_ucast_eq) simp
  show "sint (scast (ucast x :: u32) :: u64) = sint x"
    unfolding signed_scast_eq s using assms by (intro signed_take_bit_int_eq_self) simp_all
qed
lemma exec_push: "stub_exec rip (0x6A # imm # b) stack = stub_exec (rip + 2) b (scast imm # stack)"
  by (subst stub_exec.simps) simp

lemma exec_jmp:
  assumes "- 2147483648 \<le> sint (target - (rip + 5))" "sint (target - (rip + 5)) \<le> 2147483647"
  shows "stub_exec rip (0xE9 # store32 (ucast (target - (rip + 5)))) stack = Some (target, stack)"
proof -
  let ?w = "store32 (ucast (target - (rip + 5)))"
  have "load32 (0xE9 # ?w) 1 = load32 ?w 0" by (simp add: load32_def)
  then show ?thesis using near_word [OF assms] by (subst stub_exec.simps) simp
qed

lemma isr_stub_core:
  assumes near: "\<And>j. j \<le> 9 \<Longrightarrow> - 2147483648 \<le> sint (isr_common - (code + of_nat j)) \<and> sint (isr_common - (code + of_nat j)) \<le> 2147483647"
  shows "\<exists>b. isr_stub isr_common code i = Inr b \<and> length b \<le> 9 \<and>
     stub_exec code b stack = Some (isr_common, scast (of_nat i :: u8) # (if has_error_code (of_nat i) then stack else 0 # stack))"
proof (cases "has_error_code (of_nat i)")
  case True
  have c: "code + 2 + 5 = code + 7" by simp
  show ?thesis using near [of 7] True exec_jmp [of isr_common "code + 2" "scast (of_nat i :: u8) # stack", unfolded c]
    by (simp add: isr_stub_def push_imm8_def jmp_rel32_def Let_def exec_push add.assoc)
next
  case False
  have c: "code + 4 + 5 = code + 9" by simp
  show ?thesis using near [of 9] False exec_jmp [of isr_common "code + 4" "scast (of_nat i :: u8) # 0 # stack", unfolded c]
    by (simp add: isr_stub_def push_imm8_def jmp_rel32_def Let_def exec_push add.assoc)
qed


section \<open>The interrupt controllers\<close>

text \<open>An 8259 controller, as far as it matters here: its mask, the vector of its first line, how many words of the
  initialization are still to come at its data port, and the ends of interrupts that it was sent.\<close>

record pic =
  pc_mask :: u8
  pc_vector :: u8
  pc_icw :: nat
  pc_eois :: nat

definition pic_write_command :: "u8 \<Rightarrow> pic \<Rightarrow> pic" where
  "pic_write_command v c =
     (if bit v 4 then c\<lparr>pc_icw := 3, pc_mask := 0\<rparr> else if v = 0x20 then c\<lparr>pc_eois := Suc (pc_eois c)\<rparr> else c)"

definition pic_write_data :: "u8 \<Rightarrow> pic \<Rightarrow> pic" where
  "pic_write_data v c =
     (if pc_icw c = 0 then c\<lparr>pc_mask := v\<rparr>
      else if pc_icw c = 3 then c\<lparr>pc_icw := 2, pc_vector := v\<rparr> else c\<lparr>pc_icw := pc_icw c - 1\<rparr>)"

text \<open>The ports lead to two controllers.\<close>

definition pics_ok :: "'p ports \<Rightarrow> ('p \<Rightarrow> pic \<times> pic) \<Rightarrow> bool" where
  "pics_ok hw view \<longleftrightarrow>
     (\<forall>s v. view (out8 hw pic1_command v s) = (pic_write_command v (fst (view s)), snd (view s))) \<and>
     (\<forall>s v. view (out8 hw pic1_data v s) = (pic_write_data v (fst (view s)), snd (view s))) \<and>
     (\<forall>s v. view (out8 hw pic2_command v s) = (fst (view s), pic_write_command v (snd (view s)))) \<and>
     (\<forall>s v. view (out8 hw pic2_data v s) = (fst (view s), pic_write_data v (snd (view s)))) \<and>
     (\<forall>s v s'. in8 hw pic1_data s = (v, s') \<longrightarrow> v = pc_mask (fst (view s)) \<and> view s' = view s) \<and>
     (\<forall>s v s'. in8 hw pic2_data s = (v, s') \<longrightarrow> v = pc_mask (snd (view s)) \<and> view s' = view s)"

definition pics_ready :: "pic \<times> pic \<Rightarrow> bool" where
  "pics_ready v \<longleftrightarrow> pc_icw (fst v) = 0 \<and> pc_icw (snd v) = 0"

definition pics_mask :: "pic \<times> pic \<Rightarrow> u16" where
  "pics_mask v = ucast (pc_mask (fst v)) OR push_bit 8 (ucast (pc_mask (snd v)))"

definition pics_set_mask :: "u16 \<Rightarrow> pic \<times> pic \<Rightarrow> pic \<times> pic" where
  "pics_set_mask m v = ((fst v)\<lparr>pc_mask := ucast m\<rparr>, (snd v)\<lparr>pc_mask := ucast (drop_bit 8 m)\<rparr>)"

lemma pics_out:
  assumes "pics_ok hw view"
  shows "view (out8 hw pic1_command v s) = (pic_write_command v (fst (view s)), snd (view s))"
    "view (out8 hw pic1_data v s) = (pic_write_data v (fst (view s)), snd (view s))"
    "view (out8 hw pic2_command v s) = (fst (view s), pic_write_command v (snd (view s)))"
    "view (out8 hw pic2_data v s) = (fst (view s), pic_write_data v (snd (view s)))"
  using assms unfolding pics_ok_def by blast+

lemma pics_read:
  assumes "pics_ok hw view" "pic_irq_mask hw s = (m, s')"
  shows "m = pics_mask (view s)" "view s' = view s"
proof -
  obtain a s1 b s2 where r: "in8 hw pic1_data s = (a, s1)" "in8 hw pic2_data s1 = (b, s2)" by fastforce
  then have "a = pc_mask (fst (view s))" "view s1 = view s" "b = pc_mask (snd (view s1))" "view s2 = view s1"
    using assms(1) unfolding pics_ok_def by blast+
  then show "m = pics_mask (view s)" "view s' = view s"
    using assms(2) r by (auto simp: pic_irq_mask_def pics_mask_def)
qed

lemma pics_write:
  assumes "pics_ok hw view" "pics_ready (view s)"
  shows "view (set_pic_irq_mask hw m s) = pics_set_mask m (view s)"
proof -
  have f: "(0xff :: u16) = mask 8" by (simp add: mask_eq_exp_minus_1)
  have "(ucast (m AND 0xff) :: u8) = ucast m" unfolding f by (rule bit_word_eqI) (simp add: bit_simps)
  then show ?thesis using assms(2) pics_out [OF assms(1)]
    by (simp add: set_pic_irq_mask_def pics_set_mask_def pic_write_data_def pics_ready_def)
qed

lemma pics_mask_set: "pics_mask (pics_set_mask m v) = m"
proof (rule bit_word_eqI)
  fix n assume "n < LENGTH(16)"
  then consider "n < 8" | k where "n = 8 + k" "k < 8" using le_Suc_ex [of 8 n] by fastforce
  then show "bit (pics_mask (pics_set_mask m v)) n = bit m n"
    by cases (auto simp: pics_mask_def pics_set_mask_def bit_simps)
qed

lemma pics_ready_set [simp]: "pics_ready (pics_set_mask m v) = pics_ready v"
  by (simp add: pics_ready_def pics_set_mask_def)

lemma pic_remap_view:
  assumes ok: "pics_ok hw view" and r: "pics_ready (view s)"
  shows "view (pic_remap hw o1 o2 s) = pics_set_mask 0xFFFF ((fst (view s))\<lparr>pc_vector := o1\<rparr>, (snd (view s))\<lparr>pc_vector := o2\<rparr>)"
proof -
  let ?s1 = "set_pic_irq_mask hw pic_irq_mask_all s"
  let ?s2 = "outs hw [(pic1_command, pic_icw1_init OR pic_icw1_icw4), (pic2_command, pic_icw1_init OR pic_icw1_icw4),
    (pic1_data, o1), (pic2_data, o2), (pic1_data, 4), (pic2_data, 2), (pic1_data, pic_icw4_8086), (pic2_data, pic_icw4_8086)] ?s1"
  have v1: "view ?s1 = pics_set_mask 0xFFFF (view s)" using pics_write [OF ok r] by (simp add: pic_irq_mask_all_def)
  have i: "bit (pic_icw1_init OR pic_icw1_icw4) 4" by (simp add: pic_icw1_init_def pic_icw1_icw4_def)
  have v2: "view ?s2 = ((fst (view s))\<lparr>pc_vector := o1, pc_mask := 0\<rparr>, (snd (view s))\<lparr>pc_vector := o2, pc_mask := 0\<rparr>)"
    using i v1 r by (simp add: pics_out [OF ok] pic_write_command_def pic_write_data_def pics_set_mask_def pics_ready_def)
  then have "view (set_pic_irq_mask hw pic_irq_mask_all ?s2) = pics_set_mask 0xFFFF (view ?s2)"
    using pics_write [OF ok, of ?s2] r by (simp add: pic_irq_mask_all_def pics_ready_def)
  then show ?thesis using v2 by (simp add: pic_remap_def Let_def pics_set_mask_def)
qed

section \<open>Lines and handlers\<close>

text \<open>The invariant: a line is open if and only if it has a handler; the line of the cascade, number 2, is always open
  and never has one.\<close>

definition lines_ok :: "'s irq_handlers \<Rightarrow> pic \<times> pic \<Rightarrow> bool" where
  "lines_ok hs v \<longleftrightarrow> length hs = 16 \<and> pics_ready v \<and> pc_vector (fst v) = 0x30 \<and> pc_vector (snd v) = 0x38 \<and>
     (\<forall>i < 16. bit (pics_mask v) i \<longleftrightarrow> i \<noteq> 2 \<and> hs ! i = None) \<and> hs ! 2 = None"

lemma isr_handler_new_lines:
  assumes ok: "pics_ok hw view" and r: "pics_ready (view s)" and n: "isr_handler_new hw s = (old, hs, s')"
  shows "lines_ok hs (view s')" "old = pics_mask (view s)"
proof -
  obtain s1 where s1: "pic_irq_mask hw s = (old, s1)" using n by (auto simp: isr_handler_new_def pic_state_new_def Let_def split: prod.splits)
  note m = pics_read [OF ok s1]
  let ?s2 = "pic_remap hw int_IRQ0 (int_IRQ0 + 0x08) s1"
  have v2: "view ?s2 = pics_set_mask 0xFFFF ((fst (view s))\<lparr>pc_vector := 0x30\<rparr>, (snd (view s))\<lparr>pc_vector := 0x38\<rparr>)"
    using pic_remap_view [OF ok, of s1] r m(2) by (simp add: int_IRQ0_def)
  then have r2: "pics_ready (view ?s2)" using r by (simp add: pics_ready_def pics_set_mask_def)
  have hs: "hs = replicate 16 None" "s' = set_pic_irq_mask hw (pic_irq_mask_all AND NOT (push_bit 2 1)) ?s2"
    using n s1 by (auto simp: isr_handler_new_def pic_state_new_def Let_def)
  have v: "view s' = pics_set_mask 0xFFFB (view ?s2)" unfolding hs(2) by (simp add: pics_write [OF ok r2] pic_irq_mask_all_def)
  have b: "list_all (\<lambda>i. bit (0xFFFB :: u16) i = (i \<noteq> 2)) [0..<16]" by code_simp
  have "pc_vector (fst (view s')) = 0x30" "pc_vector (snd (view s')) = 0x38" unfolding v v2 by (simp_all add: pics_set_mask_def)
  moreover have "pics_mask (view s') = 0xFFFB" "pics_ready (view s')" unfolding v pics_mask_set using r2 by simp_all
  ultimately show "lines_ok hs (view s')"
    using b unfolding lines_ok_def hs(1) by (simp add: list_all_length)
  show "old = pics_mask (view s)" by (rule m(1))
qed

lemma mask_and_bit: "(m AND 2 ^ k = (0 :: u16)) \<longleftrightarrow> \<not> bit m k"
  by (rule and_exp_eq_0_iff_not_bit)

text \<open>Opening and closing a line: when it succeeds, and the mask afterwards.\<close>

lemma unmask_line:
  assumes ok: "pics_ok hw view" and r: "pics_ready (view s)"
  shows "(\<exists>s'. pic_unmask_irq hw irq s = Inr s') \<longleftrightarrow> irq < 16 \<and> irq \<noteq> 2 \<and> bit (pics_mask (view s)) (unat irq)"
    "pic_unmask_irq hw irq s = Inr s' \<Longrightarrow> view s' = pics_set_mask (pics_mask (view s) AND NOT (push_bit (unat irq) 1)) (view s)"
proof -
  obtain m s1 m2 s2 where i: "pic_irq_mask hw s = (m, s1)" "pic_irq_mask hw s1 = (m2, s2)" by fastforce
  note v = pics_read [OF ok i(1)] pics_read [OF ok i(2)]
  show "(\<exists>s'. pic_unmask_irq hw irq s = Inr s') \<longleftrightarrow> irq < 16 \<and> irq \<noteq> 2 \<and> bit (pics_mask (view s)) (unat irq)"
    using i v by (auto simp: pic_unmask_irq_def res_simps Let_def mask_and_bit)
  show "view s' = pics_set_mask (pics_mask (view s) AND NOT (push_bit (unat irq) 1)) (view s)" if "pic_unmask_irq hw irq s = Inr s'"
    using that i v pics_write [OF ok, of s2] r by (auto simp: pic_unmask_irq_def res_simps Let_def)
qed

lemma mask_line:
  assumes ok: "pics_ok hw view" and r: "pics_ready (view s)"
  shows "(\<exists>s'. pic_mask_irq hw irq s = Inr s') \<longleftrightarrow> irq < 16 \<and> irq \<noteq> 2 \<and> \<not> bit (pics_mask (view s)) (unat irq)"
    "pic_mask_irq hw irq s = Inr s' \<Longrightarrow> view s' = pics_set_mask (pics_mask (view s) OR push_bit (unat irq) 1) (view s)"
proof -
  obtain m s1 m2 s2 where i: "pic_irq_mask hw s = (m, s1)" "pic_irq_mask hw s1 = (m2, s2)" by fastforce
  note v = pics_read [OF ok i(1)] pics_read [OF ok i(2)]
  show "(\<exists>s'. pic_mask_irq hw irq s = Inr s') \<longleftrightarrow> irq < 16 \<and> irq \<noteq> 2 \<and> \<not> bit (pics_mask (view s)) (unat irq)"
    using i v by (auto simp: pic_mask_irq_def res_simps Let_def mask_and_bit)
  show "view s' = pics_set_mask (pics_mask (view s) OR push_bit (unat irq) 1) (view s)" if "pic_mask_irq hw irq s = Inr s'"
    using that i v pics_write [OF ok, of s2] r by (auto simp: pic_mask_irq_def res_simps Let_def)
qed

lemma irq_bits:
  "i < 16 \<Longrightarrow> bit (m OR 2 ^ k :: u16) i \<longleftrightarrow> bit m i \<or> i = k"
  "i < 16 \<Longrightarrow> bit (m AND NOT (2 ^ k) :: u16) i \<longleftrightarrow> bit m i \<and> i \<noteq> k"
  by (auto simp: bit_simps)

lemma small_irq: "irq < (16 :: u8) \<longleftrightarrow> unat irq < 16" "irq = 2 \<longleftrightarrow> unat irq = 2"
  by (simp_all add: word_less_nat_alt word_unat_eq_iff)

lemma lines_okD:
  assumes "lines_ok hs v"
  shows "length hs = 16" "pics_ready v" "i < 16 \<Longrightarrow> bit (pics_mask v) i \<longleftrightarrow> i \<noteq> 2 \<and> hs ! i = None" "hs ! 2 = None"
  using assms by (auto simp: lines_ok_def)

lemma pics_set_mask_vectors [simp]:
  "pc_vector (fst (pics_set_mask m v)) = pc_vector (fst v)" "pc_vector (snd (pics_set_mask m v)) = pc_vector (snd v)"
  by (simp_all add: pics_set_mask_def)

lemma register_lines:
  assumes ok: "pics_ok hw view" and l: "lines_ok hs (view s)"
  shows "(\<exists>st. register_irq_handler hw irq h (hs, s) = Inr st) \<longleftrightarrow> irq < 16 \<and> irq \<noteq> 2 \<and> hs ! unat irq = None"
    "register_irq_handler hw irq h (hs, s) = Inr (hs', s') \<Longrightarrow> lines_ok hs' (view s')"
proof -
  note d = lines_okD [OF l]
  note u = unmask_line [OF ok d(2), of irq]
  show c: "(\<exists>st. register_irq_handler hw irq h (hs, s) = Inr st) \<longleftrightarrow> irq < 16 \<and> irq \<noteq> 2 \<and> hs ! unat irq = None"
    using u(1) d(1,3) by (auto simp: register_irq_handler_def res_simps small_irq)
  show "lines_ok hs' (view s')" if r: "register_irq_handler hw irq h (hs, s) = Inr (hs', s')"
  proof -
    have irq: "unat irq < 16" "unat irq \<noteq> 2" using c r small_irq by blast+
    obtain s1 where s1: "pic_unmask_irq hw irq s = Inr s1" "hs' = hs[unat irq := Some h]" "s' = s1"
      using r by (auto simp: register_irq_handler_def res_simps)
    then show ?thesis using l irq d(1)
      unfolding lines_ok_def s1(2,3) u(2) [OF s1(1)] by (auto simp: pics_mask_set irq_bits nth_list_update)
  qed
qed

lemma unregister_lines:
  assumes ok: "pics_ok hw view" and l: "lines_ok hs (view s)"
  shows "(\<exists>st. isr_registration_destroy hw irq (hs, s) = Inr st) \<longleftrightarrow> irq < 16 \<and> hs ! unat irq \<noteq> None"
    "isr_registration_destroy hw irq (hs, s) = Inr (hs', s') \<Longrightarrow> lines_ok hs' (view s')"
proof -
  note d = lines_okD [OF l]
  note u = mask_line [OF ok d(2), of irq]
  show c: "(\<exists>st. isr_registration_destroy hw irq (hs, s) = Inr st) \<longleftrightarrow> irq < 16 \<and> hs ! unat irq \<noteq> None"
    using u(1) d(1,3,4) by (auto simp: isr_registration_destroy_def res_simps small_irq)
  show "lines_ok hs' (view s')" if r: "isr_registration_destroy hw irq (hs, s) = Inr (hs', s')"
  proof -
    have irq: "unat irq < 16" "hs ! unat irq \<noteq> None" using c r small_irq by blast+
    obtain s1 where s1: "pic_mask_irq hw irq s = Inr s1" "hs' = hs[unat irq := None]" "s' = s1"
      using r by (auto simp: isr_registration_destroy_def res_simps)
    have "unat irq \<noteq> 2" using irq(2) d(4) by metis
    then show ?thesis using l irq d(1)
      unfolding lines_ok_def s1(2,3) u(2) [OF s1(1)] by (auto simp: pics_mask_set irq_bits nth_list_update)
  qed
qed

lemma eoi_view:
  assumes "pics_ok hw view"
  shows "pics_mask (view (pic_send_eoi hw irq s)) = pics_mask (view s)" "pics_ready (view (pic_send_eoi hw irq s)) = pics_ready (view s)"
    "pc_vector (fst (view (pic_send_eoi hw irq s))) = pc_vector (fst (view s))" "pc_vector (snd (view (pic_send_eoi hw irq s))) = pc_vector (snd (view s))"
    "pc_eois (fst (view (pic_send_eoi hw irq s))) = Suc (pc_eois (fst (view s)))"
    "pc_eois (snd (view (pic_send_eoi hw irq s))) = (if irq \<ge> 8 then Suc (pc_eois (snd (view s))) else pc_eois (snd (view s)))"
  by (simp_all add: pic_send_eoi_def Let_def pics_out [OF assms] pic_write_command_def pics_mask_def pics_ready_def)

lemma eoi_lines: "pics_ok hw view \<Longrightarrow> lines_ok hs (view s) \<Longrightarrow> lines_ok hs (view (pic_send_eoi hw irq s))"
  by (simp add: lines_ok_def eoi_view)

lemma service_handled:
  assumes "interrupt_service_routine hw n hs (x, s) = Inr (x', s')"
  obtains h where "is_irq n" "hs ! unat (irq_number n) = Some h" "h x = Inr x'" "s' = pic_send_eoi hw (irq_number n) s"
  using assms by (auto simp: interrupt_service_routine_def on_irq_def res_simps split: if_splits option.splits)

lemma service_registered:
  assumes "i < 16" "length hs = 16" "hs ! i = Some h"
  shows "interrupt_service_routine hw (0x30 + of_nat i) hs (x, s) = andThen (h x) (\<lambda>x'. Inr (x', pic_send_eoi hw (of_nat i) s))"
proof -
  have "list_all (\<lambda>i. is_irq (0x30 + of_nat i) \<and> irq_number (0x30 + of_nat i) = of_nat i \<and> unat (of_nat i :: u8) = i) [0..<16]"
    by code_simp
  then have "is_irq (0x30 + of_nat i)" "irq_number (0x30 + of_nat i) = of_nat i" "unat (of_nat i :: u8) = i"
    using assms(1) by (auto simp: list_all_length)
  then show ?thesis using assms by (cases "h x") (simp_all add: interrupt_service_routine_def on_irq_def)
qed

text \<open>Runs: handlers come and go, and interrupts are served, in any order.\<close>

inductive isr_run :: "'p ports \<Rightarrow> 's irq_handlers \<times> 'p \<Rightarrow> 's irq_handlers \<times> 'p \<Rightarrow> bool" for hw st0 where
  run_start: "isr_run hw st0 st0"
| run_register: "isr_run hw st0 st \<Longrightarrow> register_irq_handler hw irq h st = Inr st' \<Longrightarrow> isr_run hw st0 st'"
| run_unregister: "isr_run hw st0 st \<Longrightarrow> isr_registration_destroy hw irq st = Inr st' \<Longrightarrow> isr_run hw st0 st'"
| run_interrupt: "isr_run hw st0 (hs, s) \<Longrightarrow> interrupt_service_routine hw n hs (x, s) = Inr (x', s') \<Longrightarrow> isr_run hw st0 (hs, s')"

lemma isr_run_lines:
  assumes ok: "pics_ok hw view"
  shows "isr_run hw st0 st \<Longrightarrow> lines_ok (fst st0) (view (snd st0)) \<Longrightarrow> lines_ok (fst st) (view (snd st))"
proof (induction rule: isr_run.induct)
  case run_start
  then show ?case .
next
  case (run_register st irq h st')
  then show ?case using register_lines(2) [OF ok, of "fst st" "snd st" irq h "fst st'" "snd st'"] by simp
next
  case (run_unregister st irq st')
  then show ?case using unregister_lines(2) [OF ok, of "fst st" "snd st" irq "fst st'" "snd st'"] by simp
next
  case (run_interrupt hs s n x x' s')
  then show ?case by (elim service_handled) (simp add: eoi_lines [OF ok])
qed

text \<open>C24: lines and handlers agree: from the construction of the interrupt component on, whatever handlers are registered and
  removed and whatever interrupts are served in between, a line other than the cascade's is open exactly when it has
  a handler, so that every interrupt from an open line is served by the handler of its line and acknowledged; a handler
  can be registered exactly for the lines that have none, and every registration can be removed.\<close>

theorem irq_lines_match_handlers:
  assumes "pics_ok hw view" "pics_ready (view s0)" "isr_handler_new hw s0 = (old, hs0, s1)" "isr_run hw (hs0, s1) (hs, s)"
  shows "\<not> bit (pics_mask (view s)) 2 \<and> pc_vector (fst (view s)) = 0x30 \<and> pc_vector (snd (view s)) = 0x38 \<and>
     (\<forall>i < 16. i \<noteq> 2 \<longrightarrow> (\<not> bit (pics_mask (view s)) i \<longleftrightarrow> hs ! i \<noteq> None)) \<and>
     (\<forall>i < 16. \<forall>h x. hs ! i = Some h \<longrightarrow>
        interrupt_service_routine hw (0x30 + of_nat i) hs (x, s) = andThen (h x) (\<lambda>x'. Inr (x', pic_send_eoi hw (of_nat i) s))) \<and>
     (\<forall>irq h. (\<exists>st. register_irq_handler hw irq h (hs, s) = Inr st) \<longleftrightarrow> irq < 16 \<and> irq \<noteq> 2 \<and> hs ! unat irq = None) \<and>
     (\<forall>irq. (\<exists>st. isr_registration_destroy hw irq (hs, s) = Inr st) \<longleftrightarrow> irq < 16 \<and> hs ! unat irq \<noteq> None)"
proof -
  have l: "lines_ok hs (view s)"
    using isr_run_lines [OF assms(1,4)] isr_handler_new_lines(1) [OF assms(1-3)] by simp
  note d = lines_okD [OF l]
  have "pc_vector (fst (view s)) = 0x30" "pc_vector (snd (view s)) = 0x38" using l by (simp_all add: lines_ok_def)
  then show ?thesis
    using d service_registered [OF _ d(1)] register_lines(1) [OF assms(1) l] unregister_lines(1) [OF assms(1) l] by auto
qed

lemma isr_handler_destroy_restores:
  assumes "pics_ok hw view" "pics_ready (view s)" "isr_handler_destroy hw old hs s = Inr s'"
  shows "pics_mask (view s') = old" "pc_vector (fst (view s')) = 0x08" "pc_vector (snd (view s')) = 0x70"
proof -
  let ?r = "pic_remap hw 0x08 0x70 s"
  have r: "pics_ready (view ?r)" using pic_remap_view [OF assms(1,2)] assms(2) by (simp add: pics_ready_def pics_set_mask_def)
  have "s' = set_pic_irq_mask hw old ?r" using assms(3) by (simp add: isr_handler_destroy_def res_simps pic_state_destroy_def)
  then have "view s' = pics_set_mask old (view ?r)" using pics_write [OF assms(1) r] by simp
  then show "pics_mask (view s') = old" "pc_vector (fst (view s')) = 0x08" "pc_vector (snd (view s')) = 0x70"
    using pic_remap_view [OF assms(1,2)] by (simp_all add: pics_mask_set)
qed

section \<open>Witnesses\<close>


definition demo_pics :: "(pic \<times> pic) ports" where
  "demo_pics = \<lparr>in8 = (\<lambda>p v. (if p = 0x21 then pc_mask (fst v) else pc_mask (snd v), v)), in16 = (\<lambda>p v. (0, v)), in32 = (\<lambda>p v. (0, v)),
     out8 = (\<lambda>p b v. if p = 0x20 then (pic_write_command b (fst v), snd v) else if p = 0x21 then (pic_write_data b (fst v), snd v)
       else if p = 0xA0 then (fst v, pic_write_command b (snd v)) else if p = 0xA1 then (fst v, pic_write_data b (snd v)) else v)\<rparr>"

lemma demo_pics_ok: "pics_ok demo_pics (\<lambda>v. v)"
  by (simp add: pics_ok_def demo_pics_def pic1_command_def pic1_data_def pic2_command_def pic2_data_def)

definition demo_pic :: pic where "demo_pic = \<lparr>pc_mask = 0xB8, pc_vector = 8, pc_icw = 0, pc_eois = 0\<rparr>"

theorem irq_lines_match_handlers_witness:
  "\<exists>old hs0 s1 hs s. isr_handler_new demo_pics (demo_pic, demo_pic) = (old, hs0, s1) \<and>
     register_irq_handler demo_pics 1 (\<lambda>x. Inr (x + 1 :: nat)) (hs0, s1) = Inr (hs, s) \<and>
     \<not> bit (pics_mask s) 1 \<and> bit (pics_mask s) 3"
proof -
  have r: "pics_ready (demo_pic, demo_pic)" by (simp add: pics_ready_def demo_pic_def)
  obtain old hs0 s1 where n: "isr_handler_new demo_pics (demo_pic, demo_pic) = (old, hs0 :: nat irq_handlers, s1)" by (metis prod_cases3)
  have hs0: "hs0 = replicate 16 None" using n by (auto simp: isr_handler_new_def split: prod.splits)
  have "(\<exists>st. register_irq_handler demo_pics 1 (\<lambda>x. Inr (x + 1)) (hs0, s1) = Inr st) \<longleftrightarrow> (1 :: u8) < 16 \<and> (1 :: u8) \<noteq> 2 \<and> hs0 ! unat (1 :: u8) = None"
    using irq_lines_match_handlers [OF demo_pics_ok r n run_start] by blast
  then obtain hs s where g: "register_irq_handler demo_pics 1 (\<lambda>x. Inr (x + 1)) (hs0, s1) = Inr (hs, s)" using hs0 by auto
  have "hs = hs0[1 := Some (\<lambda>x. Inr (x + 1))]" using g by (auto simp: register_irq_handler_def res_simps)
  then have i: "hs ! 1 \<noteq> None" "hs ! 3 = None" using hs0 by simp_all
  have all: "\<forall>i < 16. i \<noteq> 2 \<longrightarrow> (\<not> bit (pics_mask s) i \<longleftrightarrow> hs ! i \<noteq> None)"
    by (rule irq_lines_match_handlers [OF demo_pics_ok r n run_register [OF run_start g],
        THEN conjunct2, THEN conjunct2, THEN conjunct2, THEN conjunct1])
  have b: "\<not> bit (pics_mask s) 1" "bit (pics_mask s) 3" using i spec [OF all, of 1] spec [OF all, of 3] by simp_all
  show ?thesis by (intro exI [of _ old] exI [of _ hs0] exI [of _ s1] exI [of _ hs] exI [of _ s] conjI n g b)
qed

end
