(* ===== verification/Pe.thy ===== *)
theory Pe
  imports OutStream MemTypes
begin

text \<open>
  Executable images: the headers of \<open>attos/pe.h\<close>, and the stack unwinder of \<open>attos/pe.cpp\<close>. An image in memory is the
  list of its bytes; \<open>rva_cast\<close>, which checks nothing, is a read that is \<open>Wild\<close> past the end. The stack is a function from
  addresses to quadwords.
\<close>

section \<open>The code: headers\<close>

definition load64 :: "bytes \<Rightarrow> nat \<Rightarrow> u64" where
  "load64 b i = ucast (load32 b i) OR push_bit 32 (ucast (load32 b (i + 4)))"

definition rva_cast :: "nat \<Rightarrow> (bytes \<Rightarrow> nat \<Rightarrow> 'a) \<Rightarrow> bytes \<Rightarrow> nat \<Rightarrow> 'a res" where
  "rva_cast sizeof_t at img offset = in_object (offset + sizeof_t \<le> length img) ''image'' (Inr (at img offset))"

record dos_header =
  e_magic :: u16
  e_words :: "u16 list"
  e_lfanew :: u32

text \<open>\<open>e_words\<close> are the 29 words between the signature and \<open>e_lfanew\<close>, which the code does not use.\<close>

definition sizeof_dos_header :: nat where "sizeof_dos_header = 64"

definition dos_header_at :: "bytes \<Rightarrow> nat \<Rightarrow> dos_header" where
  "dos_header_at b p = \<lparr>e_magic = load16 b p, e_words = List.map (\<lambda>i. load16 b (p + 2 + 2 * i)) [0..<29], e_lfanew = load32 b (p + 60)\<rparr>"

definition DOS_SIGNATURE :: u16 where "DOS_SIGNATURE = 0x5A4D"

record file_header =
  fh_Machine :: u16
  fh_NumberOfSections :: u16
  fh_TimeDateStamp :: u32
  fh_PointerToSymbolTable :: u32
  fh_NumberOfSymbols :: u32
  fh_SizeOfOptionalHeader :: u16
  fh_Characteristics :: u16

definition file_header_at :: "bytes \<Rightarrow> nat \<Rightarrow> file_header" where
  "file_header_at b p = \<lparr>fh_Machine = load16 b p, fh_NumberOfSections = load16 b (p + 2), fh_TimeDateStamp = load32 b (p + 4),
     fh_PointerToSymbolTable = load32 b (p + 8), fh_NumberOfSymbols = load32 b (p + 12),
     fh_SizeOfOptionalHeader = load16 b (p + 16), fh_Characteristics = load16 b (p + 18)\<rparr>"

definition MACHINE_AMD64 :: u16 where "MACHINE_AMD64 = 0x8664"

record data_directory =
  dd_VirtualAddress :: u32
  dd_Size :: u32

definition data_directory_at :: "bytes \<Rightarrow> nat \<Rightarrow> data_directory" where
  "data_directory_at b p = \<lparr>dd_VirtualAddress = load32 b p, dd_Size = load32 b (p + 4)\<rparr>"

definition DIRECTORY_ENTRY_EXCEPTION :: nat where "DIRECTORY_ENTRY_EXCEPTION = 3"
definition NUMBEROF_DIRECTORY_ENTRIES :: nat where "NUMBEROF_DIRECTORY_ENTRIES = 16"

record optional_header =
  oh_Magic :: u16
  oh_MajorLinkerVersion :: u8
  oh_MinorLinkerVersion :: u8
  oh_SizeOfCode :: u32
  oh_SizeOfInitializedData :: u32
  oh_SizeOfUninitializedData :: u32
  oh_AddressOfEntryPoint :: u32
  oh_BaseOfCode :: u32
  oh_ImageBase :: u64
  oh_SectionAlignment :: u32
  oh_FileAlignment :: u32
  oh_MajorOperatingSystemVersion :: u16
  oh_MinorOperatingSystemVersion :: u16
  oh_MajorImageVersion :: u16
  oh_MinorImageVersion :: u16
  oh_MajorSubsystemVersion :: u16
  oh_MinorSubsystemVersion :: u16
  oh_Win32VersionValue :: u32
  oh_SizeOfImage :: u32
  oh_SizeOfHeaders :: u32
  oh_CheckSum :: u32
  oh_Subsystem :: u16
  oh_DllCharacteristics :: u16
  oh_SizeOfStackReserve :: u64
  oh_SizeOfStackCommit :: u64
  oh_SizeOfHeapReserve :: u64
  oh_SizeOfHeapCommit :: u64
  oh_LoaderFlags :: u32
  oh_NumberOfRvaAndSizes :: u32
  oh_DataDirectory :: "data_directory list"

definition optional_header_at :: "bytes \<Rightarrow> nat \<Rightarrow> optional_header" where
  "optional_header_at b p = \<lparr>oh_Magic = load16 b p, oh_MajorLinkerVersion = b ! (p + 2), oh_MinorLinkerVersion = b ! (p + 3),
     oh_SizeOfCode = load32 b (p + 4), oh_SizeOfInitializedData = load32 b (p + 8), oh_SizeOfUninitializedData = load32 b (p + 12),
     oh_AddressOfEntryPoint = load32 b (p + 16), oh_BaseOfCode = load32 b (p + 20), oh_ImageBase = load64 b (p + 24),
     oh_SectionAlignment = load32 b (p + 32), oh_FileAlignment = load32 b (p + 36),
     oh_MajorOperatingSystemVersion = load16 b (p + 40), oh_MinorOperatingSystemVersion = load16 b (p + 42),
     oh_MajorImageVersion = load16 b (p + 44), oh_MinorImageVersion = load16 b (p + 46),
     oh_MajorSubsystemVersion = load16 b (p + 48), oh_MinorSubsystemVersion = load16 b (p + 50),
     oh_Win32VersionValue = load32 b (p + 52), oh_SizeOfImage = load32 b (p + 56), oh_SizeOfHeaders = load32 b (p + 60),
     oh_CheckSum = load32 b (p + 64), oh_Subsystem = load16 b (p + 68), oh_DllCharacteristics = load16 b (p + 70),
     oh_SizeOfStackReserve = load64 b (p + 72), oh_SizeOfStackCommit = load64 b (p + 80), oh_SizeOfHeapReserve = load64 b (p + 88),
     oh_SizeOfHeapCommit = load64 b (p + 96), oh_LoaderFlags = load32 b (p + 104), oh_NumberOfRvaAndSizes = load32 b (p + 108),
     oh_DataDirectory = List.map (\<lambda>i. data_directory_at b (p + 112 + 8 * i)) [0..<NUMBEROF_DIRECTORY_ENTRIES]\<rparr>"

definition OPTIONAL_HDR64_MAGIC :: u16 where "OPTIONAL_HDR64_MAGIC = 0x20b"

record nt_headers =
  nt_Signature :: u32
  nt_FileHeader :: file_header
  nt_OptionalHeader :: optional_header

definition sizeof_nt_headers :: nat where "sizeof_nt_headers = 264"

definition nt_headers_at :: "bytes \<Rightarrow> nat \<Rightarrow> nt_headers" where
  "nt_headers_at b p = \<lparr>nt_Signature = load32 b p, nt_FileHeader = file_header_at b (p + 4), nt_OptionalHeader = optional_header_at b (p + 24)\<rparr>"

definition NT_SIGNATURE :: u32 where "NT_SIGNATURE = 0x00004550"

record section_header =
  sh_Name :: bytes
  sh_VirtualSize :: u32
  sh_VirtualAddress :: u32
  sh_SizeOfRawData :: u32
  sh_PointerToRawData :: u32
  sh_PointerToRelocations :: u32
  sh_PointerToLinenumbers :: u32
  sh_NumberOfRelocations :: u16
  sh_NumberOfLinenumbers :: u16
  sh_Characteristics :: u32

definition sizeof_section_header :: nat where "sizeof_section_header = 40"

definition section_header_at :: "bytes \<Rightarrow> nat \<Rightarrow> section_header" where
  "section_header_at b p = \<lparr>sh_Name = take 8 (drop p b), sh_VirtualSize = load32 b (p + 8), sh_VirtualAddress = load32 b (p + 12),
     sh_SizeOfRawData = load32 b (p + 16), sh_PointerToRawData = load32 b (p + 20), sh_PointerToRelocations = load32 b (p + 24),
     sh_PointerToLinenumbers = load32 b (p + 28), sh_NumberOfRelocations = load16 b (p + 32), sh_NumberOfLinenumbers = load16 b (p + 34),
     sh_Characteristics = load32 b (p + 36)\<rparr>"

definition SCN_MEM_EXECUTE :: u32 where "SCN_MEM_EXECUTE = 0x20000000"
definition SCN_MEM_READ :: u32 where "SCN_MEM_READ = 0x40000000"
definition SCN_MEM_WRITE :: u32 where "SCN_MEM_WRITE = 0x80000000"

text \<open>\<open>nt_headers()\<close> of an image, with their offset.\<close>

definition nt_offset :: "bytes \<Rightarrow> nat res" where
  "nt_offset img = andThen (rva_cast sizeof_dos_header dos_header_at img 0) (\<lambda>h. Inr (unat (e_lfanew h)))"

definition image_nt_headers :: "bytes \<Rightarrow> nt_headers res" where
  "image_nt_headers img = andThen (nt_offset img) (\<lambda>p. rva_cast sizeof_nt_headers nt_headers_at img p)"

definition image_sections :: "bytes \<Rightarrow> (section_header list) res" where
  "image_sections img =
     andThen (nt_offset img) (\<lambda>p. andThen (image_nt_headers img) (\<lambda>nth.
       let beg = p + 24 + unat (fh_SizeOfOptionalHeader (nt_FileHeader nth)); n = unat (fh_NumberOfSections (nt_FileHeader nth)) in
       in_object (beg + sizeof_section_header * n \<le> length img) ''image''
         (Inr (List.map (\<lambda>i. section_header_at img (beg + sizeof_section_header * i)) [0..<n]))))"

definition is_64bit_exe :: "bytes \<Rightarrow> bool res" where
  "is_64bit_exe img =
     andThen (rva_cast sizeof_dos_header dos_header_at img 0) (\<lambda>h.
     if e_magic h \<noteq> DOS_SIGNATURE then Inr False
     else andThen (image_nt_headers img) (\<lambda>nth.
       Inr (nt_Signature nth = NT_SIGNATURE \<and> fh_Machine (nt_FileHeader nth) = MACHINE_AMD64 \<and>
         oh_Magic (nt_OptionalHeader nth) = OPTIONAL_HDR64_MAGIC)))"

definition section_memory_type :: "u32 \<Rightarrow> u32" where
  "section_memory_type c =
     (if c AND SCN_MEM_EXECUTE \<noteq> 0 then mt_execute else 0) OR (if c AND SCN_MEM_READ \<noteq> 0 then mt_read else 0)
     OR (if c AND SCN_MEM_WRITE \<noteq> 0 then mt_write else 0)"

definition file_size_from_header :: "bytes \<Rightarrow> u32 res" where
  "file_size_from_header img =
     andThen (rva_cast sizeof_dos_header dos_header_at img 0) (\<lambda>h.
     require (e_magic h = DOS_SIGNATURE) ''image.e_magic == IMAGE_DOS_SIGNATURE'' (
     andThen (image_sections img) (\<lambda>ss.
       Inr (fold (\<lambda>s sz. if sh_SizeOfRawData s \<noteq> 0 then max sz (sh_PointerToRawData s + sh_SizeOfRawData s) else sz) ss 0))))"

section \<open>The code: unwinding\<close>

record runtime_function =
  rf_BeginAddress :: u32
  rf_EndAddress :: u32
  rf_UnwindInfoAddress :: u32

definition sizeof_runtime_function :: nat where "sizeof_runtime_function = 12"

definition runtime_function_at :: "bytes \<Rightarrow> nat \<Rightarrow> runtime_function" where
  "runtime_function_at b p = \<lparr>rf_BeginAddress = load32 b p, rf_EndAddress = load32 b (p + 4), rf_UnwindInfoAddress = load32 b (p + 8)\<rparr>"

record unwind_code =
  uc_CodeOffset :: u8
  uc_UnwindOp :: u8
  uc_OpInfo :: u8

definition unwind_code_at :: "bytes \<Rightarrow> nat \<Rightarrow> unwind_code" where
  "unwind_code_at b p = \<lparr>uc_CodeOffset = b ! p, uc_UnwindOp = b ! (p + 1) AND 15, uc_OpInfo = drop_bit 4 (b ! (p + 1))\<rparr>"

definition UWOP_PUSH_NONVOL :: u8 where "UWOP_PUSH_NONVOL = 0"
definition UWOP_ALLOC_LARGE :: u8 where "UWOP_ALLOC_LARGE = 1"
definition UWOP_ALLOC_SMALL :: u8 where "UWOP_ALLOC_SMALL = 2"
definition UWOP_SET_FPREG :: u8 where "UWOP_SET_FPREG = 3"
definition UWOP_SAVE_NONVOL :: u8 where "UWOP_SAVE_NONVOL = 4"
definition UWOP_SAVE_NONVOL_FAR :: u8 where "UWOP_SAVE_NONVOL_FAR = 5"
definition UWOP_SAVE_XMM128 :: u8 where "UWOP_SAVE_XMM128 = 8"
definition UWOP_SAVE_XMM128_FAR :: u8 where "UWOP_SAVE_XMM128_FAR = 9"
definition UWOP_PUSH_MACHFRAME :: u8 where "UWOP_PUSH_MACHFRAME = 10"

lemmas uwop_defs = UWOP_PUSH_NONVOL_def UWOP_ALLOC_LARGE_def UWOP_ALLOC_SMALL_def UWOP_SET_FPREG_def UWOP_SAVE_NONVOL_def
  UWOP_SAVE_NONVOL_FAR_def UWOP_SAVE_XMM128_def UWOP_SAVE_XMM128_FAR_def UWOP_PUSH_MACHFRAME_def

record unwind_info =
  ui_Version :: u8
  ui_Flags :: u8
  ui_SizeOfProlog :: u8
  ui_CountOfCodes :: u8
  ui_FrameRegister :: u8
  ui_FrameOffset :: u8

definition sizeof_unwind_info :: nat where "sizeof_unwind_info = 4"

definition unwind_info_at :: "bytes \<Rightarrow> nat \<Rightarrow> unwind_info" where
  "unwind_info_at b p = \<lparr>ui_Version = b ! p AND 7, ui_Flags = drop_bit 3 (b ! p), ui_SizeOfProlog = b ! (p + 1), ui_CountOfCodes = b ! (p + 2),
     ui_FrameRegister = b ! (p + 3) AND 15, ui_FrameOffset = drop_bit 4 (b ! (p + 3))\<rparr>"

definition UNWIND_VERSION :: u8 where "UNWIND_VERSION = 1"
definition UNWIND_FLAG_CHAININFO :: u8 where "UNWIND_FLAG_CHAININFO = 4"

text \<open>\<open>runtime_function_info\<close>: the first of \<open>n\<close> entries from \<open>base\<close> on that contains the address.\<close>

fun runtime_function_info :: "bytes \<Rightarrow> nat \<Rightarrow> nat \<Rightarrow> u32 \<Rightarrow> (runtime_function option) res" where
  "runtime_function_info img base 0 function_rva = Inr None"
| "runtime_function_info img base (Suc n) function_rva =
     andThen (rva_cast sizeof_runtime_function runtime_function_at img base) (\<lambda>rf.
     if rf_BeginAddress rf \<le> function_rva \<and> function_rva \<le> rf_EndAddress rf then Inr (Some rf)
     else runtime_function_info img (base + sizeof_runtime_function) n function_rva)"

record unwind_context =
  ux_rsp :: u64
  ux_rip :: u64

definition unwind_ret :: "(u64 \<Rightarrow> u64) \<Rightarrow> unwind_context \<Rightarrow> unwind_context" where
  "unwind_ret stk c = \<lparr>ux_rsp = ux_rsp c + 8, ux_rip = stk (ux_rsp c)\<rparr>"

definition unwind_iret :: "(u64 \<Rightarrow> u64) \<Rightarrow> unwind_context \<Rightarrow> unwind_context" where
  "unwind_iret stk c = \<lparr>ux_rsp = stk (ux_rsp c + 24), ux_rip = stk (ux_rsp c)\<rparr>"

definition pop_bytes :: "bool \<Rightarrow> u64 \<Rightarrow> unwind_context \<Rightarrow> unwind_context" where
  "pop_bytes ignore n c = (if ignore then c else c\<lparr>ux_rsp := ux_rsp c + n\<rparr>)"

text \<open>The loop over the \<open>n\<close> unwind codes of the information at \<open>ui\<close>.\<close>

definition code_at :: "bytes \<Rightarrow> nat \<Rightarrow> nat \<Rightarrow> unwind_code res" where
  "code_at img ui i = rva_cast 2 unwind_code_at img (ui + sizeof_unwind_info + 2 * i)"

definition code_word :: "bytes \<Rightarrow> nat \<Rightarrow> nat \<Rightarrow> u64 res" where
  "code_word img ui i = andThen (rva_cast 2 load16 img (ui + sizeof_unwind_info + 2 * i)) (\<lambda>w. Inr (ucast w))"

function unwind_loop :: "bytes \<Rightarrow> nat \<Rightarrow> nat \<Rightarrow> u32 \<Rightarrow> (u64 \<Rightarrow> u64) \<Rightarrow> nat \<Rightarrow> unwind_context \<Rightarrow> unwind_context res" where
  "unwind_loop img ui n off stk i c =
     (if i < n then
        andThen (code_at img ui i) (\<lambda>uc.
          let ignore = ucast (uc_CodeOffset uc) > off; op = uc_UnwindOp uc in
          if op = UWOP_PUSH_NONVOL then unwind_loop img ui n off stk (i + 1) (pop_bytes ignore 8 c)
          else if op = UWOP_ALLOC_LARGE then
            require (uc_OpInfo uc = 0) ''uc.OpInfo == 0'' (
            andThen (code_word img ui (i + 1)) (\<lambda>w. unwind_loop img ui n off stk (i + 2) (pop_bytes ignore (8 * w) c)))
          else if op = UWOP_ALLOC_SMALL then
            unwind_loop img ui n off stk (i + 1) (pop_bytes ignore (8 * (ucast (uc_OpInfo uc) + 1)) c)
          else if op = UWOP_SAVE_NONVOL \<or> op = UWOP_SAVE_XMM128 then
            andThen (code_word img ui (i + 1)) (\<lambda>w. unwind_loop img ui n off stk (i + 2) c)
          else if op = UWOP_SAVE_NONVOL_FAR \<or> op = UWOP_SAVE_XMM128_FAR then Inl (Fatal ''false'')
          else if op = UWOP_PUSH_MACHFRAME then
            require (uc_OpInfo uc = 0) ''uc.OpInfo == 0'' (
            if \<not> ignore then Inr (unwind_iret stk c) else unwind_loop img ui n off stk (i + 1) c)
          else unwind_loop img ui n off stk (i + 1) c)
      else Inr (unwind_ret stk c))"
  by pat_completeness auto
termination by (relation "measure (\<lambda>(_, _, n, _, _, i, _). n - i)") auto

declare unwind_loop.simps [simp del]

text \<open>\<open>unwind_once\<close> for an image at the address \<open>base\<close>.\<close>

definition unwind_once :: "(u64 \<Rightarrow> u64) \<Rightarrow> unwind_context \<Rightarrow> u64 \<Rightarrow> bytes \<Rightarrow> unwind_context res" where
  "unwind_once stk c base img =
     (let function_rva = ucast (ux_rip c - base) in
      andThen (image_nt_headers img) (\<lambda>nth.
      let dd = oh_DataDirectory (nt_OptionalHeader nth) ! DIRECTORY_ENTRY_EXCEPTION in
      andThen (runtime_function_info img (unat (dd_VirtualAddress dd)) (unat (dd_Size dd) div sizeof_runtime_function) function_rva) (\<lambda>r.
      case r of
        None \<Rightarrow> Inr (unwind_ret stk c)
      | Some rf \<Rightarrow>
          andThen (rva_cast sizeof_unwind_info unwind_info_at img (unat (rf_UnwindInfoAddress rf))) (\<lambda>ui.
          let offset_in_function = function_rva - rf_BeginAddress rf in
          require (ui_Version ui = UNWIND_VERSION) ''ui.Version == UNWIND_INFO_VERSION'' (
          require (ui_Flags ui AND UNWIND_FLAG_CHAININFO = 0) ''(ui.Flags & UNWIND_INFO_FLAG_CHAININFO) == 0'' (
          require (ui_FrameRegister ui \<noteq> 0 \<or> ui_FrameOffset ui = 0) ''ui.FrameOffset == 0'' (
            unwind_loop img (unat (rf_UnwindInfoAddress rf)) (unat (ui_CountOfCodes ui)) offset_in_function stk 0 c)))))))"

text \<open>\<open>print_stack\<close>: the lines of the trace and what ends it. \<open>fuel\<close> bounds the number of frames; a stack that leads to itself
  is printed for ever.\<close>

fun print_frames :: "nat \<Rightarrow> (u64 \<Rightarrow> ((u64 \<times> bytes) option) res) \<Rightarrow> (u64 \<times> bytes \<Rightarrow> u64 \<Rightarrow> bytes res) \<Rightarrow> (u64 \<Rightarrow> u64) \<Rightarrow> int \<Rightarrow> unwind_context \<Rightarrow> bytes res" where
  "print_frames 0 find_image print_address stk skip c = Inl No_return"
| "print_frames (Suc fuel) find_image print_address stk skip c =
     (if ux_rip c = 0 then Inr []
      else andThen (find_image (ux_rip c)) (\<lambda>found. case found of
        None \<Rightarrow> andThen (put_formatted_number (as_hex 8 (ux_rip c))) (\<lambda>a. Inr (ascii ''No image found for '' @ a @ [10]))
      | Some (base, img) \<Rightarrow>
          andThen (unwind_once stk c base img) (\<lambda>nxt.
          if skip = 0 then
            andThen (put_formatted_number (as_hex 8 (ux_rsp c))) (\<lambda>a.
            andThen (put_formatted_number (as_hex 8 (ux_rip nxt))) (\<lambda>b.
            andThen (print_address (base, img) (ux_rip c)) (\<lambda>p.
            andThen (print_frames fuel find_image print_address stk skip nxt) (\<lambda>rest.
              Inr (a @ [32] @ b @ [32] @ p @ [10] @ rest)))))
          else print_frames fuel find_image print_address stk (skip - 1) nxt)))"

definition print_stack :: "nat \<Rightarrow> (u64 \<Rightarrow> ((u64 \<times> bytes) option) res) \<Rightarrow> (u64 \<times> bytes \<Rightarrow> u64 \<Rightarrow> bytes res) option \<Rightarrow> (u64 \<Rightarrow> u64) \<Rightarrow> int \<Rightarrow> unwind_context \<Rightarrow> bytes res" where
  "print_stack fuel find_image print_address stk skip current =
     (let pa = (case print_address of None \<Rightarrow> (\<lambda>_ addr. put_formatted_number (as_hex 8 addr)) | Some p \<Rightarrow> p) in
      andThen (print_frames fuel find_image pa stk skip current) (\<lambda>t.
        Inr (ascii ''Child-SP          RetAddr           Call Site'' @ [10] @ t)))"

section \<open>Prologues\<close>

text \<open>What the prologue of a function does, how the compiler describes it in unwind codes (the last step first), and the stack
  pointer at the offset \<open>off\<close> of the function: a step has been done when its end is not behind the offset.\<close>

datatype prolog_op =
    Op_push u8
  | Op_alloc_small u8
  | Op_alloc_large u16
  | Op_set_fpreg u8
  | Op_save_nonvol u8 u16
  | Op_save_xmm u8 u16

fun op_size :: "prolog_op \<Rightarrow> u64" where
  "op_size (Op_push r) = 8"
| "op_size (Op_alloc_small k) = 8 * (ucast k + 1)"
| "op_size (Op_alloc_large w) = 8 * ucast w"
| "op_size _ = 0"

fun op_ok :: "prolog_op \<Rightarrow> bool" where
  "op_ok (Op_push r) = (r < 16)"
| "op_ok (Op_alloc_small k) = (k < 16)"
| "op_ok (Op_alloc_large w) = True"
| "op_ok (Op_set_fpreg r) = (r < 16)"
| "op_ok (Op_save_nonvol r w) = (r < 16)"
| "op_ok (Op_save_xmm r w) = (r < 16)"

definition node :: "u8 \<Rightarrow> u8 \<Rightarrow> u8 \<Rightarrow> bytes" where
  "node co op info = [co, op OR push_bit 4 info]"

fun op_codes :: "u8 \<times> prolog_op \<Rightarrow> bytes" where
  "op_codes (co, Op_push r) = node co UWOP_PUSH_NONVOL r"
| "op_codes (co, Op_alloc_small k) = node co UWOP_ALLOC_SMALL k"
| "op_codes (co, Op_alloc_large w) = node co UWOP_ALLOC_LARGE 0 @ store16 w"
| "op_codes (co, Op_set_fpreg r) = node co UWOP_SET_FPREG r"
| "op_codes (co, Op_save_nonvol r w) = node co UWOP_SAVE_NONVOL r @ store16 w"
| "op_codes (co, Op_save_xmm r w) = node co UWOP_SAVE_XMM128 r @ store16 w"

type_synonym prolog = "(u8 \<times> prolog_op) list"

definition prolog_codes :: "prolog \<Rightarrow> bytes" where "prolog_codes pro = concat (List.map op_codes (rev pro))"

definition prolog_rsp :: "u32 \<Rightarrow> prolog \<Rightarrow> u64 \<Rightarrow> u64" where
  "prolog_rsp off pro rsp = foldl (\<lambda>rsp (co, op). if ucast co \<le> off then rsp - op_size op else rsp) rsp pro"

lemma node_parts:
  assumes "op < 16" "info < 16"
  shows "(op OR push_bit 4 info) AND 15 = (op :: u8)" "drop_bit 4 (op OR push_bit 4 info) = info"
proof -
  have m: "(15 :: u8) = mask 4" by (simp add: mask_eq_exp_minus_1)
  have z: "\<not> bit x n" if "x < 16" "4 \<le> n" for x :: u8 and n
  proof -
    have "x = take_bit 4 x"
      using that(1) by (simp add: word_unat_eq_iff unsigned_take_bit_eq take_bit_nat_eq_self word_less_nat_alt)
    then have "bit x n = bit (take_bit 4 x) n" by (rule arg_cong)
    then show ?thesis using that(2) by (simp add: bit_simps)
  qed
  show "(op OR push_bit 4 info) AND 15 = op" unfolding m
  proof (rule bit_word_eqI)
    fix n assume "n < LENGTH(8)"
    then show "bit ((op OR push_bit 4 info) AND mask 4) n = bit op n"
      using z [OF assms(1), of n] by (cases "n < 4") (auto simp: bit_simps)
  qed
  show "drop_bit 4 (op OR push_bit 4 info) = info"
  proof (rule bit_word_eqI)
    fix n assume "n < LENGTH(8)"
    then show "bit (drop_bit 4 (op OR push_bit 4 info)) n = bit info n"
      using z [OF assms(1), of "4 + n"] z [OF assms(2), of n] by (cases "n < 4") (auto simp: bit_simps)
  qed
qed

lemma prolog_rsp_snoc:
  "prolog_rsp off (pro @ [(co, op)]) rsp = (if ucast co \<le> off then prolog_rsp off pro rsp - op_size op else prolog_rsp off pro rsp)"
  by (simp add: prolog_rsp_def)

text \<open>The codes \<open>cs\<close> are the last ones of the \<open>n\<close> codes at \<open>ui\<close>, from the index \<open>i\<close> on.\<close>

definition codes_at :: "bytes \<Rightarrow> nat \<Rightarrow> nat \<Rightarrow> nat \<Rightarrow> bytes \<Rightarrow> bool" where
  "codes_at img ui i n cs \<longleftrightarrow> 2 * i + length cs = 2 * n \<and> (\<exists>r. drop (ui + sizeof_unwind_info + 2 * i) img = cs @ r)"

lemma codes_at_node:
  assumes "codes_at img ui i n (node co op info @ cs)" "op < 16" "info < 16"
  shows "i < n" "code_at img ui i = Inr \<lparr>uc_CodeOffset = co, uc_UnwindOp = op, uc_OpInfo = info\<rparr>" "codes_at img ui (i + 1) n cs"
proof -
  obtain r where r: "drop (ui + sizeof_unwind_info + 2 * i) img = node co op info @ cs @ r" "2 * i + length cs + 2 = 2 * n"
    using assms(1) by (auto simp: codes_at_def node_def)
  let ?o = "ui + sizeof_unwind_info + 2 * i"
  have len: "?o + 2 \<le> length img" using arg_cong [OF r(1), of length] by (simp add: node_def)
  have "img ! ?o = co" "img ! (?o + 1) = (op OR push_bit 4 info)"
    using nth_drop [of ?o img 0] nth_drop [of ?o img 1] len unfolding r(1) by (simp_all add: node_def)
  then show "code_at img ui i = Inr \<lparr>uc_CodeOffset = co, uc_UnwindOp = op, uc_OpInfo = info\<rparr>"
    using len node_parts [OF assms(2,3)] by (simp add: code_at_def rva_cast_def unwind_code_at_def)
  show "i < n" using r(2) by simp
  have "drop (?o + 2) img = drop 2 (drop ?o img)" by (simp add: add.commute)
  then have "drop (?o + 2) img = cs @ r" unfolding r(1) by (simp add: node_def)
  then show "codes_at img ui (i + 1) n cs" using r(2) by (simp add: codes_at_def add.assoc)
qed

lemma codes_at_word:
  assumes "codes_at img ui i n (store16 w @ cs)"
  shows "code_word img ui i = Inr (ucast w)" "codes_at img ui (i + 1) n cs"
proof -
  obtain r where r: "drop (ui + sizeof_unwind_info + 2 * i) img = store16 w @ cs @ r" "2 * i + length cs + 2 = 2 * n"
    using assms(1) by (auto simp: codes_at_def)
  let ?o = "ui + sizeof_unwind_info + 2 * i"
  have len: "?o + 2 \<le> length img" using arg_cong [OF r(1), of length] by simp
  have "load16 img ?o = load16 (drop ?o img) 0" using len load_drop(1) [of ?o img 0] by simp
  also have "\<dots> = w" unfolding r(1) using load_prefix(1) [of 0 "store16 w" "cs @ r"] by simp
  finally show "code_word img ui i = Inr (ucast w)" using len by (simp add: code_word_def rva_cast_def)
  have "drop (?o + 2) img = drop 2 (drop ?o img)" by (simp add: add.commute)
  then have "drop (?o + 2) img = cs @ r" unfolding r(1) by simp
  then show "codes_at img ui (i + 1) n cs" using r(2) by (simp add: codes_at_def add.assoc)
qed

text \<open>The loop over the codes takes back what the prologue has done so far.\<close>

lemma unwind_loop_prolog:
  "codes_at img ui i n (prolog_codes pro) \<Longrightarrow> list_all (op_ok \<circ> snd) pro \<Longrightarrow> ux_rsp c = prolog_rsp off pro rsp \<Longrightarrow>
     unwind_loop img ui n off stk i c = Inr (unwind_ret stk (c\<lparr>ux_rsp := rsp\<rparr>))"
proof (induction pro arbitrary: i c rule: rev_induct)
  case Nil
  then show ?case by (subst unwind_loop.simps) (simp add: codes_at_def prolog_codes_def prolog_rsp_def unwind_ret_def)
next
  case (snoc x pro)
  obtain co op where x: "x = (co, op)" by fastforce
  have codes: "codes_at img ui i n (op_codes (co, op) @ prolog_codes pro)" using snoc.prems(1) by (simp add: prolog_codes_def x)
  have pro: "list_all (op_ok \<circ> snd) pro" and ok: "op_ok op" using snoc.prems(2) by (simp_all add: x comp_def)
  have rsp: "ux_rsp c = (if ucast co \<le> off then prolog_rsp off pro rsp - op_size op else prolog_rsp off pro rsp)"
    using snoc.prems(3) by (simp only: x prolog_rsp_snoc)
  have IH: "unwind_loop img ui n off stk j (pop_bytes (ucast co > off) (op_size op) c) = Inr (unwind_ret stk (c\<lparr>ux_rsp := rsp\<rparr>))"
    if "codes_at img ui j n (prolog_codes pro)" for j
  proof -
    have "ux_rsp (pop_bytes (ucast co > off) (op_size op) c) = prolog_rsp off pro rsp" using rsp by (auto simp: pop_bytes_def not_less not_le)
    note snoc.IH [OF that pro this]
    then show ?thesis by (simp add: pop_bytes_def unwind_ret_def)
  qed
  have IH0: "op_size op = 0 \<Longrightarrow> codes_at img ui j n (prolog_codes pro) \<Longrightarrow>
      unwind_loop img ui n off stk j c = Inr (unwind_ret stk (c\<lparr>ux_rsp := rsp\<rparr>))" for j
    using IH [of j] by (simp add: pop_bytes_def split: if_splits)
  show ?case
  proof (cases op)
    case (Op_push r)
    then have "codes_at img ui i n (node co UWOP_PUSH_NONVOL r @ prolog_codes pro)" using codes by simp
    note a = codes_at_node [OF this]
    show ?thesis using a IH ok Op_push by (subst unwind_loop.simps) (simp add: uwop_defs Let_def)
  next
    case (Op_alloc_small k)
    then have "codes_at img ui i n (node co UWOP_ALLOC_SMALL k @ prolog_codes pro)" using codes by simp
    note a = codes_at_node [OF this]
    show ?thesis using a IH ok Op_alloc_small by (subst unwind_loop.simps) (simp add: uwop_defs Let_def)
  next
    case (Op_alloc_large w)
    then have "codes_at img ui i n (node co UWOP_ALLOC_LARGE 0 @ store16 w @ prolog_codes pro)" using codes by simp
    note a = codes_at_node [OF this]
    have b: "code_word img ui (i + 1) = Inr (ucast w)" "codes_at img ui (i + 2) n (prolog_codes pro)"
      using codes_at_word [OF a(3)] by (simp_all add: uwop_defs)
    show ?thesis using a b IH Op_alloc_large by (subst unwind_loop.simps) (simp add: uwop_defs Let_def)
  next
    case (Op_set_fpreg r)
    then have "codes_at img ui i n (node co UWOP_SET_FPREG r @ prolog_codes pro)" using codes by simp
    note a = codes_at_node [OF this]
    show ?thesis using a IH0 ok Op_set_fpreg by (subst unwind_loop.simps) (simp add: uwop_defs Let_def)
  next
    case (Op_save_nonvol r w)
    then have "codes_at img ui i n (node co UWOP_SAVE_NONVOL r @ store16 w @ prolog_codes pro)" using codes by simp
    note a = codes_at_node [OF this]
    have b: "code_word img ui (i + 1) = Inr (ucast w)" "codes_at img ui (i + 2) n (prolog_codes pro)"
      using codes_at_word [OF a(3)] ok Op_save_nonvol by (simp_all add: uwop_defs)
    show ?thesis using a b IH0 ok Op_save_nonvol by (subst unwind_loop.simps) (simp add: uwop_defs Let_def)
  next
    case (Op_save_xmm r w)
    then have "codes_at img ui i n (node co UWOP_SAVE_XMM128 r @ store16 w @ prolog_codes pro)" using codes by simp
    note a = codes_at_node [OF this]
    have b: "code_word img ui (i + 1) = Inr (ucast w)" "codes_at img ui (i + 2) n (prolog_codes pro)"
      using codes_at_word [OF a(3)] ok Op_save_xmm by (simp_all add: uwop_defs)
    show ?thesis using a b IH0 ok Op_save_xmm by (subst unwind_loop.simps) (simp add: uwop_defs Let_def)
  qed
qed

section \<open>Calls\<close>

text \<open>The function of an image that contains the address \<open>rva\<close>: where it begins, and its prologue. A function without an entry
  has none.\<close>

definition lookup_function :: "bytes \<Rightarrow> u32 \<Rightarrow> (runtime_function option) res" where
  "lookup_function img rva =
     andThen (image_nt_headers img) (\<lambda>nth.
       let dd = oh_DataDirectory (nt_OptionalHeader nth) ! DIRECTORY_ENTRY_EXCEPTION in
       runtime_function_info img (unat (dd_VirtualAddress dd)) (unat (dd_Size dd) div sizeof_runtime_function) rva)"

definition describes :: "bytes \<Rightarrow> u32 \<Rightarrow> runtime_function \<Rightarrow> prolog \<Rightarrow> bool" where
  "describes img rva rf pro \<longleftrightarrow> lookup_function img rva = Inr (Some rf) \<and> list_all (op_ok \<circ> snd) pro \<and>
     (\<exists>ui. rva_cast sizeof_unwind_info unwind_info_at img (unat (rf_UnwindInfoAddress rf)) = Inr ui \<and> ui_Version ui = UNWIND_VERSION \<and>
        ui_Flags ui AND UNWIND_FLAG_CHAININFO = 0 \<and> (ui_FrameRegister ui = 0 \<longrightarrow> ui_FrameOffset ui = 0) \<and>
        codes_at img (unat (rf_UnwindInfoAddress rf)) 0 (unat (ui_CountOfCodes ui)) (prolog_codes pro))"

text \<open>The calls on a stack: each frame is in a function of a known image, at any point of its prologue or behind it, and the
  return address lies above what the prologue has done.\<close>

inductive call_chain :: "(u64 \<Rightarrow> ((u64 \<times> bytes) option) res) \<Rightarrow> (u64 \<Rightarrow> u64) \<Rightarrow> unwind_context \<Rightarrow> ((u64 \<times> bytes) \<times> unwind_context) list \<Rightarrow> bool"
  for find_image stk where
  chain_end: "ux_rip c = 0 \<Longrightarrow> call_chain find_image stk c []"
| chain_call: "call_chain find_image stk \<lparr>ux_rsp = rsp + 8, ux_rip = stk rsp\<rparr> cs \<Longrightarrow> ux_rip c \<noteq> 0 \<Longrightarrow> find_image (ux_rip c) = Inr (Some (base, img)) \<Longrightarrow>
    describes img (ucast (ux_rip c - base)) rf pro \<Longrightarrow>
    ux_rsp c = prolog_rsp (ucast (ux_rip c - base) - rf_BeginAddress rf) pro rsp \<Longrightarrow>
    call_chain find_image stk c (((base, img), c) # cs)"
| chain_leaf: "call_chain find_image stk \<lparr>ux_rsp = ux_rsp c + 8, ux_rip = stk (ux_rsp c)\<rparr> cs \<Longrightarrow> ux_rip c \<noteq> 0 \<Longrightarrow> find_image (ux_rip c) = Inr (Some (base, img)) \<Longrightarrow>
    lookup_function img (ucast (ux_rip c - base)) = Inr None \<Longrightarrow>
    call_chain find_image stk c (((base, img), c) # cs)"

lemma unwind_once_call:
  assumes "describes img (ucast (ux_rip c - base)) rf pro" "ux_rsp c = prolog_rsp (ucast (ux_rip c - base) - rf_BeginAddress rf) pro rsp"
  shows "unwind_once stk c base img = Inr \<lparr>ux_rsp = rsp + 8, ux_rip = stk rsp\<rparr>"
proof -
  obtain nth where n: "image_nt_headers img = Inr nth"
      "runtime_function_info img (unat (dd_VirtualAddress (oh_DataDirectory (nt_OptionalHeader nth) ! DIRECTORY_ENTRY_EXCEPTION)))
         (unat (dd_Size (oh_DataDirectory (nt_OptionalHeader nth) ! DIRECTORY_ENTRY_EXCEPTION)) div sizeof_runtime_function)
         (ucast (ux_rip c - base)) = Inr (Some rf)"
    using assms(1) by (auto simp: describes_def lookup_function_def res_simps Let_def)
  obtain ui where ui: "rva_cast sizeof_unwind_info unwind_info_at img (unat (rf_UnwindInfoAddress rf)) = Inr ui" "ui_Version ui = UNWIND_VERSION"
      "ui_Flags ui AND UNWIND_FLAG_CHAININFO = 0" "ui_FrameRegister ui = 0 \<longrightarrow> ui_FrameOffset ui = 0"
      "codes_at img (unat (rf_UnwindInfoAddress rf)) 0 (unat (ui_CountOfCodes ui)) (prolog_codes pro)"
    using assms(1) unfolding describes_def by blast
  have "list_all (op_ok \<circ> snd) pro" using assms(1) unfolding describes_def by blast
  note l = unwind_loop_prolog [OF ui(5) this assms(2)]
  show ?thesis using n ui(1-4) l by (auto simp: unwind_once_def Let_def unwind_ret_def)
qed

lemma unwind_once_leaf:
  "lookup_function img (ucast (ux_rip c - base)) = Inr None \<Longrightarrow>
     unwind_once stk c base img = Inr \<lparr>ux_rsp = ux_rsp c + 8, ux_rip = stk (ux_rsp c)\<rparr>"
  by (auto simp: lookup_function_def res_simps Let_def unwind_once_def unwind_ret_def)

text \<open>The lines of a trace: the stack pointer, the return address and the place of each frame.\<close>

fun trace_text :: "(u64 \<times> bytes \<Rightarrow> u64 \<Rightarrow> bytes res) \<Rightarrow> ((u64 \<times> bytes) \<times> unwind_context) list \<Rightarrow> bytes res" where
  "trace_text print_address [] = Inr []"
| "trace_text print_address ((pe, c) # cs) =
     andThen (put_formatted_number (as_hex 8 (ux_rsp c))) (\<lambda>a.
     andThen (put_formatted_number (as_hex 8 (case cs of [] \<Rightarrow> 0 | (_, c1) # _ \<Rightarrow> ux_rip c1))) (\<lambda>b.
     andThen (print_address pe (ux_rip c)) (\<lambda>p.
     andThen (trace_text print_address cs) (\<lambda>rest. Inr (a @ [32] @ b @ [32] @ p @ [10] @ rest)))))"

lemma chain_head: "call_chain find_image stk c cs \<Longrightarrow> (case cs of [] \<Rightarrow> 0 | (_, c1) # _ \<Rightarrow> ux_rip c1) = ux_rip c"
  by (cases rule: call_chain.cases) auto

lemma print_frames_chain:
  "call_chain find_image stk c cs \<Longrightarrow> length cs < fuel \<Longrightarrow>
     print_frames fuel find_image print_address stk (int k) c = trace_text print_address (drop k cs)"
proof (induction arbitrary: fuel k rule: call_chain.induct)
  case (chain_end c)
  then show ?case by (cases fuel) simp_all
next
  case (chain_call rsp cs c base img rf pro)
  then obtain f where f: "fuel = Suc f" "length cs < f" by (cases fuel) auto
  note u = unwind_once_call [OF chain_call.hyps(4,5), of stk]
  note h = chain_head [OF chain_call.hyps(1)]
  show ?case
  proof (cases k)
    case 0
    then show ?thesis using chain_call.IH [OF f(2), of 0] chain_call.hyps(2,3) u h f(1) by simp
  next
    case (Suc j)
    then show ?thesis using chain_call.IH [OF f(2), of j] chain_call.hyps(2,3) u f(1) by simp
  qed
next
  case (chain_leaf c cs base img)
  then obtain f where f: "fuel = Suc f" "length cs < f" by (cases fuel) auto
  note u = unwind_once_leaf [OF chain_leaf.hyps(4), of stk]
  note h = chain_head [OF chain_leaf.hyps(1)]
  show ?case
  proof (cases k)
    case 0
    then show ?thesis using chain_leaf.IH [OF f(2), of 0] chain_leaf.hyps(2,3) u h f(1) by simp
  next
    case (Suc j)
    then show ?thesis using chain_leaf.IH [OF f(2), of j] chain_leaf.hyps(2,3) u f(1) by simp
  qed
qed


section \<open>Witness\<close>

definition demo_prolog :: prolog where "demo_prolog = [(4, Op_push 5), (8, Op_alloc_large 64)]"

text \<open>An image with one function from 400 to 440, whose unwind information is at 340.\<close>

definition demo_image :: bytes where
  "demo_image = [0x4D, 0x5A] @ replicate 58 0 @ store32 64 @ replicate 160 0 @ store32 328 @ store32 12 @ replicate 96 0
     @ store32 400 @ store32 440 @ store32 340 @ [1, 8, 3, 0] @ prolog_codes demo_prolog"

definition demo_stack :: "u64 \<Rightarrow> u64" where "demo_stack a = (if a = 1000 then 0x10000 + 500 else 0)"

lemma exception_directory:
  "oh_DataDirectory (nt_OptionalHeader (nt_headers_at b p)) ! DIRECTORY_ENTRY_EXCEPTION = data_directory_at b (p + 160)"
  by (simp add: nt_headers_at_def optional_header_at_def DIRECTORY_ENTRY_EXCEPTION_def NUMBEROF_DIRECTORY_ENTRIES_def add.commute)

lemma load32_at: "length a = k \<Longrightarrow> load32 (a @ store32 w @ r) k = w"
proof -
  assume "length a = k"
  then have "load32 (a @ store32 w @ r) k = load32 (store32 w @ r) 0" using load_drop(2) [of k "a @ store32 w @ r" 0] by simp
  then show ?thesis using load_prefix(2) [of 0 "store32 w" r] by simp
qed

lemma demo_codes: "prolog_codes demo_prolog = [8, 1, 64, 0, 4, 80]"
  by (simp add: prolog_codes_def demo_prolog_def node_def uwop_defs store16_def)

lemma demo_image_parts:
  "length demo_image = 350" "load32 demo_image 60 = 64" "load32 demo_image 224 = 328" "load32 demo_image 228 = 12"
  "load32 demo_image 328 = 400" "load32 demo_image 332 = 440" "load32 demo_image 336 = 340"
  "drop 340 demo_image = [1, 8, 3, 0] @ prolog_codes demo_prolog"
  by code_simp+

lemma demo_lookup: "lookup_function demo_image rva =
    Inr (if 400 \<le> rva \<and> rva \<le> 440 then Some \<lparr>rf_BeginAddress = 400, rf_EndAddress = 440, rf_UnwindInfoAddress = 340\<rparr> else None)"
proof -
  have n: "image_nt_headers demo_image = Inr (nt_headers_at demo_image 64)"
    by (simp add: image_nt_headers_def nt_offset_def rva_cast_def sizeof_dos_header_def sizeof_nt_headers_def dos_header_at_def demo_image_parts)
  show ?thesis
    unfolding lookup_function_def n
    by (simp add: exception_directory data_directory_at_def demo_image_parts sizeof_runtime_function_def rva_cast_def runtime_function_at_def)
qed

lemma demo_describes: "describes demo_image 410 \<lparr>rf_BeginAddress = 400, rf_EndAddress = 440, rf_UnwindInfoAddress = 340\<rparr> demo_prolog"
proof -
  have b: "demo_image ! 340 = 1" "demo_image ! 341 = 8" "demo_image ! 342 = 3" "demo_image ! 343 = 0" by code_simp+
  have "drop 344 demo_image = drop 4 (drop 340 demo_image)" by simp
  then have "drop 344 demo_image = prolog_codes demo_prolog" unfolding demo_image_parts(8) by simp
  then have "codes_at demo_image 340 0 3 (prolog_codes demo_prolog)" by (simp add: codes_at_def sizeof_unwind_info_def demo_codes)
  then show ?thesis
    by (simp add: describes_def demo_lookup demo_prolog_def rva_cast_def sizeof_unwind_info_def unwind_info_at_def demo_image_parts
        b UNWIND_VERSION_def UNWIND_FLAG_CHAININFO_def)
qed


end
