(* ===== verification/DebugInfo.thy ===== *)
theory DebugInfo
  imports Isr Pe
begin

text \<open>
  Reports: the symbol table, the stack trace and the report of an unhandled interrupt of \<open>kernel/isr.cpp\<close>. The symbols
  are the text that the build puts behind the kernel's image: lines of 16 hexadecimal digits, a blank and a name.
\<close>

section \<open>The code\<close>

definition hex_val :: "u8 \<Rightarrow> u64 res" where
  "hex_val c =
     (if c \<ge> 48 \<and> c \<le> 57 then Inr (ucast (c - 48))
      else if c \<ge> 97 \<and> c \<le> 102 then Inr (10 + ucast (c - 97))
      else if c \<ge> 65 \<and> c \<le> 70 then Inr (10 + ucast (c - 65))
      else Inl (Fatal ''false''))"

fun process_hex_digits :: "nat \<Rightarrow> u64 \<Rightarrow> bytes \<Rightarrow> u64 res" where
  "process_hex_digits 0 n s = Inr n"
| "process_hex_digits (Suc i) n [] = Inl (Wild ''s'')"
| "process_hex_digits (Suc i) n (c # s) = andThen (hex_val c) (\<lambda>v. process_hex_digits i (push_bit 4 n OR v) s)"

definition process_hex_number :: "bytes \<Rightarrow> u64 res" where "process_hex_number s = process_hex_digits 16 0 s"

record symbol_info =
  si_address :: u64
  si_text :: bytes

text \<open>The text of the line that begins at \<open>data\<close>, up to the carriage return, and what follows it.\<close>

fun symbol_text :: "bytes \<Rightarrow> (bytes \<times> bytes) res" where
  "symbol_text [] = Inl (Wild ''symbols_'')"
| "symbol_text (c # data) =
     (if c = 13 then Inr ([], data) else andThen (symbol_text data) (\<lambda>(t, rest). Inr (c # t, rest)))"

lemma symbol_text_shorter: "symbol_text data = Inr (t, rest) \<Longrightarrow> length rest < length data"
  by (induction data arbitrary: t) (fastforce simp: res_simps split: if_splits)+

text \<open>\<open>closest_symbol\<close>; the result is not initialized when the first symbol is behind the address, which is \<open>None\<close>.\<close>

function closest_symbol_from :: "bytes \<Rightarrow> u64 \<Rightarrow> symbol_info option \<Rightarrow> (symbol_info option) res" where
  "closest_symbol_from data addr r =
     (case data of [] \<Rightarrow> Inl (Wild ''symbols_'')
      | c # _ \<Rightarrow>
          if c = 0 then Inr r
          else andThen (process_hex_number data) (\<lambda>symval.
            if symval > addr then Inr r
            else case drop 16 data of [] \<Rightarrow> Inl (Wild ''symbols_'')
              | s # line \<Rightarrow> require (s = 32) ''blank'' (
                  andThen (symbol_text line) (\<lambda>(t, rest).
                  case rest of [] \<Rightarrow> Inl (Wild ''symbols_'')
                  | e # data1 \<Rightarrow> require (e = 10) ''newline'' (
                      closest_symbol_from data1 addr (Some \<lparr>si_address = symval, si_text = t\<rparr>))))))"
  by pat_completeness auto
termination
proof (relation "measure (\<lambda>(data, _). length data)", goal_cases)
  case (2 data addr r c cs symval s line x t rest e data1)
  have "length (s # line) \<le> length data" using 2 by (metis length_drop diff_le_self)
  then show ?case using symbol_text_shorter [of line t rest] 2 by auto
qed simp

declare closest_symbol_from.simps [simp del]

definition closest_symbol :: "bytes \<Rightarrow> u64 \<Rightarrow> (symbol_info option) res" where
  "closest_symbol symbols addr = closest_symbol_from symbols addr None"

text \<open>Images and places. \<open>k_image\<close> and \<open>u_image\<close> are the images at \<open>__ImageBase\<close> and in \<open>user_image\<close>, with their addresses.\<close>

definition in_image :: "bytes \<Rightarrow> u64 \<Rightarrow> bool res" where
  "in_image img rip =
     andThen (image_nt_headers img) (\<lambda>nth.
       let ioh = nt_OptionalHeader nth in Inr (rip \<ge> oh_ImageBase ioh \<and> rip < oh_ImageBase ioh + ucast (oh_SizeOfImage ioh)))"

definition find_image :: "u64 \<times> bytes \<Rightarrow> (u64 \<times> bytes) option \<Rightarrow> u64 \<Rightarrow> ((u64 \<times> bytes) option) res" where
  "find_image k_image u_image rip =
     andThen (in_image (snd k_image) rip) (\<lambda>k.
     if k then Inr (Some k_image)
     else case u_image of
         None \<Rightarrow> Inr None
       | Some u \<Rightarrow> andThen (in_image (snd u) rip) (\<lambda>i. Inr (if i then Some u else None)))"

definition print_address :: "bytes \<Rightarrow> u64 \<times> bytes \<Rightarrow> u64 \<times> bytes \<Rightarrow> u64 \<Rightarrow> bytes res" where
  "print_address symbols k_image pe address =
     (if fst pe = fst k_image then
        andThen (closest_symbol symbols address) (\<lambda>r.
        case r of None \<Rightarrow> Inl (Wild ''res'')
        | Some sy \<Rightarrow>
            andThen (put_formatted_number ((as_hex 4 (ucast (ucast (address - si_address sy) :: u32)))\<lparr>fn_width := 4\<rparr>)) (\<lambda>n.
              Inr (si_text sy @ ascii ''+0x'' @ n)))
      else
        andThen (image_nt_headers (snd pe)) (\<lambda>nth.
        andThen (put_formatted_number ((as_hex 8 (address - oh_ImageBase (nt_OptionalHeader nth)))\<lparr>fn_width := 4\<rparr>)) (\<lambda>n.
          Inr (ascii ''<user-exe>+0x'' @ n))))"

definition print_default_stack_trace ::
  "nat \<Rightarrow> bytes \<Rightarrow> u64 \<times> bytes \<Rightarrow> (u64 \<times> bytes) option \<Rightarrow> (u64 \<Rightarrow> u64) \<Rightarrow> int \<Rightarrow> unwind_context \<Rightarrow> bytes res" where
  "print_default_stack_trace fuel symbols k_image u_image stk skip current =
     print_stack fuel (find_image k_image u_image) (Some (print_address symbols k_image)) stk skip current"

text \<open>The report of an unhandled interrupt, without the stack trace that follows it.\<close>

definition preg :: "string \<Rightarrow> u64 \<Rightarrow> u8 \<Rightarrow> bytes res" where
  "preg name v c =
     andThen (put_formatted_string \<lparr>fs_width = 3, fs_fill = 32, fs_str = c_str name, fs_max_width = int (length name) + 1\<rparr>) (\<lambda>a.
     andThen (put_formatted_number (as_hex 8 v)) (\<lambda>b. Inr (a @ ascii '': '' @ b @ [c])))"

definition pf_flag :: "u64 \<Rightarrow> u64 \<Rightarrow> char \<Rightarrow> bytes res" where
  "pf_flag error_code m c = Inr (ascii [if error_code AND m \<noteq> 0 then c else CHR '' ''])"

definition unhandled_report :: "bool \<Rightarrow> registers \<Rightarrow> u64 \<Rightarrow> bytes res" where
  "unhandled_report recurse_flag r cr2 = put_all (
     [Inr (ascii ''Unhandled interrupt ''), put_interrupt_number (r_interrupt_no r)] @
     (if has_error_code (r_interrupt_no r)
      then [Inr (ascii '' error_code = ''), put_formatted_number (as_hex 8 (r_error_code r))] else []) @
     [Inr [10], require (\<not> recurse_flag) ''!isr_recurse_flag'' (Inr []),
      preg ''rax'' (r_rax r) 32, preg ''rcx'' (r_rcx r) 10, preg ''rdx'' (r_rdx r) 32, preg ''rbx'' (r_rbx r) 10,
      preg ''rsp'' (r_rsp r) 32, preg ''rbp'' (r_rbp r) 10, preg ''rsi'' (r_rsi r) 32, preg ''rdi'' (r_rdi r) 10,
      preg ''r8'' (r_r8 r) 32, preg ''r9'' (r_r9 r) 10, preg ''r10'' (r_r10 r) 32, preg ''r11'' (r_r11 r) 10,
      preg ''r12'' (r_r12 r) 32, preg ''r13'' (r_r13 r) 10, preg ''r14'' (r_r14 r) 32, preg ''r15'' (r_r15 r) 10,
      preg ''rip'' (r_rip r) 32,
      Inr (ascii ''eflags ''), put_formatted_number (as_hex 4 (ucast (r_eflags r))), Inr (ascii '' ''),
      Inr (ascii ''cs: ''), put_formatted_number ((as_hex 2 (ucast (r_cs r)))\<lparr>fn_width := 2\<rparr>),
      Inr (ascii '' ss: ''), put_formatted_number ((as_hex 2 (ucast (r_ss r)))\<lparr>fn_width := 2\<rparr>), Inr [10]] @
     (if r_interrupt_no r = int_PF
      then [Inr (ascii ''Page fault. cr2 = ''), put_formatted_number (as_hex 8 cr2), Inr (ascii '' error ''),
        pf_flag (r_error_code r) 1 (CHR ''P''), pf_flag (r_error_code r) 2 (CHR ''W''), pf_flag (r_error_code r) 4 (CHR ''U''),
        pf_flag (r_error_code r) 8 (CHR ''R''), pf_flag (r_error_code r) 16 (CHR ''I''), Inr [10]] else []))"

section \<open>The symbol table\<close>

text \<open>A symbol as the build writes it: the digits of its address and its name.\<close>

definition is_hex :: "u8 \<Rightarrow> bool" where
  "is_hex c \<longleftrightarrow> c \<ge> 48 \<and> c \<le> 57 \<or> c \<ge> 97 \<and> c \<le> 102 \<or> c \<ge> 65 \<and> c \<le> 70"

definition hex_value :: "bytes \<Rightarrow> u64" where
  "hex_value h = foldl (\<lambda>n c. push_bit 4 n OR (if c \<le> 57 then ucast (c - 48) else if c \<ge> 97 then 10 + ucast (c - 97) else 10 + ucast (c - 65))) 0 h"

definition symbol_ok :: "bytes \<times> bytes \<Rightarrow> bool" where
  "symbol_ok s \<longleftrightarrow> length (fst s) = 16 \<and> list_all is_hex (fst s) \<and> 13 \<notin> set (snd s)"

definition symbol_line :: "bytes \<times> bytes \<Rightarrow> bytes" where
  "symbol_line s = fst s @ [32] @ snd s @ [13, 10]"

definition symbol_file :: "(bytes \<times> bytes) list \<Rightarrow> bytes" where
  "symbol_file ss = concat (List.map symbol_line ss) @ [0]"

lemma hex_val_value: "is_hex c \<Longrightarrow> hex_val c = Inr (if c \<le> 57 then ucast (c - 48) else if c \<ge> 97 then 10 + ucast (c - 97) else 10 + ucast (c - 65))"
  by (auto simp: is_hex_def hex_val_def word_le_nat_alt)

lemma process_hex_digits_ok: "list_all is_hex h \<Longrightarrow> process_hex_digits (length h) n (h @ r) =
    Inr (foldl (\<lambda>n c. push_bit 4 n OR (if c \<le> 57 then ucast (c - 48) else if c \<ge> 97 then 10 + ucast (c - 97) else 10 + ucast (c - 65))) n h)"
  by (induction h arbitrary: n) (simp_all add: hex_val_value)

lemma process_symbol: "symbol_ok s \<Longrightarrow> process_hex_number (symbol_line s @ r) = Inr (hex_value (fst s))"
  using process_hex_digits_ok [of "fst s" 0 "[32] @ snd s @ [13, 10] @ r"]
  by (simp add: symbol_ok_def process_hex_number_def symbol_line_def hex_value_def)

lemma symbol_text_line: "13 \<notin> set t \<Longrightarrow> symbol_text (t @ 13 # r) = Inr (t, r)"
  by (induction t) auto

lemma closest_symbol_line:
  assumes "symbol_ok s"
  shows "closest_symbol_from (symbol_line s @ data) addr r =
    (if hex_value (fst s) > addr then Inr r else closest_symbol_from data addr (Some \<lparr>si_address = hex_value (fst s), si_text = snd s\<rparr>))"
proof -
  obtain c h where h: "fst s = c # h" using assms by (cases "fst s") (auto simp: symbol_ok_def)
  have c: "c \<noteq> 0" using assms h by (auto simp: symbol_ok_def is_hex_def)
  have l: "symbol_line s @ data = c # h @ [32] @ snd s @ [13, 10] @ data" by (simp add: symbol_line_def h)
  have d: "drop 16 (symbol_line s @ data) = 32 # snd s @ 13 # 10 # data" using assms by (simp add: symbol_line_def symbol_ok_def)
  have "13 \<notin> set (snd s)" using assms by (simp add: symbol_ok_def)
  then show ?thesis using process_symbol [OF assms, of data] c d symbol_text_line [of "snd s" "10 # data"]
    by (subst closest_symbol_from.simps) (simp add: l)
qed

lemma closest_symbol_ok:
  "list_all symbol_ok ss \<Longrightarrow> closest_symbol_from (symbol_file ss) addr r =
     Inr (case rev (takeWhile (\<lambda>s. hex_value (fst s) \<le> addr) ss) of [] \<Rightarrow> r
       | s # _ \<Rightarrow> Some \<lparr>si_address = hex_value (fst s), si_text = snd s\<rparr>)"
proof (induction ss arbitrary: r)
  case Nil
  then show ?case by (simp add: symbol_file_def) (subst closest_symbol_from.simps, simp)
next
  case (Cons s ss)
  have "symbol_file (s # ss) = symbol_line s @ symbol_file ss" by (simp add: symbol_file_def)
  then show ?case using Cons closest_symbol_line [of s "symbol_file ss" addr r]
    by (auto simp: not_le split: list.split)
qed

text \<open>the closest symbol is found: in a symbol file whose lines are sorted by address, \<open>closest_symbol\<close> returns the last
  symbol whose address is not behind the one that is asked for; the result is only left uninitialized when all symbols
  are behind it.\<close>

theorem closest_symbol_exact:
  assumes "list_all symbol_ok ss" "sorted (List.map (\<lambda>s. hex_value (fst s)) ss)"
  shows "\<exists>r. closest_symbol (symbol_file ss) addr = Inr r \<and>
     (case r of None \<Rightarrow> \<forall>s \<in> set ss. hex_value (fst s) > addr
      | Some sy \<Rightarrow> (\<exists>s \<in> set ss. sy = \<lparr>si_address = hex_value (fst s), si_text = snd s\<rparr>) \<and> si_address sy \<le> addr \<and>
          (\<forall>s \<in> set ss. hex_value (fst s) \<le> addr \<longrightarrow> hex_value (fst s) \<le> si_address sy))"
proof -
  let ?P = "\<lambda>s. hex_value (fst s) \<le> addr"
  have all: "s \<in> set (takeWhile ?P ss)" if "s \<in> set ss" "?P s" for s
  proof -
    have "sorted (List.map (\<lambda>s. hex_value (fst s)) ss) \<Longrightarrow> s \<in> set ss \<Longrightarrow> s \<in> set (takeWhile ?P ss)"
      using that(2) by (induction ss) fastforce+
    then show ?thesis using assms(2) that(1) by blast
  qed
  show ?thesis
  proof (cases "takeWhile ?P ss" rule: rev_cases)
    case Nil
    then show ?thesis using all closest_symbol_ok [OF assms(1), of addr None] by (force simp: closest_symbol_def not_le)
  next
    case (snoc ts t)
    have t: "t \<in> set ss" "?P t" using snoc set_takeWhileD [of t ?P ss] by simp_all
    have "sorted (List.map (\<lambda>s. hex_value (fst s)) (ts @ [t]))"
      using assms(2) unfolding snoc [symmetric] by (metis sorted_wrt_take sorted_map takeWhile_eq_take)
    then have "\<forall>s \<in> set (ts @ [t]). hex_value (fst s) \<le> hex_value (fst t)" by (auto simp: sorted_append)
    then have "\<forall>s \<in> set ss. ?P s \<longrightarrow> hex_value (fst s) \<le> hex_value (fst t)" using all unfolding snoc by blast
    then show ?thesis using t closest_symbol_ok [OF assms(1), of addr None] snoc by (auto simp: closest_symbol_def)
  qed
qed

theorem closest_symbol_exact_witness:
  "\<exists>r. closest_symbol (symbol_file [(ascii ''0000000000001000'', ascii ''a''), (ascii ''0000000000002000'', ascii ''b'')]) 0x1800 = Inr r \<and> r \<noteq> None"
proof -
  let ?ss = "[(ascii ''0000000000001000'', ascii ''a''), (ascii ''0000000000002000'', ascii ''b'')]"
  have v: "hex_value (ascii ''0000000000001000'') = 0x1000" "hex_value (ascii ''0000000000002000'') = 0x2000" by code_simp+
  have ok: "list_all symbol_ok ?ss" by code_simp
  have "sorted (List.map (\<lambda>s. hex_value (fst s)) ?ss)" by (simp add: v)
  from closest_symbol_exact [OF ok this, of "0x1800"] v show ?thesis by (auto split: option.splits)
qed

end
