(* ===== verification/Processes.thy ===== *)
theory Processes
  imports PageTables NetTypes Cpu Pe
begin

text \<open>
  User processes and system calls: \<open>kernel/kernel.cpp\<close> and \<open>attos/syscall.h\<close>. A process has an address space of the memory
  manager, registers, and a table of kernel objects; a system call is \<open>syscall_handler\<close>. The address of a process object
  is its identifier, and the chain \<open>first_process_\<close>, \<open>next_\<close> is the list of identifiers, the newest first. The tables of
  the address spaces (\<open>PageTables\<close>) and the pages of the processes lie in physical memory, a word for each eight bytes;
  the kernel reads and writes user memory through the page tables in \<open>cr3\<close>, and an address that they do not map is \<open>Wild\<close>.
  The Ethernet device and the keyboard are interfaces in the code; here they are a record of their functions on a
  state \<open>'e\<close>. Debug output is kept only where a program asks for it.
\<close>

section \<open>The code: the state\<close>

definition max_objects :: nat where "max_objects = 16"

type_synonym pid = nat

datatype proc_state = Created | Running | Exited

text \<open>A \<open>mem_map_helper\<close>: a piece of physical memory, and where it is mapped in the address space of \<open>mh_owner\<close>.\<close>

record mem_map =
  mh_owner :: pid
  mh_phys :: u64
  mh_length :: u64
  mh_type :: u32
  mh_virt :: u64

datatype kernel_object = Ko_ethdev | Ko_keyboard | Ko_process pid | Ko_mem_map mem_map

datatype protocol = Protocol_read | Protocol_write | Protocol_process | Protocol_mem_map

record user_process =
  up_state :: proc_state
  up_mm :: memory_manager
  up_allocations :: "physical_allocation list"
  up_context :: registers
  up_exit_code :: u64
  up_objects :: "kernel_object option list"
  up_image_base :: u64

record 'e kernel =
  k_phys :: phys
  k_kmm :: memory_manager
  k_cr3 :: u64
  k_proc :: "pid \<Rightarrow> user_process option"
  k_list :: "pid list"
  k_next :: pid
  k_current :: "pid option"
  k_user_image :: u64
  k_out :: bytes
  k_env :: 'e
  k_dsdt_phys :: u64
  k_dsdt_len :: u32

text \<open>The devices: \<open>dv_process\<close> is \<open>process_packets\<close> with a limit of one packet, its function applied to what was received.\<close>

record 'e devices =
  dv_present :: bool
  dv_send :: "bytes \<Rightarrow> 'e \<Rightarrow> 'e res"
  dv_process :: "(bytes \<Rightarrow> bytes \<Rightarrow> bytes res) \<Rightarrow> bytes \<times> 'e \<Rightarrow> (bytes \<times> 'e) res"
  dv_hw_address :: mac_address
  dv_key_available :: "'e \<Rightarrow> bool \<times> 'e"
  dv_read_key :: "'e \<Rightarrow> (u8 \<times> 'e) res"

section \<open>The code: user memory\<close>

text \<open>A byte at a physical address, in the word that holds it.\<close>

definition word_of :: "u64 \<Rightarrow> u64" where "word_of a = to_identity_mapped_ptr (a AND NOT 7)"

definition shift_of :: "u64 \<Rightarrow> nat" where "shift_of a = 8 * unat (a AND 7)"

definition phys_byte :: "mem \<Rightarrow> u64 \<Rightarrow> u8" where "phys_byte m a = ucast (drop_bit (shift_of a) (m (word_of a)))"

definition store_byte :: "u64 \<Rightarrow> u8 \<Rightarrow> mem \<Rightarrow> mem" where
  "store_byte a b m = m(word_of a := (m (word_of a) AND NOT (push_bit (shift_of a) 0xFF)) OR push_bit (shift_of a) (ucast b))"

fun store_bytes :: "u64 \<Rightarrow> bytes \<Rightarrow> mem \<Rightarrow> mem" where
  "store_bytes a [] m = m"
| "store_bytes a (b # bs) m = store_bytes (a + 1) bs (store_byte a b m)"

definition user_byte :: "'e kernel \<Rightarrow> u64 \<Rightarrow> u8 option" where
  "user_byte k p = (case virt_to_phys (fst (k_phys k)) (k_cr3 k) p of Inl _ \<Rightarrow> None | Inr a \<Rightarrow> Some (phys_byte (fst (k_phys k)) a))"

text \<open>The bytes from \<open>p\<close> on that can be read, but not more than the bound.\<close>

function user_view :: "'e kernel \<Rightarrow> u64 \<Rightarrow> nat \<Rightarrow> nat \<Rightarrow> bytes" where
  "user_view k p i bound =
     (if i < bound then (case user_byte k (p + of_nat i) of None \<Rightarrow> [] | Some b \<Rightarrow> b # user_view k p (i + 1) bound) else [])"
  by pat_completeness auto
termination by (relation "measure (\<lambda>(_, _, i, bound). bound - i)") auto

declare user_view.simps [simp del]

definition read_user :: "'e kernel \<Rightarrow> u64 \<Rightarrow> nat \<Rightarrow> bytes res" where
  "read_user k p n = (let b = user_view k p 0 n in in_object (length b = n) ''user address'' (Inr b))"

fun write_user :: "u64 \<Rightarrow> bytes \<Rightarrow> 'e kernel \<Rightarrow> 'e kernel res" where
  "write_user p [] k = Inr k"
| "write_user p (b # bs) k =
     (case virt_to_phys (fst (k_phys k)) (k_cr3 k) p of
        Inl _ \<Rightarrow> Inl (Wild ''user address'')
      | Inr a \<Rightarrow> write_user (p + 1) bs (k\<lparr>k_phys := (store_byte a b (fst (k_phys k)), snd (k_phys k))\<rparr>))"

section \<open>The code: memory maps\<close>

definition mapped_base :: "u64 \<Rightarrow> u64" where "mapped_base ph = ph AND NOT (page_size - 1)"

definition mapped_length :: "u64 \<Rightarrow> u64 \<Rightarrow> u64" where
  "mapped_length ph len = round_up (ph + len) page_size - mapped_base ph"

definition mem_map_ptr :: "mem_map \<Rightarrow> u64" where "mem_map_ptr mh = mh_virt mh + (mh_phys mh AND (page_size - 1))"

definition with_process :: "'e kernel \<Rightarrow> pid \<Rightarrow> (user_process \<Rightarrow> 'a res) \<Rightarrow> 'a res" where
  "with_process k p f = (case k_proc k p of None \<Rightarrow> Inl (Wild ''user_process'') | Some u \<Rightarrow> f u)"

definition set_process :: "pid \<Rightarrow> user_process \<Rightarrow> 'e kernel \<Rightarrow> 'e kernel" where
  "set_process p u k = k\<lparr>k_proc := (k_proc k)(p := Some u)\<rparr>"

text \<open>The constructor and the destructor of a map in the address space of a process.\<close>

definition mem_map_new :: "pid \<Rightarrow> u64 \<Rightarrow> u64 \<Rightarrow> u32 \<Rightarrow> 'e kernel \<Rightarrow> (mem_map \<times> 'e kernel) res" where
  "mem_map_new p ph len type k =
     with_process k p (\<lambda>u.
     andThen (default_do_map_memory (k_phys k, up_mm u) map_alloc_virt (mapped_length ph len) type (mapped_base ph)) (\<lambda>(v, phys1, mm1).
       Inr (\<lparr>mh_owner = p, mh_phys = ph, mh_length = len, mh_type = type, mh_virt = v\<rparr>,
            set_process p (u\<lparr>up_mm := mm1\<rparr>) (k\<lparr>k_phys := phys1\<rparr>))))"

definition mem_map_destroy :: "mem_map \<Rightarrow> 'e kernel \<Rightarrow> 'e kernel res" where
  "mem_map_destroy mh k =
     (if mh_length mh \<noteq> 0 then
        with_process k (mh_owner mh) (\<lambda>u.
        andThen (do_unmap_memory (k_phys k, up_mm u) (mh_virt mh) (mapped_length (mh_phys mh) (mh_length mh))) (\<lambda>(phys1, mm1).
          Inr (set_process (mh_owner mh) (u\<lparr>up_mm := mm1\<rparr>) (k\<lparr>k_phys := phys1\<rparr>))))
      else Inr k)"

section \<open>The code: processes\<close>

definition user_process_new :: "'e kernel \<Rightarrow> (pid \<times> 'e kernel) res" where
  "user_process_new k =
     andThen (default_memory_manager_new (k_phys k) (k_kmm k)) (\<lambda>(phys1, mm).
       let p = k_next k;
           u = \<lparr>up_state = Created, up_mm = mm, up_allocations = [], up_context = registers_zero, up_exit_code = 0,
                up_objects = replicate max_objects None, up_image_base = 0\<rparr>
       in Inr (p, (set_process p u (k\<lparr>k_phys := phys1\<rparr>))\<lparr>k_list := p # k_list k, k_next := Suc p\<rparr>))"

fun unlink_process :: "pid \<Rightarrow> pid list \<Rightarrow> pid list res" where
  "unlink_process p [] = Inl (Fatal ''p->next_'')"
| "unlink_process p (q # qs) = (if q = p then Inr qs else andThen (unlink_process p qs) (\<lambda>r. Inr (q # r)))"

fun free_allocations :: "physical_allocation list \<Rightarrow> phys \<Rightarrow> phys res" where
  "free_allocations [] ph = Inr ph"
| "free_allocations (a # as) ph = andThen (physical_allocation_destroy ph a) (free_allocations as)"

text \<open>What the destructor of a process does once its objects are gone.\<close>

definition user_process_release :: "pid \<Rightarrow> 'e kernel \<Rightarrow> 'e kernel res" where
  "user_process_release p k =
     andThen (unlink_process p (k_list k)) (\<lambda>l.
     with_process k p (\<lambda>u.
     andThen (free_allocations (up_allocations u) (k_phys k)) (\<lambda>phys1.
     andThen (default_memory_manager_destroy phys1 (k_kmm k) (up_mm u)) (\<lambda>phys2.
       Inr (k\<lparr>k_phys := phys2, k_list := l, k_proc := (k_proc k)(p := None)\<rparr>)))))"

text \<open>The destruction of an object. \<open>n\<close> bounds how deep processes own processes.\<close>

fun destroy_object :: "nat \<Rightarrow> kernel_object \<Rightarrow> 'e kernel \<Rightarrow> 'e kernel res" where
  "destroy_object 0 ko k = Inl No_return"
| "destroy_object (Suc n) ko k =
     (case ko of
        Ko_ethdev \<Rightarrow> Inr k
      | Ko_keyboard \<Rightarrow> Inr k
      | Ko_mem_map mh \<Rightarrow> mem_map_destroy mh k
      | Ko_process p \<Rightarrow>
          with_process k p (\<lambda>u.
          require (up_state u = Created \<or> up_state u = Exited) ''state_ == states::created || state_ == states::exited'' (
          require (k_current k \<noteq> Some p) ''current_process_ != this'' (
          andThen (for_range 0 max_objects (\<lambda>i k1.
             with_process k1 p (\<lambda>u1.
               case up_objects u1 ! i of
                 None \<Rightarrow> Inr k1
               | Some child \<Rightarrow>
                   andThen (destroy_object n child k1) (\<lambda>k2.
                   with_process k2 p (\<lambda>u2. Inr (set_process p (u2\<lparr>up_objects := (up_objects u2)[i := None]\<rparr>) k2))))) k)
            (user_process_release p)))))"

definition destroy_fuel :: "'e kernel \<Rightarrow> nat" where "destroy_fuel k = Suc (length (k_list k))"

definition process_exit_code :: "user_process \<Rightarrow> u64 res" where
  "process_exit_code u = require (up_state u = Exited) ''state_ == states::exited'' (Inr (up_exit_code u))"

definition process_context :: "user_process \<Rightarrow> registers res" where
  "process_context u = require (up_state u \<noteq> Exited) ''state_ != states::exited'' (Inr (up_context u))"

definition set_image_base :: "pid \<Rightarrow> u64 \<Rightarrow> 'e kernel \<Rightarrow> 'e kernel res" where
  "set_image_base p image_base k =
     with_process k p (\<lambda>u.
     require (up_state u = Created) ''state_ == states::created'' (
     require (up_image_base u = 0) ''!image_base_'' (Inr (set_process p (u\<lparr>up_image_base := image_base\<rparr>) k))))"

definition alloc_and_copy_section :: "pid \<Rightarrow> u64 \<Rightarrow> u32 \<Rightarrow> u32 \<Rightarrow> bytes \<Rightarrow> u32 \<Rightarrow> 'e kernel \<Rightarrow> 'e kernel res" where
  "alloc_and_copy_section p virt virt_size t source src_size k =
     with_process k p (\<lambda>u.
     require (up_state u = Created) ''state_ == states::created'' (
     require (virt AND (page_size - 1) = 0) ''(virt & page_mask) == 0'' (
     let phys_size = round_up (ucast virt_size) page_size in
     andThen (alloc_physical (k_phys k) phys_size) (\<lambda>(pa, phys1).
     let to_copy = unat (min virt_size src_size) in
     in_object (src_size = 0 \<or> to_copy \<le> length source) ''source'' (
     let m1 = (if src_size \<noteq> 0 then store_bytes (pa_addr pa) (take to_copy source) (fst phys1) else fst phys1) in
     andThen (default_do_map_memory ((m1, snd phys1), up_mm u) virt phys_size t (pa_addr pa)) (\<lambda>(_, phys2, mm1).
       Inr (set_process p (u\<lparr>up_allocations := up_allocations u @ [pa], up_mm := mm1\<rparr>) (k\<lparr>k_phys := phys2\<rparr>))))))))"

definition process_start :: "pid \<Rightarrow> 'e kernel \<Rightarrow> 'e kernel res" where
  "process_start p k =
     with_process k p (\<lambda>u. require (up_state u = Created) ''state_ == states::created'' (Inr (set_process p (u\<lparr>up_state := Running\<rparr>) k)))"

definition process_switch_from :: "pid \<Rightarrow> 'e kernel \<Rightarrow> 'e kernel res" where
  "process_switch_from p k =
     with_process k p (\<lambda>u.
     require (up_state u = Running) ''state_ == states::running'' (
     require (k_current k = Some p) ''current_process_ == this'' (Inr (k\<lparr>k_current := None, k_user_image := 0\<rparr>))))"

definition set_as_current :: "pid \<Rightarrow> 'e kernel \<Rightarrow> 'e kernel res" where
  "set_as_current p k =
     with_process k p (\<lambda>u.
     require (up_state u = Running) ''state_ == states::running'' (
     let k1 = k\<lparr>k_cr3 := from_identity_mapped_ptr (mm_pml4 (up_mm u))\<rparr>;
         k2 = (if up_image_base u \<noteq> 0 then k1\<lparr>k_user_image := up_image_base u\<rparr> else k1)
     in Inr (k2\<lparr>k_current := Some p\<rparr>)))"

definition process_switch_to :: "pid \<Rightarrow> 'e kernel \<Rightarrow> (registers \<times> 'e kernel) res" where
  "process_switch_to p k =
     with_process k p (\<lambda>u.
     require (up_state u = Running) ''state_ == states::running'' (
     andThen (process_context u) (\<lambda>regs. andThen (set_as_current p k) (\<lambda>k1. Inr (regs, k1)))))"

definition process_exit :: "pid \<Rightarrow> u64 \<Rightarrow> 'e kernel \<Rightarrow> 'e kernel res" where
  "process_exit p exit_code k =
     with_process k p (\<lambda>u.
     require (up_state u = Running) ''state_ == states::running'' (
       Inr (set_process p (u\<lparr>up_exit_code := exit_code, up_state := Exited\<rparr>) k)))"

section \<open>The code: handles\<close>

definition update_objects :: "pid \<Rightarrow> (kernel_object option list \<Rightarrow> kernel_object option list) \<Rightarrow> 'e kernel \<Rightarrow> 'e kernel res" where
  "update_objects p f k = with_process k p (\<lambda>u. Inr (set_process p (u\<lparr>up_objects := f (up_objects u)\<rparr>) k))"

fun first_free :: "nat \<Rightarrow> kernel_object option list \<Rightarrow> nat option" where
  "first_free i [] = None"
| "first_free i (x # xs) = (if x = None then Some i else first_free (Suc i) xs)"

definition object_open :: "pid \<Rightarrow> kernel_object \<Rightarrow> 'e kernel \<Rightarrow> (u64 \<times> 'e kernel) res" where
  "object_open p obj k =
     with_process k p (\<lambda>u.
     case first_free 0 (up_objects u) of
       Some i \<Rightarrow> andThen (update_objects p (\<lambda>os. os[i := Some obj]) k) (\<lambda>k1. Inr (of_nat (i + 1), k1))
     | None \<Rightarrow> Inl (Fatal ''!Out of handles!''))"

definition handle_valid :: "user_process \<Rightarrow> u64 \<Rightarrow> bool" where
  "handle_valid u handle \<longleftrightarrow> handle \<ge> 1 \<and> handle \<le> of_nat max_objects \<and> up_objects u ! unat (handle - 1) \<noteq> None"

definition object_close :: "pid \<Rightarrow> u64 \<Rightarrow> 'e kernel \<Rightarrow> 'e kernel res" where
  "object_close p handle k =
     with_process k p (\<lambda>u.
     require (handle_valid u handle) ''handle_valid(handle)'' (
     andThen (destroy_object (destroy_fuel k) (the (up_objects u ! unat (handle - 1))) k)
       (update_objects p (\<lambda>os. os[unat (handle - 1) := None]))))"

definition object_get :: "'e kernel \<Rightarrow> pid \<Rightarrow> u64 \<Rightarrow> kernel_object res" where
  "object_get k p handle =
     with_process k p (\<lambda>u.
     require (handle_valid u handle) ''handle_valid(handle)'' (Inr (the (up_objects u ! unat (handle - 1)))))"

text \<open>Which protocols an object supports.\<close>

fun object_protocols :: "kernel_object \<Rightarrow> protocol list" where
  "object_protocols Ko_ethdev = [Protocol_read, Protocol_write]"
| "object_protocols Ko_keyboard = [Protocol_read]"
| "object_protocols (Ko_process p) = [Protocol_process]"
| "object_protocols (Ko_mem_map mh) = [Protocol_mem_map]"

definition get_protocol :: "protocol \<Rightarrow> kernel_object \<Rightarrow> kernel_object res" where
  "get_protocol prot obj = require (List.member (object_protocols obj) prot) ''false'' (Inr obj)"

section \<open>The code: devices\<close>

definition ethdev_write :: "'e devices \<Rightarrow> u64 \<Rightarrow> u32 \<Rightarrow> 'e kernel \<Rightarrow> 'e kernel res" where
  "ethdev_write dv p n k =
     andThen (read_user k p (unat n)) (\<lambda>b. andThen (dv_send dv b (k_env k)) (\<lambda>e1. Inr (k\<lparr>k_env := e1\<rparr>)))"

text \<open>The function that is given to \<open>process_packets\<close>; what it has received so far is its state.\<close>

definition ethdev_received :: "u32 \<Rightarrow> bytes \<Rightarrow> bytes \<Rightarrow> bytes res" where
  "ethdev_received mx data got =
     require (length got = 0) ''count == 0'' (
     require (length data \<le> unat mx) ''len <= max'' (Inr data))"

definition ethdev_read :: "'e devices \<Rightarrow> u64 \<Rightarrow> u32 \<Rightarrow> 'e kernel \<Rightarrow> (u32 \<times> 'e kernel) res" where
  "ethdev_read dv p mx k =
     andThen (dv_process dv (ethdev_received mx) ([], k_env k)) (\<lambda>(got, e1).
     andThen (write_user p got (k\<lparr>k_env := e1\<rparr>)) (\<lambda>k1. Inr (of_nat (length got), k1)))"

fun keyboard_read :: "'e devices \<Rightarrow> nat \<Rightarrow> u64 \<Rightarrow> u32 \<Rightarrow> 'e kernel \<Rightarrow> (u32 \<times> 'e kernel) res" where
  "keyboard_read dv 0 p n k = Inr (n, k)"
| "keyboard_read dv (Suc n_left) p n k =
     (let (avail, e1) = dv_key_available dv (k_env k); k1 = k\<lparr>k_env := e1\<rparr> in
      if \<not> avail then Inr (n, k1)
      else
        andThen (dv_read_key dv (k_env k1)) (\<lambda>(c, e2).
        andThen (write_user (p + ucast n) [c] (k1\<lparr>k_env := e2\<rparr>)) (\<lambda>k2. keyboard_read dv n_left p (n + 1) k2)))"

definition object_read :: "'e devices \<Rightarrow> kernel_object \<Rightarrow> u64 \<Rightarrow> u32 \<Rightarrow> 'e kernel \<Rightarrow> (u32 \<times> 'e kernel) res" where
  "object_read dv obj p mx k =
     (if obj = Ko_keyboard then keyboard_read dv (unat mx) p 0 k else ethdev_read dv p mx k)"

section \<open>The code: loading a program\<close>

definition stack_size :: u64 where "stack_size = 0x1000 * 8"

fun map_sections :: "pid \<Rightarrow> u64 \<Rightarrow> bytes \<Rightarrow> section_header list \<Rightarrow> 'e kernel \<Rightarrow> 'e kernel res" where
  "map_sections p image_base img [] k = Inr k"
| "map_sections p image_base img (s # ss) k =
     andThen (alloc_and_copy_section p (image_base + ucast (sh_VirtualAddress s)) (sh_VirtualSize s)
        (section_memory_type (sh_Characteristics s) OR mt_user) (drop (unat (sh_PointerToRawData s)) img) (sh_SizeOfRawData s) k)
       (map_sections p image_base img ss)"

definition set_entry_context :: "pid \<Rightarrow> u64 \<Rightarrow> u32 \<Rightarrow> 'e kernel \<Rightarrow> 'e kernel res" where
  "set_entry_context p image_base entry k =
     with_process k p (\<lambda>u.
     andThen (process_context u) (\<lambda>c.
       Inr (set_process p (u\<lparr>up_context := c\<lparr>r_cs := user_cs, r_rip := image_base + ucast entry, r_ss := user_ds,
          r_rsp := image_base - 0x28, r_eflags := rflag_mask_res1\<rparr>\<rparr>) k)))"

definition alloc_and_map_user_exe :: "pid \<Rightarrow> bytes \<Rightarrow> 'e kernel \<Rightarrow> 'e kernel res" where
  "alloc_and_map_user_exe p img k =
     andThen (is_64bit_exe img) (\<lambda>ok.
     require ok ''is_64bit_exe(image)'' (
     andThen (image_nt_headers img) (\<lambda>nth.
     let oh = nt_OptionalHeader nth; image_base = oh_ImageBase oh in
     andThen (alloc_and_copy_section p image_base (oh_SizeOfHeaders oh) (mt_read OR mt_user) img (oh_SizeOfHeaders oh) k) (\<lambda>k1.
     andThen (image_sections img) (\<lambda>ss.
     andThen (map_sections p image_base img ss k1) (\<lambda>k2.
     require (oh_SizeOfStackCommit oh \<le> stack_size) ''nth.OptionalHeader.SizeOfStackCommit <= stack_size'' (
     andThen (alloc_and_copy_section p (image_base - stack_size) (ucast stack_size) (memory_type_rw OR mt_user) [] 0 k2) (\<lambda>k3.
     andThen (set_image_base p image_base k3) (set_entry_context p image_base (oh_AddressOfEntryPoint oh))))))))))"

section \<open>The code: system calls\<close>

definition sys_exit :: u64 where "sys_exit = 0"
definition sys_debug_print :: u64 where "sys_debug_print = 1"
definition sys_yield :: u64 where "sys_yield = 2"
definition sys_create :: u64 where "sys_create = 3"
definition sys_destroy :: u64 where "sys_destroy = 4"
definition sys_read :: u64 where "sys_read = 5"
definition sys_write :: u64 where "sys_write = 6"
definition sys_ethdev_hw_address :: u64 where "sys_ethdev_hw_address = 7"
definition sys_start_exe :: u64 where "sys_start_exe = 8"
definition sys_process_exit_code :: u64 where "sys_process_exit_code = 9"
definition sys_mem_map_info :: u64 where "sys_mem_map_info = 10"

lemmas sys_defs = sys_exit_def sys_debug_print_def sys_yield_def sys_create_def sys_destroy_def sys_read_def sys_write_def
  sys_ethdev_hw_address_def sys_start_exe_def sys_process_exit_code_def sys_mem_map_info_def

text \<open>A system call returns to the user, or the last process is gone and the kernel returns to where it entered user mode.\<close>

datatype 'e sys_result = Sys_return registers "'e kernel" | Sys_all_exited "'e kernel"

definition current_process :: "'e kernel \<Rightarrow> pid res" where
  "current_process k = (case k_current k of None \<Rightarrow> Inl (Fatal ''current_process_ != nullptr'') | Some p \<Rightarrow> Inr p)"

definition process_running :: "'e kernel \<Rightarrow> pid \<Rightarrow> bool" where
  "process_running k p = (case k_proc k p of None \<Rightarrow> False | Some u \<Rightarrow> up_state u = Running)"

definition do_exit :: "registers \<Rightarrow> 'e kernel \<Rightarrow> 'e sys_result res" where
  "do_exit regs k =
     andThen (current_process k) (\<lambda>p.
     andThen (process_switch_from p k) (\<lambda>k1.
     andThen (process_exit p (r_rdx regs) k1) (\<lambda>k2.
     case List.find (process_running k2) (k_list k2) of
       None \<Rightarrow> Inr (Sys_all_exited (k2\<lparr>k_cr3 := from_identity_mapped_ptr (mm_pml4 (k_kmm k2))\<rparr>))
     | Some nxt \<Rightarrow> andThen (process_switch_to nxt k2) (\<lambda>(regs1, k3). Inr (Sys_return regs1 k3)))))"

definition do_create :: "'e devices \<Rightarrow> registers \<Rightarrow> 'e kernel \<Rightarrow> (u64 \<times> 'e kernel) res" where
  "do_create dv regs k =
     (let name = user_view k (r_rdx regs) 0 16 in
      andThen (string_equal name (c_str ''ethdev'')) (\<lambda>b.
      if b then require (dv_present dv) ''dev_'' (andThen (current_process k) (\<lambda>p. object_open p Ko_ethdev k)) else
      andThen (string_equal name (c_str ''keyboard'')) (\<lambda>b.
      if b then andThen (current_process k) (\<lambda>p. object_open p Ko_keyboard k) else
      andThen (string_equal name (c_str ''process'')) (\<lambda>b.
      if b then andThen (current_process k) (\<lambda>p. andThen (user_process_new k) (\<lambda>(q, k1). object_open p (Ko_process q) k1)) else
      andThen (string_equal name (c_str ''hack-acpi-dsdt'')) (\<lambda>b.
      if b then
        require (k_dsdt_phys k \<noteq> 0 \<and> k_dsdt_len k \<noteq> 0) ''hack_dsdt_phys && hack_dsdt_len'' (
        andThen (current_process k) (\<lambda>p.
        andThen (mem_map_new p (k_dsdt_phys k) (ucast (k_dsdt_len k)) (mt_read OR mt_user) k) (\<lambda>(mh, k1). object_open p (Ko_mem_map mh) k1)))
      else Inl (Fatal ''!Unknown device''))))))"

text \<open>A program is read where the caller says; an image has at most 4 GB.\<close>

definition do_start_exe :: "registers \<Rightarrow> 'e kernel \<Rightarrow> 'e sys_result res" where
  "do_start_exe regs k =
     andThen (current_process k) (\<lambda>p.
     andThen (object_get k p (r_rdx regs)) (\<lambda>obj.
     andThen (get_protocol Protocol_process obj) (\<lambda>obj.
     case obj of
       Ko_process q \<Rightarrow>
         andThen (alloc_and_map_user_exe q (user_view k (r_r8 regs) 0 4294967296) k) (\<lambda>k1.
         andThen (with_process k1 p (\<lambda>u. andThen (process_context u) (\<lambda>c. Inr (set_process p (u\<lparr>up_context := regs\<rparr>) k1)))) (\<lambda>k2.
         andThen (process_switch_from p k2) (\<lambda>k3.
         andThen (process_start q k3) (\<lambda>k4.
         andThen (process_switch_to q k4) (\<lambda>(regs1, k5). Inr (Sys_return regs1 k5))))))
     | _ \<Rightarrow> Inl (Fatal ''ptr''))))"

definition do_mem_map_info :: "registers \<Rightarrow> mem_map \<Rightarrow> 'e kernel \<Rightarrow> 'e kernel res" where
  "do_mem_map_info regs mh k =
     (let store64 = (\<lambda>v :: u64. store32 (ucast v) @ store32 (ucast (drop_bit 32 v)))
      in write_user (r_r8 regs) (store64 (mem_map_ptr mh) @ store64 (mh_length mh) @ store64 (ucast (mh_type mh))) k)"

definition syscall_handler :: "'e devices \<Rightarrow> registers \<Rightarrow> 'e kernel \<Rightarrow> 'e sys_result res" where
  "syscall_handler dv regs0 k =
     (let n = r_rax regs0; regs = regs0\<lparr>r_rax := 0\<rparr> in
      if n = sys_exit then do_exit regs k
      else if n = sys_debug_print then
        andThen (read_user k (r_rdx regs) (unat (r_r8 regs))) (\<lambda>b. Inr (Sys_return regs (k\<lparr>k_out := k_out k @ b\<rparr>)))
      else if n = sys_yield then Inr (Sys_return regs k)
      else if n = sys_create then
        andThen (do_create dv regs k) (\<lambda>(h, k1). Inr (Sys_return (regs\<lparr>r_rax := h\<rparr>) k1))
      else if n = sys_destroy then
        andThen (current_process k) (\<lambda>p. andThen (object_close p (r_rdx regs) k) (\<lambda>k1. Inr (Sys_return regs k1)))
      else if n = sys_write then
        andThen (current_process k) (\<lambda>p. andThen (object_get k p (r_rdx regs)) (\<lambda>obj.
        andThen (get_protocol Protocol_write obj) (\<lambda>obj.
        andThen (ethdev_write dv (r_r8 regs) (ucast (r_r9 regs)) k) (\<lambda>k1. Inr (Sys_return regs k1)))))
      else if n = sys_read then
        andThen (current_process k) (\<lambda>p. andThen (object_get k p (r_rdx regs)) (\<lambda>obj.
        andThen (get_protocol Protocol_read obj) (\<lambda>obj.
        andThen (object_read dv obj (r_r8 regs) (ucast (r_r9 regs)) k) (\<lambda>(c, k1). Inr (Sys_return (regs\<lparr>r_rax := ucast c\<rparr>) k1)))))
      else if n = sys_ethdev_hw_address then
        andThen (current_process k) (\<lambda>p. andThen (object_get k p (r_rdx regs)) (\<lambda>obj.
        in_object (dv_present dv) ''dev_'' (
        andThen (write_user (r_r8 regs) (mac_bytes (dv_hw_address dv)) k) (\<lambda>k1. Inr (Sys_return regs k1)))))
      else if n = sys_start_exe then do_start_exe regs k
      else if n = sys_process_exit_code then
        andThen (current_process k) (\<lambda>p. andThen (object_get k p (r_rdx regs)) (\<lambda>obj.
        andThen (get_protocol Protocol_process obj) (\<lambda>obj.
        case obj of
          Ko_process q \<Rightarrow> with_process k q (\<lambda>u. andThen (process_exit_code u) (\<lambda>c. Inr (Sys_return (regs\<lparr>r_rax := c\<rparr>) k)))
        | _ \<Rightarrow> Inl (Fatal ''ptr''))))
      else if n = sys_mem_map_info then
        andThen (current_process k) (\<lambda>p. andThen (object_get k p (r_rdx regs)) (\<lambda>obj.
        andThen (get_protocol Protocol_mem_map obj) (\<lambda>obj.
        case obj of
          Ko_mem_map mh \<Rightarrow> andThen (do_mem_map_info regs mh k) (\<lambda>k1. Inr (Sys_return regs k1))
        | _ \<Rightarrow> Inl (Fatal ''ptr''))))
      else Inl (Fatal ''!Unimplemented syscall''))"

text \<open>\<open>usermode_test\<close>: the first process, until it runs, and what happens when all have exited. The destruction of the
  first process is the end of the function.\<close>

definition usermode_start :: "bytes \<Rightarrow> 'e kernel \<Rightarrow> (pid \<times> registers \<times> 'e kernel) res" where
  "usermode_start img k =
     andThen (user_process_new k) (\<lambda>(p, k1).
     andThen (alloc_and_map_user_exe p img k1) (\<lambda>k2.
     andThen (process_start p k2) (\<lambda>k3.
     andThen (set_as_current p k3) (\<lambda>k4.
     with_process k4 p (\<lambda>u. Inr (p, up_context u, k4))))))"

definition usermode_end :: "pid \<Rightarrow> 'e kernel \<Rightarrow> (u64 \<times> 'e kernel) res" where
  "usermode_end p k =
     andThen (with_process k p process_exit_code) (\<lambda>c.
     andThen (destroy_object (destroy_fuel k) (Ko_process p) k) (\<lambda>k1. Inr (c, k1)))"

end
