(* ===== verification/ProcessTree.thy ===== *)
theory ProcessTree
  imports Processes
begin

text \<open>
  What holds of the processes of \<open>Processes\<close> whatever the programs do.
\<close>

section \<open>The tree of processes\<close>

text \<open>Of a process, what the other processes depend on.\<close>

definition tasks :: "'e kernel \<Rightarrow> pid \<Rightarrow> (proc_state \<times> registers \<times> kernel_object option list) option" where
  "tasks k p = map_option (\<lambda>u. (up_state u, up_context u, up_objects u)) (k_proc k p)"

definition alike :: "'e kernel \<Rightarrow> 'e kernel \<Rightarrow> bool" where
  "alike k k' \<longleftrightarrow> tasks k' = tasks k \<and> k_list k' = k_list k \<and> k_next k' = k_next k \<and> k_current k' = k_current k"

text \<open>A slot is a process and an index into its table of objects.\<close>

definition owns :: "'e kernel \<Rightarrow> pid \<times> nat \<Rightarrow> pid \<Rightarrow> bool" where
  "owns k s c \<longleftrightarrow> (\<exists>st ctx os. tasks k (fst s) = Some (st, ctx, os) \<and> snd s < max_objects \<and> os ! snd s = Some (Ko_process c))"

text \<open>Every process that is owned is newer than its owner and has one owner, and exists: a slot of \<open>E\<close> may be left dangling.\<close>

definition tree_except :: "(pid \<times> nat) set \<Rightarrow> 'e kernel \<Rightarrow> bool" where
  "tree_except E k \<longleftrightarrow>
     sorted_wrt (>) (k_list k) \<and> (\<forall>p \<in> set (k_list k). p < k_next k) \<and> dom (tasks k) = set (k_list k) \<and>
     (\<forall>p st ctx os. tasks k p = Some (st, ctx, os) \<longrightarrow> length os = max_objects) \<and>
     (\<forall>s c. owns k s c \<longrightarrow> fst s < c \<and> c < k_next k \<and> (s \<in> E \<or> tasks k c \<noteq> None)) \<and>
     (\<forall>s t c. owns k s c \<longrightarrow> owns k t c \<longrightarrow> s = t)"

text \<open>What a destruction leaves: the processes older than \<open>b\<close> as they are, and of the others those that remain in their
  states, but for objects that are gone. A running process remains.\<close>

definition survives :: "pid \<Rightarrow> 'e kernel \<Rightarrow> 'e kernel \<Rightarrow> bool" where
  "survives b k k' \<longleftrightarrow>
     k_list k' = filter (\<lambda>q. tasks k' q \<noteq> None) (k_list k) \<and> k_next k' = k_next k \<and> k_current k' = k_current k \<and>
     (\<forall>q st ctx os'. tasks k' q = Some (st, ctx, os') \<longrightarrow>
        (\<exists>os. tasks k q = Some (st, ctx, os) \<and> (\<forall>i < max_objects. os' ! i = None \<or> os' ! i = os ! i))) \<and>
     (\<forall>q ctx os. tasks k q = Some (Running, ctx, os) \<longrightarrow> tasks k' q \<noteq> None) \<and>
     (\<forall>q < b. tasks k' q = tasks k q)"

lemma tasks_set_process: "tasks (set_process p u k) = (tasks k)(p \<mapsto> (up_state u, up_context u, up_objects u))"
  by (auto simp: tasks_def set_process_def)

lemma tasks_frame [simp]:
  "tasks (k\<lparr>k_phys := a\<rparr>) = tasks k" "tasks (k\<lparr>k_cr3 := c\<rparr>) = tasks k"
  "tasks (k\<lparr>k_env := e\<rparr>) = tasks k" "tasks (k\<lparr>k_out := d\<rparr>) = tasks k" "tasks (k\<lparr>k_user_image := i\<rparr>) = tasks k"
  "tasks (k\<lparr>k_current := j\<rparr>) = tasks k" "tasks (k\<lparr>k_list := l\<rparr>) = tasks k" "tasks (k\<lparr>k_next := n\<rparr>) = tasks k"
  by (auto simp: tasks_def)

lemma set_process_frame [simp]:
  "k_list (set_process p u k) = k_list k" "k_next (set_process p u k) = k_next k" "k_current (set_process p u k) = k_current k"
  "k_phys (set_process p u k) = k_phys k"
  "k_proc (set_process p u k) = (k_proc k)(p \<mapsto> u)"
  by (simp_all add: set_process_def)

lemma tasks_proc: "k_proc k p = Some u \<Longrightarrow> tasks k p = Some (up_state u, up_context u, up_objects u)"
  by (simp add: tasks_def)

lemma with_process_Inr: "with_process k p f = Inr r \<longleftrightarrow> (\<exists>u. k_proc k p = Some u \<and> f u = Inr r)"
  by (simp add: with_process_def split: option.split)

lemma alike_refl [simp]: "alike k k" by (simp add: alike_def)

lemma alike_trans: "alike k k1 \<Longrightarrow> alike k1 k2 \<Longrightarrow> alike k k2" by (simp add: alike_def)

lemma alike_owns: "alike k k' \<Longrightarrow> owns k' s c \<longleftrightarrow> owns k s c" by (simp add: alike_def owns_def)

lemma alike_tree: "alike k k' \<Longrightarrow> tree_except E k' \<longleftrightarrow> tree_except E k"
  using alike_owns [of k k'] by (simp add: tree_except_def) (simp add: alike_def)

lemma alike_set_process:
  "k_proc k p = Some u \<Longrightarrow> up_state u' = up_state u \<Longrightarrow> up_context u' = up_context u \<Longrightarrow> up_objects u' = up_objects u \<Longrightarrow>
   alike k (set_process p u' k)"
  by (simp add: alike_def tasks_set_process tasks_def fun_eq_iff)

lemma survives_alike:
  assumes "alike k k'" "tree_except E k"
  shows "survives b k k'"
proof -
  from assms(2) have d: "dom (tasks k) = set (k_list k)" by (simp add: tree_except_def)
  have "filter (\<lambda>q. tasks k q \<noteq> None) (k_list k) = k_list k" unfolding filter_id_conv d [symmetric] by auto
  then show ?thesis using assms(1) unfolding survives_def alike_def by simp
qed

lemma survives_task:
  "survives b k k' \<Longrightarrow> tasks k' q = Some (st, ctx, os') \<Longrightarrow>
   \<exists>os. tasks k q = Some (st, ctx, os) \<and> (\<forall>i < max_objects. os' ! i = None \<or> os' ! i = os ! i)"
  by (simp add: survives_def)

lemma survives_running: "survives b k k' \<Longrightarrow> tasks k q = Some (Running, ctx, os) \<Longrightarrow> \<exists>os'. tasks k' q = Some (Running, ctx, os')"
proof -
  assume s: "survives b k k'" and q: "tasks k q = Some (Running, ctx, os)"
  then have "tasks k' q \<noteq> None" unfolding survives_def by blast
  then obtain st ctx' os' where q': "tasks k' q = Some (st, ctx', os')" by auto
  then show ?thesis using survives_task [OF s q'] q by simp
qed

lemma survives_trans:
  assumes a: "survives b k k1" and b: "survives b k1 k2"
  shows "survives b k k2"
proof -
  have gone: "tasks k2 q \<noteq> None \<Longrightarrow> tasks k1 q \<noteq> None" for q using survives_task [OF b, of q] by (cases "tasks k2 q") auto
  have "k_list k2 = filter (\<lambda>q. tasks k2 q \<noteq> None) (k_list k1)" "k_list k1 = filter (\<lambda>q. tasks k1 q \<noteq> None) (k_list k)"
    using a b by (simp_all add: survives_def)
  then have l: "k_list k2 = filter (\<lambda>q. tasks k2 q \<noteq> None) (k_list k)" using gone by (auto intro: filter_cong)
  have t: "\<exists>os. tasks k q = Some (st, ctx, os) \<and> (\<forall>i < max_objects. os2 ! i = None \<or> os2 ! i = os ! i)"
    if "tasks k2 q = Some (st, ctx, os2)" for q st ctx os2
  proof -
    obtain os1 where o1: "tasks k1 q = Some (st, ctx, os1)" "\<forall>i < max_objects. os2 ! i = None \<or> os2 ! i = os1 ! i"
      using survives_task [OF b \<open>tasks k2 q = Some (st, ctx, os2)\<close>] by blast
    obtain os where "tasks k q = Some (st, ctx, os)" "\<forall>i < max_objects. os1 ! i = None \<or> os1 ! i = os ! i"
      using survives_task [OF a o1(1)] by blast
    then show ?thesis using o1(2) by (intro exI [of _ os]) force
  qed
  have r: "tasks k2 q \<noteq> None" if "tasks k q = Some (Running, ctx, os)" for q ctx os
    using survives_running [OF a that] survives_running [OF b] by fastforce
  have "\<forall>q < b. tasks k2 q = tasks k q" "k_next k2 = k_next k" "k_current k2 = k_current k" using a b by (simp_all add: survives_def)
  then show ?thesis unfolding survives_def using l t r by blast
qed

lemma survives_mono: "survives b k k' \<Longrightarrow> a \<le> b \<Longrightarrow> survives a k k'" by (auto simp: survives_def)

lemma survives_owns: "survives b k k' \<Longrightarrow> owns k' s c \<Longrightarrow> owns k s c"
  unfolding survives_def owns_def by (metis option.distinct(1))

lemma tree_except_mono: "tree_except E k \<Longrightarrow> E \<subseteq> F \<Longrightarrow> tree_except F k"
  unfolding tree_except_def by (elim conjE, intro conjI) (assumption | (use subsetD in metis))+

lemma for_range_partial:
  assumes "\<And>i st st'. lo \<le> i \<Longrightarrow> i < lo + n \<Longrightarrow> P i st \<Longrightarrow> f i st = Inr st' \<Longrightarrow> P (Suc i) st'"
    and "P lo st" "for_range lo n f st = Inr st'"
  shows "P (lo + n) st'"
  using assms
proof (induction n arbitrary: lo st)
  case (Suc n)
  from Suc.prems(3) obtain st1 where s: "f lo st = Inr st1" "for_range (Suc lo) n f st1 = Inr st'" by (auto simp: andThen_eq_Inr)
  have "P (Suc lo + n) st'"
    by (rule Suc.IH [OF _ _ s(2)]) (use Suc.prems(1) Suc.prems(2) s(1) in auto)
  then show ?case by simp
qed simp

lemma mem_map_destroy_alike:
  assumes "mem_map_destroy mh k = Inr k'"
  shows "alike k k'"
proof (cases "mh_length mh = 0")
  case True
  then show ?thesis using assms by (simp add: mem_map_destroy_def)
next
  case False
  then obtain u mm ph where "k_proc k (mh_owner mh) = Some u" "k' = set_process (mh_owner mh) (u\<lparr>up_mm := mm\<rparr>) (k\<lparr>k_phys := ph\<rparr>)"
    using assms by (auto simp: mem_map_destroy_def with_process_Inr andThen_eq_Inr)
  then show ?thesis by (simp add: alike_def tasks_set_process fun_eq_iff tasks_proc)
qed

lemma unlink_process_eq: "unlink_process p l = Inr l' \<Longrightarrow> sorted_wrt (>) l \<Longrightarrow> l' = filter (\<lambda>q. q \<noteq> p) l"
proof (induction l arbitrary: l')
  case (Cons q l)
  show ?case
  proof (cases "q = p")
    case True
    then have "l = l'" "p \<notin> set l" using Cons.prems by auto
    moreover have "filter (\<lambda>q. q \<noteq> p) l = l" using \<open>p \<notin> set l\<close> by (auto simp: filter_id_conv)
    ultimately show ?thesis using True by simp
  next
    case False
    then show ?thesis using Cons by (auto simp: andThen_eq_Inr)
  qed
qed simp

lemma tree_exceptD:
  assumes "tree_except E k"
  shows "sorted_wrt (>) (k_list k)" "p \<in> set (k_list k) \<Longrightarrow> p < k_next k" "dom (tasks k) = set (k_list k)"
    "tasks k p = Some (st, ctx, os) \<Longrightarrow> length os = max_objects"
    "owns k s c \<Longrightarrow> fst s < c" "owns k s c \<Longrightarrow> c < k_next k" "owns k s c \<Longrightarrow> s \<in> E \<or> tasks k c \<noteq> None"
    "owns k s c \<Longrightarrow> owns k t c \<Longrightarrow> s = t"
  using assms unfolding tree_except_def by metis+

lemma tree_list: "tree_except E k \<Longrightarrow> p \<in> set (k_list k) \<longleftrightarrow> tasks k p \<noteq> None"
  using tree_exceptD(3) [of E k] by blast

lemma objects_of_process: "k_proc k p = Some u \<Longrightarrow> tree_except E k \<Longrightarrow> length (up_objects u) = max_objects"
  using tree_exceptD(4) [of E k p "up_state u" "up_context u" "up_objects u"] by (simp add: tasks_proc)

text \<open>A slot is cleared.\<close>

lemma clear_slot:
  assumes t: "tree_except (insert (p, i) E) k" and u: "k_proc k p = Some u" and i: "i < max_objects"
  defines "k' \<equiv> set_process p (u\<lparr>up_objects := (up_objects u)[i := None]\<rparr>) k"
  shows "tree_except E k'" "survives p k k'"
proof -
  note d = tree_exceptD [OF t]
  have len: "length (up_objects u) = max_objects" by (rule objects_of_process [OF u t])
  have tk: "tasks k' = (tasks k)(p \<mapsto> (up_state u, up_context u, (up_objects u)[i := None]))"
    by (simp add: k'_def tasks_set_process)
  have tp: "tasks k p = Some (up_state u, up_context u, up_objects u)" by (rule tasks_proc [OF u])
  have o1: "owns k s c \<and> s \<noteq> (p, i)" if "owns k' s c" for s c
    using that len i by (cases "fst s = p"; cases "snd s = i") (auto simp: owns_def tk tp prod_eq_iff)
  have some: "tasks k' c \<noteq> None \<longleftrightarrow> tasks k c \<noteq> None" for c by (simp add: tk tp)
  have fr: "k_list k' = k_list k" "k_next k' = k_next k" "k_current k' = k_current k" by (simp_all add: k'_def)
  show "tree_except E k'"
    unfolding tree_except_def fr
  proof (intro conjI allI impI ballI)
    show "dom (tasks k') = set (k_list k)" using d(3) tp by (auto simp: tk)
    show "length os = max_objects" if "tasks k' q = Some (st, ctx, os)" for q st ctx os
      using that d(4) len by (auto simp: tk split: if_splits)
    show "s \<in> E \<or> tasks k' c \<noteq> None" if "owns k' s c" for s c
      using o1 [OF that] d(7) [of s c] some by auto
    show "fst s < c" "c < k_next k" if "owns k' s c" for s c using o1 [OF that] d(5,6) by blast+
    show "s = t" if "owns k' s c" "owns k' t c" for s t c using o1 [OF that(1)] o1 [OF that(2)] d(8) by blast
  qed (use d(1,2) in auto)
  have "filter (\<lambda>q. tasks k' q \<noteq> None) (k_list k) = k_list k"
    using tree_list [OF t] some by (auto simp: filter_id_conv)
  then show "survives p k k'"
    unfolding survives_def fr using tp some len i by (auto simp: tk nth_list_update)
qed

text \<open>A process without objects is gone.\<close>

lemma release_process:
  assumes r: "user_process_release p k = Inr k'" and t: "tree_except E k" and e: "\<And>s. owns k s p \<Longrightarrow> s \<in> E"
    and u: "tasks k p = Some (st, ctx, os)" "st \<noteq> Running" and n: "\<forall>i < max_objects. os ! i = None"
  shows "tree_except E k'" "survives p k k'"
proof -
  note d = tree_exceptD [OF t]
  obtain l ph where l: "unlink_process p (k_list k) = Inr l" and k': "k' = k\<lparr>k_phys := ph, k_list := l, k_proc := (k_proc k)(p := None)\<rparr>"
    using r by (auto simp: user_process_release_def andThen_eq_Inr with_process_Inr)
  have tk: "tasks k' = (tasks k)(p := None)" by (auto simp: k' tasks_def)
  have fr: "k_list k' = filter (\<lambda>q. q \<noteq> p) (k_list k)" "k_next k' = k_next k" "k_current k' = k_current k"
    using unlink_process_eq [OF l d(1)] by (simp_all add: k')
  have o1: "owns k s c" if "owns k' s c" for s c using that by (auto simp: owns_def tk split: if_splits)
  show "tree_except E k'"
    unfolding tree_except_def fr
  proof (intro conjI allI impI ballI)
    show "dom (tasks k') = set (filter (\<lambda>q. q \<noteq> p) (k_list k))" using d(3) by (auto simp: tk)
    show "s \<in> E \<or> tasks k' c \<noteq> None" if "owns k' s c" for s c
      using o1 [OF that] d(7) [of s c] e [of s] by (auto simp: tk)
    show "fst s < c" "c < k_next k" if "owns k' s c" for s c using o1 [OF that] d(5,6) by blast+
    show "s = t" if "owns k' s c" "owns k' t c" for s t c using o1 [OF that(1)] o1 [OF that(2)] d(8) by blast
    show "length os = max_objects" if "tasks k' q = Some (st, ctx, os)" for q st ctx os
      using that d(4) by (auto simp: tk split: if_splits)
  qed (use d(1,2) in \<open>auto simp: sorted_wrt_filter\<close>)
  have "filter (\<lambda>q. tasks k' q \<noteq> None) (k_list k) = filter (\<lambda>q. q \<noteq> p) (k_list k)"
    using tree_list [OF t] by (intro filter_cong) (simp_all add: tk)
  then show "survives p k k'" unfolding survives_def fr using u by (auto simp: tk)
qed

lemma destroy_object_ok:
  "destroy_object n ko k = Inr k' \<Longrightarrow> tree_except E k \<Longrightarrow>
   (\<And>c. ko = Ko_process c \<Longrightarrow> b \<le> c \<and> (\<forall>s. owns k s c \<longrightarrow> s \<in> E)) \<Longrightarrow>
   tree_except E k' \<and> survives b k k'"
proof (induction n arbitrary: ko k k' E b)
  case (Suc n)
  show ?case
  proof (cases ko)
    case (Ko_process p)
    let ?step = "\<lambda>i k1. with_process k1 p (\<lambda>u1. case up_objects u1 ! i of None \<Rightarrow> Inr k1
        | Some child \<Rightarrow> andThen (destroy_object n child k1) (\<lambda>k2.
            with_process k2 p (\<lambda>u2. Inr (set_process p (u2\<lparr>up_objects := (up_objects u2)[i := None]\<rparr>) k2))))"
    from Suc.prems(1) Ko_process obtain u kk where u: "k_proc k p = Some u" "up_state u = Created \<or> up_state u = Exited"
      and loop: "for_range 0 max_objects ?step k = Inr kk" and rel: "user_process_release p kk = Inr k'"
      by (auto simp: with_process_Inr require_eq_Inr andThen_eq_Inr)
    let ?P = "\<lambda>i kk. tree_except E kk \<and> survives p k kk \<and>
        (\<exists>st ctx os. tasks kk p = Some (st, ctx, os) \<and> st \<noteq> Running \<and> (\<forall>j < i. os ! j = None))"
    have "?P (0 + max_objects) kk"
    proof (rule for_range_partial [OF _ _ loop])
      have "survives p k k" by (rule survives_alike [OF alike_refl Suc.prems(2)])
      then show "?P 0 k" using Suc.prems(2) u tasks_proc [OF u(1)] by auto
      fix i k1 k2 assume i: "0 \<le> i" "i < 0 + max_objects" and P: "?P i k1" and s: "?step i k1 = Inr k2"
      from s obtain u1 where u1: "k_proc k1 p = Some u1"
        and s: "(case up_objects u1 ! i of None \<Rightarrow> Inr k1
        | Some child \<Rightarrow> andThen (destroy_object n child k1) (\<lambda>k2.
            with_process k2 p (\<lambda>u2. Inr (set_process p (u2\<lparr>up_objects := (up_objects u2)[i := None]\<rparr>) k2)))) = Inr k2"
        by (auto simp: with_process_Inr)
      have t1: "tasks k1 p = Some (up_state u1, up_context u1, up_objects u1)" by (rule tasks_proc [OF u1])
      show "?P (Suc i) k2"
      proof (cases "up_objects u1 ! i")
        case None
        then show ?thesis using s P t1 by (auto simp: less_Suc_eq)
      next
        case (Some child)
        then obtain k3 u3 where d: "destroy_object n child k1 = Inr k3" and u3: "k_proc k3 p = Some u3"
          and k2: "k2 = set_process p (u3\<lparr>up_objects := (up_objects u3)[i := None]\<rparr>) k3"
          using s by (auto simp: andThen_eq_Inr with_process_Inr)
        have e: "tree_except (insert (p, i) E) k1" using P tree_except_mono by blast
        have o: "Suc p \<le> c \<and> (\<forall>s. owns k1 s c \<longrightarrow> s \<in> insert (p, i) E)" if "child = Ko_process c" for c
        proof -
          have ow: "owns k1 (p, i) c" using Some that t1 i by (simp add: owns_def)
          then show ?thesis using tree_exceptD(5,8) [OF e] by fastforce
        qed
        have "tree_except (insert (p, i) E) k3 \<and> survives (Suc p) k1 k3" by (rule Suc.IH [OF d e o])
        then have k3: "tree_except (insert (p, i) E) k3" "survives (Suc p) k1 k3" by auto
        have t3: "tasks k3 p = tasks k1 p" using k3(2) by (simp add: survives_def)
        then have u13: "up_objects u3 = up_objects u1" "up_state u3 = up_state u1" using t1 tasks_proc [OF u3] by simp_all
        have i': "i < max_objects" using i by simp
        note c = clear_slot [OF k3(1) u3 i', folded k2]
        have "survives p k1 k2" by (rule survives_trans [OF survives_mono [OF k3(2)] c(2)]) simp
        then have sv: "survives p k k2" using P survives_trans by blast
        have len: "length (up_objects u3) = max_objects" by (rule objects_of_process [OF u3 k3(1)])
        have "tasks k2 p = Some (up_state u3, up_context u3, (up_objects u3)[i := None])" by (simp add: k2 tasks_set_process)
        then show ?thesis using c(1) sv P t1 u13 i len by (auto simp: less_Suc_eq nth_list_update)
      qed
    qed
    then obtain st ctx os where kk: "tree_except E kk" "survives p k kk" "tasks kk p = Some (st, ctx, os)" "st \<noteq> Running"
      "\<forall>j < max_objects. os ! j = None" by auto
    have "\<And>s. owns kk s p \<Longrightarrow> s \<in> E" using survives_owns [OF kk(2)] Suc.prems(3) Ko_process by blast
    note r = release_process [OF rel kk(1) this kk(3-5)]
    have "survives p k k'" by (rule survives_trans [OF kk(2) r(2)])
    then show ?thesis using r(1) survives_mono Suc.prems(3) Ko_process by blast
  next
    case (Ko_mem_map mh)
    then have "alike k k'" using Suc.prems(1) mem_map_destroy_alike by auto
    then show ?thesis using alike_tree survives_alike Suc.prems(2) by blast
  qed (use Suc.prems survives_alike [OF alike_refl Suc.prems(2)] in auto)
qed simp

section \<open>The stack of running processes\<close>

text \<open>A process that starts another waits for it. \<open>stk\<close> is the processes that wait, the last first, with the registers each
  is to go on with: the processes that run are the current one and these, and the newest is the current one.\<close>

definition run_ok :: "(pid \<times> registers) list \<Rightarrow> 'e kernel \<Rightarrow> bool" where
  "run_ok stk k \<longleftrightarrow> tree_except {} k \<and>
     (\<exists>p. k_current k = Some p \<and> filter (process_running k) (k_list k) = p # map fst stk) \<and>
     (\<forall>(q, r) \<in> set stk. \<exists>os. tasks k q = Some (Running, r, os))"

lemma process_running_tasks: "process_running k p \<longleftrightarrow> (\<exists>ctx os. tasks k p = Some (Running, ctx, os))"
  by (auto simp: process_running_def tasks_def split: option.splits)

lemma run_okI:
  assumes "run_ok stk k" "tree_except {} k'" "k_current k' = k_current k"
    "filter (process_running k') (k_list k') = filter (process_running k) (k_list k)"
    "\<And>q ctx os. tasks k q = Some (Running, ctx, os) \<Longrightarrow> \<exists>os'. tasks k' q = Some (Running, ctx, os')"
  shows "run_ok stk k'"
  using assms unfolding run_ok_def by fastforce

lemma run_ok_alike:
  assumes "run_ok stk k" "alike k k'"
  shows "run_ok stk k'"
proof -
  have t: "tasks k' = tasks k" "k_list k' = k_list k" "k_current k' = k_current k" using assms(2) by (simp_all add: alike_def)
  moreover have "tree_except {} k'" using assms alike_tree by (auto simp: run_ok_def)
  moreover have "process_running k' = process_running k" by (simp add: fun_eq_iff process_running_tasks t)
  ultimately show ?thesis using assms(1) by (simp add: run_ok_def)
qed

lemma run_ok_survives:
  assumes r: "run_ok stk k" and s: "survives b k k'" and t: "tree_except {} k'"
  shows "run_ok stk k'"
proof (rule run_okI [OF r t])
  have l: "k_list k' = filter (\<lambda>q. tasks k' q \<noteq> None) (k_list k)" "k_current k' = k_current k" using s by (simp_all add: survives_def)
  show "k_current k' = k_current k" by (rule l(2))
  have "process_running k' q \<and> tasks k' q \<noteq> None \<longleftrightarrow> process_running k q" for q
    using survives_running [OF s, of q] survives_task [OF s, of q] by (auto simp: process_running_tasks)
  then show "filter (process_running k') (k_list k') = filter (process_running k) (k_list k)"
    unfolding l(1) filter_filter by (intro filter_cong) (auto simp: conj_commute)
qed (rule survives_running [OF s])

text \<open>The current process is the newest that runs.\<close>

lemma run_ok_current:
  assumes "run_ok stk k" "k_current k = Some p"
  shows "process_running k p" "process_running k q \<Longrightarrow> q \<le> p" "tasks k p \<noteq> None"
proof -
  have f: "filter (process_running k) (k_list k) = p # map fst stk" and t: "tree_except {} k" using assms by (auto simp: run_ok_def)
  have "p \<in> set (filter (process_running k) (k_list k))" by (simp add: f)
  then show p: "process_running k p" by simp
  then show "tasks k p \<noteq> None" by (auto simp: process_running_tasks)
  show "q \<le> p" if "process_running k q"
  proof -
    have "q \<in> set (k_list k)" using that tree_list [OF t, of q] by (auto simp: process_running_tasks)
    then have "q \<in> set (p # map fst stk)" using that by (simp flip: f)
    moreover have "sorted_wrt (>) (p # map fst stk)" using sorted_wrt_filter [OF tree_exceptD(1) [OF t]] by (simp flip: f)
    ultimately show ?thesis by auto
  qed
qed

lemma owned_newer_not_running:
  assumes "run_ok stk k" "k_current k = Some p" "owns k (p, i) c"
  shows "p < c" "\<not> process_running k c" "tasks k c \<noteq> None"
proof -
  have t: "tree_except {} k" using assms by (simp add: run_ok_def)
  show "p < c" using tree_exceptD(5) [OF t assms(3)] by simp
  then show "\<not> process_running k c" using run_ok_current(2) [OF assms(1,2), of c] by auto
  show "tasks k c \<noteq> None" using tree_exceptD(7) [OF t assms(3)] by simp
qed

section \<open>The operations\<close>

lemma user_process_new_eq:
  assumes "user_process_new k = Inr (q, k1)"
  shows "q = k_next k" "tasks k1 = (tasks k)(q \<mapsto> (Created, registers_zero, replicate max_objects None))" "k_list k1 = q # k_list k"
    "k_current k1 = k_current k" "k_next k1 = Suc q"
  using assms by (auto simp: user_process_new_def andThen_eq_Inr tasks_set_process Let_def)

lemma user_process_new_tree:
  assumes n: "user_process_new k = Inr (q, k1)" and t: "tree_except {} k"
  shows "tree_except {} k1" "\<not> owns k1 s q" "tasks k q = None"
proof -
  note n = user_process_new_eq [OF n]
  note d = tree_exceptD [OF t]
  show new: "tasks k q = None" using tree_list [OF t, of q] d(2) [of q] n(1) by auto
  have o: "owns k s c" if "owns k1 s c" for s c using that by (auto simp: owns_def n(2) split: if_splits)
  then show "\<not> owns k1 s q" using d(6) [of s q] n(1) by (metis less_irrefl)
  have some: "tasks k1 c \<noteq> None" if "tasks k c \<noteq> None" for c using that by (simp add: n(2))
  show "tree_except {} k1"
    unfolding tree_except_def
  proof (intro conjI allI impI ballI)
    show "sorted_wrt (>) (k_list k1)" using d(1,2) by (auto simp: n)
    show "p < k_next k1" if "p \<in> set (k_list k1)" for p using that d(2) by (auto simp: n less_Suc_eq)
    show "dom (tasks k1) = set (k_list k1)" using d(3) by (auto simp: n)
    show "length os = max_objects" if "tasks k1 p = Some (st, ctx, os)" for p st ctx os
      using that d(4) by (auto simp: n(2) split: if_splits)
    show "fst s < c" if "owns k1 s c" for s c using o [OF that] d(5) by blast
    show "c < k_next k1" if "owns k1 s c" for s c using d(6) [OF o [OF that]] by (simp add: n)
    show "s \<in> {} \<or> tasks k1 c \<noteq> None" if "owns k1 s c" for s c using d(7) [OF o [OF that]] some by auto
    show "s = t" if "owns k1 s c" "owns k1 t c" for s t c using d(8) o that by blast
  qed
qed

lemma first_free_Some: "first_free i os = Some j \<Longrightarrow> i \<le> j \<and> j < i + length os \<and> os ! (j - i) = None"
proof (induction i os rule: first_free.induct)
  case (2 i x xs)
  then show ?case by (cases "x = None") (auto simp: nth_Cons' split: if_splits)
qed simp

lemma first_free_None: "first_free i os = None \<longleftrightarrow> None \<notin> set os"
  by (induction i os rule: first_free.induct) auto

lemma object_open_eq:
  assumes "object_open p obj k = Inr (h, k1)"
  obtains u i where "k_proc k p = Some u" "first_free 0 (up_objects u) = Some i" "h = of_nat (i + 1)"
    "k1 = set_process p (u\<lparr>up_objects := (up_objects u)[i := Some obj]\<rparr>) k"
  using assms by (auto simp: object_open_def update_objects_def with_process_Inr andThen_eq_Inr split: option.splits)

lemma object_open_tree:
  assumes op: "object_open p obj k = Inr (h, k1)" and t: "tree_except {} k"
    and c: "\<And>c. obj = Ko_process c \<Longrightarrow> p < c \<and> tasks k c \<noteq> None \<and> (\<forall>s. \<not> owns k s c)"
  shows "tree_except {} k1" "alike k k1 \<or> (\<exists>st ctx os os'. tasks k p = Some (st, ctx, os) \<and> tasks k1 = (tasks k)(p \<mapsto> (st, ctx, os')))"
    "k_list k1 = k_list k" "k_current k1 = k_current k"
proof -
  obtain u i where u: "k_proc k p = Some u" "first_free 0 (up_objects u) = Some i"
    and k1: "k1 = set_process p (u\<lparr>up_objects := (up_objects u)[i := Some obj]\<rparr>) k" by (rule object_open_eq [OF op])
  note d = tree_exceptD [OF t]
  have len: "length (up_objects u) = max_objects" by (rule objects_of_process [OF u(1) t])
  have i: "i < max_objects" "up_objects u ! i = None" using first_free_Some [OF u(2)] len by auto
  have tp: "tasks k p = Some (up_state u, up_context u, up_objects u)" by (rule tasks_proc [OF u(1)])
  have tk: "tasks k1 = (tasks k)(p \<mapsto> (up_state u, up_context u, (up_objects u)[i := Some obj]))" by (simp add: k1 tasks_set_process)
  show fr: "k_list k1 = k_list k" "k_current k1 = k_current k" by (simp_all add: k1)
  have nx: "k_next k1 = k_next k" by (simp add: k1)
  show "alike k k1 \<or> (\<exists>st ctx os os'. tasks k p = Some (st, ctx, os) \<and> tasks k1 = (tasks k)(p \<mapsto> (st, ctx, os')))" using tp tk by blast
  have o: "owns k s c \<or> s = (p, i) \<and> obj = Ko_process c" if "owns k1 s c" for s c
    using that len i by (cases "fst s = p"; cases "snd s = i") (auto simp: owns_def tk tp prod_eq_iff)
  have some: "tasks k1 c \<noteq> None \<longleftrightarrow> tasks k c \<noteq> None" for c by (simp add: tk tp)
  have live: "c < k_next k" if "tasks k c \<noteq> None" for c using that tree_list [OF t, of c] d(2) by blast
  show "tree_except {} k1"
    unfolding tree_except_def fr nx
  proof (intro conjI allI impI ballI)
    show "dom (tasks k1) = set (k_list k)" using d(3) tp by (auto simp: tk)
    show "length os = max_objects" if "tasks k1 q = Some (st, ctx, os)" for q st ctx os
      using that d(4) len by (auto simp: tk split: if_splits)
    show "fst s < c" "c < k_next k" "s \<in> {} \<or> tasks k1 c \<noteq> None" if "owns k1 s c" for s c
      using o [OF that] d(5,6,7) [of s c] c [of c] live [of c] some [of c] by auto
    show "s = t" if "owns k1 s c" "owns k1 t c" for s t c
      using o [OF that(1)] o [OF that(2)] d(8) [of s c t] c [of c] by blast
  qed (use d(1,2) in auto)
qed

text \<open>What loads a program changes address spaces, allocations and the context of a process that does not run.\<close>

lemma alloc_and_copy_section_alike: "alloc_and_copy_section p v vs ty src n k = Inr k' \<Longrightarrow> alike k k'"
  by (auto simp: alloc_and_copy_section_def with_process_Inr require_eq_Inr andThen_eq_Inr in_object_eq_Inr Let_def alike_def
      tasks_set_process fun_eq_iff tasks_proc)

lemma map_sections_alike: "map_sections p base img ss k = Inr k' \<Longrightarrow> alike k k'"
proof (induction ss arbitrary: k)
  case (Cons s ss)
  then obtain k1 where "alike k k1" "alike k1 k'" by (auto simp: andThen_eq_Inr dest: alloc_and_copy_section_alike)
  then show ?case by (rule alike_trans)
qed simp

lemma set_image_base_alike: "set_image_base p b k = Inr k' \<Longrightarrow> alike k k' \<and> (\<exists>ctx os. tasks k p = Some (Created, ctx, os))"
  by (auto simp: set_image_base_def with_process_Inr require_eq_Inr alike_def tasks_set_process fun_eq_iff tasks_proc)

lemma alloc_and_map_user_exe_tasks:
  assumes "alloc_and_map_user_exe q img k = Inr k'"
  shows "\<exists>ctx ctx' os. tasks k q = Some (Created, ctx, os) \<and> tasks k' = (tasks k)(q \<mapsto> (Created, ctx', os))"
    "k_list k' = k_list k" "k_current k' = k_current k" "k_next k' = k_next k"
proof -
  obtain base sz ss k1 k2 k3 k4 entry where
      s: "alloc_and_copy_section q base sz (mt_read OR mt_user) img sz k = Inr k1"
        "map_sections q base img ss k1 = Inr k2"
        "alloc_and_copy_section q (base - stack_size) (ucast stack_size) (memory_type_rw OR mt_user) [] 0 k2 = Inr k3"
        "set_image_base q base k3 = Inr k4" "set_entry_context q base entry k4 = Inr k'"
    using assms unfolding alloc_and_map_user_exe_def andThen_eq_Inr require_eq_Inr Let_def by (elim exE conjE) (rule that)
  from set_image_base_alike [OF s(4)] obtain ctx os where c: "alike k3 k4" "tasks k3 q = Some (Created, ctx, os)" by blast
  have a: "alike k k4"
    using alloc_and_copy_section_alike [OF s(1)] map_sections_alike [OF s(2)] alloc_and_copy_section_alike [OF s(3)] c(1)
    by (blast intro: alike_trans)
  obtain u ctx' where u: "k_proc k4 q = Some u" "k' = set_process q (u\<lparr>up_context := ctx'\<rparr>) k4"
    using s(5) by (auto simp: set_entry_context_def with_process_Inr andThen_eq_Inr)
  have t: "tasks k4 = tasks k" "tasks k3 = tasks k" using a c(1) by (simp_all add: alike_def)
  have "up_state u = Created" "up_objects u = os" using tasks_proc [OF u(1)] t c(2) by simp_all
  then have "tasks k' = (tasks k)(q \<mapsto> (Created, ctx', os))" using u(2) by (simp add: tasks_set_process t(1))
  then show "\<exists>ctx ctx' os. tasks k q = Some (Created, ctx, os) \<and> tasks k' = (tasks k)(q \<mapsto> (Created, ctx', os))"
    using c(2) t(2) by metis
  show "k_list k' = k_list k" "k_current k' = k_current k" "k_next k' = k_next k" using a u(2) by (simp_all add: alike_def)
qed

text \<open>The tree depends on which processes there are and on their objects.\<close>

lemma tree_cong:
  assumes t: "tree_except E k" and l: "k_list k' = k_list k" "k_next k' = k_next k"
    and o: "\<And>p. map_option (\<lambda>(st, ctx, os). os) (tasks k' p) = map_option (\<lambda>(st, ctx, os). os) (tasks k p)"
  shows "tree_except E k'"
proof -
  have "tasks k' p \<noteq> None \<longleftrightarrow> tasks k p \<noteq> None" for p using o [of p] by (cases "tasks k p"; cases "tasks k' p") auto
  then have dm: "dom (tasks k') = dom (tasks k)" "\<And>p. tasks k' p = None \<longleftrightarrow> tasks k p = None" by blast+
  have ex: "(\<exists>st ctx. tasks k' p = Some (st, ctx, os)) \<longleftrightarrow> (\<exists>st ctx. tasks k p = Some (st, ctx, os))" for p os
    using o [of p] by (cases "tasks k p"; cases "tasks k' p") auto
  have ow: "owns k' s c \<longleftrightarrow> owns k s c" for s c unfolding owns_def using ex by blast
  have len: "(\<forall>p st ctx os. tasks k' p = Some (st, ctx, os) \<longrightarrow> length os = max_objects) \<longleftrightarrow>
      (\<forall>p st ctx os. tasks k p = Some (st, ctx, os) \<longrightarrow> length os = max_objects)" using ex by blast
  show ?thesis using t unfolding tree_except_def l dm ow len .
qed

section \<open>The system calls\<close>

lemma write_user_alike: "write_user p bs k = Inr k' \<Longrightarrow> alike k k'"
proof (induction p bs k rule: write_user.induct)
  case (2 p b bs k)
  then obtain a where "write_user (p + 1) bs (k\<lparr>k_phys := (store_byte a b (fst (k_phys k)), snd (k_phys k))\<rparr>) = Inr k'" "virt_to_phys (fst (k_phys k)) (k_cr3 k) p = Inr a"
    by (auto split: sum.splits)
  then show ?case using 2 by (auto simp: alike_def)
qed simp

lemma alike_frame [simp]:
  "alike k (k'\<lparr>k_env := e\<rparr>) \<longleftrightarrow> alike k k'" "alike (k\<lparr>k_env := e\<rparr>) k' \<longleftrightarrow> alike k k'"
  "alike k (k'\<lparr>k_out := d\<rparr>) \<longleftrightarrow> alike k k'" "alike (k\<lparr>k_phys := b\<rparr>) k' \<longleftrightarrow> alike k k'"
  by (simp_all add: alike_def)

lemma keyboard_read_alike: "keyboard_read dv n p i k = Inr (c, k') \<Longrightarrow> alike k k'"
proof (induction n arbitrary: i k)
  case (Suc n)
  obtain avail e1 where a: "dv_key_available dv (k_env k) = (avail, e1)" by fastforce
  show ?case
  proof (cases avail)
    case False
    then show ?thesis using Suc(2) a by auto
  next
    case True
    then obtain c2 e2 k2 where r: "write_user (p + ucast i) [c2] (k\<lparr>k_env := e2\<rparr>) = Inr k2" "keyboard_read dv n p (i + 1) k2 = Inr (c, k')"
      using Suc(2) a by (auto simp: andThen_eq_Inr Let_def simp del: write_user.simps)
    have "alike k k2" using write_user_alike [OF r(1)] by simp
    then show ?thesis using Suc(1) [OF r(2)] by (rule alike_trans)
  qed
qed simp

lemma object_read_alike: "object_read dv obj p mx k = Inr (c, k') \<Longrightarrow> alike k k'"
  by (auto simp: object_read_def ethdev_read_def andThen_eq_Inr split: if_splits dest!: keyboard_read_alike write_user_alike)

lemma ethdev_write_alike: "ethdev_write dv p n k = Inr k' \<Longrightarrow> alike k k'"
  by (auto simp: ethdev_write_def andThen_eq_Inr)

lemma do_mem_map_info_alike: "do_mem_map_info regs mh k = Inr k' \<Longrightarrow> alike k k'"
  by (auto simp: do_mem_map_info_def Let_def dest: write_user_alike)

lemma run_ok_tree: "run_ok stk k \<Longrightarrow> tree_except {} k" by (simp add: run_ok_def)

lemma current_process_Inr: "current_process k = Inr p \<longleftrightarrow> k_current k = Some p"
  by (auto simp: current_process_def split: option.splits)

lemma object_open_run_ok:
  assumes r: "run_ok stk k" and op: "object_open p obj k = Inr (h, k1)"
    and c: "\<And>c. obj = Ko_process c \<Longrightarrow> p < c \<and> tasks k c \<noteq> None \<and> (\<forall>s. \<not> owns k s c)"
  shows "run_ok stk k1"
proof -
  note o = object_open_tree [OF op run_ok_tree [OF r] c]
  consider "alike k k1" | st ctx os os' where "tasks k p = Some (st, ctx, os)" "tasks k1 = (tasks k)(p \<mapsto> (st, ctx, os'))" using o(2) by blast
  then show ?thesis
  proof cases
    case 2
    then have "process_running k1 = process_running k" by (auto simp: fun_eq_iff process_running_tasks)
    moreover have "\<exists>os'. tasks k1 q = Some (Running, ctx, os')" if "tasks k q = Some (Running, ctx, os)" for q ctx os
      using that 2 by auto
    ultimately show ?thesis using run_okI [OF r o(1,4)] o(3) by simp
  qed (rule run_ok_alike [OF r])
qed

lemma do_create_run_ok:
  assumes r: "run_ok stk k" and c: "do_create dv regs k = Inr (h, k1)"
  shows "run_ok stk k1"
proof -
  consider p obj where "obj = Ko_ethdev \<or> obj = Ko_keyboard" "object_open p obj k = Inr (h, k1)"
    | p q k2 where "k_current k = Some p" "user_process_new k = Inr (q, k2)" "object_open p (Ko_process q) k2 = Inr (h, k1)"
    | p mh k2 where "mem_map_new p (k_dsdt_phys k) (ucast (k_dsdt_len k)) (mt_read OR mt_user) k = Inr (mh, k2)" "object_open p (Ko_mem_map mh) k2 = Inr (h, k1)"
    using c by (auto simp: do_create_def Let_def andThen_eq_Inr require_eq_Inr current_process_Inr split: if_splits)
  then show ?thesis
  proof cases
    case 1
    then show ?thesis by (intro object_open_run_ok [OF r]) auto
  next
    case 2
    note t = user_process_new_tree [OF 2(2) run_ok_tree [OF r]]
    note n = user_process_new_eq [OF 2(2)]
    have run: "process_running k2 x \<longleftrightarrow> process_running k x" for x using t(3) by (auto simp: process_running_tasks n(2))
    then have "filter (process_running k2) (k_list k2) = filter (process_running k) (k_list k)"
      using t(3) by (simp add: n(3) process_running_tasks cong: filter_cong)
    moreover have "\<exists>os'. tasks k2 x = Some (Running, ctx, os')" if "tasks k x = Some (Running, ctx, os)" for x ctx os
      using that t(3) by (auto simp: n(2))
    ultimately have r2: "run_ok stk k2" by (rule run_okI [OF r t(1) n(4)])
    have "p < q" using run_ok_current(3) [OF r 2(1)] tree_list [OF run_ok_tree [OF r], of p] tree_exceptD(2) [OF run_ok_tree [OF r], of p] n(1) by blast
    then show ?thesis using object_open_run_ok [OF r2 2(3)] t(2) n(2) by auto
  next
    case 3
    have "alike k k2" using 3(1) by (auto simp: mem_map_new_def with_process_Inr andThen_eq_Inr alike_def tasks_set_process fun_eq_iff tasks_proc)
    then show ?thesis using object_open_run_ok [OF run_ok_alike [OF r] 3(2)] by auto
  qed
qed

lemma object_close_run_ok:
  assumes r: "run_ok stk k" and c: "object_close p h k = Inr k1" and p: "k_current k = Some p"
  shows "run_ok stk k1"
proof -
  obtain u k2 u2 where u: "k_proc k p = Some u" "handle_valid u h" and d: "destroy_object (destroy_fuel k) (the (up_objects u ! unat (h - 1))) k = Inr k2"
    and u2: "k_proc k2 p = Some u2" and k1: "k1 = set_process p (u2\<lparr>up_objects := (up_objects u2)[unat (h - 1) := None]\<rparr>) k2"
    using c by (auto simp: object_close_def update_objects_def with_process_Inr require_eq_Inr andThen_eq_Inr)
  define i where "i = unat (h - 1)"
  have i: "i < max_objects"
    using u(2) by (auto simp: handle_valid_def i_def max_objects_def u64_sub word_le_nat_alt)
  have t: "tree_except {} k" by (rule run_ok_tree [OF r])
  then have t': "tree_except {(p, i)} k" by (rule tree_except_mono) simp
  have o: "Suc p \<le> x \<and> (\<forall>s. owns k s x \<longrightarrow> s \<in> {(p, i)})" if "the (up_objects u ! i) = Ko_process x" for x
  proof -
    have ow: "owns k (p, i) x" using that u(2) i tasks_proc [OF u(1)] by (auto simp: owns_def handle_valid_def i_def)
    then show ?thesis using tree_exceptD(5,8) [OF t] by fastforce
  qed
  have "tree_except {(p, i)} k2 \<and> survives (Suc p) k k2" by (rule destroy_object_ok [OF d [folded i_def] t' o])
  then have s: "tree_except {(p, i)} k2" "survives (Suc p) k k2" by auto
  note cl = clear_slot [OF s(1) u2 i, folded k1 [folded i_def]]
  have "survives p k k1" by (rule survives_trans [OF survives_mono [OF s(2)] cl(2)]) simp
  then show ?thesis by (rule run_ok_survives [OF r _ cl(1)])
qed

text \<open>The current process exits: the process that started it goes on, with the registers it had.\<close>

lemma find_filter: "find P xs = (case filter P xs of [] \<Rightarrow> None | x # _ \<Rightarrow> Some x)"
  by (induction xs) auto

lemma exit_stack:
  assumes r: "run_ok stk k" and p: "k_current k = Some p"
  shows "case stk of
      [] \<Rightarrow> \<exists>k'. do_exit regs k = Inr (Sys_all_exited k') \<and> k_current k' = None \<and> (\<forall>q. \<not> process_running k' q)
    | (q, saved) # stk' \<Rightarrow> \<exists>k'. do_exit regs k = Inr (Sys_return saved k') \<and> run_ok stk' k' \<and> k_current k' = Some q \<and>
        (\<exists>u. k_proc k' p = Some u \<and> up_state u = Exited \<and> up_exit_code u = r_rdx regs) \<and>
        (\<forall>x. x \<noteq> p \<longrightarrow> k_proc k' x = k_proc k x)"
proof -
  note t = run_ok_tree [OF r]
  have run: "process_running k p" by (rule run_ok_current(1) [OF r p])
  then obtain u where u: "k_proc k p = Some u" "up_state u = Running" by (auto simp: process_running_def split: option.splits)
  define u' where "u' = u\<lparr>up_exit_code := r_rdx regs, up_state := Exited\<rparr>"
  define k2 where "k2 = set_process p u' (k\<lparr>k_current := None, k_user_image := 0\<rparr>)"
  have ex: "do_exit regs k = (case List.find (process_running k2) (k_list k2) of
      None \<Rightarrow> Inr (Sys_all_exited (k2\<lparr>k_cr3 := from_identity_mapped_ptr (mm_pml4 (k_kmm k2))\<rparr>))
    | Some nxt \<Rightarrow> andThen (process_switch_to nxt k2) (\<lambda>(regs1, k3). Inr (Sys_return regs1 k3)))"
  proof -
    have "process_switch_from p k = Inr (k\<lparr>k_current := None, k_user_image := 0\<rparr>)"
      using u p by (simp add: process_switch_from_def with_process_def)
    moreover have "process_exit p (r_rdx regs) (k\<lparr>k_current := None, k_user_image := 0\<rparr>) = Inr k2"
      using u by (simp add: process_exit_def with_process_def k2_def u'_def)
    ultimately show ?thesis using p by (simp add: do_exit_def current_process_def)
  qed
  have run2: "process_running k2 x \<longleftrightarrow> process_running k x \<and> x \<noteq> p" for x
    by (simp add: process_running_def k2_def u'_def)
  have "filter (process_running k2) (k_list k2) = filter (\<lambda>x. x \<noteq> p) (filter (process_running k) (k_list k))"
  proof -
    have "filter (process_running k2) (k_list k) = filter (\<lambda>x. process_running k x \<and> x \<noteq> p) (k_list k)"
      by (rule filter_cong) (simp_all add: run2)
    moreover have "k_list k2 = k_list k" by (simp add: k2_def)
    ultimately show ?thesis by (simp add: conj_commute)
  qed
  also have "filter (process_running k) (k_list k) = p # map fst stk" using r p by (auto simp: run_ok_def)
  also have "filter (\<lambda>x. x \<noteq> p) (p # map fst stk) = map fst stk"
  proof -
    have "sorted_wrt (>) (p # map fst stk)"
      using sorted_wrt_filter [OF tree_exceptD(1) [OF t]] \<open>filter (process_running k) (k_list k) = p # map fst stk\<close> by metis
    then show ?thesis by (auto simp: filter_id_conv)
  qed
  finally have f2: "filter (process_running k2) (k_list k2) = map fst stk" .
  have tk2: "tasks k2 = (tasks k)(p \<mapsto> (Exited, up_context u, up_objects u))" by (simp add: k2_def tasks_set_process u'_def)
  have tree2: "tree_except {} k2"
    by (rule tree_cong [OF t]) (auto simp: k2_def tk2 [unfolded k2_def] tasks_proc [OF u(1)])
  show ?thesis
  proof (cases stk)
    case Nil
    then have "find (process_running k2) (k_list k2) = None" using f2 by (auto simp: find_None_iff filter_empty_conv)
    moreover have "\<not> process_running k2 x" for x
      using f2 Nil tree_list [OF tree2, of x] by (auto simp: filter_empty_conv process_running_tasks)
    ultimately show ?thesis using Nil by (auto simp: ex process_running_def k2_def)
  next
    case (Cons e stk')
    obtain q saved where e: "e = (q, saved)" by fastforce
    have fd: "find (process_running k2) (k_list k2) = Some q" using f2 Cons e by (simp add: find_filter)
    have nx: "x \<noteq> p" if "x \<in> fst ` set stk" for x
    proof -
      have "x \<in> set (filter (process_running k2) (k_list k2))" using that by (simp add: f2)
      then show ?thesis by (simp add: run2)
    qed
    have ctx: "\<exists>os. tasks k2 x = Some (Running, c, os)" if "(x, c) \<in> set stk" for x c
      using that r nx [of x] by (force simp: run_ok_def tk2)
    from ctx [of q saved] Cons e obtain uq where uq: "k_proc k2 q = Some uq" "up_state uq = Running" "up_context uq = saved"
      by (auto simp: tasks_def)
    define k3 where "k3 = (if up_image_base uq \<noteq> 0 then k2\<lparr>k_cr3 := from_identity_mapped_ptr (mm_pml4 (up_mm uq)), k_user_image := up_image_base uq\<rparr>
      else k2\<lparr>k_cr3 := from_identity_mapped_ptr (mm_pml4 (up_mm uq))\<rparr>)\<lparr>k_current := Some q\<rparr>"
    have sw: "process_switch_to q k2 = Inr (saved, k3)"
      using uq by (simp add: process_switch_to_def with_process_def process_context_def set_as_current_def k3_def Let_def)
    have k3: "tasks k3 = tasks k2" "k_list k3 = k_list k2" "k_current k3 = Some q" "k_next k3 = k_next k2" "k_proc k3 = k_proc k2"
      by (auto simp: k3_def)
    have "process_running k3 = process_running k2" by (simp add: fun_eq_iff process_running_tasks k3)
    then have "run_ok stk' k3"
      using f2 Cons e ctx tree_cong [OF tree2, of k3] by (auto simp: run_ok_def k3)
    moreover have "k_proc k3 p = Some u'" "\<And>x. x \<noteq> p \<Longrightarrow> k_proc k3 x = k_proc k x" by (simp_all add: k3 k2_def)
    ultimately show ?thesis using Cons e sw fd by (simp add: ex k3 u'_def)
  qed
qed

text \<open>The current process starts another: it waits, with its registers saved.\<close>

lemma filter_newest:
  "sorted_wrt (>) l \<Longrightarrow> q \<in> set l \<Longrightarrow> (\<And>x. P x \<Longrightarrow> x < q) \<Longrightarrow> filter (\<lambda>x. P x \<or> x = q) l = q # filter P (l :: nat list)"
proof (induction l)
  case (Cons y l)
  show ?case
  proof (cases "y = q")
    case True
    then have "filter (\<lambda>x. P x \<or> x = q) l = filter P l" using Cons.prems(1) by (intro filter_cong) auto
    then show ?thesis using True Cons.prems(3) [of q] by auto
  next
    case False
    then have "q \<in> set l" "q < y" using Cons.prems(1,2) by auto
    moreover from this have "\<not> P y" using Cons.prems(3) [of y] by auto
    ultimately show ?thesis using Cons False by auto
  qed
qed simp

lemma handle_slot:
  assumes "k_proc k p = Some u" "handle_valid u h" "the (up_objects u ! unat (h - 1)) = Ko_process q"
  shows "owns k (p, unat (h - 1)) q"
proof -
  have "unat (h - 1) < max_objects" using assms(2) by (auto simp: handle_valid_def max_objects_def u64_sub word_le_nat_alt)
  then show ?thesis using assms tasks_proc [OF assms(1)] by (auto simp: owns_def handle_valid_def)
qed

lemma object_get_Inr:
  "object_get k p h = Inr obj \<longleftrightarrow> (\<exists>u. k_proc k p = Some u \<and> handle_valid u h \<and> the (up_objects u ! unat (h - 1)) = obj)"
  by (simp add: object_get_def with_process_Inr require_eq_Inr)

lemma get_protocol_Inr: "get_protocol pr obj = Inr obj' \<longleftrightarrow> obj' = obj \<and> List.member (object_protocols obj) pr"
  by (auto simp: get_protocol_def require_eq_Inr)

lemma start_stack:
  assumes r: "run_ok stk k" and p: "k_current k = Some p" and s: "do_start_exe regs k = Inr res"
  shows "\<exists>regs' k' q. res = Sys_return regs' k' \<and> run_ok ((p, regs) # stk) k' \<and> k_current k' = Some q \<and> p < q"
proof -
  note t = run_ok_tree [OF r]
  obtain u obj where obj: "k_proc k p = Some u" "handle_valid u (r_rdx regs)" "the (up_objects u ! unat (r_rdx regs - 1)) = obj"
    and s: "(case obj of
       Ko_process q \<Rightarrow>
         andThen (alloc_and_map_user_exe q (user_view k (r_r8 regs) 0 4294967296) k) (\<lambda>k1.
         andThen (with_process k1 p (\<lambda>u. andThen (process_context u) (\<lambda>c. Inr (set_process p (u\<lparr>up_context := regs\<rparr>) k1)))) (\<lambda>k2.
         andThen (process_switch_from p k2) (\<lambda>k3.
         andThen (process_start q k3) (\<lambda>k4.
         andThen (process_switch_to q k4) (\<lambda>(regs1, k5). Inr (Sys_return regs1 k5))))))
     | _ \<Rightarrow> Inl (Fatal ''ptr'')) = Inr res"
    using s unfolding do_start_exe_def andThen_eq_Inr current_process_Inr object_get_Inr get_protocol_Inr
    by (auto simp: p simp del: split_paired_Ex)
  obtain u q k1 k2 k3 k4 k5 regs' where u: "k_proc k p = Some u" "handle_valid u (r_rdx regs)" "the (up_objects u ! unat (r_rdx regs - 1)) = Ko_process q"
    and k1: "alloc_and_map_user_exe q (user_view k (r_r8 regs) 0 4294967296) k = Inr k1"
    and k2: "with_process k1 p (\<lambda>u. andThen (process_context u) (\<lambda>c. Inr (set_process p (u\<lparr>up_context := regs\<rparr>) k1))) = Inr k2"
    and k3: "process_switch_from p k2 = Inr k3" and k4: "process_start q k3 = Inr k4" and k5: "process_switch_to q k4 = Inr (regs', k5)"
    and res: "res = Sys_return regs' k5"
    using s obj by (cases obj) (auto simp: andThen_eq_Inr)
  have o: "owns k (p, unat (r_rdx regs - 1)) q" by (rule handle_slot [OF u])
  note q = owned_newer_not_running [OF r p o]
  obtain cx os where t1: "tasks k1 = (tasks k)(q \<mapsto> (Created, cx, os))" and oq: "\<exists>c. tasks k q = Some (Created, c, os)"
    using alloc_and_map_user_exe_tasks(1) [OF k1] by blast
  note f1 = alloc_and_map_user_exe_tasks(2-4) [OF k1]
  have up: "up_state u = Running" using run_ok_current(1) [OF r p] u(1) by (simp add: process_running_def)
  have tp: "tasks k p = Some (Running, up_context u, up_objects u)" using tasks_proc [OF u(1)] up by simp
  have "p \<noteq> q" using q(1) by simp
  obtain u1 where u1: "k_proc k1 p = Some u1" "k2 = set_process p (u1\<lparr>up_context := regs\<rparr>) k1"
    using k2 by (auto simp: with_process_Inr andThen_eq_Inr)
  have "tasks k1 p = tasks k p" using t1 \<open>p \<noteq> q\<close> by simp
  then have "up_state u1 = Running" "up_objects u1 = up_objects u" using tasks_proc [OF u1(1)] tp by simp_all
  then have t2: "tasks k2 = (tasks k1)(p \<mapsto> (Running, regs, up_objects u))" using u1(2) by (simp add: tasks_set_process)
  have t3: "k3 = k2\<lparr>k_current := None, k_user_image := 0\<rparr>"
    using k3 by (auto simp: process_switch_from_def with_process_Inr require_eq_Inr)
  obtain u4 where u4: "k_proc k3 q = Some u4" "k4 = set_process q (u4\<lparr>up_state := Running\<rparr>) k3"
    using k4 by (auto simp: process_start_def with_process_Inr require_eq_Inr)
  have "tasks k3 q = Some (Created, cx, os)" using t1 t2 t3 \<open>p \<noteq> q\<close> by simp
  then have "up_context u4 = cx" "up_objects u4 = os" using tasks_proc [OF u4(1)] by simp_all
  then have t4: "tasks k4 = (tasks k3)(q \<mapsto> (Running, cx, os))" using u4(2) by (simp add: tasks_set_process)
  have k5: "tasks k5 = tasks k4" "k_list k5 = k_list k4" "k_next k5 = k_next k4" "k_current k5 = Some q"
    using k5 by (auto simp: process_switch_to_def set_as_current_def with_process_Inr require_eq_Inr andThen_eq_Inr Let_def)
  have tk: "tasks k5 = (tasks k)(q \<mapsto> (Running, cx, os), p \<mapsto> (Running, regs, up_objects u))"
    using t1 t2 t3 t4 k5(1) \<open>p \<noteq> q\<close> by (auto simp: fun_eq_iff)
  have fr: "k_list k5 = k_list k" "k_next k5 = k_next k" using k5 u4(2) t3 u1(2) f1 by simp_all
  have t5: "tree_except {} k5"
    by (rule tree_cong [OF t fr]) (use oq tp in \<open>auto simp: tk\<close>)
  have run: "process_running k5 x \<longleftrightarrow> process_running k x \<or> x = q" for x
    using tp by (auto simp: process_running_tasks tk)
  have "filter (process_running k5) (k_list k) = filter (\<lambda>x. process_running k x \<or> x = q) (k_list k)"
    by (rule filter_cong) (simp_all add: run)
  also have "\<dots> = q # filter (process_running k) (k_list k)"
  proof (rule filter_newest)
    show "sorted_wrt (>) (k_list k)" by (rule tree_exceptD(1) [OF t])
    show "q \<in> set (k_list k)" using tree_list [OF t] q(3) by blast
    show "x < q" if "process_running k x" for x using run_ok_current(2) [OF r p that] q(1) by simp
  qed
  also have "filter (process_running k) (k_list k) = p # map fst stk" using r p by (auto simp: run_ok_def)
  finally have f5: "filter (process_running k5) (k_list k5) = q # p # map fst stk" by (simp add: fr)
  have "\<exists>os. tasks k5 x = Some (Running, c, os)" if "(x, c) \<in> set stk" for x c
  proof -
    have "sorted_wrt (>) (filter (process_running k5) (k_list k5))" by (rule sorted_wrt_filter [OF tree_exceptD(1) [OF t5]])
    then have "x < p" using that by (auto simp: f5)
    then show ?thesis using that r q(1) by (auto simp: run_ok_def tk)
  qed
  then have "run_ok ((p, regs) # stk) k5" using t5 f5 k5(4) by (auto simp: run_ok_def tk)
  then show ?thesis using res k5(4) q(1) by blast
qed

lemma syscall_exit: "r_rax regs = sys_exit \<Longrightarrow> syscall_handler dv regs k = do_exit (regs\<lparr>r_rax := 0\<rparr>) k"
  by (simp add: syscall_handler_def Let_def)

lemma syscall_start: "r_rax regs = sys_start_exe \<Longrightarrow> syscall_handler dv regs k = do_start_exe (regs\<lparr>r_rax := 0\<rparr>) k"
  by (simp add: syscall_handler_def Let_def sys_defs)

lemma case_object_Inr:
  "(case x of Ko_process q \<Rightarrow> f q | _ \<Rightarrow> Inl e) = Inr r \<longleftrightarrow> (\<exists>q. x = Ko_process q \<and> f q = Inr r)"
  "(case x of Ko_mem_map mh \<Rightarrow> g mh | _ \<Rightarrow> Inl e) = Inr r \<longleftrightarrow> (\<exists>mh. x = Ko_mem_map mh \<and> g mh = Inr r)"
  by (cases x; simp)+

lemma other_syscalls:
  assumes r: "run_ok stk k" and s: "syscall_handler dv regs k = Inr res" and n: "r_rax regs \<noteq> sys_exit" "r_rax regs \<noteq> sys_start_exe"
  shows "\<exists>regs' k'. res = Sys_return regs' k' \<and> run_ok stk k'"
proof -
  have al: "\<exists>regs' k'. res = Sys_return regs' k' \<and> run_ok stk k'" if "\<exists>regs' k'. res = Sys_return regs' k' \<and> alike k k'"
    using that run_ok_alike [OF r] by blast
  consider (create) "r_rax regs = sys_create" | (destroy) "r_rax regs = sys_destroy"
    | (other) "r_rax regs \<noteq> sys_create" "r_rax regs \<noteq> sys_destroy" by blast
  then show ?thesis
  proof cases
    case create
    then obtain h k1 where "do_create dv (regs\<lparr>r_rax := 0\<rparr>) k = Inr (h, k1)" "\<exists>regs'. res = Sys_return regs' k1"
      using s by (auto simp: syscall_handler_def Let_def andThen_eq_Inr sys_defs)
    then show ?thesis using do_create_run_ok [OF r] by blast
  next
    case destroy
    then obtain p k1 where "k_current k = Some p" "object_close p (r_rdx regs) k = Inr k1" "\<exists>regs'. res = Sys_return regs' k1"
      using s by (auto simp: syscall_handler_def Let_def andThen_eq_Inr current_process_Inr sys_defs)
    then show ?thesis using object_close_run_ok [OF r] by blast
  next
    case other
    have "\<exists>regs' k'. res = Sys_return regs' k' \<and> alike k k'"
      using s n other unfolding syscall_handler_def Let_def
      by (auto simp: andThen_eq_Inr with_process_Inr in_object_eq_Inr case_object_Inr dest!: object_read_alike ethdev_write_alike do_mem_map_info_alike write_user_alike
          split: if_splits)
    then show ?thesis by (rule al)
  qed
qed

lemma handle_of_index: "i < max_objects \<Longrightarrow> unat ((of_nat (i + 1) :: u64) - 1) = i"
  by (simp add: max_objects_def unat_of_nat_u64)

lemma handle_valid_index:
  assumes "i < max_objects"
  shows "handle_valid u (of_nat (i + 1)) \<longleftrightarrow> up_objects u ! i \<noteq> None"
proof -
  have u: "unat (of_nat (i + 1) :: u64) = i + 1" using assms by (simp only: unat_of_nat_u64 max_objects_def)
  then have "(1 :: u64) \<le> of_nat (i + 1)" "(of_nat (i + 1) :: u64) \<le> of_nat max_objects"
    using assms by (simp_all only: word_le_nat_alt u, simp_all add: max_objects_def)
  then show ?thesis using handle_of_index [OF assms] by (simp only: handle_valid_def simp_thms)
qed

lemma valid_index:
  assumes "handle_valid u h"
  shows "unat (h - 1) < max_objects" "h = of_nat (unat (h - 1) + 1)"
  using assms by (auto simp: handle_valid_def max_objects_def u64_sub word_le_nat_alt)

lemma current_exec: "k_current k = Some p \<Longrightarrow> current_process k = Inr p" by (simp add: current_process_def)

text \<open>The first process: nothing waits.\<close>

lemma usermode_start_run_ok:
  assumes s: "usermode_start img k = Inr (p, regs, k')" and e: "k_list k = []" "\<And>q. k_proc k q = None"
  shows "run_ok [] k'" "k_current k' = Some p"
proof -
  obtain k1 k2 k3 where n: "user_process_new k = Inr (p, k1)" and a: "alloc_and_map_user_exe p img k1 = Inr k2"
    and st: "process_start p k2 = Inr k3" and c: "set_as_current p k3 = Inr k'"
    using s by (auto simp: usermode_start_def andThen_eq_Inr with_process_Inr)
  have tk: "tasks k = (\<lambda>q. None)" using e(2) by (simp add: tasks_def fun_eq_iff)
  have t0: "tree_except {} k" using e(1) tk by (simp add: tree_except_def owns_def)
  note n1 = user_process_new_eq [OF n] and t1 = user_process_new_tree(1) [OF n t0]
  obtain cx os where t2: "tasks k2 = (tasks k1)(p \<mapsto> (Created, cx, os))" and o: "\<exists>c. tasks k1 p = Some (Created, c, os)"
    using alloc_and_map_user_exe_tasks(1) [OF a] by blast
  note f2 = alloc_and_map_user_exe_tasks(2-4) [OF a]
  obtain u where u: "k_proc k2 p = Some u" "k3 = set_process p (u\<lparr>up_state := Running\<rparr>) k2"
    using st by (auto simp: process_start_def with_process_Inr require_eq_Inr)
  have uf: "up_context u = cx" "up_objects u = os" using tasks_proc [OF u(1)] t2 by simp_all
  have k': "tasks k' = tasks k3" "k_list k' = k_list k3" "k_next k' = k_next k3" "k_current k' = Some p"
    using c by (auto simp: set_as_current_def with_process_Inr require_eq_Inr Let_def)
  have tk': "tasks k' = [p \<mapsto> (Running, cx, os)]" using k'(1) u(2) uf t2 n1(2) tk by (auto simp: tasks_set_process fun_eq_iff)
  have fr: "k_list k' = k_list k1" "k_next k' = k_next k1" using k' u(2) f2 by simp_all
  have "tree_except {} k'" by (rule tree_cong [OF t1 fr]) (use o n1(2) tk in \<open>auto simp: tk'\<close>)
  moreover have "filter (process_running k') (k_list k') = [p]" using fr n1(3) e(1) by (simp add: process_running_tasks tk')
  ultimately show "run_ok [] k'" "k_current k' = Some p" using k'(4) by (simp_all add: run_ok_def)
qed

section \<open>Properties\<close>

text \<open>C12: starting and waiting nest, whatever the programs do: after every system call that returns, the processes that run are
  the current one and those that wait for the one they started, the current one the newest, each with the registers it saved;
  the processes still form a tree. Only \<open>start_exe\<close> makes one wait, with its registers, and only \<open>exit\<close> takes one up
  again, and with the registers it left.\<close>

theorem syscall_keeps_process_stack:
  assumes r: "run_ok stk k" and s: "syscall_handler dv regs k = Inr (Sys_return regs' k')"
  shows "\<exists>stk'. run_ok stk' k' \<and>
     (stk' = stk \<or>
      (\<exists>p. k_current k = Some p \<and> r_rax regs = sys_start_exe \<and> stk' = (p, regs\<lparr>r_rax := 0\<rparr>) # stk) \<or>
      (\<exists>q. r_rax regs = sys_exit \<and> stk = (q, regs') # stk'))"
proof -
  obtain p where p: "k_current k = Some p" using r by (auto simp: run_ok_def)
  consider (exit) "r_rax regs = sys_exit" | (start) "r_rax regs = sys_start_exe"
    | (other) "r_rax regs \<noteq> sys_exit" "r_rax regs \<noteq> sys_start_exe" by blast
  then show ?thesis
  proof cases
    case exit
    note e = exit_stack [OF r p, of "regs\<lparr>r_rax := 0\<rparr>"] syscall_exit [OF exit, of dv k]
    show ?thesis
    proof (cases stk)
      case Nil
      then show ?thesis using e s by auto
    next
      case (Cons e1 stk1)
      then show ?thesis using e s exit by (cases e1) auto
    qed
  next
    case start
    then show ?thesis using start_stack [OF r p] s syscall_start [OF start, of dv k] p by fastforce
  next
    case other
    then show ?thesis using other_syscalls [OF r s] by auto
  qed
qed


lemma create_opens:
  assumes r: "run_ok stk k" and p: "k_current k = Some p" and c: "do_create dv regs k = Inr (h, k')"
  shows "\<exists>k2 u u2 obj. k_proc k p = Some u \<and> k_proc k2 p = Some u2 \<and> up_objects u2 = up_objects u \<and> object_open p obj k2 = Inr (h, k')"
proof -
  have run: "tasks k p \<noteq> None" by (rule run_ok_current(3) [OF r p])
  then obtain u where u: "k_proc k p = Some u" by (cases "k_proc k p") (auto simp: tasks_def)
  have keep: "\<exists>u2. k_proc k2 p = Some u2 \<and> up_objects u2 = up_objects u" if "tasks k2 p = tasks k p" for k2 :: "'a kernel"
    using that u by (cases "k_proc k2 p") (auto simp: tasks_def)
  consider obj where "object_open p obj k = Inr (h, k')"
    | q k2 where "user_process_new k = Inr (q, k2)" "object_open p (Ko_process q) k2 = Inr (h, k')"
    | mh k2 where "mem_map_new p (k_dsdt_phys k) (ucast (k_dsdt_len k)) (mt_read OR mt_user) k = Inr (mh, k2)" "object_open p (Ko_mem_map mh) k2 = Inr (h, k')"
    using c p by (auto simp: do_create_def Let_def andThen_eq_Inr require_eq_Inr current_process_Inr split: if_splits)
  then show ?thesis
  proof cases
    case 1
    then show ?thesis using u by blast
  next
    case 2
    have "tasks k2 p = tasks k p" using user_process_new_eq(2) [OF 2(1)] user_process_new_tree(3) [OF 2(1) run_ok_tree [OF r]] run by auto
    then show ?thesis using u keep 2(2) by blast
  next
    case 3
    have "alike k k2" using 3(1) by (auto simp: mem_map_new_def with_process_Inr andThen_eq_Inr alike_def tasks_set_process fun_eq_iff tasks_proc)
    then have "tasks k2 p = tasks k p" by (simp add: alike_def)
    then show ?thesis using u keep 3(2) by blast
  qed
qed

text \<open>\<open>create\<close> answers with a handle that was free and is now open, and no other handle of the process changes.\<close>

theorem create_gives_free_handle:
  assumes r: "run_ok stk k" and p: "k_current k = Some p" and n: "r_rax regs = sys_create"
    and s: "syscall_handler dv regs k = Inr (Sys_return regs' k')"
  shows "\<exists>u u'. k_proc k p = Some u \<and> k_proc k' p = Some u' \<and> \<not> handle_valid u (r_rax regs') \<and> handle_valid u' (r_rax regs') \<and>
    (\<forall>h. h \<noteq> r_rax regs' \<longrightarrow> handle_valid u' h = handle_valid u h \<and> object_get k' p h = object_get k p h)"
proof -
  obtain h where h: "do_create dv (regs\<lparr>r_rax := 0\<rparr>) k = Inr (h, k')" "r_rax regs' = h"
    using s n by (auto simp: syscall_handler_def Let_def andThen_eq_Inr sys_defs)
  obtain k2 u u2 obj where u: "k_proc k p = Some u" "k_proc k2 p = Some u2" "up_objects u2 = up_objects u" and op: "object_open p obj k2 = Inr (h, k')"
    using create_opens [OF r p h(1)] by blast
  obtain v i where v: "k_proc k2 p = Some v" "first_free 0 (up_objects v) = Some i" "h = of_nat (i + 1)"
      "k' = set_process p (v\<lparr>up_objects := (up_objects v)[i := Some obj]\<rparr>) k2" by (rule object_open_eq [OF op])
  have os: "up_objects v = up_objects u" using u v(1) by simp
  have len: "length (up_objects u) = max_objects" by (rule objects_of_process [OF u(1) run_ok_tree [OF r]])
  have i: "i < max_objects" "up_objects u ! i = None" using first_free_Some [OF v(2)] os len by auto
  define u' where "u' = v\<lparr>up_objects := (up_objects v)[i := Some obj]\<rparr>"
  have o': "up_objects u' = (up_objects u)[i := Some obj]" by (simp add: u'_def os)
  have k': "k_proc k' p = Some u'" by (simp add: v(4) u'_def)
  have other: "up_objects u' ! unat (g - 1) = up_objects u ! unat (g - 1)" if "g \<noteq> h" "1 \<le> g" for g
  proof -
    have "unat (g - 1) \<noteq> i"
    proof
      assume g: "unat (g - 1) = i"
      have "unat g = i + 1" using that(2) g by (simp add: u64_sub word_le_nat_alt)
      then have "g = of_nat (i + 1)" using i(1) by (intro u64_eqI) (simp only: unat_of_nat_u64 max_objects_def)
      then show False using that(1) v(3) by simp
    qed
    then show ?thesis by (simp add: o')
  qed
  have "handle_valid u' g = handle_valid u g \<and> object_get k' p g = object_get k p g" if "g \<noteq> h" for g
    using other [OF that] by (cases "1 \<le> g") (auto simp: handle_valid_def object_get_def with_process_def k' u(1))
  moreover have "\<not> handle_valid u h" "handle_valid u' h"
    unfolding v(3) handle_valid_index [OF i(1)] using i len by (simp_all add: o')
  ultimately show ?thesis using u(1) k' h(2) by blast
qed

section \<open>Witnesses\<close>

text \<open>Two processes: the first waits for the second, whose handle is 1.\<close>

definition demo_user :: "proc_state \<Rightarrow> registers \<Rightarrow> kernel_object option list \<Rightarrow> user_process" where
  "demo_user st ctx os = \<lparr>up_state = st, up_mm = snd demo_mm, up_allocations = [], up_context = ctx, up_exit_code = 0,
     up_objects = os, up_image_base = 0\<rparr>"

text \<open>One page of a gigabyte, each address mapped to itself; at 2000 (hexadecimal) there is a name.\<close>

definition demo_words :: mem where
  "demo_words = (\<lambda>_. 0)(identity_map_start := 0x1001, identity_map_start + 0x1000 := 0x81, identity_map_start + 0x2000 := 0x6472616F6279656B)"

definition demo_kernel :: "unit kernel" where
  "demo_kernel = \<lparr>k_phys = (demo_words, snd (fst demo_mm)), k_kmm = snd demo_mm, k_cr3 = 0,
     k_proc = [0 \<mapsto> demo_user Running (registers_zero\<lparr>r_rsp := 0x1000\<rparr>) (Some (Ko_process 1) # replicate 15 None),
               1 \<mapsto> demo_user Running registers_zero (replicate 16 None)],
     k_list = [1, 0], k_next = 2, k_current = Some 1, k_user_image = 0, k_out = [], k_env = (), k_dsdt_phys = 0, k_dsdt_len = 0\<rparr>"

definition demo_devices :: "unit devices" where
  "demo_devices = \<lparr>dv_present = False, dv_send = (\<lambda>_ _. Inr ()), dv_process = (\<lambda>_ s. Inr s),
     dv_hw_address = Mac 0 0 0 0 0 0, dv_key_available = (\<lambda>_. (False, ())), dv_read_key = (\<lambda>_. Inr (0, ()))\<rparr>"

lemma demo_tasks: "tasks demo_kernel = [0 \<mapsto> (Running, registers_zero\<lparr>r_rsp := 0x1000\<rparr>, Some (Ko_process 1) # replicate 15 None),
               1 \<mapsto> (Running, registers_zero, replicate 16 None)]"
  by (auto simp: tasks_def demo_kernel_def demo_user_def)

lemma demo_owns: "owns demo_kernel s c \<longleftrightarrow> s = (0, 0) \<and> c = 1"
  by (cases s) (auto simp: owns_def demo_tasks max_objects_def nth_Cons' split: if_splits)

lemma demo_run_ok: "run_ok [(0, registers_zero\<lparr>r_rsp := 0x1000\<rparr>)] demo_kernel"
proof -
  have "tree_except {} demo_kernel"
    unfolding tree_except_def demo_owns by (auto simp: demo_tasks, auto simp: demo_kernel_def max_objects_def split: if_splits)
  moreover have "filter (process_running demo_kernel) (k_list demo_kernel) = [1, 0]" "k_current demo_kernel = Some 1"
    by (simp_all add: demo_kernel_def process_running_def demo_user_def)
  ultimately show ?thesis by (auto simp: run_ok_def demo_tasks)
qed


lemma user_view_map:
  "(\<And>j. i \<le> j \<Longrightarrow> j < i + n \<Longrightarrow> user_byte k (p + of_nat j) = Some (f j)) \<Longrightarrow> user_view k p i (i + n) = map f [i..<i + n]"
proof (induction n arbitrary: i)
  case 0
  then show ?case by (simp add: user_view.simps)
next
  case (Suc n)
  have "user_byte k (p + of_nat i) = Some (f i)" using Suc.prems [of i] by simp
  moreover have "user_view k p (Suc i) (Suc i + n) = map f [Suc i..<Suc i + n]" by (rule Suc.IH) (use Suc.prems in auto)
  ultimately show ?case by (simp add: user_view.simps [of k p i] upt_rec [of i])
qed

lemma demo_device_page:
  assumes "unat p < 1073741824"
  shows "virt_to_phys demo_words 0 p = Inr p"
proof -
  have d: "drop_bit 30 p = 0" "drop_bit 39 p = 0"
    using assms by (auto intro!: u64_eqI simp: unat_drop_bit_eq drop_bit_eq_div unat_div)
  have m: "p AND 0x3FFFFFFF = p"
  proof -
    have "p AND mask 30 = p"
      using assms by (intro u64_eqI) (simp only: take_bit_eq_mask [symmetric] unsigned_take_bit_eq take_bit_eq_mod, simp add: unat_mod)
    then show ?thesis by (simp add: mask_eq_exp_minus_1)
  qed
  show ?thesis
    by (simp add: virt_to_phys_def pml4e_def pdpe_def d slot_of_def table_entry_def to_identity_mapped_ptr_def demo_words_def
        PAGEF_PRESENT_def PAGEF_PAGESIZE_def PAGEF_NX_def page_size_def identity_map_start_def Let_def m)
qed

lemma demo_device_name: "user_view demo_kernel 0x2000 0 16 = ascii ''keyboard'' @ replicate 8 0"
proof -
  have "user_byte demo_kernel (0x2000 + of_nat j) = Some (phys_byte demo_words (0x2000 + of_nat j))" if "j < 16" for j
  proof -
    have "unat (0x2000 + of_nat j :: u64) < 1073741824" using that by (simp add: u64_add unat_of_nat_u64)
    then show ?thesis by (simp add: user_byte_def demo_kernel_def demo_device_page)
  qed
  then have "user_view demo_kernel 0x2000 0 (0 + 16) = map (\<lambda>j. phys_byte demo_words (0x2000 + of_nat j)) [0..<0 + 16]"
    by (intro user_view_map) simp
  moreover have "map (\<lambda>i. phys_byte demo_words (0x2000 + of_nat i)) [0..<16] = ascii ''keyboard'' @ replicate 8 0" by code_simp
  ultimately show ?thesis by simp
qed

lemma demo_kernel_create: "\<exists>k'. syscall_handler demo_devices (registers_zero\<lparr>r_rax := sys_create, r_rdx := 0x2000\<rparr>) demo_kernel =
    Inr (Sys_return (registers_zero\<lparr>r_rax := 1, r_rdx := 0x2000\<rparr>) k')"
proof -
  have v: "user_view demo_kernel 0x2000 0 16 = ascii ''keyboard'' @ replicate 8 0" by (rule demo_device_name)
  have e: "string_equal (ascii ''keyboard'' @ replicate 8 0) (c_str ''ethdev'') = Inr False"
    "string_equal (ascii ''keyboard'' @ replicate 8 0) (c_str ''keyboard'') = Inr True" by code_simp+
  have "\<exists>k'. object_open 1 Ko_keyboard demo_kernel = Inr (1, k')"
    by (simp add: object_open_def with_process_def demo_kernel_def demo_user_def update_objects_def numeral_eq_Suc)
  moreover have "k_current demo_kernel = Some 1" by (simp add: demo_kernel_def)
  ultimately show ?thesis
    by (auto simp: syscall_handler_def sys_defs do_create_def v e current_exec Let_def)
qed

theorem create_gives_free_handle_witness:
  "\<exists>regs' k' u'. syscall_handler demo_devices (registers_zero\<lparr>r_rax := sys_create, r_rdx := 0x2000\<rparr>) demo_kernel = Inr (Sys_return regs' k') \<and>
     k_proc k' 1 = Some u' \<and> handle_valid u' (r_rax regs')"
proof -
  have c: "k_current demo_kernel = Some 1" by (simp add: demo_kernel_def)
  obtain k' where k': "syscall_handler demo_devices (registers_zero\<lparr>r_rax := sys_create, r_rdx := 0x2000\<rparr>) demo_kernel =
      Inr (Sys_return (registers_zero\<lparr>r_rax := 1, r_rdx := 0x2000\<rparr>) k')" using demo_kernel_create by blast
  from create_gives_free_handle [OF demo_run_ok c _ k'] show ?thesis using k' by auto
qed

theorem syscall_keeps_process_stack_witness:
  "\<exists>regs' k' stk'. syscall_handler demo_devices (registers_zero\<lparr>r_rax := sys_create, r_rdx := 0x2000\<rparr>) demo_kernel = Inr (Sys_return regs' k') \<and>
     run_ok stk' k'"
proof -
  obtain k' where k': "syscall_handler demo_devices (registers_zero\<lparr>r_rax := sys_create, r_rdx := 0x2000\<rparr>) demo_kernel =
      Inr (Sys_return (registers_zero\<lparr>r_rax := 1, r_rdx := 0x2000\<rparr>) k')" using demo_kernel_create by blast
  from syscall_keeps_process_stack [OF demo_run_ok k'] show ?thesis using k' by auto
qed

end
