(* ===== verification/Acpi.thy ===== *)
theory Acpi
  imports Processes
begin

text \<open>
  ACPI tables: the part of \<open>kernel/kernel.cpp\<close> that finds the root pointer in the memory of the BIOS, maps the tables that it
  leads to, and prints the descriptions of the interrupt controllers and of the fixed hardware. Tables are read as bytes:
  the root pointer at physical addresses, the tables through the kernel's page tables.
\<close>

section \<open>The code: structures\<close>

text \<open>Bytes of physical memory, as the identity map shows them.\<close>

definition phys_view :: "mem \<Rightarrow> u64 \<Rightarrow> nat \<Rightarrow> bytes" where
  "phys_view m a n = List.map (\<lambda>i. phys_byte m (a + of_nat i)) [0..<n]"

definition rsdp_signature :: bytes where "rsdp_signature = ascii ''RSD PTR ''"

definition rsdp_v1 :: u8 where "rsdp_v1 = 0"
definition rsdp_v2 :: u8 where "rsdp_v2 = 2"

record root_pointer =
  rp_signature :: bytes
  rp_checksum :: u8
  rp_oem_id :: bytes
  rp_revision :: u8
  rp_rsdt_address :: u32

definition sizeof_root_pointer :: nat where "sizeof_root_pointer = 20"

definition root_pointer_at :: "bytes \<Rightarrow> root_pointer" where
  "root_pointer_at b = \<lparr>rp_signature = take 8 b, rp_checksum = b ! 8, rp_oem_id = take 6 (drop 9 b), rp_revision = b ! 15,
     rp_rsdt_address = load32 b 16\<rparr>"

record root_pointer_v2 = root_pointer +
  rp_length :: u32
  rp_xsdt_address :: u64
  rp_extended_checksum :: u8
  rp_reserved :: bytes

definition sizeof_root_pointer_v2 :: nat where "sizeof_root_pointer_v2 = 36"

definition root_pointer_v2_at :: "bytes \<Rightarrow> root_pointer_v2" where
  "root_pointer_v2_at b = root_pointer.extend (root_pointer_at b)
     \<lparr>rp_length = load32 b 20, rp_xsdt_address = load64 b 24, rp_extended_checksum = b ! 32, rp_reserved = take 3 (drop 33 b)\<rparr>"

record description =
  ds_signature :: bytes
  ds_length :: u32
  ds_revision :: u8
  ds_checksum :: u8
  ds_oem_id :: bytes
  ds_oem_table_id :: bytes
  ds_oem_revision :: u32
  ds_vendor_id :: bytes
  ds_vendor_revision :: u32

definition sizeof_description :: nat where "sizeof_description = 36"

definition description_at :: "bytes \<Rightarrow> description" where
  "description_at b = \<lparr>ds_signature = take 4 b, ds_length = load32 b 4, ds_revision = b ! 8, ds_checksum = b ! 9,
     ds_oem_id = take 6 (drop 10 b), ds_oem_table_id = take 8 (drop 16 b), ds_oem_revision = load32 b 24,
     ds_vendor_id = take 4 (drop 28 b), ds_vendor_revision = load32 b 32\<rparr>"

record madt = description +
  ma_local_interrupt_controller_address :: u32
  ma_flags :: u32

definition sizeof_madt :: nat where "sizeof_madt = 44"
definition madt_signature :: bytes where "madt_signature = ascii ''APIC''"

definition madt_at :: "bytes \<Rightarrow> madt" where
  "madt_at b = description.extend (description_at b)
     \<lparr>ma_local_interrupt_controller_address = load32 b 36, ma_flags = load32 b 40\<rparr>"

record facp = description +
  fa_firmware_ctrl :: u32
  fa_dsdt :: u32
  fa_int_model :: u8
  fa_preferred_pm_profile :: u8
  fa_sci_int :: u16
  fa_sci_cmd :: u32
  fa_acpi_enable :: u8
  fa_acpi_disable :: u8
  fa_s4bios_req :: u8
  fa_pstate_cnt :: u8
  fa_pm1a_evt_blk :: u32
  fa_pm1b_evt_blk :: u32
  fa_pm1a_cnt_blk :: u32
  fa_pm1b_cnt_blk :: u32
  fa_pm2_cnt_blk :: u32
  fa_pm_tmr_blk :: u32
  fa_gpe0_blk :: u32
  fa_gpe1_blk :: u32
  fa_pm1_evt_len :: u8
  fa_pm1_cnt_len :: u8
  fa_pm2_cnt_len :: u8
  fa_pm_tmr_len :: u8
  fa_gpe0_blk_len :: u8
  fa_gpe1_blk_len :: u8
  fa_gpe1_base :: u8
  fa_cst_cnt :: u8
  fa_p_lvl2_lat :: u16
  fa_p_lvl3_lat :: u16
  fa_flush_size :: u16
  fa_flush_stride :: u16
  fa_duty_offset :: u8
  fa_duty_width :: u8
  fa_day_alrm :: u8
  fa_mon_alrm :: u8
  fa_century :: u8
  fa_iapc_boot_arch :: u16
  fa_reserved :: u8
  fa_flags :: u32

definition sizeof_facp :: nat where "sizeof_facp = 116"
definition facp_signature :: bytes where "facp_signature = ascii ''FACP''"

definition facp_at :: "bytes \<Rightarrow> facp" where
  "facp_at b = description.extend (description_at b)
     \<lparr>fa_firmware_ctrl = load32 b 36, fa_dsdt = load32 b 40, fa_int_model = b ! 44, fa_preferred_pm_profile = b ! 45,
      fa_sci_int = load16 b 46, fa_sci_cmd = load32 b 48, fa_acpi_enable = b ! 52, fa_acpi_disable = b ! 53,
      fa_s4bios_req = b ! 54, fa_pstate_cnt = b ! 55, fa_pm1a_evt_blk = load32 b 56, fa_pm1b_evt_blk = load32 b 60,
      fa_pm1a_cnt_blk = load32 b 64, fa_pm1b_cnt_blk = load32 b 68, fa_pm2_cnt_blk = load32 b 72, fa_pm_tmr_blk = load32 b 76,
      fa_gpe0_blk = load32 b 80, fa_gpe1_blk = load32 b 84, fa_pm1_evt_len = b ! 88, fa_pm1_cnt_len = b ! 89,
      fa_pm2_cnt_len = b ! 90, fa_pm_tmr_len = b ! 91, fa_gpe0_blk_len = b ! 92, fa_gpe1_blk_len = b ! 93, fa_gpe1_base = b ! 94,
      fa_cst_cnt = b ! 95, fa_p_lvl2_lat = load16 b 96, fa_p_lvl3_lat = load16 b 98, fa_flush_size = load16 b 100,
      fa_flush_stride = load16 b 102, fa_duty_offset = b ! 104, fa_duty_width = b ! 105, fa_day_alrm = b ! 106, fa_mon_alrm = b ! 107,
      fa_century = b ! 108, fa_iapc_boot_arch = load16 b 109, fa_reserved = b ! 111, fa_flags = load32 b 112\<rparr>"

section \<open>The code: finding the tables\<close>

fun acpi_checksum :: "bytes \<Rightarrow> u8 \<Rightarrow> u8" where
  "acpi_checksum [] s = s"
| "acpi_checksum (d # ds) s = acpi_checksum ds (s + d)"

text \<open>Whether the root pointer is at \<open>addr\<close>: the body of the loop, the result the pointer that is returned.\<close>

definition rsdp_candidate :: "mem \<Rightarrow> u64 \<Rightarrow> bool" where
  "rsdp_candidate m addr =
     (let b = phys_view m addr sizeof_root_pointer; rsdp = root_pointer_at b in
      if rp_signature rsdp \<noteq> rsdp_signature then False
      else if acpi_checksum b 0 \<noteq> 0 then False
      else if rp_revision rsdp = rsdp_v1 then True
      else if rp_revision rsdp \<noteq> rsdp_v2 then False
      else if acpi_checksum (phys_view m addr sizeof_root_pointer_v2) 0 \<noteq> 0 then False
      else True)"

fun find_rsdp_from :: "nat \<Rightarrow> mem \<Rightarrow> u64 \<Rightarrow> u64 \<Rightarrow> (u64 option) res" where
  "find_rsdp_from fuel m addr high =
     (if addr < high then
        (case fuel of 0 \<Rightarrow> Inl No_return
         | Suc n \<Rightarrow> if rsdp_candidate m addr then Inr (Some addr) else find_rsdp_from n m (addr + 16) high)
      else Inr None)"

declare find_rsdp_from.simps [simp del]

text \<open>A loop from \<open>low\<close> in steps of 16 has at most this many rounds.\<close>

definition find_rsdp :: "mem \<Rightarrow> u64 \<Rightarrow> u64 \<Rightarrow> (u64 option) res" where
  "find_rsdp m low high =
     require (low AND 15 = 0 \<and> high AND 15 = 0 \<and> low < high) ''!(low & 15) && !(high & 15) && low < high'' (
       find_rsdp_from (unat (high - low) div 16) m low high)"

text \<open>A \<open>mem_map_helper\<close> in the kernel's own address space.\<close>

definition kernel_map_new :: "u64 \<Rightarrow> u64 \<Rightarrow> kernel_memory_manager \<Rightarrow> (mem_map \<times> kernel_memory_manager) res" where
  "kernel_map_new ph len k =
     andThen (kernel_do_map_memory k map_alloc_virt (mapped_length ph len) mt_read (mapped_base ph)) (\<lambda>(v, k1).
       Inr (\<lparr>mh_owner = 0, mh_phys = ph, mh_length = len, mh_type = mt_read, mh_virt = v\<rparr>, k1))"

definition kernel_map_destroy :: "mem_map \<Rightarrow> kernel_memory_manager \<Rightarrow> kernel_memory_manager res" where
  "kernel_map_destroy mh k =
     (if mh_length mh \<noteq> 0 then kernel_do_unmap_memory k (mh_virt mh) (mapped_length (mh_phys mh) (mh_length mh)) else Inr k)"

text \<open>What the kernel reads from \<open>p\<close> on.\<close>

fun kernel_view :: "kernel_memory_manager \<Rightarrow> u64 \<Rightarrow> nat \<Rightarrow> bytes res" where
  "kernel_view k p 0 = Inr []"
| "kernel_view k p (Suc n) =
     (case virt_to_phys (fst (km_phys k)) (from_identity_mapped_ptr (mm_pml4 (km_mm k))) p of
        Inl _ \<Rightarrow> Inl (Wild ''mapping'')
      | Inr a \<Rightarrow> andThen (kernel_view k (p + 1) n) (\<lambda>bs. Inr (phys_byte (fst (km_phys k)) a # bs)))"

definition get_description :: "u64 \<Rightarrow> kernel_memory_manager \<Rightarrow> (bytes \<times> kernel_memory_manager) res" where
  "get_description ph k =
     andThen (kernel_map_new ph 0x1000 k) (\<lambda>(mapping, k1).
     andThen (kernel_view k1 (mem_map_ptr mapping) sizeof_description) (\<lambda>h.
     let len = ds_length (description_at h) in
     require (unat len \<ge> sizeof_description) ''len >= sizeof(description)'' (
     andThen
       (if ucast len > mh_length mapping
        then andThen (kernel_map_new ph (ucast len) k1) (\<lambda>(mapping2, k2). andThen (kernel_map_destroy mapping k2) (\<lambda>k3. Inr (mapping2, k3)))
        else Inr (mapping, k1)) (\<lambda>(mapping2, k3).
     andThen (kernel_view k3 (mem_map_ptr mapping2) (unat len)) (\<lambda>b.
     require (acpi_checksum b 0 = 0) ''!checksum(&desc, desc.length)'' (
     andThen (kernel_map_destroy mapping2 k3) (\<lambda>k4. Inr (b, k4))))))))"

section \<open>The code: what the tables say\<close>

definition put_description :: "description \<Rightarrow> bytes res" where
  "put_description d = put_all [
     put_formatted_string ((format_array (ds_signature d))\<lparr>fs_width := 4\<rparr>), put_text '' '',
     put_formatted_number ((as_hex 8 (ucast (ds_length d) - 36))\<lparr>fn_width := 4\<rparr>),
     put_text '' OEM '', put_formatted_string ((format_array (ds_oem_id d))\<lparr>fs_width := 6\<rparr>), put_text '' '',
     put_formatted_string ((format_array (ds_oem_table_id d))\<lparr>fs_width := 8\<rparr>),
     put_text '' Vendor '', put_formatted_string ((format_array (ds_vendor_id d))\<lparr>fs_width := 4\<rparr>)]"

definition icst_processor_local_apic :: u8 where "icst_processor_local_apic = 0"
definition icst_io_apic :: u8 where "icst_io_apic = 1"
definition icst_interrupt_source_override :: u8 where "icst_interrupt_source_override = 2"
definition icst_local_apic_nmi :: u8 where "icst_local_apic_nmi = 4"

lemmas icst_defs = icst_processor_local_apic_def icst_io_apic_def icst_interrupt_source_override_def icst_local_apic_nmi_def

text \<open>The line for the entry at the front of \<open>p\<close>, whose length is \<open>len\<close>.\<close>

definition madt_entry_line :: "bytes \<Rightarrow> bytes res" where
  "madt_entry_line p =
     (let t = p ! 0; len = p ! 1 in
      if t = icst_processor_local_apic then
        require (len = 8) ''len == 8'' (
        require (load32 p 4 = 0 \<or> load32 p 4 = 1) ''flags == 0 || flags == 1'' (
          put_all [put_text '' Processor Local APIC processor id '', put_hex 1 (ucast (p ! 2)), put_text '' APIC id '', put_hex 1 (ucast (p ! 3)),
            put_text '' '', put_text (if load32 p 4 \<noteq> 0 then ''Enabled'' else ''Disabled''), Inr [10]]))
      else if t = icst_io_apic then
        require (len = 12) ''len == 12'' (
        require (p ! 3 = 0) ''p[3] == 0'' (
          put_all [put_text '' I/O APIC id '', put_hex 1 (ucast (p ! 2)), put_text '' address '', put_hex 4 (ucast (load32 p 4)),
            put_text '' interrupt base '', put_hex 4 (ucast (load32 p 8)), Inr [10]]))
      else if t = icst_interrupt_source_override then
        require (len = 10) ''len == 10'' (
        require (p ! 2 = 0) ''p[2] == 0'' (
          put_all [put_text '' Interrupt source override IRQ#'', put_hex 1 (ucast (p ! 3)), put_text '' global interrupt '', put_hex 4 (ucast (load32 p 4)),
            put_text '' flags '', put_hex 2 (ucast (load16 p 8)), Inr [10]]))
      else if t = icst_local_apic_nmi then
        require (len = 6) ''len == 6'' (
          put_all [put_text '' Local APIC NMI processor id '', put_hex 1 (ucast (p ! 2)), put_text '' flags '', put_hex 2 (ucast (load16 p 3)),
            put_text '' LINT# '', put_hex 1 (ucast (p ! 5)), Inr [10]])
      else Inl (Fatal ''false''))"

fun madt_entries :: "nat \<Rightarrow> bytes \<Rightarrow> bytes res" where
  "madt_entries fuel p =
     (if p = [] then Inr []
      else case fuel of 0 \<Rightarrow> Inl No_return
      | Suc n \<Rightarrow>
          require (2 \<le> length p) ''p + 2 <= end'' (
          require (unat (p ! 1) \<le> length p) ''p + p[1] <= end'' (
          andThen (madt_entry_line p) (\<lambda>l. andThen (madt_entries n (drop (unat (p ! 1)) p)) (\<lambda>r. Inr (l @ r))))))"

declare madt_entries.simps [simp del]

definition handle_madt :: "bytes \<Rightarrow> bytes res" where
  "handle_madt b =
     put_all [put_description (description_at b), Inr [10],
       madt_entries (unat (ds_length (description_at b))) (drop sizeof_madt (take (unat (ds_length (description_at b))) b))]"

text \<open>The address and the length of the last DSDT are kept for \<open>hack-acpi-dsdt\<close>.\<close>

record acpi_state =
  ac_mm :: kernel_memory_manager
  ac_out :: bytes
  ac_dsdt_phys :: u64
  ac_dsdt_len :: u32

definition say :: "bytes res list \<Rightarrow> acpi_state \<Rightarrow> acpi_state res" where
  "say ps s = andThen (put_all ps) (\<lambda>b. Inr (s\<lparr>ac_out := ac_out s @ b\<rparr>))"

definition acpi_get :: "u64 \<Rightarrow> acpi_state \<Rightarrow> (bytes \<times> acpi_state) res" where
  "acpi_get ph s = andThen (get_description ph (ac_mm s)) (\<lambda>(b, k). Inr (b, s\<lparr>ac_mm := k\<rparr>))"

definition handle_facp :: "bytes \<Rightarrow> acpi_state \<Rightarrow> acpi_state res" where
  "handle_facp b s =
     (let facp = facp_at b in
      andThen (say [put_description (description_at b), Inr [10], put_text '' Revision '', put_i32 (ucast (ds_revision facp)), Inr [10]] s) (\<lambda>s1.
      require ((ds_revision facp = 1 \<and> unat (ds_length facp) = 0x50 + sizeof_description) \<or>
               (ds_revision facp = 2 \<and> unat (ds_length facp) = 0x5d + sizeof_description)) ''facp.revision'' (
      andThen (say [put_text '' FACS    '', put_hex 4 (ucast (fa_firmware_ctrl facp)), Inr [10],
        put_text '' DSDT    '', put_hex 4 (ucast (fa_dsdt facp)), Inr [10],
        put_text '' SCI_INT '', put_hex 2 (ucast (fa_sci_int facp)), Inr [10],
        put_text '' SCI_CMD '', put_hex 4 (ucast (fa_sci_cmd facp)), Inr [10]] s1) (\<lambda>s2.
      andThen (acpi_get (ucast (fa_dsdt facp)) s2) (\<lambda>(dsdt, s3).
      andThen (say [put_text '' '', put_description (description_at dsdt), Inr [10]] s3) (\<lambda>s4.
        Inr (s4\<lparr>ac_dsdt_phys := ucast (fa_dsdt facp), ac_dsdt_len := ds_length (description_at dsdt)\<rparr>)))))))"

definition match_structure :: "bytes \<Rightarrow> nat \<Rightarrow> bytes \<Rightarrow> bool" where
  "match_structure expected_signature sizeof_T b \<longleftrightarrow>
     ds_signature (description_at b) = expected_signature \<and> unat (ds_length (description_at b)) \<ge> sizeof_T"

definition handle_table :: "bytes \<Rightarrow> acpi_state \<Rightarrow> acpi_state res" where
  "handle_table b s =
     (if match_structure madt_signature sizeof_madt b then say [handle_madt b] s
      else if match_structure facp_signature sizeof_facp b then handle_facp b s
      else say [put_text '' ??'', put_description (description_at b), Inr [10]] s)"

fun handle_tables :: "bytes list \<Rightarrow> acpi_state \<Rightarrow> acpi_state res" where
  "handle_tables [] s = Inr s"
| "handle_tables (b # bs) s = andThen (handle_table b s) (handle_tables bs)"

fun get_tables :: "bytes \<Rightarrow> nat \<Rightarrow> nat \<Rightarrow> acpi_state \<Rightarrow> (bytes list \<times> acpi_state) res" where
  "get_tables rsdt i 0 s = Inr ([], s)"
| "get_tables rsdt i (Suc n) s =
     andThen (acpi_get (ucast (load32 rsdt (sizeof_description + 4 * i))) s) (\<lambda>(b, s1).
     andThen (get_tables rsdt (Suc i) n s1) (\<lambda>(bs, s2). Inr (b # bs, s2)))"

definition acpi_memory :: "acpi_state \<Rightarrow> mem" where "acpi_memory s = fst (km_phys (ac_mm s))"

text \<open>What \<open>find_rsdp\<close> says when it returns a pointer.\<close>

definition say_found :: "u64 option \<Rightarrow> acpi_state \<Rightarrow> acpi_state res" where
  "say_found r s =
     (case r of None \<Rightarrow> Inr s
      | Some a \<Rightarrow> say [put_text (if rp_revision (root_pointer_at (phys_view (acpi_memory s) a sizeof_root_pointer)) = rsdp_v1
            then ''Found v1 rsdp @ '' else ''Found v2 rsdp @ ''), put_hex 8 (to_identity_mapped_ptr a), Inr [10]] s)"

definition ebda_pointer :: u64 where "ebda_pointer = 0x40E"

definition acpi_test :: "acpi_state \<Rightarrow> acpi_state res" where
  "acpi_test s =
     (let m = acpi_memory s; ebda_address = ucast (load16 (phys_view m ebda_pointer 2) 0) * 16 in
      andThen (say [put_text ''Extended BIOS Data Area: '', put_hex 8 ebda_address, Inr [10]] s) (\<lambda>s1.
      andThen (find_rsdp m ebda_address (ebda_address + push_bit 10 1)) (\<lambda>r.
      andThen (say_found r s1) (\<lambda>s1.
      andThen (case r of Some a \<Rightarrow> Inr (r, s1)
        | None \<Rightarrow> andThen (say [put_text ''Searching main BIOS area'', Inr [10]] s1) (\<lambda>s2.
                  andThen (find_rsdp m 0x000e0000 0x000ffff0) (\<lambda>r2. andThen (say_found r2 s2) (\<lambda>s2. Inr (r2, s2))))) (\<lambda>(r2, s2).
      case r2 of None \<Rightarrow> Inl (Fatal ''ACPI not available'')
      | Some a \<Rightarrow>
          let rsdp = root_pointer_at (phys_view m a sizeof_root_pointer) in
          andThen (acpi_get (ucast (rp_rsdt_address rsdp)) s2) (\<lambda>(rsdt, s3).
          let d = description_at rsdt in
          andThen (say [put_description d, Inr [10]] s3) (\<lambda>s4.
          require (ds_revision d = 1) ''rsdt_desc.revision == 1'' (
          andThen (get_tables rsdt 0 ((unat (ds_length d) - sizeof_description) div 4) s4) (\<lambda>(tables, s5).
          andThen (say ([put_text ''ACPI OEMID    '', put_formatted_string (format_array (rp_oem_id rsdp)), Inr [10],
            put_text ''ACPI Revision '', put_i32 (ucast (rp_revision rsdp)), Inr [10],
            put_text ''ACPI RsdtAddress '', put_hex 4 (ucast (rp_rsdt_address rsdp)), Inr [10]] @
            (if rp_revision rsdp = rsdp_v2
             then let v2 = root_pointer_v2_at (phys_view (acpi_memory s5) a sizeof_root_pointer_v2) in
               [put_text ''Length      '', put_u32 (rp_length v2), Inr [10], put_text ''XsdtAddress '', put_hex 8 (rp_xsdt_address v2), Inr [10]]
             else [])) s5) (handle_tables tables))))))))))"

section \<open>The root pointer\<close>

lemma find_rsdp_from_eq:
  assumes "unat high - unat addr = 16 * n" "addr \<le> high"
  shows "find_rsdp_from n m addr high = Inr (find (rsdp_candidate m) (List.map (\<lambda>i. addr + 16 * of_nat i) [0..<n]))"
  using assms
proof (induction n arbitrary: addr)
  case 0
  then have "\<not> addr < high" by (simp add: word_less_nat_alt)
  then show ?case by (simp add: find_rsdp_from.simps)
next
  case (Suc n)
  have lt: "unat addr + 16 \<le> unat high" using Suc.prems by (simp add: word_le_nat_alt)
  have a: "unat (addr + 16) = unat addr + 16" using lt u64_range [of high] by (simp add: u64_add)
  have "addr < high" using lt by (simp add: word_less_nat_alt)
  moreover have "find_rsdp_from n m (addr + 16) high = Inr (find (rsdp_candidate m) (List.map (\<lambda>i. addr + 16 + 16 * of_nat i) [0..<n]))"
    using Suc.prems lt by (intro Suc.IH) (simp_all add: a word_le_nat_alt)
  moreover have "List.map (\<lambda>i. addr + 16 * of_nat i) [0..<Suc n] = addr # List.map (\<lambda>i. addr + 16 + 16 * of_nat i) [0..<n]"
    by (subst map_upt_Suc) (simp add: algebra_simps)
  ultimately show ?case by (simp add: find_rsdp_from.simps del: upt_Suc)
qed

lemma low4: "x AND 15 = 0 \<longleftrightarrow> 16 dvd unat (x :: u64)"
proof -
  have "x AND mask 4 = 0 \<longleftrightarrow> unat (take_bit 4 x) = 0" by (simp add: take_bit_eq_mask word_unat_eq_iff)
  also have "unat (take_bit 4 x) = unat x mod 16" by (simp add: unsigned_take_bit_eq take_bit_eq_mod unat_mod)
  finally show ?thesis by (simp add: mask_eq_exp_minus_1 dvd_eq_mod_eq_0)
qed

text \<open>the search for the root pointer ends, and finds the first multiple of 16 in its range where there is one, with
  the right signature and sums; it does not look beyond its range.\<close>

theorem find_rsdp_finds_first:
  assumes "low AND 15 = 0" "high AND 15 = 0" "low < high"
  shows "find_rsdp m low high = Inr (find (rsdp_candidate m) (List.map (\<lambda>i. low + 16 * of_nat i) [0..<unat (high - low) div 16]))"
proof -
  have d: "16 dvd unat low" "16 dvd unat high" using assms(1,2) by (simp_all add: low4)
  have "unat (high - low) = unat high - unat low" using assms(3) by (simp add: u64_sub)
  moreover from this have "unat high - unat low = 16 * (unat (high - low) div 16)" using d by (simp add: dvd_diff_nat)
  ultimately show ?thesis using assms find_rsdp_from_eq [of high low "unat (high - low) div 16" m] by (simp add: find_rsdp_def)
qed

section \<open>The interrupt controllers\<close>

datatype madt_entry =
    Local_apic u8 u8 bool      \<comment> \<open>processor, APIC, enabled\<close>
  | Io_apic u8 u32 u32         \<comment> \<open>id, address, first interrupt\<close>
  | Override u8 u32 u16        \<comment> \<open>ISA line, interrupt, flags\<close>
  | Local_nmi u8 u16 u8        \<comment> \<open>processor, flags, local line\<close>

fun madt_bytes :: "madt_entry \<Rightarrow> bytes" where
  "madt_bytes (Local_apic p a e) = [0, 8, p, a] @ store32 (if e then 1 else 0)"
| "madt_bytes (Io_apic i a b) = [1, 12, i, 0] @ store32 a @ store32 b"
| "madt_bytes (Override l i f) = [2, 10, 0, l] @ store32 i @ store16 f"
| "madt_bytes (Local_nmi p f l) = [4, 6, p] @ store16 f @ [l]"

fun madt_line :: "madt_entry \<Rightarrow> bytes res" where
  "madt_line (Local_apic p a e) = put_all [put_text '' Processor Local APIC processor id '', put_hex 1 (ucast p), put_text '' APIC id '', put_hex 1 (ucast a),
     put_text '' '', put_text (if e then ''Enabled'' else ''Disabled''), Inr [10]]"
| "madt_line (Io_apic i a b) = put_all [put_text '' I/O APIC id '', put_hex 1 (ucast i), put_text '' address '', put_hex 4 (ucast a),
     put_text '' interrupt base '', put_hex 4 (ucast b), Inr [10]]"
| "madt_line (Override l i f) = put_all [put_text '' Interrupt source override IRQ#'', put_hex 1 (ucast l), put_text '' global interrupt '', put_hex 4 (ucast i),
     put_text '' flags '', put_hex 2 (ucast f), Inr [10]]"
| "madt_line (Local_nmi p f l) = put_all [put_text '' Local APIC NMI processor id '', put_hex 1 (ucast p), put_text '' flags '', put_hex 2 (ucast f),
     put_text '' LINT# '', put_hex 1 (ucast l), Inr [10]]"

lemma store_load32: "store32 (load32 [a, b, c, d] 0) = [a, b, c, d]"
  by (simp add: store32_def load32_def) (auto intro!: bit_word_eqI simp: bit_simps)

lemma store_load16: "store16 (load16 [a, b] 0) = [a, b]"
  by (simp add: store16_def load16_def) (auto intro!: bit_word_eqI simp: bit_simps)

lemma load16_at: "length a = k \<Longrightarrow> load16 (a @ store16 w @ r) k = w"
proof -
  assume "length a = k"
  then have "load16 (a @ store16 w @ r) k = load16 (store16 w @ r) 0" using load_drop(1) [of k "a @ store16 w @ r" 0] by simp
  then show ?thesis using load_prefix(1) [of 0 "store16 w" r] by simp
qed

lemma madt_line_of_bytes: "madt_entry_line (madt_bytes e @ r) = madt_line e"
proof (cases e)
  case (Local_apic p a b)
  have "load32 ([0, 8, p, a] @ store32 (if b then 1 else 0) @ r) 4 = (if b then 1 else 0)" by (rule load32_at) simp
  then show ?thesis by (simp add: Local_apic madt_entry_line_def icst_defs)
next
  case (Io_apic i a b)
  have "load32 ([1, 12, i, 0] @ store32 a @ store32 b @ r) 4 = a" "load32 (([1, 12, i, 0] @ store32 a) @ store32 b @ r) 8 = b"
    by (rule load32_at, simp)+
  then show ?thesis by (simp add: Io_apic madt_entry_line_def icst_defs)
next
  case (Override l i f)
  have "load32 ([2, 10, 0, l] @ store32 i @ store16 f @ r) 4 = i" "load16 (([2, 10, 0, l] @ store32 i) @ store16 f @ r) 8 = f"
    by (rule load32_at load16_at, simp)+
  then show ?thesis by (simp add: Override madt_entry_line_def icst_defs)
next
  case (Local_nmi p f l)
  have "load16 ([4, 6, p] @ store16 f @ l # r) 3 = f" by (rule load16_at) simp
  moreover have "([4, 6, p] @ store16 f @ l # r) ! 5 = l" by (simp add: store16_def)
  ultimately show ?thesis by (simp add: Local_nmi madt_entry_line_def icst_defs)
qed

lemma madt_bytes_length: "madt_bytes e ! 1 = of_nat (length (madt_bytes e))" "length (madt_bytes e) = 8 \<or> length (madt_bytes e) = 12 \<or> length (madt_bytes e) = 10 \<or> length (madt_bytes e) = 6"
  by (cases e; simp)+

lemma prefix_of_nths: "n \<le> length p \<Longrightarrow> p = List.map (\<lambda>i. p ! i) [0..<n] @ drop n p"
  by (metis append_take_drop_id map_nth take_map take_upt plus_nat.add_0)

lemma loads_of_nths: "load32 p i = load32 [p ! i, p ! (i + 1), p ! (i + 2), p ! (i + 3)] 0" "load16 p i = load16 [p ! i, p ! (i + 1)] 0"
  by (simp_all add: load32_def load16_def)

lemma madt_entry_parses:
  assumes "madt_entry_line p = Inr l" "unat (p ! 1) \<le> length p"
  shows "\<exists>e. p = madt_bytes e @ drop (unat (p ! 1)) p \<and> madt_line e = Inr l"
proof -
  have ex: ?thesis if "take (unat (p ! 1)) p = madt_bytes e" for e
  proof -
    have p: "p = madt_bytes e @ drop (unat (p ! 1)) p" using that by (metis append_take_drop_id)
    then have "madt_line e = Inr l" using madt_line_of_bytes [of e "drop (unat (p ! 1)) p"] assms(1) by simp
    then show ?thesis using p by blast
  qed
  have nths: "take n p = List.map (\<lambda>i. p ! i) [0..<n]" if "n \<le> length p" for n
    using prefix_of_nths [OF that] that by (metis append_eq_conv_conj length_map length_upt minus_nat.diff_0)
  have upts: "[0..<8] = [0, 1, 2, 3, 4, 5, 6, 7]" "[0..<12] = [0, 1, 2, 3, 4, 5, 6, 7, 8, 9, 10, 11]"
    "[0..<10] = [0, 1, 2, 3, 4, 5, 6, 7, 8, 9]" "[0..<6] = [0, 1, 2, 3, 4, 5]" by code_simp+
  consider "p ! 0 = 0" "p ! 1 = 8" "load32 p 4 = 0 \<or> load32 p 4 = 1" | "p ! 0 = 1" "p ! 1 = 12" "p ! 3 = 0"
    | "p ! 0 = 2" "p ! 1 = 10" "p ! 2 = 0" | "p ! 0 = 4" "p ! 1 = 6"
    using assms(1) by (auto simp: madt_entry_line_def icst_defs require_eq_Inr Let_def split: if_splits)
  then show ?thesis
  proof cases
    case 1
    have "store32 (if load32 p 4 = 1 then 1 else 0) = store32 (load32 p 4)" using 1(3) by auto
    also have "\<dots> = [p ! 4, p ! 5, p ! 6, p ! 7]" by (subst loads_of_nths(1)) (simp add: store_load32)
    finally show ?thesis
      using 1 assms(2) nths [of 8, unfolded upts] by (intro ex [of "Local_apic (p ! 2) (p ! 3) (load32 p 4 = 1)"]) simp
  next
    case 2
    have "store32 (load32 p 4) = [p ! 4, p ! 5, p ! 6, p ! 7]" "store32 (load32 p 8) = [p ! 8, p ! 9, p ! 10, p ! 11]"
      by (subst loads_of_nths(1), simp add: store_load32)+
    then show ?thesis
      using 2 assms(2) nths [of 12, unfolded upts] by (intro ex [of "Io_apic (p ! 2) (load32 p 4) (load32 p 8)"]) simp
  next
    case 3
    have "store32 (load32 p 4) = [p ! 4, p ! 5, p ! 6, p ! 7]" "store16 (load16 p 8) = [p ! 8, p ! 9]"
      by (subst loads_of_nths, simp add: store_load32 store_load16)+
    then show ?thesis
      using 3 assms(2) nths [of 10, unfolded upts] by (intro ex [of "Override (p ! 3) (load32 p 4) (load16 p 8)"]) simp
  next
    case 4
    have "store16 (load16 p 3) = [p ! 3, p ! 4]" by (subst loads_of_nths, simp add: store_load16)
    then show ?thesis
      using 4 assms(2) nths [of 6, unfolded upts] by (intro ex [of "Local_nmi (p ! 2) (load16 p 3) (p ! 5)"]) simp
  qed
qed

text \<open>Any fuel from the length on is enough.\<close>

lemma madt_entries_of_bytes:
  "length (concat (List.map madt_bytes es)) \<le> n \<Longrightarrow> madt_entries n (concat (List.map madt_bytes es)) = put_all (List.map madt_line es)"
proof (induction es arbitrary: n)
  case Nil
  then show ?case by (simp add: madt_entries.simps)
next
  case (Cons e es)
  let ?b = "madt_bytes e" and ?r = "concat (List.map madt_bytes es)"
  have len: "length ?b \<ge> 2" "unat (of_nat (length ?b) :: u8) = length ?b" using madt_bytes_length(2) [of e] by auto
  then obtain k where k: "n = Suc k" using Cons.prems by (cases n) auto
  have "(?b @ ?r) ! 1 = of_nat (length ?b)" using madt_bytes_length(1) [of e] len by (simp add: nth_append)
  then have h: "unat ((?b @ ?r) ! 1) = length ?b" using len(2) by simp
  have "madt_entries k ?r = put_all (List.map madt_line es)" using Cons.prems len k by (intro Cons.IH) simp
  moreover have "?b \<noteq> []" using len by auto
  ultimately show ?case
    using len h k by (simp add: madt_entries.simps [of "Suc k"] madt_line_of_bytes)
qed

lemma madt_entries_parse: "madt_entries n p = Inr out \<Longrightarrow> \<exists>es. p = concat (List.map madt_bytes es)"
proof (induction n arbitrary: p out)
  case 0
  then have "p = []" by (simp add: madt_entries.simps split: if_splits)
  then show ?case by (intro exI [of _ "[]"]) simp
next
  case (Suc n)
  show ?case
  proof (cases "p = []")
    case True
    then show ?thesis by (intro exI [of _ "[]"]) simp
  next
    case False
    then obtain l r where e: "madt_entry_line p = Inr l" "unat (p ! 1) \<le> length p" "madt_entries n (drop (unat (p ! 1)) p) = Inr r"
      using Suc.prems by (auto simp: madt_entries.simps [of "Suc n"] require_eq_Inr andThen_eq_Inr)
    obtain e where "p = madt_bytes e @ drop (unat (p ! 1)) p" using madt_entry_parses [OF e(1,2)] by blast
    moreover obtain es where "drop (unat (p ! 1)) p = concat (List.map madt_bytes es)" using Suc.IH [OF e(3)] by blast
    ultimately show ?thesis by (intro exI [of _ "e # es"]) simp
  qed
qed

text \<open>C28: the body of the table of interrupt controllers is accepted exactly when it is a sequence of entries of the four known
  kinds, well formed and with nothing left over; then the output has the line of each entry, in order.\<close>

theorem madt_accepts_exactly_entries:
  "madt_entries (length p) p = Inr out \<longleftrightarrow> (\<exists>es. p = concat (List.map madt_bytes es) \<and> put_all (List.map madt_line es) = Inr out)"
  using madt_entries_parse [of "length p" p out] madt_entries_of_bytes by fastforce

section \<open>Witness\<close>

theorem find_rsdp_finds_first_witness:
  "find_rsdp (\<lambda>_. 0) 0x20 0x40 = Inr (find (rsdp_candidate (\<lambda>_. 0)) [0x20, 0x30])"
proof -
  have "[0..<2] = [0, 1 :: nat]" by code_simp
  then show ?thesis using find_rsdp_finds_first [of "0x20" "0x40" "\<lambda>_. 0"] by simp
qed

end
