(* ===== verification/Boot.thy ===== *)
theory Boot
  imports Processes TextScreen Isr
begin

text \<open>
  The start of the kernel, in \<open>kernel/kernel.cpp\<close>: the memory map that the boot loader leaves, the choice of the area for the
  kernel's memory manager and what is mapped first, the debug output to the console and to the port of an emulator, and the
  timer's interrupt handler.
\<close>

section \<open>The code: memory\<close>

definition smap_end_of_list :: u32 where "smap_end_of_list = 0"
definition smap_available :: u32 where "smap_available = 1"

record smap_entry =
  sm_base :: u64
  sm_length :: u64
  sm_type :: u32

definition min_len_megabytes :: u64 where "min_len_megabytes = 4"
definition min_base :: u64 where "min_base = push_bit 20 1"
definition min_len :: u64 where "min_len = push_bit 20 min_len_megabytes"
definition max_base :: u64 where "max_base = identity_map_length - min_len_megabytes"

definition area_fits :: "smap_entry \<Rightarrow> bool" where
  "area_fits e \<longleftrightarrow> sm_type e = smap_available \<and> sm_base e \<ge> min_base \<and> sm_base e \<le> max_base \<and> sm_length e \<ge> min_len"

text \<open>The loop over the map, with the area chosen so far and what is printed.\<close>

fun select_area :: "smap_entry list \<Rightarrow> u64 \<times> u64 \<Rightarrow> bytes \<Rightarrow> ((u64 \<times> u64) \<times> bytes) res" where
  "select_area [] sel out = Inl (Wild ''smap'')"
| "select_area (e # es) sel out =
     (if sm_type e = smap_end_of_list then Inr (sel, out)
      else
        andThen (put_formatted_number (as_hex 8 (sm_base e))) (\<lambda>b.
        andThen (put_formatted_number (as_hex 8 (sm_length e))) (\<lambda>l.
        andThen (put_formatted_number (as_hex 4 (ucast (sm_type e)))) (\<lambda>t.
        let line = out @ b @ [32] @ l @ [32] @ t in
        if area_fits e then
          if snd sel = 0 then select_area es (sm_base e, sm_length e) (line @ ascii '' *'' @ [10])
          else select_area es sel (line @ ascii '' +'' @ [10])
        else select_area es sel (line @ ascii '' -'' @ [10])))))"

fun map_image_sections :: "u64 \<Rightarrow> u64 \<Rightarrow> section_header list \<Rightarrow> kernel_memory_manager \<Rightarrow> kernel_memory_manager res" where
  "map_image_sections image_base image_phys [] k = Inr k"
| "map_image_sections image_base image_phys (s # ss) k =
     andThen (kernel_do_map_memory k (image_base + ucast (sh_VirtualAddress s)) (round_up (ucast (sh_VirtualSize s)) page_size)
        (section_memory_type (sh_Characteristics s)) (image_phys + ucast (sh_PointerToRawData s))) (\<lambda>(_, k1).
     map_image_sections image_base image_phys ss k1)"

definition smap_heading :: bytes where
  "smap_heading = ascii ''Base             Length           Type'' @ [10] @ ascii ''FEDCBA9876543210 FEDCBA9876543210 76543210'' @ [10]"

text \<open>\<open>img\<close> is the kernel's image and \<open>image_phys\<close> its physical address. The result has the new value of \<open>cr3\<close>.\<close>

definition construct_mm :: "mem \<Rightarrow> u64 \<Rightarrow> smap_entry list \<Rightarrow> bytes \<Rightarrow> u64 \<Rightarrow> (kernel_memory_manager \<times> u64 \<times> bytes) res" where
  "construct_mm m cr3 smap img image_phys =
     andThen (select_area smap (0, 0) smap_heading) (\<lambda>((base_addr, base_len), out).
     require (base_len \<noteq> 0) ''base_len != 0'' (
     andThen (kernel_memory_manager_new m cr3 base_addr base_len) (\<lambda>k.
     andThen (kernel_do_map_memory k identity_map_start identity_map_length (memory_type_rw OR mt_ps_2mb) 0) (\<lambda>(_, k1).
     andThen (image_nt_headers img) (\<lambda>nth.
     let image_base = oh_ImageBase (nt_OptionalHeader nth) in
     andThen (kernel_do_map_memory k1 image_base (round_up (ucast (oh_SizeOfHeaders (nt_OptionalHeader nth))) page_size) mt_read image_phys) (\<lambda>(_, k2).
     andThen (image_sections img) (\<lambda>ss.
     andThen (map_image_sections image_base image_phys ss k2) (\<lambda>k3.
       Inr (k3, from_identity_mapped_ptr (mm_pml4 (km_mm k3)), out)))))))))"

section \<open>The code: debug output\<close>

record debug_out =
  do_bochs :: bool
  do_screen :: text_screen

definition bochs_debug_out_port :: u16 where "bochs_debug_out_port = 0xe9"

definition bochs_debug_out_available :: "'p ports \<Rightarrow> 'p \<Rightarrow> bool \<times> 'p" where
  "bochs_debug_out_available hw s = (let (v, s1) = in8 hw bochs_debug_out_port s in (ucast v = bochs_debug_out_port, s1))"

definition debug_out_new :: "'p ports \<Rightarrow> text_screen \<Rightarrow> 'p \<Rightarrow> debug_out \<times> 'p" where
  "debug_out_new hw screen s =
     (let (b, s1) = bochs_debug_out_available hw s in (\<lparr>do_bochs = b, do_screen = text_screen_new screen\<rparr>, s1))"

definition debug_write :: "'p ports \<Rightarrow> bytes \<Rightarrow> debug_out \<Rightarrow> 'p \<Rightarrow> (debug_out \<times> 'p) res" where
  "debug_write hw data d s =
     andThen (ts_write data (do_screen d)) (\<lambda>ts.
       Inr (d\<lparr>do_screen := ts\<rparr>, if do_bochs d then outs hw (List.map (\<lambda>c. (bochs_debug_out_port, c)) data) s else s))"

section \<open>The code: the timer\<close>

record timer =
  tm_pit_ticks :: u64
  tm_mem :: mem

definition timer_irq :: u8 where "timer_irq = 0"

text \<open>The handler counts, and increments the first character on the screen.\<close>

definition timer_isr :: "timer irq_handler" where
  "timer_isr t = Inr (t\<lparr>tm_pit_ticks := tm_pit_ticks t + 1,
     tm_mem := store_byte 0xb8000 (phys_byte (tm_mem t) 0xb8000 + 1) (tm_mem t)\<rparr>)"

definition timer_new :: "'p ports \<Rightarrow> timer irq_handlers \<times> 'p \<Rightarrow> (timer irq_handlers \<times> 'p) res" where
  "timer_new hw st = register_irq_handler hw timer_irq timer_isr st"

definition timer_destroy :: "'p ports \<Rightarrow> timer \<Rightarrow> timer irq_handlers \<times> 'p \<Rightarrow> ((timer irq_handlers \<times> 'p) \<times> bytes) res" where
  "timer_destroy hw t st =
     andThen (isr_registration_destroy hw timer_irq st) (\<lambda>st1.
     andThen (put_u64 (tm_pit_ticks t)) (\<lambda>n. Inr (st1, ascii ''[pit] '' @ n @ ascii '' ticks elapsed'' @ [10])))"

section \<open>The code: what follows the kernel in its file\<close>

text \<open>The symbols are behind the image, the first program behind the symbols.\<close>

definition locate_user_exe :: "bytes \<Rightarrow> bytes \<Rightarrow> (bytes \<times> bytes) res" where
  "locate_user_exe img orig_file =
     andThen (file_size_from_header img) (\<lambda>file_size.
     let debug_info_text = drop (unat file_size) orig_file in
     andThen (string_length debug_info_text) (\<lambda>n. Inr (debug_info_text, drop (n + 1) debug_info_text)))"

section \<open>The area\<close>

lemma area_fits_length: "area_fits e \<Longrightarrow> sm_length e \<noteq> 0"
  by (auto simp: area_fits_def min_len_def min_len_megabytes_def)

lemma select_area_first:
  "select_area es sel out = Inr (r, out') \<Longrightarrow>
   \<exists>n. n < length es \<and> sm_type (es ! n) = smap_end_of_list \<and> (\<forall>i < n. sm_type (es ! i) \<noteq> smap_end_of_list) \<and>
     r = (if snd sel \<noteq> 0 then sel else case find area_fits (take n es) of None \<Rightarrow> sel | Some e \<Rightarrow> (sm_base e, sm_length e))"
proof (induction es arbitrary: sel out)
  case (Cons e es)
  show ?case
  proof (cases "sm_type e = smap_end_of_list")
    case True
    then show ?thesis using Cons.prems by (intro exI [of _ 0]) auto
  next
    case False
    define sel1 where "sel1 = (if area_fits e \<and> snd sel = 0 then (sm_base e, sm_length e) else sel)"
    have "\<exists>out1. select_area es sel1 out1 = Inr (r, out')"
      using Cons.prems False by (auto simp: andThen_eq_Inr Let_def sel1_def split: if_splits)
    then obtain n where n: "n < length es" "sm_type (es ! n) = smap_end_of_list" "\<forall>i < n. sm_type (es ! i) \<noteq> smap_end_of_list"
      "r = (if snd sel1 \<noteq> 0 then sel1 else case find area_fits (take n es) of None \<Rightarrow> sel1 | Some e \<Rightarrow> (sm_base e, sm_length e))"
      using Cons.IH by blast
    then show ?thesis
      using False area_fits_length [of e] by (intro exI [of _ "Suc n"]) (auto simp: sel1_def less_Suc_eq_0_disj split: option.splits)
  qed
qed simp

text \<open>the kernel's memory is the first area of the map, up to its end mark, that is available, above the first megabyte,
  at least four megabytes long and begins where the identity map reaches; there is none only if no area is such.\<close>

theorem boot_selects_first_area:
  assumes "select_area smap (0, 0) out = Inr (r, out')"
  shows "\<exists>n. n < length smap \<and> sm_type (smap ! n) = smap_end_of_list \<and> (\<forall>i < n. sm_type (smap ! i) \<noteq> smap_end_of_list) \<and>
     r = (case find area_fits (take n smap) of None \<Rightarrow> (0, 0) | Some e \<Rightarrow> (sm_base e, sm_length e))"
  using select_area_first [OF assms] by simp

text \<open>The bound on the base subtracts four bytes where four megabytes are meant: an area of four megabytes is accepted of which
  only the first 4 bytes are in the identity map.\<close>

lemma area_past_identity_map:
  "area_fits \<lparr>sm_base = identity_map_length - 4, sm_length = min_len, sm_type = smap_available\<rparr>"
  by (simp add: area_fits_def max_base_def min_base_def min_len_def min_len_megabytes_def identity_map_length_def)

definition demo_smap :: "smap_entry list" where
  "demo_smap = [\<lparr>sm_base = 0, sm_length = 0x9f000, sm_type = 1\<rparr>, \<lparr>sm_base = 0x100000, sm_length = 0x7f00000, sm_type = 1\<rparr>,
     \<lparr>sm_base = 0, sm_length = 0, sm_type = 0\<rparr>]"

theorem boot_selects_first_area_witness:
  "\<exists>r out'. select_area demo_smap (0, 0) [] = Inr (r, out') \<and> r = (0x100000, 0x7f00000)"
proof -
  have "\<exists>out'. select_area demo_smap (0, 0) [] = Inr ((0x100000, 0x7f00000), out')"
  proof -
    have "map_sum id fst (select_area demo_smap (0, 0) []) = Inr (0x100000, 0x7f00000)" by code_simp
    then show ?thesis by (cases "select_area demo_smap (0, 0) []") auto
  qed
  then obtain out' where o: "select_area demo_smap (0, 0) [] = Inr ((0x100000, 0x7f00000), out')" by blast
  from boot_selects_first_area [OF this] show ?thesis using o by blast
qed

end
