(* ===== verification/Aml.thy ===== *)
theory Aml
  imports Pe Acpi
begin

text \<open>
  The ACPI machine language interpreter, \<open>exp/aml/aml.cpp\<close>, first part: op codes, the tree of a table, parse states, and the
  name space with its scopes, in the order of the file. A parser works on a \<open>parse_state\<close>: the bytes that are left of its
  package, and the memory behind them, which it should not touch but can (two checks and the end of a string read ahead).
  Strings (\<open>kstring\<close>) are kept without their terminators. What the parser prints for debugging is left out, except in the
  evaluation of a method, where it is all that happens.
\<close>

section \<open>The code: op codes\<close>

definition op_zero :: u16 where "op_zero = 0x0"
definition op_one :: u16 where "op_one = 0x1"
definition op_name :: u16 where "op_name = 0x8"
definition op_byte :: u16 where "op_byte = 0xa"
definition op_word :: u16 where "op_word = 0xb"
definition op_dword :: u16 where "op_dword = 0xc"
definition op_string :: u16 where "op_string = 0xd"
definition op_qword :: u16 where "op_qword = 0xe"
definition op_scope :: u16 where "op_scope = 0x10"
definition op_buffer :: u16 where "op_buffer = 0x11"
definition op_package :: u16 where "op_package = 0x12"
definition op_method :: u16 where "op_method = 0x14"
definition op_ext_prefix :: u16 where "op_ext_prefix = 0x5b"
definition op_local_0 :: u16 where "op_local_0 = 0x60"
definition op_local_1 :: u16 where "op_local_1 = 0x61"
definition op_local_2 :: u16 where "op_local_2 = 0x62"
definition op_local_3 :: u16 where "op_local_3 = 0x63"
definition op_local_4 :: u16 where "op_local_4 = 0x64"
definition op_local_5 :: u16 where "op_local_5 = 0x65"
definition op_local_6 :: u16 where "op_local_6 = 0x66"
definition op_local_7 :: u16 where "op_local_7 = 0x67"
definition op_arg_0 :: u16 where "op_arg_0 = 0x68"
definition op_arg_1 :: u16 where "op_arg_1 = 0x69"
definition op_arg_2 :: u16 where "op_arg_2 = 0x6a"
definition op_arg_3 :: u16 where "op_arg_3 = 0x6b"
definition op_arg_4 :: u16 where "op_arg_4 = 0x6c"
definition op_arg_5 :: u16 where "op_arg_5 = 0x6d"
definition op_arg_6 :: u16 where "op_arg_6 = 0x6e"
definition op_store :: u16 where "op_store = 0x70"
definition op_add :: u16 where "op_add = 0x72"
definition op_concat :: u16 where "op_concat = 0x73"
definition op_subtract :: u16 where "op_subtract = 0x74"
definition op_increment :: u16 where "op_increment = 0x75"
definition op_decrement :: u16 where "op_decrement = 0x76"
definition op_multiply :: u16 where "op_multiply = 0x77"
definition op_divide :: u16 where "op_divide = 0x78"
definition op_shift_left :: u16 where "op_shift_left = 0x79"
definition op_shift_right :: u16 where "op_shift_right = 0x7a"
definition op_and :: u16 where "op_and = 0x7b"
definition op_or :: u16 where "op_or = 0x7d"
definition op_xor :: u16 where "op_xor = 0x7f"
definition op_not :: u16 where "op_not = 0x80"
definition op_find_set_left_bit :: u16 where "op_find_set_left_bit = 0x81"
definition op_find_set_right_bit :: u16 where "op_find_set_right_bit = 0x82"
definition op_deref_of :: u16 where "op_deref_of = 0x83"
definition op_notify :: u16 where "op_notify = 0x86"
definition op_size_of :: u16 where "op_size_of = 0x87"
definition op_index :: u16 where "op_index = 0x88"
definition op_create_dword_field :: u16 where "op_create_dword_field = 0x8a"
definition op_create_word_field :: u16 where "op_create_word_field = 0x8b"
definition op_create_byte_field :: u16 where "op_create_byte_field = 0x8c"
definition op_create_bit_field :: u16 where "op_create_bit_field = 0x8d"
definition op_object_type :: u16 where "op_object_type = 0x8e"
definition op_create_qword_field :: u16 where "op_create_qword_field = 0x8f"
definition op_land :: u16 where "op_land = 0x90"
definition op_lor :: u16 where "op_lor = 0x91"
definition op_lnot :: u16 where "op_lnot = 0x92"
definition op_lequal :: u16 where "op_lequal = 0x93"
definition op_lgreater :: u16 where "op_lgreater = 0x94"
definition op_lless :: u16 where "op_lless = 0x95"
definition op_mid :: u16 where "op_mid = 0x9e"
definition op_if :: u16 where "op_if = 0xa0"
definition op_else :: u16 where "op_else = 0xa1"
definition op_while :: u16 where "op_while = 0xa2"
definition op_noop :: u16 where "op_noop = 0xa3"
definition op_return :: u16 where "op_return = 0xa4"
definition op_ones :: u16 where "op_ones = 0xff"
definition op_mutex :: u16 where "op_mutex = 0x5b01"
definition op_cond_ref_of :: u16 where "op_cond_ref_of = 0x5b12"
definition op_create_field :: u16 where "op_create_field = 0x5b13"
definition op_sleep :: u16 where "op_sleep = 0x5b22"
definition op_acquire :: u16 where "op_acquire = 0x5b23"
definition op_release :: u16 where "op_release = 0x5b27"
definition op_fatal :: u16 where "op_fatal = 0x5b32"
definition op_op_region :: u16 where "op_op_region = 0x5b80"
definition op_field :: u16 where "op_field = 0x5b81"
definition op_device :: u16 where "op_device = 0x5b82"
definition op_processor :: u16 where "op_processor = 0x5b83"
definition op_power_res :: u16 where "op_power_res = 0x5b84"
definition op_thermal_zone :: u16 where "op_thermal_zone = 0x5b85"
definition op_index_field :: u16 where "op_index_field = 0x5b86"
definition op_reserved_field :: u16 where "op_reserved_field = 0x8000"
definition op_access_field :: u16 where "op_access_field = 0x8001"
definition op_named_field :: u16 where "op_named_field = 0x8002"
definition op_package_element :: u16 where "op_package_element = 0x8003"
definition op_null_name :: u16 where "op_null_name = 0x8004"
definition op_constant :: u16 where "op_constant = 0x8005"
definition op_name_lookup :: u16 where "op_name_lookup = 0x8006"
definition op_method_call :: u16 where "op_method_call = 0x8007"
definition op_dead_scope :: u16 where "op_dead_scope = 0xfffe"
definition op_invalid :: u16 where "op_invalid = 0xffff"

lemmas opcode_defs = op_zero_def op_one_def op_name_def op_byte_def op_word_def op_dword_def op_string_def op_qword_def
  op_scope_def op_buffer_def op_package_def op_method_def op_ext_prefix_def op_local_0_def op_local_1_def op_local_2_def
  op_local_3_def op_local_4_def op_local_5_def op_local_6_def op_local_7_def op_arg_0_def op_arg_1_def op_arg_2_def
  op_arg_3_def op_arg_4_def op_arg_5_def op_arg_6_def op_store_def op_add_def op_concat_def op_subtract_def op_increment_def
  op_decrement_def op_multiply_def op_divide_def op_shift_left_def op_shift_right_def op_and_def op_or_def op_xor_def
  op_not_def op_find_set_left_bit_def op_find_set_right_bit_def op_deref_of_def op_notify_def op_size_of_def op_index_def
  op_create_dword_field_def op_create_word_field_def op_create_byte_field_def op_create_bit_field_def op_object_type_def
  op_create_qword_field_def op_land_def op_lor_def op_lnot_def op_lequal_def op_lgreater_def op_lless_def op_mid_def
  op_if_def op_else_def op_while_def op_noop_def op_return_def op_ones_def op_mutex_def op_cond_ref_of_def
  op_create_field_def op_sleep_def op_acquire_def op_release_def op_fatal_def op_op_region_def op_field_def op_device_def
  op_processor_def op_power_res_def op_thermal_zone_def op_index_field_def op_reserved_field_def op_access_field_def
  op_named_field_def op_package_element_def op_null_name_def op_constant_def op_name_lookup_def op_method_call_def
  op_dead_scope_def op_invalid_def

definition opcode_names :: "(u16 \<times> string) list" where
  "opcode_names = [
     (op_zero, ''Zero''),
     (op_one, ''One''),
     (op_name, ''Name''),
     (op_byte, ''Byte''),
     (op_word, ''Word''),
     (op_dword, ''Dword''),
     (op_string, ''String''),
     (op_qword, ''Qword''),
     (op_scope, ''Scope''),
     (op_buffer, ''Buffer''),
     (op_package, ''Package''),
     (op_method, ''Method''),
     (op_ext_prefix, ''ExtPrefix''),
     (op_local_0, ''Local0''),
     (op_local_1, ''Local1''),
     (op_local_2, ''Local2''),
     (op_local_3, ''Local3''),
     (op_local_4, ''Local4''),
     (op_local_5, ''Local5''),
     (op_local_6, ''Local6''),
     (op_local_7, ''Local7''),
     (op_arg_0, ''Arg0''),
     (op_arg_1, ''Arg1''),
     (op_arg_2, ''Arg2''),
     (op_arg_3, ''Arg3''),
     (op_arg_4, ''Arg4''),
     (op_arg_5, ''Arg5''),
     (op_arg_6, ''Arg6''),
     (op_store, ''Store''),
     (op_add, ''Add''),
     (op_concat, ''Concat''),
     (op_subtract, ''Subtract''),
     (op_increment, ''Increment''),
     (op_decrement, ''Decrement''),
     (op_multiply, ''Multiply''),
     (op_divide, ''Divide''),
     (op_shift_left, ''ShiftLeft''),
     (op_shift_right, ''ShiftRight''),
     (op_and, ''And''),
     (op_or, ''Or''),
     (op_xor, ''Xor''),
     (op_not, ''Not''),
     (op_find_set_left_bit, ''FindSetLeftBit''),
     (op_find_set_right_bit, ''FindSetRightBit''),
     (op_deref_of, ''DerefOf''),
     (op_notify, ''Notify''),
     (op_size_of, ''SizeOf''),
     (op_index, ''Index''),
     (op_create_dword_field, ''DwordField''),
     (op_create_word_field, ''WordField''),
     (op_create_byte_field, ''ByteField''),
     (op_create_bit_field, ''BitField''),
     (op_object_type, ''ObjectType''),
     (op_create_qword_field, ''CreateQwordField''),
     (op_land, ''LAnd''),
     (op_lor, ''LOr''),
     (op_lnot, ''LNot''),
     (op_lequal, ''LEqual''),
     (op_lgreater, ''LGreater''),
     (op_lless, ''LLess''),
     (op_mid, ''Mid''),
     (op_if, ''If''),
     (op_else, ''Else''),
     (op_while, ''While''),
     (op_noop, ''Noop''),
     (op_return, ''Return''),
     (op_ones, ''Ones''),
     (op_mutex, ''Mutex''),
     (op_cond_ref_of, ''CondRefOf''),
     (op_create_field, ''CreateField''),
     (op_sleep, ''Sleep''),
     (op_acquire, ''Acquire''),
     (op_release, ''Release''),
     (op_fatal, ''Fatal''),
     (op_op_region, ''OpRegion''),
     (op_field, ''Field''),
     (op_device, ''Device''),
     (op_processor, ''Processor''),
     (op_power_res, ''PowerRes''),
     (op_thermal_zone, ''ThermalZone''),
     (op_index_field, ''IndexField''),
     (op_reserved_field, ''ReservedField''),
     (op_access_field, ''AccessField''),
     (op_named_field, ''NamedField''),
     (op_package_element, ''PackageElement''),
     (op_null_name, ''NullName''),
     (op_constant, ''Constant''),
     (op_name_lookup, ''NameLookup''),
     (op_method_call, ''MethodCall''),
     (op_dead_scope, ''<DeadScope>''),
     (op_invalid, ''<Unknown>'')]"

definition is_extended :: "u16 \<Rightarrow> bool" where "is_extended op \<longleftrightarrow> op > 0xff"

definition put_opcode :: "u16 \<Rightarrow> bytes res" where
  "put_opcode op = (case map_of opcode_names op of Some s \<Rightarrow> put_text s | None \<Rightarrow> Inl (Fatal ''false''))"

section \<open>The code: the tree\<close>

type_synonym parse_state = "bytes \<times> bytes"

text \<open>A node of the tree, with the op code that a class has as a field first. A scope registration is the name under which
  the node is bound; \<open>None\<close> is a registration that is dead.\<close>

datatype aml_node =
    N_simple u16
  | N_text u16 bytes
  | N_const u64 u8
  | N_buffer "aml_node option" bytes
  | N_package "aml_node list"
  | N_op nat bytes "aml_node option list"
  | N_method bytes u8 parse_state
  | N_name bytes aml_node
  | N_method_call aml_node "aml_node list"
  | N_named_field bytes u32
  | N_field bytes u8 "aml_node list"
  | N_op_region bytes u8 "aml_node option" "aml_node option"
  | N_if aml_node "aml_node list" "aml_node list option"
  | N_while aml_node "aml_node list"
  | N_mutex bytes u8
  | N_create_field u16 bytes "aml_node option" "aml_node option"
  | N_container u16 "bytes option" "aml_node list"

fun node_op :: "aml_node \<Rightarrow> u16" where
  "node_op (N_simple op) = op"
| "node_op (N_text op s) = op"
| "node_op (N_const v n) = op_constant"
| "node_op (N_buffer s d) = op_buffer"
| "node_op (N_package es) = op_package"
| "node_op (N_op k s as) = op_invalid"
| "node_op (N_method s f st) = op_method"
| "node_op (N_name s n) = op_name"
| "node_op (N_method_call m as) = op_method_call"
| "node_op (N_named_field s l) = op_named_field"
| "node_op (N_field s f es) = op_field"
| "node_op (N_op_region s sp a b) = op_invalid"
| "node_op (N_if p a b) = op_invalid"
| "node_op (N_while p a) = op_invalid"
| "node_op (N_mutex s f) = op_invalid"
| "node_op (N_create_field op s a b) = op"
| "node_op (N_container op r ns) = op"

fun is_container :: "aml_node \<Rightarrow> bool" where
  "is_container (N_container op r ns) = True"
| "is_container n = False"

definition method_arg_count :: "u8 \<Rightarrow> nat" where "method_arg_count flags = unat (flags AND 0x07)"

section \<open>The code: parse states\<close>

definition peek :: "parse_state \<Rightarrow> u8 res" where
  "peek v = (case fst v of [] \<Rightarrow> Inl (Fatal ''!data_.empty()'') | b # _ \<Rightarrow> Inr b)"

definition peek_opcode :: "parse_state \<Rightarrow> u16 res" where
  "peek_opcode v =
     andThen (peek v) (\<lambda>first_byte.
     if ucast first_byte = op_ext_prefix then
       require (length (fst v) \<ge> 2) ''data_.size() >= 2'' (Inr (push_bit 8 (ucast first_byte) OR ucast (fst v ! 1)))
     else Inr (ucast first_byte))"

definition consume_n :: "nat \<Rightarrow> parse_state \<Rightarrow> (bytes \<times> parse_state) res" where
  "consume_n n v = require (length (fst v) \<ge> n) ''data_.size() >= size'' (Inr (take n (fst v), (drop n (fst v), snd v)))"

definition consume :: "parse_state \<Rightarrow> (u8 \<times> parse_state) res" where
  "consume v = andThen (consume_n 1 v) (\<lambda>(b, v1). Inr (b ! 0, v1))"

definition consume_word :: "parse_state \<Rightarrow> (u16 \<times> parse_state) res" where
  "consume_word v = andThen (consume_n 2 v) (\<lambda>(b, v1). Inr (load16 b 0, v1))"

definition consume_dword :: "parse_state \<Rightarrow> (u32 \<times> parse_state) res" where
  "consume_dword v = andThen (consume_n 4 v) (\<lambda>(b, v1). Inr (load32 b 0, v1))"

definition consume_qword :: "parse_state \<Rightarrow> (u64 \<times> parse_state) res" where
  "consume_qword v = andThen (consume_n 8 v) (\<lambda>(b, v1). Inr (load64 b 0, v1))"

definition consume_opcode :: "parse_state \<Rightarrow> (u16 \<times> parse_state) res" where
  "consume_opcode v =
     andThen (peek_opcode v) (\<lambda>op.
     andThen (consume v) (\<lambda>(_, v1).
     if is_extended op then andThen (consume v1) (\<lambda>(_, v2). Inr (op, v2)) else Inr (op, v1)))"

definition parse_pkg_length :: "parse_state \<Rightarrow> (u32 \<times> parse_state) res" where
  "parse_pkg_length v =
     andThen (consume v) (\<lambda>(b0, v1).
     let k = drop_bit 6 b0; low = ucast (b0 AND 0xf) in
     if k = 0 then Inr (ucast b0, v1)
     else if k = 1 then andThen (consume v1) (\<lambda>(b, v2). Inr (low OR push_bit 4 (ucast b), v2))
     else if k = 2 then andThen (consume_word v1) (\<lambda>(w, v2). Inr (low OR push_bit 4 (ucast w), v2))
     else Inl (Fatal ''false''))"

text \<open>The state inside the package, and the one behind it (\<open>moved_to(pkg_data.end())\<close>).\<close>

definition adjust_with_pkg_length :: "parse_state \<Rightarrow> (parse_state \<times> parse_state) res" where
  "adjust_with_pkg_length v =
     andThen (peek v) (\<lambda>b0.
     let pkg_length_bytes = 1 + unat (drop_bit 6 b0) in
     andThen (parse_pkg_length v) (\<lambda>(len, v1).
     require (unat len \<ge> pkg_length_bytes) ''pkg_len.result >= pkg_length_bytes'' (
     require (unat len \<le> length (fst v)) ''pkg_len.result <= data.size()'' (
     let n = unat len - pkg_length_bytes in
       Inr ((take n (fst v1), drop n (fst v1) @ snd v1), (drop n (fst v1), snd v1))))))"

section \<open>The code: names\<close>

definition root_char :: u8 where "root_char = 92"
definition parent_prefix_char :: u8 where "parent_prefix_char = 94"
definition dual_name_path_start :: u8 where "dual_name_path_start = 0x2e"
definition multi_name_path_start :: u8 where "multi_name_path_start = 0x2f"

definition is_lead_name_char :: "u8 \<Rightarrow> bool" where
  "is_lead_name_char c \<longleftrightarrow> c = 95 \<or> (c \<ge> 65 \<and> c \<le> 90)"

definition is_name_char :: "u8 \<Rightarrow> bool" where
  "is_name_char c \<longleftrightarrow> is_lead_name_char c \<or> (c \<ge> 48 \<and> c \<le> 57)"

text \<open>The characters are read one after the other as long as they are valid.\<close>

fun valid_chars :: "nat \<Rightarrow> bytes \<Rightarrow> bool res" where
  "valid_chars 0 d = Inr True"
| "valid_chars (Suc k) [] = Inl (Wild ''nameseg'')"
| "valid_chars (Suc k) (c # d) = (if is_name_char c then valid_chars k d else Inr False)"

definition valid_nameseg :: "bytes \<Rightarrow> bool res" where
  "valid_nameseg d =
     (case d of [] \<Rightarrow> Inl (Wild ''nameseg'') | c # d1 \<Rightarrow> if is_lead_name_char c then valid_chars 3 d1 else Inr False)"

definition is_name_string_start :: "u8 \<Rightarrow> bool" where
  "is_name_string_start c \<longleftrightarrow>
     c = root_char \<or> c = parent_prefix_char \<or> c = dual_name_path_start \<or> c = multi_name_path_start \<or> is_lead_name_char c"

definition is_arg_or_local :: "u8 \<Rightarrow> bool" where
  "is_arg_or_local c \<longleftrightarrow> c \<ge> ucast op_local_0 \<and> c \<le> ucast op_arg_6"

fun parent_prefixes :: "bytes \<Rightarrow> (bytes \<times> bytes) res" where
  "parent_prefixes [] = Inl (Fatal ''!data_.empty()'')"
| "parent_prefixes (c # d) =
     (if c = parent_prefix_char then andThen (parent_prefixes d) (\<lambda>(p, r). Inr (c # p, r)) else Inr ([], c # d))"

definition name_prefix :: "parse_state \<Rightarrow> (bytes \<times> parse_state) res" where
  "name_prefix v =
     andThen (peek v) (\<lambda>c.
     if c = root_char then andThen (consume v) (\<lambda>(c, v1). Inr ([c], v1))
     else andThen (parent_prefixes (fst v)) (\<lambda>(p, r). Inr (p, (r, snd v))))"

definition nameseg :: "parse_state \<Rightarrow> (bytes \<times> parse_state) res" where
  "nameseg v =
     andThen (valid_nameseg (fst v @ snd v)) (\<lambda>ok.
     require ok ''valid_nameseg(data.begin())'' (consume_n 4 v))"

fun namesegs :: "nat \<Rightarrow> parse_state \<Rightarrow> (bytes \<times> parse_state) res" where
  "namesegs 0 v = Inr ([], v)"
| "namesegs (Suc k) v = andThen (nameseg v) (\<lambda>(s, v1). andThen (namesegs k v1) (\<lambda>(r, v2). Inr (s @ r, v2)))"

definition parse_name_string :: "parse_state \<Rightarrow> (bytes \<times> parse_state) res" where
  "parse_name_string v =
     andThen (name_prefix v) (\<lambda>(name, v1).
     andThen (consume v1) (\<lambda>(t, v2).
     if t = 0 then Inr (name, v2)
     else if t = dual_name_path_start then
       andThen (valid_nameseg (fst v2 @ snd v2)) (\<lambda>ok.
       require ok ''valid_nameseg(data.begin())'' (
       andThen (valid_nameseg (drop 4 (fst v2 @ snd v2))) (\<lambda>ok.
       require ok ''valid_nameseg(data.begin()+4)'' (
       andThen (consume_n 8 v2) (\<lambda>(s, v3). Inr (name @ s, v3))))))
     else if t = multi_name_path_start then
       andThen (consume v2) (\<lambda>(seg_count, v3).
       require (length (fst v3) \<ge> unat seg_count * 4) ''data.size() >= seg_count*4'' (
       andThen (namesegs (unat seg_count) v3) (\<lambda>(s, v4). Inr (name @ s, v4))))
     else if is_lead_name_char t then
       andThen (consume v2) (\<lambda>(c1, v3).
       andThen (consume v3) (\<lambda>(c2, v4).
       andThen (consume v4) (\<lambda>(c3, v5).
       andThen (valid_nameseg [t, c1, c2, c3]) (\<lambda>ok.
       require ok ''valid_nameseg(name.end()-4)'' (Inr (name @ [t, c1, c2, c3], v5))))))
     else Inl (Fatal ''false'')))"

section \<open>The code: the name space\<close>

text \<open>\<open>ns_cur\<close> is the open scope, \<open>ns_capacity\<close> the room of the vector of bindings. \<open>ns_merged\<close> has, for the name of a container,
  what further scopes of that name added.\<close>

record name_space =
  ns_cur :: bytes
  ns_bindings :: "(bytes \<times> aml_node) list"
  ns_capacity :: nat
  ns_merged :: "(bytes \<times> aml_node list) list"

definition ns_new :: name_space where
  "ns_new = \<lparr>ns_cur = [], ns_bindings = [], ns_capacity = 0, ns_merged = []\<rparr>"

definition ensure_room :: "nat \<Rightarrow> nat \<Rightarrow> nat" where
  "ensure_room required capacity =
     (if required > capacity then max required (if capacity > 0 then 2 * capacity else 10) else capacity)"

definition find_binding :: "name_space \<Rightarrow> bytes \<Rightarrow> (bytes \<times> aml_node) option" where
  "find_binding ns name = find (\<lambda>b. fst b = name) (ns_bindings ns)"

definition parent_scope :: "bytes \<Rightarrow> bytes option" where
  "parent_scope s = (if length s < 4 then None else Some (take (length s - 4) s))"

text \<open>The search rules: the open scope, then its parents.\<close>

function search_scopes :: "name_space \<Rightarrow> bytes \<Rightarrow> bytes \<Rightarrow> (bytes \<times> aml_node) option" where
  "search_scopes ns scope name =
     (case find_binding ns (scope @ name) of
        Some b \<Rightarrow> Some b
      | None \<Rightarrow> (case parent_scope scope of None \<Rightarrow> None | Some p \<Rightarrow> search_scopes ns p name))"
  by pat_completeness auto
termination by (relation "measure (\<lambda>(ns, scope, name). length scope)") (auto simp: parent_scope_def split: if_splits)

declare search_scopes.simps [simp del]

text \<open>The loop over the prefixes \<open>^\<close>: the scope is computed and not used.\<close>

fun skip_parents :: "bytes \<Rightarrow> bytes \<Rightarrow> bytes res" where
  "skip_parents scope [] = Inr []"
| "skip_parents scope (c # name) =
     (if c = parent_prefix_char then
        (case parent_scope scope of None \<Rightarrow> Inl (Fatal ''parent_scope(ns)'') | Some p \<Rightarrow> skip_parents p name)
      else Inr (c # name))"

definition lookup_binding :: "name_space \<Rightarrow> bytes \<Rightarrow> ((bytes \<times> aml_node) option) res" where
  "lookup_binding ns name =
     (case name of
        [] \<Rightarrow> Inl (Wild ''name[4]'')
      | c # rest \<Rightarrow>
          if c = root_char then Inr (find_binding ns rest)
          else if c = parent_prefix_char then andThen (skip_parents (ns_cur ns) name) (\<lambda>n. Inr (find_binding ns n))
          else if length name \<noteq> 4 then Inr (find_binding ns name)
          else Inr (search_scopes ns (ns_cur ns) name))"

definition open_scope :: "bytes \<Rightarrow> name_space \<Rightarrow> (bytes \<times> name_space) res" where
  "open_scope name ns =
     require (take 1 name \<noteq> [parent_prefix_char]) ''name[0] != parent_prefix_char'' (
     let root = (take 1 name = [root_char]); name1 = (if root then drop 1 name else name) in
     require (length name1 mod 4 = 0) ''string_length(name) % 4 == 0'' (
       Inr (ns_cur ns, ns\<lparr>ns_cur := (if root then [] else ns_cur ns) @ name1\<rparr>)))"

text \<open>The registration is given its node: the scope closes, and the node is bound to its name.\<close>

definition provide :: "bytes \<Rightarrow> aml_node \<Rightarrow> name_space \<Rightarrow> name_space res" where
  "provide old_scope nd ns =
     require (find_binding ns (ns_cur ns) = None) ''false'' (
       Inr (ns\<lparr>ns_cur := old_scope, ns_bindings := ns_bindings ns @ [(ns_cur ns, nd)],
         ns_capacity := ensure_room (length (ns_bindings ns) + 1) (ns_capacity ns)\<rparr>))"

definition mark_dead :: "bytes \<Rightarrow> name_space \<Rightarrow> name_space" where
  "mark_dead old_scope ns = ns\<lparr>ns_cur := old_scope\<rparr>"

definition merge :: "bytes \<times> aml_node \<Rightarrow> u16 \<Rightarrow> aml_node list \<Rightarrow> name_space \<Rightarrow> name_space res" where
  "merge target op nodes ns =
     require (is_container (snd target)) ''n->is_container()'' (
     require (op = op_scope \<or> op = op_device) ''other_.op() == opcode::scope || other_.op() == opcode::device'' (
     require (node_op (snd target) = op_scope \<or> node_op (snd target) = op_device) ''op() == opcode::scope || op() == opcode::device'' (
       Inr (ns\<lparr>ns_merged := ns_merged ns @ [(fst target, nodes)]\<rparr>))))"

end
