(* ===== verification/AmlParser.thy ===== *)
theory AmlParser
  imports Aml
begin

text \<open>
  The parser for the ACPI machine language, second part: expressions, statements and declarations (\<open>exp/aml/aml.cpp\<close>). A
  function that the code calls recursively through a forward declaration is an argument (\<open>T\<close> for \<open>parse_term_arg\<close>, \<open>S\<close> for
  \<open>parse_super_name\<close>, \<open>D\<close> for \<open>parse_data_object\<close>, \<open>L\<close> for \<open>parse_term_list\<close>) of those before it; the recursion is closed with
  fuel, one more than the bytes that are left, which \<open>parse_returns\<close> shows to be enough: whatever the bytes are, parsing ends.
  A parser that returns a null pointer (for a name that is not bound where an expression is expected) returns \<open>None\<close>; where the
  code does not check for it the null pointer becomes a part of the tree.
\<close>

section \<open>The code: lists and operators\<close>

type_synonym node_parser = "parse_state \<Rightarrow> (aml_node option \<times> parse_state) res"

definition make_simple_node :: "u16 \<Rightarrow> aml_node" where "make_simple_node op = N_simple op"
definition make_text_node :: "u16 \<Rightarrow> bytes \<Rightarrow> aml_node res" where
  "make_text_node op s = require (op \<noteq> op_name) ''op != opcode::name'' (Inr (N_text op s))"
definition make_const_node8 :: "u8 \<Rightarrow> aml_node" where "make_const_node8 v = N_const (ucast v) 1"
definition make_const_node16 :: "u16 \<Rightarrow> aml_node" where "make_const_node16 v = N_const (ucast v) 2"
definition make_const_node32 :: "u32 \<Rightarrow> aml_node" where "make_const_node32 v = N_const (ucast v) 4"
definition make_const_node64 :: "u64 \<Rightarrow> aml_node" where "make_const_node64 v = N_const v 8"

definition parse_arg_or_local :: node_parser where
  "parse_arg_or_local v =
     andThen (consume_opcode v) (\<lambda>(op, v1).
     require (\<not> is_extended op \<and> is_arg_or_local (ucast op)) ''!is_extended(op) && is_arg_or_local(op)''
       (Inr (Some (make_simple_node op), v1)))"

text \<open>The name as a node, which is what most callers make of it.\<close>

definition parse_name_node :: "u16 \<Rightarrow> node_parser" where
  "parse_name_node op v =
     andThen (parse_name_string v) (\<lambda>(name, v1).
     andThen (make_text_node op name) (\<lambda>n. Inr (Some n, v1)))"

fun parse_list :: "nat \<Rightarrow> ('s \<Rightarrow> parse_state \<Rightarrow> (aml_node option \<times> parse_state \<times> 's) res) \<Rightarrow> 's \<Rightarrow> parse_state \<Rightarrow>
    (aml_node list option \<times> parse_state \<times> 's) res" where
  "parse_list 0 p s v = Inl No_return"
| "parse_list (Suc k) p s v =
     (if fst v = [] then Inr (Some [], v, s)
      else andThen (p s v) (\<lambda>(r, v1, s1).
        case r of
          None \<Rightarrow> Inr (None, v1, s1)
        | Some n \<Rightarrow> andThen (parse_list k p s1 v1) (\<lambda>(ns, v2, s2).
            Inr (map_option (\<lambda>l. if node_op n \<noteq> op_dead_scope then n # l else l) ns, v2, s2))))"

text \<open>Arguments one after the other, up to one that is null.\<close>

fun parse_args :: "nat \<Rightarrow> node_parser \<Rightarrow> parse_state \<Rightarrow> (aml_node list option \<times> parse_state) res" where
  "parse_args 0 T v = Inr (Some [], v)"
| "parse_args (Suc k) T v =
     andThen (T v) (\<lambda>(a, v1).
       case a of
         None \<Rightarrow> Inr (None, v1)
       | Some n \<Rightarrow> andThen (parse_args k T v1) (\<lambda>(as, v2). Inr (map_option (Cons n) as, v2)))"

definition parse_target :: "node_parser \<Rightarrow> node_parser" where
  "parse_target S v =
     andThen (peek v) (\<lambda>c.
     if c = 0 then andThen (consume v) (\<lambda>(_, v1). Inr (Some (make_simple_node op_null_name), v1))
     else S v)"

definition op_node :: "nat \<Rightarrow> string \<Rightarrow> aml_node option list \<Rightarrow> aml_node" where
  "op_node arity name args =
     N_op arity (ascii name) (args @ (if length args = arity then [None] else []))"

definition op_node_parse :: "nat \<Rightarrow> string \<Rightarrow> bool \<Rightarrow> node_parser \<Rightarrow> node_parser \<Rightarrow> node_parser" where
  "op_node_parse arity name target T S v =
     andThen (parse_args arity T v) (\<lambda>(args, v1).
       case args of
         None \<Rightarrow> Inr (None, v1)
       | Some as \<Rightarrow>
           if target then andThen (parse_target S v1) (\<lambda>(t, v2). Inr (Some (op_node arity name (map Some as @ [t])), v2))
           else Inr (Some (op_node arity name (map Some as)), v1))"

definition parse_unary_op where "parse_unary_op name T S = op_node_parse 1 name True T S"
definition parse_unary_op_no_target where "parse_unary_op_no_target name T S = op_node_parse 1 name False T S"
definition parse_binary_op where "parse_binary_op name T S = op_node_parse 2 name True T S"
definition parse_logical_op where "parse_logical_op name T S = op_node_parse 2 name False T S"
definition parse_index where "parse_index T S = parse_binary_op ''index'' T S"

definition is_type6_opcode :: "u16 \<Rightarrow> bool" where
  "is_type6_opcode op \<longleftrightarrow> op = op_deref_of \<or> op = op_index"

definition parse_type6_opcode :: "node_parser \<Rightarrow> node_parser \<Rightarrow> node_parser" where
  "parse_type6_opcode T S v =
     andThen (consume_opcode v) (\<lambda>(op, v1).
     require (is_type6_opcode op) ''is_type6_opcode(op)'' (
     require (op = op_index) ''op == opcode::index'' (parse_index T S v1)))"

definition super_name_with :: "node_parser \<Rightarrow> node_parser \<Rightarrow> node_parser" where
  "super_name_with T S v =
     andThen (peek v) (\<lambda>first.
     if is_arg_or_local first then parse_arg_or_local v
     else if is_name_string_start first then parse_name_node op_name_lookup v
     else if is_type6_opcode (ucast first) then parse_type6_opcode T S v
     else Inl (Fatal ''false''))"

section \<open>The code: data objects\<close>

definition is_data_object :: "u16 \<Rightarrow> bool" where
  "is_data_object op \<longleftrightarrow> op \<in> {op_zero, op_one, op_ones, op_byte, op_word, op_dword, op_string, op_qword, op_buffer, op_package}"

text \<open>The string is read to its terminator, in memory, before its size is checked.\<close>

definition parse_string :: node_parser where
  "parse_string v =
     andThen (string_length (fst v @ snd v)) (\<lambda>n.
     andThen (consume_n (unat (of_nat (n + 1) :: u32)) v) (\<lambda>(_, v1).
     andThen (make_text_node op_string (take n (fst v @ snd v))) (\<lambda>t. Inr (Some t, v1))))"

definition parse_buffer :: "node_parser \<Rightarrow> node_parser" where
  "parse_buffer T v =
     andThen (adjust_with_pkg_length v) (\<lambda>(pkg, rest).
     andThen (T pkg) (\<lambda>(buffer_size, v1). Inr (Some (N_buffer buffer_size (fst v1)), rest)))"

definition package_element :: "node_parser \<Rightarrow> node_parser" where
  "package_element D v =
     andThen (peek v) (\<lambda>c. if is_name_string_start c then parse_name_node op_package_element v else D v)"

definition parse_package :: "node_parser \<Rightarrow> node_parser" where
  "parse_package D v =
     andThen (adjust_with_pkg_length v) (\<lambda>(pkg, rest).
     andThen (consume pkg) (\<lambda>(num_elements, v1).
     andThen (parse_list (Suc (length (fst v1))) (\<lambda>_ v. andThen (package_element D v) (\<lambda>(n, v1). Inr (n, v1, ()))) () v1)
       (\<lambda>(list, _, _).
     case list of
       None \<Rightarrow> Inl (Fatal ''list.result'')
     | Some elements \<Rightarrow>
         require (elements = [] \<or> unat num_elements = length elements) ''elements.empty() || num_elements == elements.size()''
           (Inr (Some (N_package elements), rest)))))"

definition data_object_with :: "node_parser \<Rightarrow> node_parser \<Rightarrow> node_parser" where
  "data_object_with T D v =
     andThen (consume_opcode v) (\<lambda>(op, v1).
     require (is_data_object op) ''is_data_object(op)'' (
     if op = op_zero then Inr (Some (make_const_node8 0), v1)
     else if op = op_one then Inr (Some (make_const_node8 1), v1)
     else if op = op_ones then Inr (Some (make_const_node8 0xff), v1)
     else if op = op_byte then andThen (consume v1) (\<lambda>(b, v2). Inr (Some (make_const_node8 b), v2))
     else if op = op_word then andThen (consume_word v1) (\<lambda>(w, v2). Inr (Some (make_const_node16 w), v2))
     else if op = op_dword then andThen (consume_dword v1) (\<lambda>(d, v2). Inr (Some (make_const_node32 d), v2))
     else if op = op_qword then andThen (consume_qword v1) (\<lambda>(q, v2). Inr (Some (make_const_node64 q), v2))
     else if op = op_string then parse_string v1
     else if op = op_buffer then parse_buffer T v1
     else parse_package D v1))"

section \<open>The code: expressions\<close>

definition is_type2_opcode :: "u16 \<Rightarrow> bool" where
  "is_type2_opcode op \<longleftrightarrow>
     op \<in> {op_add, op_concat, op_subtract, op_increment, op_decrement, op_multiply, op_divide, op_shift_left, op_shift_right,
       op_and, op_or, op_xor, op_not, op_find_set_left_bit, op_find_set_right_bit, op_deref_of, op_size_of, op_index,
       op_object_type, op_land, op_lor, op_lnot, op_lequal, op_lgreater, op_lless, op_mid, op_cond_ref_of, op_sleep,
       op_acquire, op_release} \<or>
     (op \<le> 0xff \<and> is_name_string_start (ucast op))"

text \<open>A name: a reference, or with the arguments of the method that it is bound to a call.\<close>

definition parse_method_invocation :: "name_space \<Rightarrow> node_parser \<Rightarrow> node_parser" where
  "parse_method_invocation ns T v =
     andThen (parse_name_string v) (\<lambda>(name, v1).
     andThen (lookup_binding ns name) (\<lambda>b.
       case b of
         None \<Rightarrow> Inr (None, v1)
       | Some (_, n) \<Rightarrow>
           (case n of
              N_method mname flags st \<Rightarrow>
                andThen (parse_args (method_arg_count flags) T v1) (\<lambda>(args, v2).
                  Inr (map_option (\<lambda>as. N_method_call n as) args, v2))
            | _ \<Rightarrow> andThen (make_text_node op_name_lookup name) (\<lambda>t. Inr (Some t, v1)))))"

definition parse_divide :: "node_parser \<Rightarrow> node_parser \<Rightarrow> node_parser" where
  "parse_divide T S v =
     andThen (T v) (\<lambda>(dividend, v1).
     andThen (T v1) (\<lambda>(divisor, v2).
     andThen (parse_target S v2) (\<lambda>(remainder, v3).
     andThen (parse_target S v3) (\<lambda>(quotient, v4).
       Inr (Some (op_node 2 ''divide'' [dividend, divisor, quotient]), v4)))))"

definition parse_lnot :: "node_parser \<Rightarrow> node_parser \<Rightarrow> node_parser" where
  "parse_lnot T S v =
     andThen (peek_opcode v) (\<lambda>next_op.
     if next_op = op_lequal then andThen (consume v) (\<lambda>(_, v1). parse_logical_op ''lnotequal'' T S v1)
     else if next_op = op_lgreater then andThen (consume v) (\<lambda>(_, v1). parse_logical_op ''lnotgreater'' T S v1)
     else if next_op = op_lless then andThen (consume v) (\<lambda>(_, v1). parse_logical_op ''lnotless'' T S v1)
     else andThen (T v) (\<lambda>(arg, v1).
       case arg of None \<Rightarrow> Inr (None, v1) | Some n \<Rightarrow> Inr (Some (op_node 1 ''lnot'' [Some n]), v1)))"

definition parse_cond_ref_of :: "node_parser \<Rightarrow> node_parser" where
  "parse_cond_ref_of S v =
     andThen (S v) (\<lambda>(name, v1).
     andThen (parse_target S v1) (\<lambda>(target, v2). Inr (Some (op_node 1 ''cond_ref_of'' [name, target]), v2)))"

definition parse_acquire :: "node_parser \<Rightarrow> node_parser" where
  "parse_acquire S v =
     andThen (S v) (\<lambda>(arg, v1).
     andThen (consume_word v1) (\<lambda>(timeout, v2).
       Inr (Some (op_node 2 ''acquire'' [arg, Some (make_const_node16 timeout)]), v2)))"

text \<open>An operator whose one argument is taken as it is, null or not.\<close>

definition parse_wrapped :: "string \<Rightarrow> node_parser \<Rightarrow> node_parser" where
  "parse_wrapped name P v = andThen (P v) (\<lambda>(arg, v1). Inr (Some (op_node 1 name [arg]), v1))"

definition type2_operator :: "node_parser \<Rightarrow> node_parser \<Rightarrow> u16 \<Rightarrow> node_parser" where
  "type2_operator T S op =
     (if op = op_add then parse_binary_op ''add'' T S
      else if op = op_concat then parse_binary_op ''concat'' T S
      else if op = op_subtract then parse_binary_op ''subtract'' T S
      else if op = op_increment then parse_unary_op_no_target ''increment'' T S
      else if op = op_decrement then parse_unary_op_no_target ''decrement'' T S
      else if op = op_divide then parse_divide T S
      else if op = op_multiply then parse_binary_op ''multiply'' T S
      else if op = op_shift_left then parse_binary_op ''shiftleft'' T S
      else if op = op_shift_right then parse_binary_op ''shiftright'' T S
      else if op = op_and then parse_binary_op ''and'' T S
      else if op = op_or then parse_binary_op ''or'' T S
      else if op = op_xor then parse_binary_op ''xor'' T S
      else if op = op_not then parse_unary_op ''not'' T S
      else if op = op_find_set_left_bit then parse_unary_op ''find_set_left_bit'' T S
      else if op = op_find_set_right_bit then parse_unary_op ''find_set_right_bit'' T S
      else if op = op_deref_of then parse_wrapped ''deref_of'' T
      else if op = op_size_of then parse_unary_op_no_target ''sizeof'' T S
      else if op = op_index then parse_index T S
      else if op = op_object_type then parse_unary_op_no_target ''ObjectType'' T S
      else if op = op_land then parse_logical_op ''land'' T S
      else if op = op_lor then parse_logical_op ''lor'' T S
      else if op = op_lnot then parse_lnot T S
      else if op = op_lequal then parse_logical_op ''lequal'' T S
      else if op = op_lgreater then parse_logical_op ''lgreater'' T S
      else if op = op_lless then parse_logical_op ''lless'' T S
      else if op = op_mid then op_node_parse 3 ''mid'' True T S
      else if op = op_cond_ref_of then parse_cond_ref_of S
      else if op = op_sleep then parse_wrapped ''sleep'' T
      else if op = op_acquire then parse_acquire S
      else if op = op_release then parse_wrapped ''release'' S
      else (\<lambda>_. Inl (Fatal ''false'')))"

definition type2_with :: "name_space \<Rightarrow> node_parser \<Rightarrow> node_parser \<Rightarrow> node_parser" where
  "type2_with ns T S v =
     andThen (peek v) (\<lambda>c.
     if is_name_string_start c then parse_method_invocation ns T v
     else andThen (consume_opcode v) (\<lambda>(op, v1).
       if \<not> is_type2_opcode op then Inl (Fatal ''false'') else type2_operator T S op v1))"

definition term_arg_with :: "name_space \<Rightarrow> node_parser \<Rightarrow> node_parser \<Rightarrow> node_parser \<Rightarrow> node_parser" where
  "term_arg_with ns T S D v =
     andThen (peek v) (\<lambda>first.
     if is_arg_or_local first then parse_arg_or_local v
     else if is_data_object (ucast first) then data_object_with T D v
     else type2_with ns T S v)"

text \<open>The recursion of the three, with fuel.\<close>

fun term_arg_n :: "nat \<Rightarrow> name_space \<Rightarrow> node_parser"
  and super_name_n :: "nat \<Rightarrow> name_space \<Rightarrow> node_parser"
  and data_object_n :: "nat \<Rightarrow> name_space \<Rightarrow> node_parser" where
  "term_arg_n 0 ns v = Inl No_return"
| "term_arg_n (Suc k) ns v = term_arg_with ns (term_arg_n k ns) (super_name_n k ns) (data_object_n k ns) v"
| "super_name_n 0 ns v = Inl No_return"
| "super_name_n (Suc k) ns v = super_name_with (term_arg_n k ns) (super_name_n k ns) v"
| "data_object_n 0 ns v = Inl No_return"
| "data_object_n (Suc k) ns v = data_object_with (term_arg_n k ns) (data_object_n k ns) v"

definition parse_term_arg :: "name_space \<Rightarrow> node_parser" where
  "parse_term_arg ns v = term_arg_n (Suc (length (fst v))) ns v"

definition parse_super_name :: "name_space \<Rightarrow> node_parser" where
  "parse_super_name ns v = super_name_n (Suc (length (fst v))) ns v"

definition parse_data_object :: "name_space \<Rightarrow> node_parser" where
  "parse_data_object ns v = data_object_n (Suc (length (fst v))) ns v"

definition parse_data_ref_object :: "name_space \<Rightarrow> node_parser" where
  "parse_data_ref_object ns v = parse_data_object ns v"

definition parse_type2_opcode :: "name_space \<Rightarrow> node_parser" where
  "parse_type2_opcode ns v = type2_with ns (parse_term_arg ns) (parse_super_name ns) v"

section \<open>The code: fields\<close>

type_synonym obj_parser = "name_space \<Rightarrow> parse_state \<Rightarrow> (aml_node option \<times> parse_state \<times> name_space) res"
type_synonym list_parser = "name_space \<Rightarrow> parse_state \<Rightarrow> (aml_node list option \<times> parse_state \<times> name_space) res"

definition parse_field_flags :: "parse_state \<Rightarrow> (u8 \<times> parse_state) res" where
  "parse_field_flags v = consume v"

definition parse_named_field :: obj_parser where
  "parse_named_field ns v =
     require (length (fst v) \<ge> 4) ''data.size() >= 4'' (
     andThen (valid_nameseg (fst v)) (\<lambda>ok.
     require ok ''valid_nameseg(data.begin())'' (
     andThen (consume_n 4 v) (\<lambda>(name, v1).
     andThen (parse_pkg_length v1) (\<lambda>(len, v2).
     andThen (open_scope name ns) (\<lambda>(old, ns1).
     let nd = N_named_field name len in
     andThen (provide old nd ns1) (\<lambda>ns2. Inr (Some nd, v2, ns2))))))))"

definition field_element :: obj_parser where
  "field_element ns v =
     andThen (peek v) (\<lambda>first.
     if first = 0 then
       andThen (consume v) (\<lambda>(_, v1).
       andThen (parse_pkg_length v1) (\<lambda>(len, v2). Inr (Some (make_simple_node op_reserved_field), v2, ns)))
     else if first = 1 then
       andThen (consume v) (\<lambda>(_, v1).
       andThen (consume v1) (\<lambda>(access_type, v2).
       andThen (consume v2) (\<lambda>(access_attrib, v3). Inr (Some (make_simple_node op_access_field), v3, ns))))
     else if is_lead_name_char first then parse_named_field ns v
     else Inl (Fatal ''false''))"

definition parse_field_list :: list_parser where
  "parse_field_list ns v = parse_list (Suc (length (fst v))) field_element ns v"

section \<open>The code: statements and declarations\<close>

definition lookup_node :: "name_space \<Rightarrow> bytes \<Rightarrow> ((bytes \<times> aml_node) option) res" where
  "lookup_node ns name = lookup_binding ns name"

text \<open>A parser of expressions where a statement is expected: it leaves the name space as it is.\<close>

definition as_obj :: "(name_space \<Rightarrow> node_parser) \<Rightarrow> obj_parser" where
  "as_obj p ns v = andThen (p ns v) (\<lambda>(n, v1). Inr (n, v1, ns))"

definition obj_name :: obj_parser where
  "obj_name ns v =
     andThen (parse_name_string v) (\<lambda>(name, v1).
     andThen (open_scope name ns) (\<lambda>(old, ns1).
     andThen (parse_data_ref_object ns1 v1) (\<lambda>(obj, v2).
       case obj of
         None \<Rightarrow> Inl (Fatal ''obj_'')
       | Some n \<Rightarrow> andThen (provide old (N_name name n) ns1) (\<lambda>ns2. Inr (Some (N_name name n), v2, ns2)))))"

text \<open>A container, bound to the name of its scope.\<close>

definition close_container :: "bytes \<Rightarrow> u16 \<Rightarrow> aml_node list \<Rightarrow> parse_state \<Rightarrow> name_space \<Rightarrow>
    (aml_node option \<times> parse_state \<times> name_space) res" where
  "close_container old op nodes rest ns =
     (let nd = N_container op (Some (ns_cur ns)) nodes in
      andThen (provide old nd ns) (\<lambda>ns1. Inr (Some nd, rest, ns1)))"

text \<open>A scope that exists already takes the statements of the new one, which itself is not bound.\<close>

definition obj_scope :: "list_parser \<Rightarrow> obj_parser" where
  "obj_scope L ns v =
     andThen (adjust_with_pkg_length v) (\<lambda>(pkg, rest).
     andThen (parse_name_string pkg) (\<lambda>(name, v1).
     andThen (open_scope name ns) (\<lambda>(old, ns1).
     andThen (L ns1 v1) (\<lambda>(list, v2, ns2).
       case list of
         None \<Rightarrow> Inl (Fatal ''term_list'')
       | Some nodes \<Rightarrow>
           require (fst v2 = []) ''pkg_data.end() == term_list.data.begin()'' (
           andThen (lookup_node ns2 name) (\<lambda>b.
             case b of
               None \<Rightarrow> close_container old op_scope nodes rest ns2
             | Some target \<Rightarrow>
                 andThen (merge target op_scope nodes (mark_dead old ns2)) (\<lambda>ns3.
                   Inr (Some (N_container op_scope None nodes), rest, ns3))))))))"

definition obj_method :: obj_parser where
  "obj_method ns v =
     andThen (adjust_with_pkg_length v) (\<lambda>(pkg, rest).
     andThen (parse_name_string pkg) (\<lambda>(name, v1).
     andThen (open_scope name ns) (\<lambda>(old, ns1).
     andThen (consume v1) (\<lambda>(flags, v2).
     let nd = N_method name flags v2 in
     andThen (provide old nd ns1) (\<lambda>ns2. Inr (Some nd, rest, ns2))))))"

definition obj_store :: "name_space \<Rightarrow> node_parser" where
  "obj_store ns v =
     andThen (parse_term_arg ns v) (\<lambda>(arg, v1).
       case arg of
         None \<Rightarrow> Inr (None, v1)
       | Some a \<Rightarrow> andThen (parse_super_name ns v1) (\<lambda>(name, v2). Inr (Some (op_node 1 ''store'' [Some a, name]), v2)))"

definition obj_notify :: "name_space \<Rightarrow> node_parser" where
  "obj_notify ns v =
     andThen (parse_super_name ns v) (\<lambda>(obj, v1).
     andThen (parse_term_arg ns v1) (\<lambda>(val, v2). Inr (Some (op_node 1 ''notify'' [val, obj]), v2)))"

definition obj_create_typed_field :: "u16 \<Rightarrow> obj_parser" where
  "obj_create_typed_field op ns v =
     andThen (parse_term_arg ns v) (\<lambda>(source_buffer, v1).
     andThen (parse_term_arg ns v1) (\<lambda>(byte_index, v2).
     andThen (parse_name_string v2) (\<lambda>(name, v3).
     andThen (open_scope name ns) (\<lambda>(old, ns1).
     let nd = N_create_field op name source_buffer byte_index in
     andThen (provide old nd ns1) (\<lambda>ns2. Inr (Some nd, v3, ns2))))))"

definition obj_else :: "list_parser \<Rightarrow> aml_node \<Rightarrow> aml_node list \<Rightarrow> obj_parser" where
  "obj_else L predicate if_statements ns v =
     (if fst v = [] then Inr (Some (N_if predicate if_statements None), v, ns)
      else andThen (peek_opcode v) (\<lambda>op.
        if op = op_else then
          andThen (consume_opcode v) (\<lambda>(_, v1).
          andThen (adjust_with_pkg_length v1) (\<lambda>(else_pkg, rest).
          andThen (L ns else_pkg) (\<lambda>(list, v2, ns1).
            case list of
              None \<Rightarrow> Inr (None, v2, ns1)
            | Some else_statements \<Rightarrow> Inr (Some (N_if predicate if_statements (Some else_statements)), rest, ns1))))
        else Inr (Some (N_if predicate if_statements None), v, ns)))"

definition obj_if :: "list_parser \<Rightarrow> obj_parser" where
  "obj_if L ns v =
     andThen (adjust_with_pkg_length v) (\<lambda>(pkg, rest).
     andThen (parse_term_arg ns pkg) (\<lambda>(predicate, v1).
       case predicate of
         None \<Rightarrow> Inr (None, v1, ns)
       | Some p \<Rightarrow>
           andThen (L ns v1) (\<lambda>(list, v2, ns1).
             case list of
               None \<Rightarrow> Inr (None, v2, ns1)
             | Some statements \<Rightarrow> obj_else L p statements ns1 rest)))"

definition obj_while :: "list_parser \<Rightarrow> obj_parser" where
  "obj_while L ns v =
     andThen (adjust_with_pkg_length v) (\<lambda>(pkg, rest).
     andThen (parse_term_arg ns pkg) (\<lambda>(predicate, v1).
       case predicate of
         None \<Rightarrow> Inr (None, v1, ns)
       | Some p \<Rightarrow>
           andThen (L ns v1) (\<lambda>(list, v2, ns1).
             case list of
               None \<Rightarrow> Inr (None, v2, ns1)
             | Some statements \<Rightarrow> Inr (Some (N_while p statements), rest, ns1))))"

definition obj_return :: "name_space \<Rightarrow> node_parser" where
  "obj_return ns v =
     andThen (parse_term_arg ns v) (\<lambda>(arg, v1).
       case arg of None \<Rightarrow> Inr (None, v1) | Some a \<Rightarrow> Inr (Some (op_node 1 ''return'' [Some a]), v1))"

definition obj_mutex :: "name_space \<Rightarrow> node_parser" where
  "obj_mutex ns v =
     andThen (parse_name_string v) (\<lambda>(name, v1).
     andThen (consume v1) (\<lambda>(flags, v2).
     require (flags AND 0xf0 = 0) ''(flags & 0xf0) == 0x00'' (Inr (Some (N_mutex name flags), v2))))"

definition obj_create_field :: "name_space \<Rightarrow> node_parser" where
  "obj_create_field ns v =
     andThen (parse_term_arg ns v) (\<lambda>(source_buffer, v1).
     andThen (parse_term_arg ns v1) (\<lambda>(bit_index, v2).
     andThen (parse_term_arg ns v2) (\<lambda>(num_bits, v3).
     andThen (parse_name_node op_name_lookup v3) (\<lambda>(name, v4).
       Inr (Some (op_node 2 ''CreateField'' [source_buffer, num_bits, name]), v4)))))"

definition obj_fatal :: "name_space \<Rightarrow> node_parser" where
  "obj_fatal ns v =
     andThen (consume v) (\<lambda>(fatal_type, v1).
     andThen (consume_dword v1) (\<lambda>(code, v2).
     andThen (parse_term_arg ns v2) (\<lambda>(arg, v3).
       Inr (Some (op_node 3 ''Fatal'' [Some (make_const_node8 fatal_type), Some (make_const_node32 code), arg]), v3))))"

definition obj_op_region :: "name_space \<Rightarrow> node_parser" where
  "obj_op_region ns v =
     andThen (parse_name_string v) (\<lambda>(name, v1).
     andThen (consume v1) (\<lambda>(region_space, v2).
     andThen (parse_term_arg ns v2) (\<lambda>(region_offset, v3).
     andThen (parse_term_arg ns v3) (\<lambda>(region_len, v4).
       Inr (Some (N_op_region name region_space region_offset region_len), v4)))))"

definition obj_field :: obj_parser where
  "obj_field ns v =
     andThen (adjust_with_pkg_length v) (\<lambda>(pkg, rest).
     andThen (parse_name_string pkg) (\<lambda>(name, v1).
     andThen (parse_field_flags v1) (\<lambda>(flags, v2).
     andThen (parse_field_list ns v2) (\<lambda>(fields, v3, ns1).
       case fields of
         None \<Rightarrow> Inl (Fatal ''fields_'')
       | Some fs \<Rightarrow> Inr (Some (N_field name flags fs), rest, ns1)))))"

text \<open>The declarations with a list of objects. \<open>header\<close> reads what is between the name and the objects.\<close>

definition obj_container :: "u16 \<Rightarrow> (parse_state \<Rightarrow> parse_state res) \<Rightarrow> list_parser \<Rightarrow> obj_parser" where
  "obj_container op header L ns v =
     andThen (adjust_with_pkg_length v) (\<lambda>(pkg, rest).
     andThen (parse_name_string pkg) (\<lambda>(name, v1).
     andThen (header v1) (\<lambda>v2.
     andThen (open_scope name ns) (\<lambda>(old, ns1).
     andThen (L ns1 v2) (\<lambda>(list, v3, ns2).
       case list of
         None \<Rightarrow> Inl (Fatal ''objs'')
       | Some objs \<Rightarrow> close_container old op objs rest ns2)))))"

definition obj_device :: "list_parser \<Rightarrow> obj_parser" where
  "obj_device = obj_container op_device Inr"

definition obj_processor :: "list_parser \<Rightarrow> obj_parser" where
  "obj_processor = obj_container op_processor (\<lambda>v.
     andThen (consume v) (\<lambda>(proc_id, v1).
     andThen (consume_dword v1) (\<lambda>(pblk_addr, v2).
     andThen (consume v2) (\<lambda>(pblk_len, v3). Inr v3))))"

definition obj_power_res :: "list_parser \<Rightarrow> obj_parser" where
  "obj_power_res = obj_container op_power_res (\<lambda>v.
     andThen (consume v) (\<lambda>(sys_lvl, v1).
     andThen (consume_word v1) (\<lambda>(res_order, v2). Inr v2)))"

definition obj_thermal_zone :: "list_parser \<Rightarrow> obj_parser" where
  "obj_thermal_zone = obj_container op_thermal_zone Inr"

definition obj_index_field :: obj_parser where
  "obj_index_field ns v =
     andThen (adjust_with_pkg_length v) (\<lambda>(pkg, rest).
     andThen (parse_name_string pkg) (\<lambda>(name, v1).
     andThen (parse_name_string v1) (\<lambda>(name2, v2).
     andThen (parse_field_flags v2) (\<lambda>(flags, v3).
     andThen (parse_field_list ns v3) (\<lambda>(fields, v4, ns1).
       case fields of
         None \<Rightarrow> Inl (Fatal ''fields_'')
       | Some fs \<Rightarrow> Inr (Some (N_field name flags fs), rest, ns1))))))"

definition term_obj_switch :: "list_parser \<Rightarrow> u16 \<Rightarrow> obj_parser" where
  "term_obj_switch L op =
     (if op = op_name then obj_name
      else if op = op_scope then obj_scope L
      else if op = op_method then obj_method
      else if op = op_store then as_obj obj_store
      else if op = op_notify then as_obj obj_notify
      else if op \<in> {op_create_dword_field, op_create_word_field, op_create_byte_field, op_create_bit_field,
          op_create_qword_field} then obj_create_typed_field op
      else if op = op_if then obj_if L
      else if op = op_while then obj_while L
      else if op = op_noop then (\<lambda>ns v. Inr (Some (make_simple_node op), v, ns))
      else if op = op_return then as_obj obj_return
      else if op = op_mutex then as_obj obj_mutex
      else if op = op_create_field then as_obj obj_create_field
      else if op = op_fatal then as_obj obj_fatal
      else if op = op_op_region then as_obj obj_op_region
      else if op = op_field then obj_field
      else if op = op_device then obj_device L
      else if op = op_processor then obj_processor L
      else if op = op_power_res then obj_power_res L
      else if op = op_thermal_zone then obj_thermal_zone L
      else if op = op_index_field then obj_index_field
      else (\<lambda>ns v. Inl (Fatal ''false'')))"

definition term_obj_with :: "list_parser \<Rightarrow> obj_parser" where
  "term_obj_with L ns v =
     andThen (peek_opcode v) (\<lambda>op.
     if is_type2_opcode op then as_obj parse_type2_opcode ns v
     else andThen (consume_opcode v) (\<lambda>(_, v1). term_obj_switch L op ns v1))"

primrec term_obj_n :: "nat \<Rightarrow> obj_parser" where
  "term_obj_n 0 = (\<lambda>ns v. Inl No_return)"
| "term_obj_n (Suc k) = term_obj_with (\<lambda>ns v. parse_list (Suc (length (fst v))) (term_obj_n k) ns v)"

definition parse_term_obj :: obj_parser where
  "parse_term_obj ns v = term_obj_n (Suc (length (fst v))) ns v"

definition parse_term_list :: list_parser where
  "parse_term_list ns v = parse_list (Suc (length (fst v))) parse_term_obj ns v"

definition parse_object_list :: list_parser where
  "parse_object_list ns v = parse_list (Suc (length (fst v))) parse_term_obj ns v"

end
