(* ===== verification/AmlProcess.thy ===== *)
theory AmlProcess
  imports AmlParser OutStream
begin

text \<open>
  What \<open>exp/aml/aml.cpp\<close> does with a parsed table: the tree is printed, names are evaluated, and the identification of each
  device is listed. The scopes that were merged into a container are found by its name in the name space; what follows such a chain need not
  look at it again, so printing ends. Evaluating a method only parses and prints its body; what the body binds is unbound when its tree is destroyed, so the
  name space is then as before, except for the room of the vector of bindings. The loop of \<open>process\<close> runs over that vector,
  and a step of it after the vector has moved is \<open>Wild\<close>.
\<close>

section \<open>The code: printing\<close>

definition do_newline :: "nat \<Rightarrow> bytes" where
  "do_newline indent = put_char 10 @ write_many 32 (int (indent * 2))"

definition put_hex_width :: "int \<Rightarrow> nat \<Rightarrow> u64 \<Rightarrow> bytes res" where
  "put_hex_width w sizeof_i i = put_formatted_number ((as_hex (int sizeof_i) i)\<lparr>fn_width := w\<rparr>)"

definition put_bracket :: "nat \<Rightarrow> bytes res \<Rightarrow> bytes res" where
  "put_bracket indent elements = put_all [put_text ''['', elements, Inr (do_newline indent), put_text '']'']"

definition merged_nodes :: "name_space \<Rightarrow> bytes \<Rightarrow> aml_node list list" where
  "merged_nodes ns name = map snd (filter (\<lambda>m. fst m = name) (ns_merged ns))"

definition drop_merged :: "name_space \<Rightarrow> bytes \<Rightarrow> name_space" where
  "drop_merged ns name = ns\<lparr>ns_merged := filter (\<lambda>m. fst m \<noteq> name) (ns_merged ns)\<rparr>"

lemma drop_merged_shorter:
  "merged_nodes ns name \<noteq> [] \<Longrightarrow> length (ns_merged (drop_merged ns name)) < length (ns_merged ns)"
  by (auto simp: merged_nodes_def drop_merged_def filter_empty_conv intro: length_filter_less)

function put_node :: "name_space \<Rightarrow> nat \<Rightarrow> aml_node \<Rightarrow> bytes res"
  and put_elements :: "name_space \<Rightarrow> nat \<Rightarrow> aml_node list \<Rightarrow> bytes res"
  and put_pointer :: "name_space \<Rightarrow> nat \<Rightarrow> aml_node option \<Rightarrow> bytes res"
  and put_args :: "name_space \<Rightarrow> nat \<Rightarrow> nat \<Rightarrow> aml_node option list \<Rightarrow> bytes res"
  and put_merged :: "name_space \<Rightarrow> nat \<Rightarrow> aml_node list list \<Rightarrow> bytes res" where
  "put_node ns i (N_simple op) = put_opcode op"
| "put_node ns i (N_text op s) = put_all [put_opcode op, put_text '' '', Inr s]"
| "put_node ns i (N_const v sz) = put_all [put_text ''0x'', put_hex_width (2 * uint sz) 8 v]"
| "put_node ns i (N_buffer sz d) =
     put_all [put_text ''Buffer(Size='', put_pointer ns i sz, put_text '', Data['', put_u64 (of_nat (length d)), put_text ''])'']"
| "put_node ns i (N_package es) = put_all [put_text ''Package '', put_bracket i (put_elements ns (Suc i) es)]"
| "put_node ns i (N_op arity name as) = put_all [Inr name, put_args ns i arity as]"
| "put_node ns i (N_method name flags st) =
     put_all [put_text ''Method '', Inr name, put_text '' Flags '', put_hex 1 (ucast flags)]"
| "put_node ns i (N_name name obj) = put_all [put_text ''Name '', Inr name, put_text '' '', put_node ns i obj]"
| "put_node ns i (N_method_call m as) =
     (case m of
        N_method name flags st \<Rightarrow>
          put_all [Inr name, put_text ''('', put_bracket i (put_elements ns (Suc i) as), put_text '')'']
      | _ \<Rightarrow> Inl (Wild ''method_''))"
| "put_node ns i (N_named_field name len) =
     put_all [put_text ''NamedField '', Inr name, put_text '' Length '', put_hex_width 0 4 (ucast len)]"
| "put_node ns i (N_field name flags es) =
     put_all [put_text ''Field '', Inr name, put_text '' Flags '', put_hex 1 (ucast flags), put_text '' '',
       put_bracket i (put_elements ns (Suc i) es)]"
| "put_node ns i (N_op_region name space off len) =
     put_all [put_text ''DefOpRegion '', Inr name, put_text '' Space '', put_hex 1 (ucast space), put_text '' Offset '',
       put_pointer ns i off, put_text '' Len '', put_pointer ns i len]"
| "put_node ns i (N_if p as bs) =
     put_all [put_text ''If ('', put_node ns i p, put_text '') { '', put_bracket i (put_elements ns (Suc i) as), put_text ''}'',
       (case bs of
          None \<Rightarrow> Inr []
        | Some es \<Rightarrow> put_all [put_text '' Else { '', put_bracket i (put_elements ns (Suc i) es), put_text ''}''])]"
| "put_node ns i (N_while p as) =
     put_all [put_text ''While ('', put_node ns i p, put_text '') { '', put_bracket i (put_elements ns (Suc i) as), put_text ''}'']"
| "put_node ns i (N_mutex name flags) =
     put_all [put_text ''Mutex '', Inr name, put_text '' SyncLevel '', put_hex_width 1 1 (ucast flags)]"
| "put_node ns i (N_create_field op name buf idx) =
     put_all [put_opcode op, put_text '' '', Inr name, put_text '' '', put_pointer ns i buf, put_text '' '', put_pointer ns i idx]"
| "put_node ns i (N_container op reg es) =
     (case reg of
        None \<Rightarrow> put_all [put_text ''Helper '', put_opcode op]
      | Some name \<Rightarrow>
          put_all [put_opcode op, put_text '' '', Inr name, put_text '' '', put_bracket i (put_elements ns (Suc i) es),
            (if merged_nodes ns name = [] then Inr [] else put_merged (drop_merged ns name) i (merged_nodes ns name))])"
| "put_elements ns i [] = Inr []"
| "put_elements ns i (e # es) = put_all [Inr (do_newline i), put_node ns i e, put_elements ns i es]"
| "put_pointer ns i None = Inl (Wild ''*node'')"
| "put_pointer ns i (Some n) = put_node ns i n"
| "put_args ns i j [] = Inr []"
| "put_args ns i (Suc j) (a # as) = put_all [put_text '' '', put_pointer ns i a, put_args ns i j as]"
| "put_args ns i 0 (a # as) =
     (case a of
        None \<Rightarrow> Inr []
      | Some t \<Rightarrow> if node_op t \<noteq> op_null_name then put_all [put_text '' '', put_node ns i t] else Inr [])"
| "put_merged ns i [] = Inr []"
| "put_merged ns i (es # ess) =
     put_all [put_text '' '', put_bracket i (put_elements ns (Suc i) es), put_merged ns i ess]"
  by pat_completeness auto
termination
  by (relation "measures [\<lambda>x. case x of Inl (Inl (ns, _)) \<Rightarrow> length (ns_merged ns) | Inl (Inr (ns, _)) \<Rightarrow> length (ns_merged ns)
        | Inr (Inl (ns, _)) \<Rightarrow> length (ns_merged ns) | Inr (Inr (Inl (ns, _))) \<Rightarrow> length (ns_merged ns)
        | Inr (Inr (Inr (ns, _))) \<Rightarrow> length (ns_merged ns),
      \<lambda>x. case x of Inl (Inl (_, _, n)) \<Rightarrow> 2 * size n | Inl (Inr (_, _, es)) \<Rightarrow> 2 * size_list size es
        | Inr (Inl (_, _, a)) \<Rightarrow> 2 * size_option size a | Inr (Inr (Inl (_, _, _, as))) \<Rightarrow> 2 * size_list (size_option size) as + 1
        | Inr (Inr (Inr (_, _, ess))) \<Rightarrow> 2 * size_list (size_list size) ess + 1]") (auto simp: drop_merged_shorter)

section \<open>The code: values\<close>

datatype aml_value =
    V_nil
  | V_integer u64 u8
  | V_string bytes

definition string_max :: nat where "string_max = 64"

definition make_string_value :: "bytes \<Rightarrow> aml_value res" where
  "make_string_value s = require (length s + 1 \<le> string_max) ''str.size() <= string_max'' (Inr (V_string s))"

definition as_uint :: "aml_value \<Rightarrow> (u64 \<times> u8) res" where
  "as_uint v = (case v of V_integer n bits \<Rightarrow> Inr (n, bits) | _ \<Rightarrow> Inl (Fatal ''type_ == value_type::integer''))"

definition put_value :: "aml_value \<Rightarrow> bytes res" where
  "put_value v =
     (case v of
        V_nil \<Rightarrow> put_text ''(nil)''
      | V_integer n bits \<Rightarrow> put_all [put_text ''0x'', put_hex_width ((3 + uint bits) div 4) 8 n]
      | V_string s \<Rightarrow> put_all [Inr [34], Inr s, Inr [34]])"

definition put_nodes :: "name_space \<Rightarrow> aml_node list \<Rightarrow> bytes res" where
  "put_nodes ns es = put_bracket 0 (put_elements ns 1 es)"

definition put_root :: "name_space \<Rightarrow> aml_node \<Rightarrow> bytes res" where
  "put_root ns n = put_node ns 0 n"

definition eval_method :: "name_space \<Rightarrow> aml_node \<Rightarrow> parse_state \<Rightarrow> (aml_value \<times> bytes \<times> name_space) res" where
  "eval_method ns m st =
     andThen (put_all [put_text ''Not calling '', put_root ns m, Inr (put_char 10)]) (\<lambda>out.
     andThen (parse_term_list ns st) (\<lambda>(list, _, ns1).
       case list of
         None \<Rightarrow> Inl (Fatal ''res'')
       | Some nodes \<Rightarrow>
           andThen (put_nodes ns1 nodes) (\<lambda>out1.
             Inr (V_nil, out @ out1, ns1\<lparr>ns_bindings := ns_bindings ns, ns_merged := ns_merged ns\<rparr>))))"

fun eval_node :: "name_space \<Rightarrow> aml_node \<Rightarrow> (aml_value \<times> bytes \<times> name_space) res" where
  "eval_node ns (N_text op s) =
     require (op = op_string) ''op_ == opcode::string'' (andThen (make_string_value s) (\<lambda>v. Inr (v, [], ns)))"
| "eval_node ns (N_const v sz) = Inr (V_integer v (sz * 8), [], ns)"
| "eval_node ns (N_name name obj) = eval_node ns obj"
| "eval_node ns (N_method name flags st) = eval_method ns (N_method name flags st) st"
| "eval_node ns _ = Inl (Fatal ''Not implemented'')"

section \<open>The code: the devices\<close>

definition swap16 :: "u64 \<Rightarrow> u16" where
  "swap16 val = ucast (push_bit 8 (val AND 0xff) OR drop_bit 8 (val AND 0xff00))"

definition put_eisa_id :: "u64 \<Rightarrow> bytes res" where
  "put_eisa_id val =
     (let eisa_id = swap16 val;
          c0 = 64 + ucast (eisa_id AND 0x1f);
          c1 = 64 + ucast (drop_bit 5 eisa_id AND 0x1f);
          c2 = 64 + ucast (drop_bit 10 eisa_id AND 0x1f)
      in put_all [Inr (put_char c0), Inr (put_char c1), Inr (put_char c2), put_hex_width 4 2 (ucast (swap16 (drop_bit 16 val)))])"

definition put_property :: "string \<Rightarrow> aml_value \<Rightarrow> bytes res" where
  "put_property prop val =
     (case val of
        V_integer n bits \<Rightarrow>
          if prop ! 1 = CHR ''H'' then
            andThen (as_uint val) (\<lambda>(n, bits).
            require (bits \<ge> 16 \<and> bits \<le> 32) ''uint.bits >= 16 && uint.bits <= 32'' (put_eisa_id n))
          else put_value val
      | V_string s \<Rightarrow> put_value val
      | V_nil \<Rightarrow> put_all [put_text ''UNHANDLED: '', put_value val])"

text \<open>A property of a device, and whether it has it.\<close>

definition print_property :: "name_space \<Rightarrow> bytes \<Rightarrow> string \<Rightarrow> (bool \<times> bytes \<times> name_space) res" where
  "print_property ns device prop =
     (let name = device @ ascii prop in
      andThen (lookup_node ns name) (\<lambda>b.
        case b of
          None \<Rightarrow> Inr (False, [], ns)
        | Some (_, n) \<Rightarrow>
            andThen (open_scope name ns) (\<lambda>(old, ns1).
            andThen (eval_node ns1 n) (\<lambda>(val, out, ns2).
            andThen (put_property prop val) (\<lambda>s.
              Inr (True, name @ put_char 32 @ out @ s @ put_char 10, mark_dead old ns2))))))"

definition print_device :: "name_space \<Rightarrow> bytes \<Rightarrow> (bytes \<times> name_space) res" where
  "print_device ns device =
     andThen (print_property ns device ''_HID'') (\<lambda>(found, out, ns1).
     if found then Inr (out, ns1)
     else andThen (print_property ns1 device ''_ADR'') (\<lambda>(_, out1, ns2). Inr (out @ out1, ns2)))"

fun print_devices :: "nat \<Rightarrow> (bytes \<times> aml_node) list \<Rightarrow> name_space \<Rightarrow> bytes res" where
  "print_devices capacity [] ns = Inr []"
| "print_devices capacity (b # bs) ns =
     in_object (ns_capacity ns = capacity) ''bindings_'' (
     if node_op (snd b) \<noteq> op_device then print_devices capacity bs ns
     else andThen (print_device ns (fst b)) (\<lambda>(out, ns1).
       andThen (print_devices capacity bs ns1) (\<lambda>rest. Inr (out @ rest))))"

definition os_name :: bytes where "os_name = root_char # ascii ''_OS_''"
definition osi_name :: bytes where "osi_name = root_char # ascii ''_OSI''"

text \<open>The names that the operating system supplies.\<close>

definition initial_names :: "name_space res" where
  "initial_names =
     andThen (make_text_node op_string os_name) (\<lambda>os_string.
     andThen (open_scope os_name ns_new) (\<lambda>(old, ns1).
     andThen (provide old os_string ns1) (\<lambda>ns2.
     andThen (open_scope osi_name ns2) (\<lambda>(old, ns3).
       provide old (N_method osi_name 1 ([], [])) ns3))))"

text \<open>\<open>process\<close>, first half: the tree and the names of a table; the bytes \<open>behind\<close> are those after it in memory.\<close>

definition load_table :: "bytes \<Rightarrow> bytes \<Rightarrow> (aml_node list \<times> name_space) res" where
  "load_table data behind =
     andThen initial_names (\<lambda>ns.
     andThen (parse_term_list ns (data, behind)) (\<lambda>(list, _, ns1).
       case list of None \<Rightarrow> Inl (Fatal ''res'') | Some nodes \<Rightarrow> Inr (nodes, ns1)))"

definition process_table :: "bytes \<Rightarrow> bytes \<Rightarrow> bytes res" where
  "process_table data behind =
     andThen (load_table data behind) (\<lambda>(nodes, ns). print_devices (ns_capacity ns) (ns_bindings ns) ns)"

end
