(* ===== verification/AmlTyped.thy ===== *)
theory AmlTyped
  imports AmlProcess
begin

text \<open>
  What holds of every run of the ACPI machine language parser (\<open>exp/aml/aml.cpp\<close>), whatever its input: it ends, the trees that
  it builds are well typed, and it keeps the name space in order. The three are proved together: \<open>yields P r\<close> says that a
  computation does not run forever and that what it returns satisfies \<open>P\<close>, and each parser has a rule that says what it yields,
  used backwards in the rules of its callers.
\<close>

section \<open>Computations that end\<close>

named_theorems yields_intros

definition yields :: "('a \<Rightarrow> bool) \<Rightarrow> 'a res \<Rightarrow> bool" where
  "yields P r \<longleftrightarrow> (case r of Inl e \<Rightarrow> e \<noteq> No_return | Inr y \<Rightarrow> P y)"

lemma yields_Inr [simp]: "yields P (Inr y) \<longleftrightarrow> P y" by (simp add: yields_def)
lemma yields_Inl [simp]: "yields P (Inl e) \<longleftrightarrow> e \<noteq> No_return" by (simp add: yields_def)

lemma yields_andThen [simp]: "yields P (andThen r f) \<longleftrightarrow> yields (\<lambda>y. yields P (f y)) r"
  by (cases r) (simp_all add: yields_def)

lemma yields_bind: "yields (\<lambda>y. yields P (f y)) r \<Longrightarrow> yields P (andThen r f)"
  by simp

lemma yields_check: "(c \<Longrightarrow> yields P k) \<Longrightarrow> yields P (require c m k)"
  by (cases c) simp_all

lemma yields_require [simp]: "yields P (require c m k) \<longleftrightarrow> (c \<longrightarrow> yields P k)"
  by (cases c) simp_all

lemma yields_in_object [simp]: "yields P (in_object c m k) \<longleftrightarrow> (c \<longrightarrow> yields P k)"
  by (cases c) simp_all

lemma yields_mono: "yields Q r \<Longrightarrow> (\<And>y. Q y \<Longrightarrow> P y) \<Longrightarrow> yields P r"
  by (auto simp: yields_def split: sum.splits)

lemma yieldsD: "yields P r \<Longrightarrow> r = Inr y \<Longrightarrow> P y" by simp

lemma yields_ends: "yields P r \<Longrightarrow> r \<noteq> Inl No_return" by auto

section \<open>Well-typed trees\<close>

text \<open>A scope is a sequence of segments of four characters; a name has a root character or parent prefixes before them.\<close>

definition scope_ok :: "bytes \<Rightarrow> bool" where
  "scope_ok s \<longleftrightarrow> length s mod 4 = 0 \<and> (\<forall>c \<in> set s. is_name_char c)"

definition aml_name_ok :: "bytes \<Rightarrow> bool" where
  "aml_name_ok name \<longleftrightarrow> (\<exists>p s. name = p @ s \<and> scope_ok s \<and> (p = [root_char] \<or> set p \<subseteq> {parent_prefix_char}))"

definition is_data_node :: "aml_node \<Rightarrow> bool" where
  "is_data_node n \<longleftrightarrow> node_op n \<in> {op_constant, op_string, op_buffer, op_package}"

definition container_ops :: "u16 list" where
  "container_ops = [op_scope, op_device, op_processor, op_power_res, op_thermal_zone]"

definition text_ops :: "u16 list" where "text_ops = [op_string, op_name_lookup, op_package_element]"

fun node_ok :: "aml_node \<Rightarrow> bool" where
  "node_ok (N_simple op) = True"
| "node_ok (N_text op s) = (op \<in> set text_ops \<and> 0 \<notin> set s)"
| "node_ok (N_const v sz) = (sz \<in> {1, 2, 4, 8} \<and> unat v < 2 ^ (8 * unat sz))"
| "node_ok (N_buffer a d) = pred_option node_ok a"
| "node_ok (N_package es) = (length es < 256 \<and> list_all node_ok es)"
| "node_ok (N_op k s as) = (length as = Suc k \<and> list_all (pred_option node_ok) as)"
| "node_ok (N_method s f st) = aml_name_ok s"
| "node_ok (N_name s n) = (aml_name_ok s \<and> node_ok n \<and> is_data_node n)"
| "node_ok (N_method_call m as) =
     ((case m of N_method s f st \<Rightarrow> length as = method_arg_count f | _ \<Rightarrow> False) \<and> list_all node_ok as)"
| "node_ok (N_named_field s l) = scope_ok s"
| "node_ok (N_field s f es) = (aml_name_ok s \<and> list_all node_ok es)"
| "node_ok (N_op_region s sp a b) = (aml_name_ok s \<and> pred_option node_ok a \<and> pred_option node_ok b)"
| "node_ok (N_if p as bs) = (node_ok p \<and> list_all node_ok as \<and> pred_option (list_all node_ok) bs)"
| "node_ok (N_while p as) = (node_ok p \<and> list_all node_ok as)"
| "node_ok (N_mutex s f) = (aml_name_ok s \<and> f < 16)"
| "node_ok (N_create_field op s a b) = (aml_name_ok s \<and> pred_option node_ok a \<and> pred_option node_ok b)"
| "node_ok (N_container op r ns) = (op \<in> set container_ops \<and> pred_option scope_ok r \<and> list_all node_ok ns)"

text \<open>The name space: no name is bound twice, there is room for the bindings, and what was merged was merged into a container.\<close>

definition ns_ok :: "name_space \<Rightarrow> bool" where
  "ns_ok ns \<longleftrightarrow>
     scope_ok (ns_cur ns) \<and> distinct (map fst (ns_bindings ns)) \<and> length (ns_bindings ns) \<le> ns_capacity ns \<and>
     (\<forall>(s, n) \<in> set (ns_bindings ns). scope_ok s \<and> node_ok n) \<and>
     (\<forall>(s, es) \<in> set (ns_merged ns). list_all node_ok es \<and> (\<exists>n. (s, n) \<in> set (ns_bindings ns) \<and> is_container n))"

text \<open>A step of the parser adds bindings and leaves the scope as it found it.\<close>

definition ns_grows :: "name_space \<Rightarrow> name_space \<Rightarrow> bool" where
  "ns_grows ns ns' \<longleftrightarrow>
     ns_ok ns' \<and> ns_cur ns' = ns_cur ns \<and> (\<exists>bs. ns_bindings ns' = ns_bindings ns @ bs) \<and> (\<exists>ms. ns_merged ns' = ns_merged ns @ ms)"

lemma ns_grows_refl [simp]: "ns_grows ns ns \<longleftrightarrow> ns_ok ns" by (simp add: ns_grows_def)

lemma ns_grows_trans: "ns_grows a b \<Longrightarrow> ns_grows b c \<Longrightarrow> ns_grows a c"
  by (auto simp: ns_grows_def)

lemma ns_grows_ok: "ns_grows a b \<Longrightarrow> ns_ok b" by (simp add: ns_grows_def)

section \<open>Bytes and names\<close>

lemma name_char_nonzero: "is_name_char c \<Longrightarrow> c \<noteq> 0"
  by (auto simp: is_name_char_def is_lead_name_char_def)

lemma scope_ok_nonzero: "scope_ok s \<Longrightarrow> 0 \<notin> set s"
  using name_char_nonzero by (auto simp: scope_ok_def)

lemma aml_name_ok_nonzero: "aml_name_ok s \<Longrightarrow> 0 \<notin> set s"
  using scope_ok_nonzero by (auto simp: aml_name_ok_def root_char_def parent_prefix_char_def)

lemma scope_ok_append: "scope_ok a \<Longrightarrow> scope_ok b \<Longrightarrow> scope_ok (a @ b)"
  unfolding scope_ok_def by (simp add: mod_add_eq [symmetric]) auto

lemma peek_yields [yields_intros]: "(\<And>b d. fst v = b # d \<Longrightarrow> P b) \<Longrightarrow> yields P (peek v)"
  by (auto simp: peek_def split: list.splits)

lemma peek_opcode_yields [yields_intros]: "(\<And>op. fst v \<noteq> [] \<Longrightarrow> P op) \<Longrightarrow> yields P (peek_opcode v)"
  unfolding peek_opcode_def by (auto intro!: yields_intros)

lemma consume_n_yields [yields_intros]:
  "(\<And>b v'. length b = n \<Longrightarrow> length (fst v') + n = length (fst v) \<Longrightarrow> b = take n (fst v) \<Longrightarrow> P (b, v')) \<Longrightarrow>
    yields P (consume_n n v)"
  unfolding consume_n_def by auto

lemma consume_yields [yields_intros]:
  "(\<And>b v'. length (fst v') < length (fst v) \<Longrightarrow> P (b, v')) \<Longrightarrow> yields P (consume v)"
  unfolding consume_def by (auto intro!: yields_intros)

lemma consume_word_yields [yields_intros]:
  "(\<And>b v'. length (fst v') < length (fst v) \<Longrightarrow> P (b, v')) \<Longrightarrow> yields P (consume_word v)"
  unfolding consume_word_def by (auto intro!: yields_intros)

lemma consume_dword_yields [yields_intros]:
  "(\<And>b v'. length (fst v') < length (fst v) \<Longrightarrow> P (b, v')) \<Longrightarrow> yields P (consume_dword v)"
  unfolding consume_dword_def by (auto intro!: yields_intros)

lemma consume_qword_yields [yields_intros]:
  "(\<And>b v'. length (fst v') < length (fst v) \<Longrightarrow> P (b, v')) \<Longrightarrow> yields P (consume_qword v)"
  unfolding consume_qword_def by (auto intro!: yields_intros)

lemma consume_opcode_yields [yields_intros]:
  "(\<And>b v'. length (fst v') < length (fst v) \<Longrightarrow> P (b, v')) \<Longrightarrow> yields P (consume_opcode v)"
  unfolding consume_opcode_def by (auto intro!: yields_intros)

lemma parse_pkg_length_yields [yields_intros]:
  "(\<And>b v'. length (fst v') < length (fst v) \<Longrightarrow> P (b, v')) \<Longrightarrow> yields P (parse_pkg_length v)"
  unfolding parse_pkg_length_def Let_def by (auto intro!: yields_intros)

lemma adjust_yields [yields_intros]:
  "(\<And>pkg rest. length (fst pkg) < length (fst v) \<Longrightarrow> length (fst rest) < length (fst v) \<Longrightarrow> P (pkg, rest)) \<Longrightarrow>
    yields P (adjust_with_pkg_length v)"
  unfolding adjust_with_pkg_length_def Let_def by (auto intro!: yields_intros)

lemma string_length_yields [yields_intros]:
  "(\<And>n. 0 \<notin> set (take n s) \<Longrightarrow> P n) \<Longrightarrow> yields P (string_length s)"
proof -
  assume P: "\<And>n. 0 \<notin> set (take n s) \<Longrightarrow> P n"
  have "string_length s \<noteq> Inl No_return" by (induction s rule: string_length.induct) (auto simp: andThen_def split: sum.splits)
  then show ?thesis using P string_length_nul [of s] by (auto simp: yields_def split: sum.splits)
qed

lemma valid_chars_yields: "yields (\<lambda>ok. ok \<longrightarrow> k \<le> length d \<and> (\<forall>c \<in> set (take k d). is_name_char c)) (valid_chars k d)"
  by (induction k d rule: valid_chars.induct) (auto elim: yields_mono)

lemma valid_nameseg_yields [yields_intros]:
  "(\<And>ok. (ok \<Longrightarrow> 4 \<le> length d \<and> scope_ok (take 4 d)) \<Longrightarrow> P ok) \<Longrightarrow> yields P (valid_nameseg d)"
proof (cases d)
  case (Cons c d1)
  assume P: "\<And>ok. (ok \<Longrightarrow> 4 \<le> length d \<and> scope_ok (take 4 d)) \<Longrightarrow> P ok"
  have "yields P (valid_chars 3 d1)" if "is_lead_name_char c"
    by (rule yields_mono [OF valid_chars_yields [of 3 d1]], rule P)
      (use Cons that in \<open>auto simp: scope_ok_def is_name_char_def numeral_eq_Suc\<close>)
  then show ?thesis using Cons P by (auto simp: valid_nameseg_def)
qed (simp add: valid_nameseg_def)

lemma nameseg_yields [yields_intros]:
  "(\<And>s v'. scope_ok s \<Longrightarrow> length (fst v') + 4 = length (fst v) \<Longrightarrow> P (s, v')) \<Longrightarrow> yields P (nameseg v)"
  unfolding nameseg_def by (auto intro!: yields_intros)

lemma namesegs_yields: "yields (\<lambda>(s, v'). scope_ok s \<and> length (fst v') \<le> length (fst v)) (namesegs k v)"
proof (induction k arbitrary: v)
  case (Suc k)
  show ?case by (simp, rule nameseg_yields) (auto intro!: yields_mono [OF Suc] scope_ok_append)
qed (simp add: scope_ok_def)

lemma parent_prefixes_yields:
  "yields (\<lambda>(p, r). set p \<subseteq> {parent_prefix_char} \<and> length r \<le> length d) (parent_prefixes d)"
  by (induction d rule: parent_prefixes.induct) (auto elim!: yields_mono)

lemma name_prefix_yields [yields_intros]:
  "(\<And>p v'. p = [root_char] \<or> set p \<subseteq> {parent_prefix_char} \<Longrightarrow> length (fst v') \<le> length (fst v) \<Longrightarrow> P (p, v')) \<Longrightarrow>
    yields P (name_prefix v)"
  unfolding name_prefix_def
  by (auto intro!: yields_intros yields_mono [OF parent_prefixes_yields] simp: consume_def)

lemma aml_name_okI: "p = [root_char] \<or> set p \<subseteq> {parent_prefix_char} \<Longrightarrow> scope_ok s \<Longrightarrow> aml_name_ok (p @ s)"
  by (auto simp: aml_name_ok_def)

lemma aml_name_ok_root: "scope_ok s \<Longrightarrow> aml_name_ok (root_char # s)"
  using aml_name_okI [of "[root_char]" s] by simp

lemma scope_ok_Nil [simp]: "scope_ok []" by (simp add: scope_ok_def)

lemma scope_ok_dual:
  assumes "scope_ok (take 4 (a @ b))" "scope_ok (take 4 (drop 4 (a @ b)))" "8 \<le> length a"
  shows "scope_ok (take 8 a)"
proof -
  have "take 8 a = take 4 (a @ b) @ take 4 (drop 4 (a @ b))"
    using assms(3) take_add [of 4 4 "a"] by simp
  then show ?thesis using scope_ok_append [OF assms(1,2)] by simp
qed

lemma parse_name_string_yields [yields_intros]:
  assumes P: "\<And>name v'. aml_name_ok name \<Longrightarrow> length (fst v') < length (fst v) \<Longrightarrow> P (name, v')"
  shows "yields P (parse_name_string v)"
proof -
  have dual: "yields P (andThen (consume_n 8 v2) (\<lambda>(s, v3). Inr (p @ s, v3)))"
    if "length (fst v2) < length (fst v)" "p = [root_char] \<or> set p \<subseteq> {parent_prefix_char}"
      "scope_ok (take 4 (fst v2 @ snd v2))" "scope_ok (take 4 (drop 4 (fst v2 @ snd v2)))" for p v2
    using that by (intro yields_bind consume_n_yields) (auto intro!: P aml_name_ok_root aml_name_okI scope_ok_dual)
  have multi: "yields P (andThen (namesegs k v2) (\<lambda>(s, v3). Inr (p @ s, v3)))"
    if "length (fst v2) < length (fst v)" "p = [root_char] \<or> set p \<subseteq> {parent_prefix_char}" for p v2 k
    using that by (intro yields_bind yields_mono [OF namesegs_yields]) (auto intro!: P aml_name_ok_root aml_name_okI)
  have single: "yields P (andThen (valid_nameseg [t, a, b, c]) (\<lambda>ok. require ok m (Inr (p @ [t, a, b, c], v2))))"
    if "length (fst v2) < length (fst v)" "p = [root_char] \<or> set p \<subseteq> {parent_prefix_char}" for p v2 t a b c m
    using that by (intro yields_bind valid_nameseg_yields) (auto intro!: P aml_name_ok_root aml_name_okI)
  show ?thesis
    unfolding parse_name_string_def
    apply (rule yields_bind, rule name_prefix_yields, simp only: prod.case)
    apply (rule yields_bind, rule consume_yields, simp only: prod.case)
    apply (split if_split, intro conjI impI)
    subgoal for p v1 t v2 using P [OF aml_name_okI [of p "[]"]] by simp
    apply (split if_split, intro conjI impI)
    subgoal for p v1 t v2
      by ((rule yields_bind, rule valid_nameseg_yields, rule yields_check)+, rule dual) auto
    apply (split if_split, intro conjI impI)
    subgoal for p v1 t v2
      by (rule yields_bind, rule consume_yields, simp only: prod.case, rule yields_check, rule multi) auto
    apply (split if_split, intro conjI impI)
    subgoal for p v1 t v2
      by ((rule yields_bind, rule consume_yields, simp only: prod.case)+, rule single) auto
    apply simp
    done
qed

section \<open>The name space\<close>

lemma find_binding_member: "find_binding ns name = Some b \<Longrightarrow> b \<in> set (ns_bindings ns) \<and> fst b = name"
  by (auto simp: find_binding_def find_Some_iff)

lemma find_binding_None: "find_binding ns name = None \<longleftrightarrow> name \<notin> fst ` set (ns_bindings ns)"
  by (force simp: find_binding_def find_None_iff)

lemma search_scopes_member: "search_scopes ns scope name = Some b \<Longrightarrow> b \<in> set (ns_bindings ns)"
proof (induction ns scope name rule: search_scopes.induct)
  case (1 ns scope name)
  then show ?case
    by (subst (asm) (2) search_scopes.simps) (auto split: option.splits dest: find_binding_member)
qed

lemma skip_parents_yields: "yields (\<lambda>_. True) (skip_parents scope name)"
  by (induction scope name rule: skip_parents.induct) (auto split: option.splits)

lemma lookup_binding_yields [yields_intros]:
  "(\<And>b. (\<And>x. b = Some x \<Longrightarrow> x \<in> set (ns_bindings ns)) \<Longrightarrow> P b) \<Longrightarrow> yields P (lookup_binding ns name)"
  unfolding lookup_binding_def
  by (auto split: list.splits simp del: skip_parents.simps intro!: yields_mono [OF skip_parents_yields] dest: find_binding_member search_scopes_member)

lemma lookup_node_yields [yields_intros]:
  "(\<And>b. (\<And>x. b = Some x \<Longrightarrow> x \<in> set (ns_bindings ns)) \<Longrightarrow> P b) \<Longrightarrow> yields P (lookup_node ns name)"
  by (simp add: lookup_node_def lookup_binding_yields)

definition opened :: "name_space \<Rightarrow> name_space \<Rightarrow> bool" where
  "opened ns ns1 \<longleftrightarrow> ns_ok ns \<and> ns_ok ns1 \<and> ns_bindings ns1 = ns_bindings ns \<and> ns_merged ns1 = ns_merged ns"

lemma opened_ok: "opened ns ns1 \<Longrightarrow> ns_ok ns1" by (simp add: opened_def)

lemma open_scope_yields [yields_intros]:
  assumes "aml_name_ok name" and ok: "ns_ok ns" and P: "\<And>ns1. opened ns ns1 \<Longrightarrow> P (ns_cur ns, ns1)"
  shows "yields P (open_scope name ns)"
proof -
  obtain p s where ps: "name = p @ s" "scope_ok s" "p = [root_char] \<or> set p \<subseteq> {parent_prefix_char}"
    using assms(1) by (auto simp: aml_name_ok_def)
  have p: "p = [root_char] \<or> p = []" if "take 1 name \<noteq> [parent_prefix_char]"
    using ps(3) that by (cases p) (auto simp: ps(1))
  have s: "take 1 s \<noteq> [root_char]"
    using ps(2) by (cases s) (auto simp: scope_ok_def is_name_char_def is_lead_name_char_def root_char_def)
  have grown: "opened ns (ns\<lparr>ns_cur := t @ s\<rparr>)" if "scope_ok t" for t
    using ok scope_ok_append [OF that ps(2)] by (simp add: opened_def ns_ok_def)
  show ?thesis
    unfolding open_scope_def Let_def yields_require
    using p s ps(1) ok grown [of "[]"] grown [of "ns_cur ns"] by (auto intro!: P simp: ns_ok_def)
qed

lemma ns_ok_bind:
  assumes "ns_ok ns2" "scope_ok old" "find_binding ns2 (ns_cur ns2) = None" "node_ok nd"
  shows "ns_ok (ns2\<lparr>ns_cur := old, ns_bindings := ns_bindings ns2 @ [(ns_cur ns2, nd)],
    ns_capacity := ensure_room (length (ns_bindings ns2) + 1) (ns_capacity ns2)\<rparr>)"
  using assms unfolding ns_ok_def by (auto simp: find_binding_None ensure_room_def)

lemma provide_yields [yields_intros]:
  assumes "opened ns ns1" "ns_grows ns1 ns2" "node_ok nd" and P: "\<And>ns3. ns_grows ns ns3 \<Longrightarrow> P ns3"
  shows "yields P (provide (ns_cur ns) nd ns2)"
  unfolding provide_def
  using assms(1-3) ns_ok_bind [of ns2 "ns_cur ns" nd]
  by (auto intro!: P simp: ns_grows_def opened_def ns_ok_def [of ns])

lemma provide_opened_yields [yields_intros]:
  assumes "opened ns ns1" "node_ok nd" and P: "\<And>ns3. ns_grows ns ns3 \<Longrightarrow> P ns3"
  shows "yields P (provide (ns_cur ns) nd ns1)"
  using assms(1) by (auto intro!: provide_yields [OF assms(1) _ assms(2)] P simp: opened_def)

lemma merge_yields [yields_intros]:
  assumes "opened ns ns1" "ns_grows ns1 ns2" "target \<in> set (ns_bindings ns2)" "list_all node_ok nodes"
    and P: "\<And>ns3. ns_grows ns ns3 \<Longrightarrow> P ns3"
  shows "yields P (merge target op nodes (mark_dead (ns_cur ns) ns2))"
proof (cases target)
  case (Pair s n)
  have "ns_grows ns (ns2\<lparr>ns_cur := ns_cur ns, ns_merged := ns_merged ns2 @ [(s, nodes)]\<rparr>)" if "is_container n"
    using assms(1-4) that unfolding Pair ns_grows_def opened_def ns_ok_def by auto
  then show ?thesis
    unfolding merge_def mark_dead_def by (auto simp: Pair intro!: P)
qed

section \<open>Parsers of expressions\<close>

text \<open>A parser that is applied to at most \<open>n\<close> bytes takes at least one of them, and its node satisfies \<open>Q\<close>.\<close>

definition parser_ok :: "(aml_node option \<Rightarrow> bool) \<Rightarrow> nat \<Rightarrow> node_parser \<Rightarrow> bool" where
  "parser_ok Q n T \<longleftrightarrow>
     (\<forall>v. length (fst v) \<le> n \<longrightarrow> yields (\<lambda>(x, v'). length (fst v') < length (fst v) \<and> Q x) (T v))"

abbreviation typed :: "aml_node option \<Rightarrow> bool" where "typed x \<equiv> pred_option node_ok x"

definition data_typed :: "aml_node option \<Rightarrow> bool" where
  "data_typed x \<longleftrightarrow> (\<exists>n. x = Some n \<and> node_ok n \<and> is_data_node n)"

lemma parser_okI:
  "(\<And>v. length (fst v) \<le> n \<Longrightarrow> yields (\<lambda>(x, v'). length (fst v') < length (fst v) \<and> Q x) (T v)) \<Longrightarrow> parser_ok Q n T"
  by (simp add: parser_ok_def)

lemma parser_ok_yields:
  assumes "parser_ok Q n T" "length (fst v) \<le> n" and P: "\<And>x v'. length (fst v') < length (fst v) \<Longrightarrow> Q x \<Longrightarrow> P (x, v')"
  shows "yields P (T v)"
  using assms(1) [unfolded parser_ok_def, rule_format, OF assms(2)] by (rule yields_mono) (auto intro!: P)

lemma parser_ok_weaken: "parser_ok Q n T \<Longrightarrow> (\<And>x. Q x \<Longrightarrow> R x) \<Longrightarrow> parser_ok R n T"
  unfolding parser_ok_def by (fastforce elim!: yields_mono)

lemma data_typed_Some [simp]: "data_typed (Some n) \<longleftrightarrow> node_ok n \<and> is_data_node n" by (simp add: data_typed_def)

lemma data_typed_typed: "data_typed x \<Longrightarrow> typed x" by (auto simp: data_typed_def)

lemma make_text_node_yields [yields_intros]: "P (N_text op s) \<Longrightarrow> yields P (make_text_node op s)"
  by (simp add: make_text_node_def)

lemma arg_or_local_ok: "parser_ok typed n parse_arg_or_local"
  unfolding parse_arg_or_local_def
  by (rule parser_okI) (auto intro!: yields_intros simp: make_simple_node_def)

lemma name_node_ok: "op \<in> set text_ops \<Longrightarrow> parser_ok typed n (parse_name_node op)"
  unfolding parse_name_node_def
  by (rule parser_okI) (auto intro!: yields_intros simp: aml_name_ok_nonzero)

lemma parse_args_yields:
  assumes "parser_ok typed n T"
  shows "length (fst v) \<le> n \<Longrightarrow>
    yields (\<lambda>(as, v'). length (fst v') + (if as = None then 1 else k) \<le> length (fst v) \<and>
      (\<forall>l. as = Some l \<longrightarrow> length l = k \<and> list_all node_ok l)) (parse_args k T v)"
proof (induction k arbitrary: v)
  case (Suc k)
  show ?case
    by (simp, rule parser_ok_yields [OF assms])
      (use Suc in \<open>auto split: option.splits intro!: yields_mono [OF Suc.IH]\<close>)
qed simp

lemma op_node_ok: "length as \<in> {k, Suc k} \<Longrightarrow> list_all typed as \<Longrightarrow> node_ok (op_node k name as)"
  by (auto simp: op_node_def)

lemma target_ok: "parser_ok typed n S \<Longrightarrow> parser_ok typed n (parse_target S)"
  unfolding parse_target_def
  by (rule parser_okI) (auto intro!: yields_intros elim!: parser_ok_yields simp: make_simple_node_def)

lemma typed_map_Some: "list_all typed (map Some as) \<longleftrightarrow> list_all node_ok as"
  by (simp add: list_all_iff)

lemma op_node_parse_ok:
  assumes "parser_ok typed n T" "parser_ok typed n S" "0 < k"
  shows "parser_ok typed n (op_node_parse k name target T S)"
  unfolding op_node_parse_def
  using assms(3)
  by (intro parser_okI)
    (auto intro!: yields_mono [OF parse_args_yields [OF assms(1)]] parser_ok_yields [OF target_ok [OF assms(2)]] op_node_ok
      simp: typed_map_Some split: option.splits)

lemma parse_ops_ok:
  assumes "parser_ok typed n T" "parser_ok typed n S"
  shows "parser_ok typed n (parse_unary_op name T S)" "parser_ok typed n (parse_unary_op_no_target name T S)"
    "parser_ok typed n (parse_binary_op name T S)" "parser_ok typed n (parse_logical_op name T S)" "parser_ok typed n (parse_index T S)"
  by (simp_all add: parse_unary_op_def parse_unary_op_no_target_def parse_binary_op_def parse_logical_op_def parse_index_def
    op_node_parse_ok [OF assms])

text \<open>A parser that first takes an op code may run on one byte more.\<close>

lemma type6_ok:
  assumes "parser_ok typed n T" "parser_ok typed n S"
  shows "parser_ok typed (Suc n) (parse_type6_opcode T S)"
  unfolding parse_type6_opcode_def
  by (rule parser_okI) (auto intro!: yields_intros parser_ok_yields [OF parse_ops_ok(5) [OF assms]])

lemma super_name_with_ok:
  assumes "parser_ok typed n T" "parser_ok typed n S"
  shows "parser_ok typed (Suc n) (super_name_with T S)"
  unfolding super_name_with_def
  by (rule parser_okI)
    (auto intro!: peek_yields parser_ok_yields [OF type6_ok [OF assms]] parser_ok_yields [OF arg_or_local_ok]
      parser_ok_yields [OF name_node_ok] simp: text_ops_def)

lemma string_ok: "length (fst v) < n \<Longrightarrow> yields (\<lambda>(x, v'). length (fst v') < n \<and> data_typed x) (parse_string v)"
  unfolding parse_string_def
  by (auto intro!: yields_intros simp: text_ops_def is_data_node_def)

lemma buffer_ok:
  assumes "parser_ok typed n T"
  shows "length (fst v) \<le> n \<Longrightarrow> yields (\<lambda>(x, v'). length (fst v') < length (fst v) \<and> data_typed x) (parse_buffer T v)"
  unfolding parse_buffer_def
  by (auto intro!: yields_intros parser_ok_yields [OF assms] simp: is_data_node_def)

lemma parse_list_yields:
  assumes p: "\<And>s v. I s \<Longrightarrow> length (fst v) \<le> n \<Longrightarrow>
      yields (\<lambda>(x, v', s'). length (fst v') < length (fst v) \<and> typed x \<and> I s' \<and> R s s') (p s v)"
    and refl: "\<And>s. I s \<Longrightarrow> R s s" and trans: "\<And>a b c. R a b \<Longrightarrow> R b c \<Longrightarrow> R a c"
  shows "I s \<Longrightarrow> length (fst v) \<le> n \<Longrightarrow> length (fst v) < k \<Longrightarrow>
    yields (\<lambda>(l, v', s'). (\<forall>x. l = Some x \<longrightarrow> fst v' = [] \<and> list_all node_ok x) \<and> length (fst v') \<le> length (fst v) \<and> I s' \<and> R s s')
      (parse_list k p s v)"
proof (induction k arbitrary: s v)
  case (Suc k)
  show ?case
  proof (cases "fst v = []")
    case False
    show ?thesis
      using False Suc.prems
      by (simp, intro yields_mono [OF p])
        (auto split: option.splits intro!: yields_mono [OF Suc.IH], erule (1) trans)
  qed (use Suc.prems refl in auto)
qed simp

lemma package_element_ok:
  assumes "parser_ok typed n D"
  shows "parser_ok typed n (package_element D)"
  unfolding package_element_def
  by (rule parser_okI)
    (auto intro!: peek_yields parser_ok_yields [OF assms] parser_ok_yields [OF name_node_ok] simp: text_ops_def)

lemma package_ok:
  assumes "parser_ok typed n D"
  shows "length (fst v) \<le> n \<Longrightarrow> yields (\<lambda>(x, v'). length (fst v') < length (fst v) \<and> data_typed x) (parse_package D v)"
proof -
  assume v: "length (fst v) \<le> n"
  have elements: "yields (\<lambda>(l, v', s'). (\<forall>x. l = Some x \<longrightarrow> fst v' = [] \<and> list_all node_ok x) \<and> length (fst v') \<le> length d \<and> True \<and> True)
      (parse_list (Suc (length d)) (\<lambda>_ v. andThen (package_element D v) (\<lambda>(n, v1). Inr (n, v1, ()))) () (d, b))"
    if "length d \<le> n" for d b
    by (rule parse_list_yields [where I = "\<lambda>_. True" and R = "\<lambda>_ _. True" and n = n and v = "(d, b)", unfolded fst_conv])
      (use that in \<open>auto intro!: parser_ok_yields [OF package_element_ok [OF assms]]\<close>)
  have small: "unat b = m \<Longrightarrow> m < 256" for b :: u8 and m using unsigned_less [of b, where ?'a = nat] by simp
  show ?thesis
    unfolding parse_package_def
    using v
    by (auto intro!: adjust_yields consume_yields yields_mono [OF elements] split: option.splits
        simp: is_data_node_def simp del: parse_list.simps) (metis small)
qed

lemma const_node_ok [simp]:
  "node_ok (make_const_node8 b)" "node_ok (make_const_node16 w)" "node_ok (make_const_node32 d)" "node_ok (make_const_node64 q)"
  using unsigned_less [of b, where ?'a = nat] unsigned_less [of w, where ?'a = nat] unsigned_less [of d, where ?'a = nat]
    unsigned_less [of q, where ?'a = nat]
  by (simp_all add: make_const_node8_def make_const_node16_def make_const_node32_def make_const_node64_def unsigned_ucast_eq take_bit_nat_eq_self)

lemma const_node_data [simp]:
  "is_data_node (make_const_node8 b)" "is_data_node (make_const_node16 w)" "is_data_node (make_const_node32 d)"
  "is_data_node (make_const_node64 q)"
  by (simp_all add: make_const_node8_def make_const_node16_def make_const_node32_def make_const_node64_def is_data_node_def)

lemma data_object_with_ok:
  assumes "parser_ok typed n T" "parser_ok data_typed n D"
  shows "parser_ok data_typed (Suc n) (data_object_with T D)"
proof (rule parser_okI)
  fix v :: parse_state assume v: "length (fst v) \<le> Suc n"
  have D: "parser_ok typed n D" using assms(2) data_typed_typed by (rule parser_ok_weaken)
  note reads = consume_yields consume_word_yields consume_dword_yields consume_qword_yields
  show "yields (\<lambda>(x, v'). length (fst v') < length (fst v) \<and> data_typed x) (data_object_with T D v)"
    unfolding data_object_with_def
    using v
    by (auto intro!: consume_opcode_yields reads string_ok yields_mono [OF buffer_ok [OF assms(1)]]
        yields_mono [OF package_ok [OF D]])
qed

lemma method_invocation_ok:
  assumes "ns_ok ns" "parser_ok typed n T"
  shows "parser_ok typed (Suc n) (parse_method_invocation ns T)"
proof (rule parser_okI)
  fix v :: parse_state assume v: "length (fst v) \<le> Suc n"
  have reference: "node_ok (N_text op_name_lookup name)" if "aml_name_ok name" for name
    using aml_name_ok_nonzero [OF that] by (simp add: text_ops_def)
  show "yields (\<lambda>(x, v'). length (fst v') < length (fst v) \<and> typed x) (parse_method_invocation ns T v)"
    unfolding parse_method_invocation_def
    using v reference
    by (auto intro!: parse_name_string_yields lookup_binding_yields make_text_node_yields yields_mono [OF parse_args_yields [OF assms(2)]]
        split: option.splits aml_node.splits simp: option.pred_map option.pred_set)
qed

lemma divide_ok:
  assumes "parser_ok typed n T" "parser_ok typed n S"
  shows "parser_ok typed n (parse_divide T S)"
  unfolding parse_divide_def
  by (rule parser_okI)
    (auto intro!: parser_ok_yields [OF assms(1)] parser_ok_yields [OF target_ok [OF assms(2)]] op_node_ok)

lemma lnot_ok:
  assumes "parser_ok typed n T" "parser_ok typed n S"
  shows "parser_ok typed n (parse_lnot T S)"
  unfolding parse_lnot_def
  by (rule parser_okI)
    (auto intro!: peek_opcode_yields consume_yields parser_ok_yields [OF parse_ops_ok(4) [OF assms]] parser_ok_yields [OF assms(1)]
      op_node_ok split: option.splits)

lemma wrapped_ok: "parser_ok typed n P \<Longrightarrow> parser_ok typed n (parse_wrapped name P)"
  unfolding parse_wrapped_def by (rule parser_okI) (auto elim!: parser_ok_yields intro!: op_node_ok)

lemma cond_ref_of_ok:
  assumes "parser_ok typed n S"
  shows "parser_ok typed n (parse_cond_ref_of S)"
  unfolding parse_cond_ref_of_def
  by (rule parser_okI) (auto intro!: parser_ok_yields [OF assms] parser_ok_yields [OF target_ok [OF assms]] op_node_ok)

lemma acquire_ok: "parser_ok typed n S \<Longrightarrow> parser_ok typed n (parse_acquire S)"
  unfolding parse_acquire_def
  by (rule parser_okI) (auto intro!: parser_ok_yields [of typed n S] consume_word_yields op_node_ok)

lemma type2_operator_ok:
  assumes "parser_ok typed n T" "parser_ok typed n S"
  shows "parser_ok typed n (type2_operator T S op)"
  unfolding type2_operator_def
  by (simp add: parse_ops_ok [OF assms] divide_ok [OF assms] lnot_ok [OF assms] op_node_parse_ok [OF assms]
    wrapped_ok [OF assms(1)] wrapped_ok [OF assms(2)] cond_ref_of_ok [OF assms(2)] acquire_ok [OF assms(2)] parser_ok_def [of typed n "\<lambda>_. Inl e" for e])

lemma type2_with_ok:
  assumes "ns_ok ns" "parser_ok typed n T" "parser_ok typed n S"
  shows "parser_ok typed (Suc n) (type2_with ns T S)"
  unfolding type2_with_def
  by (rule parser_okI)
    (auto intro!: peek_yields consume_opcode_yields parser_ok_yields [OF method_invocation_ok [OF assms(1,2)]]
      parser_ok_yields [OF type2_operator_ok [OF assms(2,3)]])

lemma term_arg_with_ok:
  assumes "ns_ok ns" "parser_ok typed n T" "parser_ok typed n S" "parser_ok data_typed n D"
  shows "parser_ok typed (Suc n) (term_arg_with ns T S D)"
  unfolding term_arg_with_def
  by (rule parser_okI)
    (auto intro!: peek_yields parser_ok_yields [OF type2_with_ok [OF assms(1-3)]] parser_ok_yields [OF arg_or_local_ok]
      parser_ok_yields [OF data_object_with_ok [OF assms(2,4)]] dest: data_typed_typed)

text \<open>Fuel for more than the bytes that are left is enough.\<close>

lemma expressions_ok:
  assumes "ns_ok ns"
  shows "parser_ok typed k (term_arg_n (Suc k) ns) \<and> parser_ok typed k (super_name_n (Suc k) ns) \<and>
    parser_ok data_typed k (data_object_n (Suc k) ns)"
proof (induction k)
  case 0
  have empty: "parser_ok Q 0 p" if "\<And>m. p ([], m) = Inl (Fatal ''!data_.empty()'')" for Q p
    unfolding parser_ok_def using that by auto
  show ?case
    by (intro conjI empty)
      (simp_all add: term_arg_with_def super_name_with_def data_object_with_def consume_opcode_def peek_opcode_def peek_def)
next
  case (Suc k)
  have step: "term_arg_n (Suc m) ns = term_arg_with ns (term_arg_n m ns) (super_name_n m ns) (data_object_n m ns)"
    "super_name_n (Suc m) ns = super_name_with (term_arg_n m ns) (super_name_n m ns)"
    "data_object_n (Suc m) ns = data_object_with (term_arg_n m ns) (data_object_n m ns)" for m
    by (rule ext, simp)+
  show ?case
    unfolding step [of "Suc k"]
    using Suc assms by (blast intro: term_arg_with_ok super_name_with_ok data_object_with_ok)
qed

lemma parser_ok_all:
  assumes "\<And>n. parser_ok Q n (p (Suc n))"
  shows "parser_ok Q n (\<lambda>v. p (Suc (length (fst v))) v)"
  using assms unfolding parser_ok_def by blast

lemma term_arg_ok: "ns_ok ns \<Longrightarrow> parser_ok typed n (parse_term_arg ns)"
  using parser_ok_all [where p = "\<lambda>k. term_arg_n k ns"] expressions_ok unfolding parse_term_arg_def [abs_def] by blast

lemma super_name_ok: "ns_ok ns \<Longrightarrow> parser_ok typed n (parse_super_name ns)"
  using parser_ok_all [where p = "\<lambda>k. super_name_n k ns"] expressions_ok unfolding parse_super_name_def [abs_def] by blast

lemma data_object_ok: "ns_ok ns \<Longrightarrow> parser_ok data_typed n (parse_data_object ns)"
  using parser_ok_all [where p = "\<lambda>k. data_object_n k ns"] expressions_ok unfolding parse_data_object_def [abs_def] by blast

lemma type2_opcode_ok: "ns_ok ns \<Longrightarrow> parser_ok typed n (parse_type2_opcode ns)"
  using type2_with_ok [OF _ term_arg_ok super_name_ok] unfolding parse_type2_opcode_def [abs_def] parser_ok_def
  by (metis le_SucI)

lemma term_arg_yields [yields_intros]:
  "ns_ok ns \<Longrightarrow> (\<And>x v'. length (fst v') < length (fst v) \<Longrightarrow> typed x \<Longrightarrow> P (x, v')) \<Longrightarrow> yields P (parse_term_arg ns v)"
  by (rule parser_ok_yields [OF term_arg_ok order_refl])

lemma super_name_yields [yields_intros]:
  "ns_ok ns \<Longrightarrow> (\<And>x v'. length (fst v') < length (fst v) \<Longrightarrow> typed x \<Longrightarrow> P (x, v')) \<Longrightarrow> yields P (parse_super_name ns v)"
  by (rule parser_ok_yields [OF super_name_ok order_refl])

lemma data_object_yields [yields_intros]:
  "ns_ok ns \<Longrightarrow> (\<And>x v'. length (fst v') < length (fst v) \<Longrightarrow> data_typed x \<Longrightarrow> P (x, v')) \<Longrightarrow>
    yields P (parse_data_object ns v)"
  by (rule parser_ok_yields [OF data_object_ok order_refl])

section \<open>Parsers of statements\<close>

definition obj_ok :: "nat \<Rightarrow> obj_parser \<Rightarrow> bool" where
  "obj_ok n p \<longleftrightarrow>
     (\<forall>ns v. ns_ok ns \<longrightarrow> length (fst v) \<le> n \<longrightarrow>
       yields (\<lambda>(x, v', ns'). length (fst v') < length (fst v) \<and> typed x \<and> ns_grows ns ns') (p ns v))"

definition objs_ok :: "nat \<Rightarrow> list_parser \<Rightarrow> bool" where
  "objs_ok n L \<longleftrightarrow>
     (\<forall>ns v. ns_ok ns \<longrightarrow> length (fst v) \<le> n \<longrightarrow>
       yields (\<lambda>(l, v', ns'). (\<forall>x. l = Some x \<longrightarrow> fst v' = [] \<and> list_all node_ok x) \<and> length (fst v') \<le> length (fst v) \<and>
         ns_grows ns ns') (L ns v))"

lemma obj_okI:
  "(\<And>ns v. ns_ok ns \<Longrightarrow> length (fst v) \<le> n \<Longrightarrow>
     yields (\<lambda>(x, v', ns'). length (fst v') < length (fst v) \<and> typed x \<and> ns_grows ns ns') (p ns v)) \<Longrightarrow> obj_ok n p"
  by (simp add: obj_ok_def)

lemma obj_ok_yields:
  assumes "obj_ok n p" "ns_ok ns" "length (fst v) \<le> n"
    and P: "\<And>x v' ns'. length (fst v') < length (fst v) \<Longrightarrow> typed x \<Longrightarrow> ns_grows ns ns' \<Longrightarrow> P (x, v', ns')"
  shows "yields P (p ns v)"
  using assms(1) [unfolded obj_ok_def, rule_format, OF assms(2,3)] by (rule yields_mono) (auto intro!: P)

lemma objs_ok_yields:
  assumes "objs_ok n L" "ns_ok ns" "length (fst v) \<le> n"
    and P: "\<And>l v' ns'. (\<forall>x. l = Some x \<longrightarrow> fst v' = [] \<and> list_all node_ok x) \<Longrightarrow> length (fst v') \<le> length (fst v) \<Longrightarrow> ns_grows ns ns' \<Longrightarrow> P (l, v', ns')"
  shows "yields P (L ns v)"
  using assms(1) [unfolded objs_ok_def, rule_format, OF assms(2,3)] by (rule yields_mono) (auto intro!: P)

lemma list_ok: "obj_ok n p \<Longrightarrow> objs_ok n (\<lambda>ns v. parse_list (Suc (length (fst v))) p ns v)"
  unfolding objs_ok_def
  by (intro allI impI, rule yields_mono [OF parse_list_yields [where I = ns_ok and R = ns_grows and n = n and p = p]])
    (auto elim: obj_ok_yields ns_grows_trans dest: ns_grows_ok)

lemma as_obj_ok:
  assumes "\<And>ns. ns_ok ns \<Longrightarrow> parser_ok typed n (p ns)"
  shows "obj_ok n (as_obj p)"
  unfolding as_obj_def
  by (rule obj_okI, rule yields_bind, rule parser_ok_yields [OF assms]) auto

lemma named_field_ok: "obj_ok n parse_named_field"
  unfolding parse_named_field_def Let_def
proof (rule obj_okI, goal_cases)
  case (1 ns v)
  have name: "aml_name_ok s" if "scope_ok s" for s using that aml_name_okI [of "[]" s] by simp
  show ?case
    using 1 name
    by (auto intro!: valid_nameseg_yields consume_n_yields parse_pkg_length_yields open_scope_yields provide_opened_yields)
qed

lemma field_element_ok: "obj_ok n field_element"
  unfolding field_element_def
  by (rule obj_okI)
    (auto intro!: peek_yields consume_yields parse_pkg_length_yields obj_ok_yields [OF named_field_ok] simp: make_simple_node_def)

lemma field_list_ok: "objs_ok n parse_field_list"
  using list_ok [OF field_element_ok] by (simp add: parse_field_list_def [abs_def])

lemma obj_name_ok: "obj_ok n obj_name"
  unfolding obj_name_def
  by (rule obj_okI)
    (auto intro!: parse_name_string_yields open_scope_yields data_object_yields provide_opened_yields opened_ok
      simp: parse_data_ref_object_def split: option.splits)

lemma close_container_yields [yields_intros]:
  assumes "opened ns ns1" "ns_grows ns1 ns2" "op \<in> set container_ops" "list_all node_ok nodes"
    and P: "\<And>nd ns3. node_ok nd \<Longrightarrow> ns_grows ns ns3 \<Longrightarrow> P (Some nd, rest, ns3)"
  shows "yields P (close_container (ns_cur ns) op nodes rest ns2)"
proof -
  have "scope_ok (ns_cur ns2)" using assms(2) by (auto simp: ns_grows_def ns_ok_def)
  then show ?thesis
    unfolding close_container_def Let_def
    using assms(3,4) by (auto intro!: provide_yields [OF assms(1,2)] P)
qed

lemma obj_scope_ok: "objs_ok n L \<Longrightarrow> obj_ok (Suc n) (obj_scope L)"
  unfolding obj_scope_def
  by (rule obj_okI)
    (auto intro!: adjust_yields parse_name_string_yields open_scope_yields objs_ok_yields [of n L] lookup_node_yields
      close_container_yields merge_yields opened_ok simp: container_ops_def split: option.splits)

lemma obj_method_ok: "obj_ok n obj_method"
  unfolding obj_method_def Let_def
  by (rule obj_okI)
    (auto intro!: adjust_yields parse_name_string_yields open_scope_yields consume_yields provide_opened_yields)

lemma obj_store_ok: "ns_ok ns \<Longrightarrow> parser_ok typed n (obj_store ns)"
  unfolding obj_store_def
  by (rule parser_okI)
    (auto intro!: term_arg_yields super_name_yields op_node_ok split: option.splits)

lemma obj_notify_ok: "ns_ok ns \<Longrightarrow> parser_ok typed n (obj_notify ns)"
  unfolding obj_notify_def
  by (rule parser_okI)
    (auto intro!: term_arg_yields super_name_yields op_node_ok)

lemma obj_create_typed_field_ok: "obj_ok n (obj_create_typed_field op)"
  unfolding obj_create_typed_field_def Let_def
  by (rule obj_okI)
    (auto intro!: term_arg_yields parse_name_string_yields open_scope_yields provide_opened_yields)

lemma obj_else_ok:
  assumes "objs_ok n L" "node_ok p" "list_all node_ok as" "length (fst v) \<le> Suc n"
    "length (fst v) < m" "ns_grows ns0 ns"
  shows "yields (\<lambda>(x, v', ns'). length (fst v') < m \<and> typed x \<and> ns_grows ns0 ns') (obj_else L p as ns v)"
  unfolding obj_else_def
  using assms ns_grows_ok [OF assms(6)]
  by (auto intro!: peek_opcode_yields consume_opcode_yields adjust_yields objs_ok_yields [OF assms(1)] ns_grows_trans [OF assms(6)]
      split: option.splits)

lemma obj_if_ok:
  assumes "objs_ok n L"
  shows "obj_ok (Suc n) (obj_if L)"
  unfolding obj_if_def
  by (rule obj_okI)
    (auto intro!: adjust_yields term_arg_yields objs_ok_yields [OF assms] obj_else_ok [OF assms] split: option.splits)

lemma obj_while_ok:
  assumes "objs_ok n L"
  shows "obj_ok (Suc n) (obj_while L)"
  unfolding obj_while_def
  by (rule obj_okI)
    (auto intro!: adjust_yields term_arg_yields objs_ok_yields [OF assms] split: option.splits)

lemma obj_return_ok: "ns_ok ns \<Longrightarrow> parser_ok typed n (obj_return ns)"
  unfolding obj_return_def
  by (rule parser_okI) (auto intro!: term_arg_yields op_node_ok split: option.splits)

lemma mutex_flags:
  assumes "flags AND 0xf0 = 0"
  shows "(flags :: u8) < 16"
proof -
  have "(0x0f OR 0xf0 :: u8) = - 1" by simp
  then have "flags = flags AND (0x0f OR 0xf0)" by (simp only: and.right_neutral)
  also have "\<dots> = flags AND 0x0f" using assms by (simp only: bit.conj_disj_distrib) simp
  finally have "flags \<le> 0x0f" by (metis word_and_le1)
  then show ?thesis by (simp add: word_le_nat_alt word_less_nat_alt)
qed

lemma obj_mutex_ok: "ns_ok ns \<Longrightarrow> parser_ok typed n (obj_mutex ns)"
  unfolding obj_mutex_def
  by (rule parser_okI) (auto intro!: parse_name_string_yields consume_yields mutex_flags)

lemma obj_create_field_ok: "ns_ok ns \<Longrightarrow> parser_ok typed n (obj_create_field ns)"
  unfolding obj_create_field_def
  by (rule parser_okI)
    (auto intro!: term_arg_yields parser_ok_yields [OF name_node_ok order_refl] op_node_ok simp: text_ops_def)

lemma obj_fatal_ok: "ns_ok ns \<Longrightarrow> parser_ok typed n (obj_fatal ns)"
  unfolding obj_fatal_def
  by (rule parser_okI) (auto intro!: consume_yields consume_dword_yields term_arg_yields op_node_ok)

lemma obj_op_region_ok: "ns_ok ns \<Longrightarrow> parser_ok typed n (obj_op_region ns)"
  unfolding obj_op_region_def
  by (rule parser_okI) (auto intro!: parse_name_string_yields consume_yields term_arg_yields)

lemma field_list_yields:
  "ns_ok ns \<Longrightarrow> (\<And>l v' ns'. (\<forall>x. l = Some x \<longrightarrow> fst v' = [] \<and> list_all node_ok x) \<Longrightarrow> ns_grows ns ns' \<Longrightarrow> P (l, v', ns')) \<Longrightarrow>
    yields P (parse_field_list ns v)"
  by (rule objs_ok_yields [OF field_list_ok _ order_refl])

lemma obj_field_ok: "obj_ok n obj_field"
  unfolding obj_field_def parse_field_flags_def
  by (rule obj_okI)
    (auto intro!: adjust_yields parse_name_string_yields consume_yields field_list_yields split: option.splits)

lemma obj_index_field_ok: "obj_ok n obj_index_field"
  unfolding obj_index_field_def parse_field_flags_def
  by (rule obj_okI)
    (auto intro!: adjust_yields parse_name_string_yields consume_yields field_list_yields split: option.splits)

lemma obj_container_ok:
  assumes L: "objs_ok n L" and op: "op \<in> set container_ops"
    and header: "\<And>v. yields (\<lambda>v'. length (fst v') \<le> length (fst v)) (header v)"
  shows "obj_ok (Suc n) (obj_container op header L)"
  unfolding obj_container_def
  by (rule obj_okI)
    (auto intro!: adjust_yields parse_name_string_yields yields_mono [OF header] open_scope_yields objs_ok_yields [OF L]
      close_container_yields opened_ok op split: option.splits)

lemma containers_ok:
  assumes "objs_ok n L"
  shows "obj_ok (Suc n) (obj_device L)" "obj_ok (Suc n) (obj_processor L)" "obj_ok (Suc n) (obj_power_res L)"
    "obj_ok (Suc n) (obj_thermal_zone L)"
  unfolding obj_device_def obj_processor_def obj_power_res_def obj_thermal_zone_def
  by (auto intro!: obj_container_ok [OF assms] consume_yields consume_dword_yields consume_word_yields simp: container_ops_def)

lemma obj_ok_mono: "obj_ok (Suc n) p \<Longrightarrow> obj_ok n p"
  by (simp add: obj_ok_def)

lemma term_obj_switch_ok:
  assumes "objs_ok n L" "op \<noteq> op_noop"
  shows "obj_ok n (term_obj_switch L op)"
proof -
  have fail: "obj_ok n (\<lambda>ns v. Inl (Fatal m))" for m by (simp add: obj_ok_def)
  note blocks = obj_scope_ok [OF assms(1)] obj_if_ok [OF assms(1)] obj_while_ok [OF assms(1)] containers_ok [OF assms(1)]
  show ?thesis
    unfolding term_obj_switch_def
    using assms(2)
    by (simp add: fail blocks [THEN obj_ok_mono] obj_name_ok obj_method_ok obj_create_typed_field_ok obj_field_ok
      obj_index_field_ok as_obj_ok obj_store_ok obj_notify_ok obj_return_ok obj_mutex_ok obj_create_field_ok obj_fatal_ok
      obj_op_region_ok)
qed

lemma term_obj_switch_noop: "term_obj_switch L op_noop ns v = Inr (Some (N_simple op_noop), v, ns)"
  by (simp add: term_obj_switch_def opcode_defs make_simple_node_def)

lemma term_obj_with_ok:
  assumes "objs_ok n L"
  shows "obj_ok (Suc n) (term_obj_with L)"
proof (rule obj_okI)
  fix ns and v :: parse_state assume ns: "ns_ok ns" and v: "length (fst v) \<le> Suc n"
  have switch: "yields (\<lambda>(x, v', ns'). length (fst v') < length (fst v) \<and> typed x \<and> ns_grows ns ns') (term_obj_switch L op ns v1)"
    if "length (fst v1) < length (fst v)" for op v1
    using that ns v
    by (cases "op = op_noop") (auto simp: term_obj_switch_noop intro!: obj_ok_yields [OF term_obj_switch_ok [OF assms]])
  show "yields (\<lambda>(x, v', ns'). length (fst v') < length (fst v) \<and> typed x \<and> ns_grows ns ns') (term_obj_with L ns v)"
    unfolding term_obj_with_def
    using ns
    by (auto intro!: peek_opcode_yields obj_ok_yields [OF as_obj_ok [OF type2_opcode_ok] _ order_refl] consume_opcode_yields switch)
qed

lemma term_obj_n_ok: "obj_ok n (term_obj_n (Suc n))"
proof (induction n)
  case 0
  show ?case by (rule obj_okI) (simp add: term_obj_with_def peek_opcode_def peek_def)
next
  case (Suc n)
  show ?case by (subst term_obj_n.simps) (rule term_obj_with_ok [OF list_ok [OF Suc]])
qed

lemma term_obj_ok: "obj_ok n parse_term_obj"
  using term_obj_n_ok unfolding obj_ok_def parse_term_obj_def by blast

lemma term_list_ok: "objs_ok n parse_term_list"
  using list_ok [OF term_obj_ok] by (simp add: parse_term_list_def [abs_def])

lemma initial_names_yields: "yields (\<lambda>ns. ns_ok ns \<and> ns_cur ns = []) initial_names"
proof -
  have names: "aml_name_ok os_name" "aml_name_ok osi_name"
    unfolding os_name_def osi_name_def
    by (rule aml_name_ok_root, simp add: scope_ok_def ascii_def is_name_char_def is_lead_name_char_def)+
  have "ns_ok ns_new" by (simp add: ns_ok_def ns_new_def)
  then have "yields (\<lambda>ns. ns_ok ns \<and> ns_cur ns = ns_cur ns_new) initial_names"
    unfolding initial_names_def
    using names aml_name_ok_nonzero [OF names(1)]
    by (auto intro!: make_text_node_yields open_scope_yields provide_opened_yields simp: text_ops_def ns_grows_def)
  then show ?thesis by (simp add: ns_new_def)
qed

lemma load_table_yields:
  "yields (\<lambda>(nodes, ns). list_all node_ok nodes \<and> ns_ok ns \<and> ns_cur ns = []) (load_table data behind)"
  unfolding load_table_def
  by (auto intro!: yields_mono [OF initial_names_yields] objs_ok_yields [OF term_list_ok _ order_refl]
      split: option.splits simp: ns_grows_def)

section \<open>Printing and evaluation\<close>

abbreviation returns :: "'a res \<Rightarrow> bool" where "returns r \<equiv> yields (\<lambda>_. True) r"

lemma returns_put_all [intro!]: "list_all returns ps \<Longrightarrow> returns (put_all ps)"
  by (induction ps) (auto elim!: yields_mono)

lemma returns_format [simp]: "returns (format_number n b w c)"
proof -
  have "returns (format_loop pos n b buffer)" for pos n buffer
    by (induction pos arbitrary: n buffer) (auto simp: Let_def)
  then show ?thesis unfolding format_number_def by (auto elim!: yields_mono)
qed

lemma returns_numbers [simp]:
  "returns (put_u64 n)" "returns (put_formatted_number fn)" "returns (put_hex k n)" "returns (put_hex_width w k n)"
  "returns (put_text s)" "returns (put_opcode op)"
  by (auto simp: put_u64_def put_formatted_number_def put_hex_def put_hex_width_def put_text_def put_opcode_def
    intro!: yields_mono [OF returns_format] split: option.splits)

lemma returns_bracket [simp]: "returns r \<Longrightarrow> returns (put_bracket i r)"
  unfolding put_bracket_def by auto

lemma returns_put:
  "returns (put_node ns i n)" "returns (put_elements ns i es)" "returns (put_pointer ns i a)"
  "returns (put_args ns i j as)" "returns (put_merged ns i ess)"
  by (induction ns i n and ns i es and ns i a and ns i j as and ns i ess
      rule: put_node_put_elements_put_pointer_put_args_put_merged.induct)
    (auto split: aml_node.splits option.splits)

text \<open>What is bound while a method is evaluated is unbound afterwards.\<close>

definition ns_kept :: "name_space \<Rightarrow> name_space \<Rightarrow> bool" where
  "ns_kept ns ns' \<longleftrightarrow> ns_ok ns' \<and> ns_cur ns' = ns_cur ns \<and> ns_bindings ns' = ns_bindings ns \<and> ns_merged ns' = ns_merged ns"

lemma ns_kept_refl [simp]: "ns_kept ns ns \<longleftrightarrow> ns_ok ns" by (simp add: ns_kept_def)

lemma ns_kept_trans: "ns_kept a b \<Longrightarrow> ns_kept b c \<Longrightarrow> ns_kept a c" by (simp add: ns_kept_def)

lemma eval_method_yields: "ns_ok ns \<Longrightarrow> yields (\<lambda>(v, out, ns'). ns_kept ns ns') (eval_method ns m st)"
proof -
  assume ns: "ns_ok ns"
  have restored: "ns_kept ns (ns1\<lparr>ns_bindings := ns_bindings ns, ns_merged := ns_merged ns\<rparr>)" if "ns_grows ns ns1" for ns1
    using that ns by (auto simp: ns_grows_def ns_ok_def ns_kept_def)
  have head: "returns (put_all [put_text ''Not calling '', put_root ns m, Inr (put_char 10)])" by (auto simp: put_root_def returns_put)
  have body: "returns (put_nodes ns1 nodes)" for ns1 nodes by (simp add: put_nodes_def returns_put)
  show ?thesis
    unfolding eval_method_def
    by (rule yields_bind, rule yields_mono [OF head], rule yields_bind, rule objs_ok_yields [OF term_list_ok ns order_refl])
      (auto intro!: yields_mono [OF body] restored split: option.splits)
qed

lemma eval_node_yields: "ns_ok ns \<Longrightarrow> yields (\<lambda>(v, out, ns'). ns_kept ns ns') (eval_node ns n)"
  by (induction ns n rule: eval_node.induct) (simp_all add: make_string_value_def eval_method_yields)

lemma put_property_returns: "returns (put_property prop val)"
  unfolding put_property_def put_value_def put_eisa_id_def as_uint_def Let_def
  by (auto split: aml_value.splits)

lemma print_property_yields:
  assumes "ns_ok ns" "scope_ok device" "scope_ok (ascii prop)"
  shows "yields (\<lambda>(found, out, ns'). ns_kept ns ns') (print_property ns device prop)"
proof -
  have name: "aml_name_ok (device @ ascii prop)"
    using aml_name_okI [of "[]", OF _ scope_ok_append [OF assms(2,3)]] by simp
  have kept: "ns_kept ns (mark_dead (ns_cur ns) ns2)" if "opened ns ns1" "ns_kept ns1 ns2" for ns1 ns2
    using that by (auto simp: opened_def ns_kept_def ns_ok_def mark_dead_def)
  show ?thesis
    unfolding print_property_def Let_def
    using assms(1) name kept
    by (auto intro!: lookup_node_yields open_scope_yields yields_mono [OF eval_node_yields] yields_mono [OF put_property_returns]
        opened_ok split: option.splits)
qed

lemma print_device_yields:
  "ns_ok ns \<Longrightarrow> scope_ok device \<Longrightarrow> yields (\<lambda>(out, ns'). ns_kept ns ns') (print_device ns device)"
proof -
  assume ns: "ns_ok ns" and device: "scope_ok device"
  have props: "scope_ok (ascii ''_HID'')" "scope_ok (ascii ''_ADR'')"
    by (simp_all add: scope_ok_def ascii_def is_name_char_def is_lead_name_char_def)
  have second: "yields (\<lambda>(found, out, ns'). ns_kept ns ns') (print_property ns1 device ''_ADR'')" if "ns_kept ns ns1" for ns1
    using that by (intro yields_mono [OF print_property_yields [OF _ device props(2)]]) (auto simp: ns_kept_def)
  show ?thesis
    unfolding print_device_def
    by (auto intro!: yields_mono [OF print_property_yields [OF ns device props(1)]] yields_mono [OF second])
qed

lemma print_devices_returns:
  "ns_ok ns \<Longrightarrow> \<forall>b \<in> set bs. scope_ok (fst b) \<Longrightarrow> returns (print_devices capacity bs ns)"
proof (induction bs arbitrary: ns)
  case (Cons b bs)
  then show ?case by (auto intro!: yields_mono [OF print_device_yields] yields_mono [OF Cons.IH] simp: ns_kept_def)
qed simp


text \<open>C30: The tree that is built of a table is well typed: every operator has its number of arguments, a call has as many as its
  method takes, a name is bound to data, a constant fits its width, and names are made of segments of four characters. The names
  are in order: none is bound twice, what is merged is merged into a container, and the scope is the root again.\<close>

theorem aml_tree_well_typed:
  assumes "load_table data behind = Inr (nodes, ns)"
  shows "list_all node_ok nodes \<and> ns_ok ns \<and> ns_cur ns = []"
  using yieldsD [OF load_table_yields assms] by simp

definition demo_name :: bytes where "demo_name = 0x08 # ascii ''ABCD'' @ [0x0a, 5]"

lemma aml_tree_well_typed_witness:
  "\<exists>nodes ns. load_table demo_name [] = Inr (nodes, ns) \<and> length (ns_bindings ns) = 3 \<and> list_all node_ok nodes \<and> ns_ok ns"
proof -
  have "case load_table demo_name [] of Inr (nodes, ns) \<Rightarrow> length (ns_bindings ns) = 3 | Inl e \<Rightarrow> False" by code_simp
  then obtain nodes ns where "load_table demo_name [] = Inr (nodes, ns)" "length (ns_bindings ns) = 3"
    by (auto split: sum.splits)
  then show ?thesis using aml_tree_well_typed [of demo_name "[]" nodes ns] by blast
qed

end
