(* ===== verification/AmlCode.thy ===== *)
theory AmlCode
  imports AmlTyped
begin

text \<open>
  The ACPI machine language as a language: the syntax of expressions and statements, the code that the specification gives
  them, and the tree that stands for them. The parser of \<open>exp/aml/aml.cpp\<close> inverts the code.
\<close>

section \<open>Integers and package lengths\<close>

definition store64 :: "u64 \<Rightarrow> bytes" where "store64 q = store32 (ucast q) @ store32 (ucast (drop_bit 32 q))"

lemma length_store64 [simp]: "length (store64 q) = 8" by (simp add: store64_def)

lemma load_store64 [simp]: "load64 (store64 q) 0 = q"
proof -
  have "load64 (store64 q) 0 = ucast (ucast q :: u32) OR push_bit 32 (ucast (ucast (drop_bit 32 q) :: u32))"
    unfolding load64_def store64_def
    using load_prefix(2) [of 0 "store32 (ucast q)" "store32 (ucast (drop_bit 32 q))"]
      load32_at [of "store32 (ucast q)" 4 "ucast (drop_bit 32 q)" "[]"] by simp
  also have "\<dots> = q" by (rule bit_word_eqI) (auto simp: bit_simps)
  finally show ?thesis .
qed

lemma consume_n_append [simp]: "consume_n (length b) (b @ r, m) = Inr (b, (r, m))"
  by (simp add: consume_n_def)

lemma consume_Cons [simp]: "consume (b # r, m) = Inr (b, (r, m))"
  by (simp add: consume_def consume_n_def)

lemma consume_ints [simp]:
  "consume_word (store16 w @ r, m) = Inr (w, (r, m))" "consume_dword (store32 d @ r, m) = Inr (d, (r, m))"
  "consume_qword (store64 q @ r, m) = Inr (q, (r, m))"
  using consume_n_append [of "store16 w" r m] consume_n_append [of "store32 d" r m] consume_n_append [of "store64 q" r m]
  by (simp_all add: consume_word_def consume_dword_def consume_qword_def)

lemma peek_Cons [simp]: "peek (b # r, m) = Inr b" by (simp add: peek_def)

text \<open>The length of a package counts itself. It has one byte up to 63, then 4 bits and one or two bytes more.\<close>

definition pkg_code :: "nat \<Rightarrow> bytes" where
  "pkg_code n =
     (if n + 1 < 64 then [of_nat (n + 1)]
      else if n + 2 < 4096 then [0x40 OR of_nat ((n + 2) mod 16), of_nat ((n + 2) div 16)]
      else [0x80 OR of_nat ((n + 3) mod 16)] @ store16 (of_nat ((n + 3) div 16)))"

definition package :: "bytes \<Rightarrow> bytes" where "package b = pkg_code (length b) @ b"

text \<open>What the first byte of a long length says: how many bytes follow, and the low bits.\<close>

lemma first_length_byte:
  assumes "k < 16"
  shows "drop_bit 6 (0x40 OR of_nat k :: u8) = 1 \<and> drop_bit 6 (0x80 OR of_nat k :: u8) = 2 \<and>
    (0x40 OR of_nat k :: u8) AND 0xf = of_nat k \<and> (0x80 OR of_nat k :: u8) AND 0xf = of_nat k"
proof -
  have "\<forall>k \<in> set [0..<16]. drop_bit 6 (0x40 OR of_nat k :: u8) = 1 \<and> drop_bit 6 (0x80 OR of_nat k :: u8) = 2 \<and>
    (0x40 OR of_nat k :: u8) AND 0xf = of_nat k \<and> (0x80 OR of_nat k :: u8) AND 0xf = of_nat k"
    by code_simp
  then show ?thesis using assms by simp
qed

lemma nibble_or:
  assumes "a < 16"
  shows "(of_nat a :: u32) OR push_bit 4 (of_nat c) = of_nat (a + 16 * c)"
proof -
  have "a = take_bit 4 a" using assms by (simp add: take_bit_nat_eq_self)
  then have "\<not> bit a n \<or> \<not> bit (push_bit 4 c) n" for n by (metis bit_push_bit_iff bit_take_bit_iff linorder_not_le)
  then have "a OR push_bit 4 c = a + 16 * c" by (simp add: disjunctive_add [symmetric] push_bit_nat_def)
  then show ?thesis by (metis of_nat_or_eq of_nat_push_bit)
qed

lemma package_read:
  assumes "length b + 3 < 2 ^ 20"
  shows "adjust_with_pkg_length (package b @ r, m) = Inr ((b, r @ m), (r, m))"
proof -
  let ?n = "length b"
  have u32: "unat (of_nat k :: u32) = k" if "k < 2 ^ 20" for k using that by (simp add: unat_of_nat)
  have ucast8: "ucast (of_nat k :: u8) = (of_nat k :: u32)" if "k < 256" for k
    using that by (simp add: word_unat_eq_iff unsigned_ucast_eq unat_of_nat take_bit_nat_eq_self)
  have ucast16: "ucast (of_nat k :: u16) = (of_nat k :: u32)" if "k < 65536" for k
    using that by (simp add: word_unat_eq_iff unsigned_ucast_eq unat_of_nat take_bit_nat_eq_self)
  consider "?n + 1 < 64" | "\<not> ?n + 1 < 64" "?n + 2 < 4096" | "\<not> ?n + 2 < 4096" by linarith
  then show ?thesis
  proof cases
    case 1
    then have "unat (of_nat (?n + 1) :: u8) = ?n + 1" by (simp only: unat_of_nat) simp
    then have "drop_bit 6 (of_nat (?n + 1) :: u8) = 0"
      using 1 by (simp only: word_unat_eq_iff unat_shr) simp
    then show ?thesis using 1 ucast8 [of "?n + 1"] u32 [of "?n + 1"]
      by (simp add: adjust_with_pkg_length_def parse_pkg_length_def package_def pkg_code_def Let_def)
  next
    case 2
    let ?N = "?n + 2"
    have bytes: "?N mod 16 < 16" "?N div 16 < 256" using 2 by auto
    have "ucast (of_nat (?N mod 16) :: u8) OR push_bit 4 (ucast (of_nat (?N div 16) :: u8)) = (of_nat ?N :: u32)"
      using ucast8 [of "?N mod 16"] ucast8 [OF bytes(2)] nibble_or [OF bytes(1), of "?N div 16"] by simp
    then show ?thesis using 2 first_length_byte [OF bytes(1)] u32 [of ?N] assms
      by (simp add: adjust_with_pkg_length_def parse_pkg_length_def package_def pkg_code_def Let_def)
  next
    case 3
    let ?N = "?n + 3"
    have bytes: "?N mod 16 < 16" "?N div 16 < 65536" using assms by auto
    have "ucast (of_nat (?N mod 16) :: u8) OR push_bit 4 (ucast (of_nat (?N div 16) :: u16)) = (of_nat ?N :: u32)"
      using ucast8 [of "?N mod 16"] ucast16 [OF bytes(2)] nibble_or [OF bytes(1), of "?N div 16"] by simp
    then show ?thesis using 3 first_length_byte [OF bytes(1)] u32 [of ?N] assms
      by (simp add: adjust_with_pkg_length_def parse_pkg_length_def package_def pkg_code_def Let_def)
  qed
qed

section \<open>Names\<close>

datatype aml_name = Name bytes "bytes list"

fun name_text :: "aml_name \<Rightarrow> bytes" where "name_text (Name p segs) = p @ concat segs"

fun name_code :: "aml_name \<Rightarrow> bytes" where
  "name_code (Name p segs) =
     p @ (if segs = [] then [0]
          else if length segs = 1 then concat segs
          else if length segs = 2 then dual_name_path_start # concat segs
          else [multi_name_path_start, of_nat (length segs)] @ concat segs)"

definition seg_ok :: "bytes \<Rightarrow> bool" where
  "seg_ok s \<longleftrightarrow> length s = 4 \<and> is_lead_name_char (s ! 0) \<and> (\<forall>c \<in> set s. is_name_char c)"

fun name_wf :: "aml_name \<Rightarrow> bool" where
  "name_wf (Name p segs) \<longleftrightarrow>
     (p = [root_char] \<or> set p \<subseteq> {parent_prefix_char}) \<and> length segs < 256 \<and> (\<forall>s \<in> set segs. seg_ok s)"

lemma seg_okE:
  assumes "seg_ok s"
  obtains c a b d where "s = [c, a, b, d]" "is_lead_name_char c" "is_name_char a" "is_name_char b" "is_name_char d"
proof -
  obtain c a b d where "s = [c, a, b, d]" using assms by (auto simp: seg_ok_def length_Suc_conv eval_nat_numeral)
  then show ?thesis using that assms by (auto simp: seg_ok_def)
qed

lemma valid_seg [simp]: "seg_ok s \<Longrightarrow> valid_nameseg (s @ r) = Inr True"
  by (erule seg_okE) (simp add: valid_nameseg_def eval_nat_numeral)

lemma nameseg_read: "seg_ok s \<Longrightarrow> nameseg (s @ r, m) = Inr (s, (r, m))"
  using consume_n_append [of s r m] by (simp add: nameseg_def seg_ok_def)

lemma namesegs_read: "\<forall>s \<in> set segs. seg_ok s \<Longrightarrow> namesegs (length segs) (concat segs @ r, m) = Inr (concat segs, (r, m))"
  by (induction segs) (simp_all add: nameseg_read)

lemma segs_length: "\<forall>s \<in> set segs. seg_ok s \<Longrightarrow> length (concat segs) = 4 * length segs"
  by (induction segs) (auto simp: seg_ok_def)

lemma parent_prefixes_read:
  "set p \<subseteq> {parent_prefix_char} \<Longrightarrow> c \<noteq> parent_prefix_char \<Longrightarrow> parent_prefixes (p @ c # r) = Inr (p, c # r)"
  by (induction p) auto

lemma name_prefix_read:
  assumes "p = [root_char] \<or> set p \<subseteq> {parent_prefix_char}" "c \<noteq> parent_prefix_char" "c \<noteq> root_char"
  shows "name_prefix (p @ c # r, m) = Inr (p, (c # r, m))"
  using assms parent_prefixes_read [of p c r]
  by (cases p) (auto simp: name_prefix_def root_char_def parent_prefix_char_def)

lemma lead_char: "is_lead_name_char c \<Longrightarrow> c \<noteq> 0 \<and> c \<noteq> root_char \<and> c \<noteq> parent_prefix_char \<and> c \<noteq> dual_name_path_start \<and>
    c \<noteq> multi_name_path_start"
  by (auto simp: is_lead_name_char_def root_char_def parent_prefix_char_def dual_name_path_start_def multi_name_path_start_def)

lemma name_read:
  assumes "name_wf n"
  shows "parse_name_string (name_code n @ r, m) = Inr (name_text n, (r, m))"
proof (cases n)
  case (Name p segs)
  have p: "p = [root_char] \<or> set p \<subseteq> {parent_prefix_char}" and l: "length segs < 256" and segs: "\<forall>s \<in> set segs. seg_ok s"
    using assms Name by auto
  note chars = root_char_def parent_prefix_char_def dual_name_path_start_def multi_name_path_start_def is_lead_name_char_def
  consider "segs = []" | s where "segs = [s]" | s t where "segs = [s, t]" | "2 < length segs"
  proof (cases segs rule: remdups_adj.cases)
    case (3 x y xs)
    then show ?thesis using that(3,4) by (cases xs) auto
  qed (use that in auto)
  then show ?thesis
  proof cases
    case 1
    then show ?thesis unfolding parse_name_string_def Name
      using name_prefix_read [OF p, of 0 r m] by (simp add: chars)
  next
    case (2 s)
    obtain c a b d where s: "s = [c, a, b, d]" "is_lead_name_char c" using segs 2 by (auto elim!: seg_okE)
    then show ?thesis unfolding parse_name_string_def Name
      using name_prefix_read [OF p, of c "a # b # d # r" m] lead_char [OF s(2)] valid_seg [of s "[]"] segs 2 by simp
  next
    case (3 s t)
    have "length s = 4" "length t = 4" "seg_ok s" "seg_ok t" using segs 3 by (auto simp: seg_ok_def)
    then show ?thesis unfolding parse_name_string_def Name
      using name_prefix_read [OF p, of dual_name_path_start "s @ t @ r" m] consume_n_append [of "s @ t" r m]
        valid_seg [of s "t @ r @ m"] valid_seg [of t "r @ m"] 3 by (simp add: chars)
  next
    case 4
    then have "segs \<noteq> []" "length segs \<noteq> 1" "length segs \<noteq> 2" by auto
    then show ?thesis unfolding parse_name_string_def Name
      using name_prefix_read [OF p, of multi_name_path_start "of_nat (length segs) # concat segs @ r" m]
        namesegs_read [OF segs, of r m] segs_length [OF segs] l by (simp add: chars unat_of_nat)
  qed
qed

section \<open>Expressions: syntax, code and trees\<close>

datatype expr =
    X_slot u8
  | X_zero | X_one | X_ones
  | X_byte u8 | X_word u16 | X_dword u32 | X_qword u64
  | X_string bytes
  | X_buffer expr bytes
  | X_package "expr list"
  | X_op u16 "expr list" target
  | X_not_logical u16 expr expr
  | X_name aml_name
  | X_call aml_name "expr list"
and target =
    T_none
  | T_null
  | T_slot u8
  | T_name aml_name
  | T_index expr expr target

text \<open>The operators: the op code, the name that the tree has, how many arguments, and whether there is a target.\<close>

definition operators :: "(u16 \<times> string \<times> nat \<times> bool) list" where
  "operators =
    [(op_add, ''add'', 2, True), (op_concat, ''concat'', 2, True), (op_subtract, ''subtract'', 2, True),
     (op_multiply, ''multiply'', 2, True), (op_shift_left, ''shiftleft'', 2, True), (op_shift_right, ''shiftright'', 2, True),
     (op_and, ''and'', 2, True), (op_or, ''or'', 2, True), (op_xor, ''xor'', 2, True), (op_index, ''index'', 2, True),
     (op_not, ''not'', 1, True), (op_find_set_left_bit, ''find_set_left_bit'', 1, True),
     (op_find_set_right_bit, ''find_set_right_bit'', 1, True), (op_mid, ''mid'', 3, True),
     (op_increment, ''increment'', 1, False), (op_decrement, ''decrement'', 1, False), (op_size_of, ''sizeof'', 1, False),
     (op_object_type, ''ObjectType'', 1, False), (op_deref_of, ''deref_of'', 1, False), (op_sleep, ''sleep'', 1, False),
     (op_land, ''land'', 2, False), (op_lor, ''lor'', 2, False), (op_lequal, ''lequal'', 2, False),
     (op_lgreater, ''lgreater'', 2, False), (op_lless, ''lless'', 2, False)]"

definition not_operators :: "(u16 \<times> string) list" where
  "not_operators = [(op_lequal, ''lnotequal''), (op_lgreater, ''lnotgreater''), (op_lless, ''lnotless'')]"

definition op_code :: "u16 \<Rightarrow> bytes" where
  "op_code op = (if is_extended op then [ucast (drop_bit 8 op), ucast op] else [ucast op])"

fun expr_code :: "expr \<Rightarrow> bytes" and target_code :: "target \<Rightarrow> bytes" where
  "expr_code (X_slot c) = [c]"
| "expr_code X_zero = op_code op_zero"
| "expr_code X_one = op_code op_one"
| "expr_code X_ones = op_code op_ones"
| "expr_code (X_byte b) = op_code op_byte @ [b]"
| "expr_code (X_word w) = op_code op_word @ store16 w"
| "expr_code (X_dword d) = op_code op_dword @ store32 d"
| "expr_code (X_qword q) = op_code op_qword @ store64 q"
| "expr_code (X_string s) = op_code op_string @ s @ [0]"
| "expr_code (X_buffer e d) = op_code op_buffer @ package (expr_code e @ d)"
| "expr_code (X_package es) = op_code op_package @ package (of_nat (length es) # concat (map expr_code es))"
| "expr_code (X_op op es t) = op_code op @ concat (map expr_code es) @ target_code t"
| "expr_code (X_not_logical op a b) = op_code op_lnot @ op_code op @ expr_code a @ expr_code b"
| "expr_code (X_name n) = name_code n"
| "expr_code (X_call n es) = name_code n @ concat (map expr_code es)"
| "target_code T_none = []"
| "target_code T_null = [0]"
| "target_code (T_slot c) = [c]"
| "target_code (T_name n) = name_code n"
| "target_code (T_index a b t) = op_code op_index @ expr_code a @ expr_code b @ target_code t"

definition method_of :: "name_space \<Rightarrow> aml_name \<Rightarrow> aml_node" where
  "method_of ns n = (case lookup_binding ns (name_text n) of Inr (Some (_, nd)) \<Rightarrow> nd | _ \<Rightarrow> N_simple op_invalid)"

fun expr_tree :: "name_space \<Rightarrow> expr \<Rightarrow> aml_node" and target_tree :: "name_space \<Rightarrow> target \<Rightarrow> aml_node option" where
  "expr_tree ns (X_slot c) = N_simple (ucast c)"
| "expr_tree ns X_zero = N_const 0 1"
| "expr_tree ns X_one = N_const 1 1"
| "expr_tree ns X_ones = N_const 0xff 1"
| "expr_tree ns (X_byte b) = N_const (ucast b) 1"
| "expr_tree ns (X_word w) = N_const (ucast w) 2"
| "expr_tree ns (X_dword d) = N_const (ucast d) 4"
| "expr_tree ns (X_qword q) = N_const q 8"
| "expr_tree ns (X_string s) = N_text op_string s"
| "expr_tree ns (X_buffer e d) = N_buffer (Some (expr_tree ns e)) d"
| "expr_tree ns (X_package es) =
     N_package (map (\<lambda>e. case e of X_name n \<Rightarrow> N_text op_package_element (name_text n) | _ \<Rightarrow> expr_tree ns e) es)"
| "expr_tree ns (X_op op es t) =
     (case map_of operators op of Some (name, k, _) \<Rightarrow> N_op k (ascii name) (map (\<lambda>e. Some (expr_tree ns e)) es @ [target_tree ns t])
      | None \<Rightarrow> N_simple op_invalid)"
| "expr_tree ns (X_not_logical op a b) =
     N_op 2 (ascii (the (map_of not_operators op))) [Some (expr_tree ns a), Some (expr_tree ns b), None]"
| "expr_tree ns (X_name n) = N_text op_name_lookup (name_text n)"
| "expr_tree ns (X_call n es) = N_method_call (method_of ns n) (map (expr_tree ns) es)"
| "target_tree ns T_none = None"
| "target_tree ns T_null = Some (N_simple op_null_name)"
| "target_tree ns (T_slot c) = Some (N_simple (ucast c))"
| "target_tree ns (T_name n) = Some (N_text op_name_lookup (name_text n))"
| "target_tree ns (T_index a b t) =
     Some (N_op 2 (ascii ''index'') [Some (expr_tree ns a), Some (expr_tree ns b), target_tree ns t])"

definition is_data_expr :: "expr \<Rightarrow> bool" where
  "is_data_expr e \<longleftrightarrow>
     (case e of X_zero \<Rightarrow> True | X_one \<Rightarrow> True | X_ones \<Rightarrow> True | X_byte _ \<Rightarrow> True | X_word _ \<Rightarrow> True | X_dword _ \<Rightarrow> True
      | X_qword _ \<Rightarrow> True | X_string _ \<Rightarrow> True | X_buffer _ _ \<Rightarrow> True | X_package _ \<Rightarrow> True | _ \<Rightarrow> False)"

definition is_package_name :: "expr \<Rightarrow> bool" where
  "is_package_name e \<longleftrightarrow> (case e of X_name n \<Rightarrow> name_wf n \<and> n \<noteq> Name [] [] | _ \<Rightarrow> False)"

text \<open>What can be written down: packages and strings fit their lengths, operators have their arguments, a name that is used as an
  expression is bound, to something that is not a method, and a call has the arguments of its method. The target \<open>T_none\<close> is
  for operators without one.\<close>

fun expr_wf :: "name_space \<Rightarrow> expr \<Rightarrow> bool" and target_wf :: "name_space \<Rightarrow> target \<Rightarrow> bool" where
  "expr_wf ns (X_slot c) = is_arg_or_local c"
| "expr_wf ns (X_string s) = (0 \<notin> set s \<and> length s + 1 < 2 ^ 32)"
| "expr_wf ns (X_buffer e d) = (expr_wf ns e \<and> length (expr_code e @ d) + 3 < 2 ^ 20)"
| "expr_wf ns (X_package es) =
     (length es < 256 \<and> length (concat (map expr_code es)) + 4 < 2 ^ 20 \<and>
      list_all (\<lambda>e. if is_data_expr e then expr_wf ns e else is_package_name e) es)"
| "expr_wf ns (X_op op es t) =
     (list_all (expr_wf ns) es \<and> target_wf ns t \<and>
      (case map_of operators op of Some (name, k, tgt) \<Rightarrow> length es = k \<and> (t = T_none \<longleftrightarrow> \<not> tgt) | None \<Rightarrow> False))"
| "expr_wf ns (X_not_logical op a b) = (expr_wf ns a \<and> expr_wf ns b \<and> op \<in> fst ` set not_operators)"
| "expr_wf ns (X_name n) =
     (name_wf n \<and> (case lookup_binding ns (name_text n) of Inr (Some (_, nd)) \<Rightarrow> (case nd of N_method _ _ _ \<Rightarrow> False | _ \<Rightarrow> True) | _ \<Rightarrow> False))"
| "expr_wf ns (X_call n es) =
     (name_wf n \<and> list_all (expr_wf ns) es \<and>
      (case lookup_binding ns (name_text n) of
         Inr (Some (_, nd)) \<Rightarrow> (case nd of N_method _ flags _ \<Rightarrow> length es = method_arg_count flags | _ \<Rightarrow> False)
       | _ \<Rightarrow> False))"
| "expr_wf ns _ = True"
| "target_wf ns (T_slot c) = is_arg_or_local c"
| "target_wf ns (T_name n) = (name_wf n \<and> n \<noteq> Name [] [])"
| "target_wf ns (T_index a b t) = (expr_wf ns a \<and> expr_wf ns b \<and> target_wf ns t \<and> t \<noteq> T_none)"
| "target_wf ns _ = True"

section \<open>Expressions: reading\<close>

definition opcode_ok :: "u16 \<Rightarrow> bool" where
  "opcode_ok op \<longleftrightarrow> (if is_extended op then drop_bit 8 op = op_ext_prefix else op \<noteq> op_ext_prefix)"

lemma small_opcode: "\<not> is_extended op \<Longrightarrow> ucast (ucast op :: u8) = op"
proof -
  assume "\<not> is_extended op"
  then have "unat op < 256" by (simp add: is_extended_def word_less_nat_alt not_less)
  then show ?thesis by (simp add: word_unat_eq_iff unsigned_ucast_eq unsigned_take_bit_eq take_bit_nat_eq_self)
qed

lemma peek_op:
  assumes "opcode_ok op"
  shows "peek_opcode (op_code op @ r, m) = Inr op"
proof (cases "is_extended op")
  case True
  then have "drop_bit 8 op = op_ext_prefix" using assms by (simp add: opcode_ok_def)
  moreover have "ucast (ucast (drop_bit 8 op) :: u8) = drop_bit 8 op"
    by (rule bit_word_eqI) (auto simp: bit_simps dest: bit_imp_le_length)
  moreover have "push_bit 8 (drop_bit 8 op) OR ucast (ucast op :: u8) = op"
    by (rule bit_word_eqI) (auto simp: bit_simps)
  ultimately show ?thesis using True by (simp add: peek_opcode_def op_code_def)
next
  case False
  then show ?thesis using small_opcode [OF False] assms by (simp add: peek_opcode_def op_code_def opcode_ok_def)
qed

lemma consume_op: "opcode_ok op \<Longrightarrow> consume_opcode (op_code op @ r, m) = Inr (op, (r, m))"
  using peek_op [of op r m] by (simp add: consume_opcode_def op_code_def)

text \<open>What the first byte of an operator is not.\<close>

definition plain_byte :: "u8 \<Rightarrow> bool" where
  "plain_byte c \<longleftrightarrow> \<not> is_arg_or_local c \<and> \<not> is_data_object (ucast c) \<and> \<not> is_name_string_start c"

lemma byte_opcode: "ucast (ucast (c :: u8) :: u16) = c" "\<not> is_extended (ucast c)"
proof -
  have "unat c < 256" using unsigned_less [of c, where ?'a = nat] by simp
  then show "\<not> is_extended (ucast c)"
    by (simp add: is_extended_def word_less_nat_alt unsigned_ucast_eq take_bit_nat_eq_self)
  show "ucast (ucast c :: u16) = c" by (rule bit_word_eqI) (auto simp: bit_simps)
qed

lemma plain_byteI:
  assumes "0x6e < c \<or> c = 0x5b" "c \<notin> {0, 1, 0xff, 0xa, 0xb, 0xc, 0xd, 0xe, 0x11, 0x12}"
  shows "plain_byte c"
proof -
  define S :: "u8 set" where "S = {0, 1, 0xff, 0xa, 0xb, 0xc, 0xd, 0xe, 0x11, 0x12}"
  define ops where "ops = [op_zero, op_one, op_ones, op_byte, op_word, op_dword, op_string, op_qword, op_buffer, op_package]"
  have "list_all (\<lambda>op. ucast op \<in> S) ops" by (simp add: opcode_defs S_def ops_def)
  moreover have "is_data_object op \<longleftrightarrow> op \<in> set ops" for op by (simp add: is_data_object_def ops_def)
  ultimately have "ucast (ucast c :: u16) \<in> S" if "is_data_object (ucast c)"
    using that unfolding list_all_iff by blast
  then have "\<not> is_data_object (ucast c)" using assms(2) unfolding S_def [symmetric] byte_opcode(1) by blast
  moreover have "\<not> is_name_string_start c" "\<not> is_arg_or_local c"
    using assms(1)
    by (auto simp: is_name_string_start_def is_arg_or_local_def opcode_defs is_lead_name_char_def root_char_def parent_prefix_char_def
        dual_name_path_start_def multi_name_path_start_def word_le_nat_alt word_less_nat_alt)
  ultimately show ?thesis by (simp add: plain_byte_def)
qed

lemma operator_bytes:
  assumes "op \<in> fst ` set operators"
  shows "opcode_ok op" "is_type2_opcode op" "op \<noteq> op_lnot" "plain_byte (hd (op_code op))"
proof -
  have ok: "list_all (\<lambda>op. opcode_ok op \<and> op \<noteq> op_lnot) (map fst operators)"
    by (simp add: operators_def opcode_defs opcode_ok_def is_extended_def)
  have type2: "list_all is_type2_opcode (map fst operators)"
    by (simp add: operators_def is_type2_opcode_def)
  have first: "list_all (\<lambda>op. (0x6e < hd (op_code op) \<or> hd (op_code op) = 0x5b) \<and>
      hd (op_code op) \<notin> {0, 1, 0xff, 0xa, 0xb, 0xc, 0xd, 0xe, 0x11, 0x12}) (map fst operators)"
    by (simp add: operators_def opcode_defs op_code_def is_extended_def)
  show "opcode_ok op" "op \<noteq> op_lnot" using ok assms by (auto simp: list_all_iff)
  show "is_type2_opcode op" using type2 assms by (auto simp: list_all_iff)
  show "plain_byte (hd (op_code op))" using first assms by (intro plain_byteI) (auto simp: list_all_iff)
qed

lemma lnot_bytes: "opcode_ok op_lnot \<and> is_type2_opcode op_lnot \<and> plain_byte (hd (op_code op_lnot)) \<and>
    list_all opcode_ok (map fst not_operators)"
  by code_simp

lemma data_bytes:
  "list_all (\<lambda>op. opcode_ok op \<and> is_data_object op \<and> \<not> is_extended op \<and> \<not> is_arg_or_local (hd (op_code op)) \<and>
      \<not> is_name_string_start (hd (op_code op)) \<and> ucast (hd (op_code op)) = op)
    [op_zero, op_one, op_ones, op_byte, op_word, op_dword, op_qword, op_string, op_buffer, op_package]"
  by code_simp

lemma name_start_bytes:
  assumes "is_name_string_start c"
  shows "\<not> is_arg_or_local c" "\<not> is_data_object (ucast c)"
proof -
  have "list_all (\<lambda>op. \<not> is_name_string_start (ucast op))
      [op_zero, op_one, op_ones, op_byte, op_word, op_dword, op_string, op_qword, op_buffer, op_package]"
    by code_simp
  then have "\<not> is_name_string_start (ucast (ucast c :: u16))" if "is_data_object (ucast c)"
    using that by (auto simp: is_data_object_def)
  then show "\<not> is_data_object (ucast c)" using assms by (auto simp: byte_opcode)
  show "\<not> is_arg_or_local c"
    using assms
    by (auto simp: is_name_string_start_def is_arg_or_local_def opcode_defs is_lead_name_char_def root_char_def parent_prefix_char_def
        dual_name_path_start_def multi_name_path_start_def word_le_nat_alt)
qed

lemma slot_bytes:
  assumes "is_arg_or_local c"
  shows "opcode_ok (ucast c)" "c \<noteq> 0" "op_code (ucast c) = [c]"
proof -
  have "(ucast c :: u16) \<noteq> op_ext_prefix"
    using byte_opcode(1) [of c] assms by (auto simp: is_arg_or_local_def opcode_defs)
  then show "opcode_ok (ucast c)" using byte_opcode(2) [of c] by (simp add: opcode_ok_def)
  show "op_code (ucast c) = [c]" by (simp add: op_code_def byte_opcode)
  show "c \<noteq> 0" using assms by (auto simp: is_arg_or_local_def opcode_defs)
qed

lemma op_code_Cons: "op_code op = hd (op_code op) # tl (op_code op)"
  by (simp add: op_code_def)

lemma name_code_start:
  assumes "name_wf n" "n \<noteq> Name [] []"
  obtains c d where "name_code n = c # d" "is_name_string_start c"
proof (cases n)
  case (Name p segs)
  show ?thesis
  proof (cases p)
    case Nil
    then have "segs \<noteq> []" using assms(2) Name by auto
    then have "seg_ok (hd segs)" using assms(1) Name by (cases segs) auto
    then obtain c a where s: "hd segs = c # a" "is_lead_name_char c" by (auto elim: seg_okE)
    then have "is_name_string_start c" "is_name_string_start dual_name_path_start" "is_name_string_start multi_name_path_start"
      by (simp_all add: is_name_string_start_def)
    then show ?thesis using that s Nil Name \<open>segs \<noteq> []\<close> by (cases segs; cases "tl segs"; cases "tl (tl segs)") auto
  next
    case (Cons c d)
    then have "is_name_string_start c" using assms(1) Name by (auto simp: is_name_string_start_def)
    then show ?thesis using that Cons Name by simp
  qed
qed

text \<open>The operator that an op code of the table stands for.\<close>

lemma parse_args_length: "parse_args k T v = Inr (Some as, v1) \<Longrightarrow> length as = k"
  by (induction k arbitrary: v as) (auto simp: andThen_eq_Inr split: option.splits)

lemma parse_args_one: "parse_args (Suc 0) T v = Inr (Some as, v1) \<longleftrightarrow> (\<exists>n. as = [n] \<and> T v = Inr (Some n, v1))"
  by (cases "T v") (auto split: option.splits)

definition operator_result :: "node_parser \<Rightarrow> nat \<Rightarrow> string \<Rightarrow> bool \<Rightarrow> aml_node list \<Rightarrow> parse_state \<Rightarrow> (aml_node option \<times> parse_state) res" where
  "operator_result S k name tgt as v1 =
     (if tgt then andThen (parse_target S v1) (\<lambda>(t, v2). Inr (Some (N_op k (ascii name) (map Some as @ [t])), v2))
      else Inr (Some (N_op k (ascii name) (map Some as @ [None])), v1))"

lemma op_node_parse_read:
  assumes "parse_args k T v = Inr (Some as, v1)"
  shows "op_node_parse k name tgt T S v = operator_result S k name tgt as v1"
  using parse_args_length [OF assms] by (simp add: op_node_parse_def operator_result_def assms op_node_def)

lemma wrapped_read:
  assumes "parse_args (Suc 0) T v = Inr (Some as, v1)"
  shows "parse_wrapped name T v = operator_result S 1 name False as v1"
  using assms [unfolded parse_args_one] by (auto simp: parse_wrapped_def operator_result_def op_node_def)

lemma operator_parsers:
  "list_all (\<lambda>(op, name, k, tgt). type2_operator T S op =
      (if name = ''deref_of'' \<or> name = ''sleep'' then parse_wrapped name T else op_node_parse k name tgt T S)) operators"
  by (simp add: operators_def type2_operator_def opcode_defs parse_binary_op_def parse_unary_op_def parse_unary_op_no_target_def
    parse_logical_op_def parse_index_def)

lemma wrapped_operators:
  "list_all (\<lambda>(op, name, k, tgt). name = ''deref_of'' \<or> name = ''sleep'' \<longrightarrow> k = Suc 0 \<and> \<not> tgt) operators"
  by (simp add: operators_def)

lemma operator_read:
  assumes "map_of operators op = Some (name, k, tgt)" "parse_args k T v = Inr (Some as, v1)"
  shows "type2_operator T S op v = operator_result S k name tgt as v1"
proof -
  have op: "(op, name, k, tgt) \<in> set operators" using assms(1) by (rule map_of_SomeD)
  then have parser: "type2_operator T S op =
      (if name = ''deref_of'' \<or> name = ''sleep'' then parse_wrapped name T else op_node_parse k name tgt T S)"
    using operator_parsers by (fastforce simp: list_all_iff)
  show ?thesis
  proof (cases "name = ''deref_of'' \<or> name = ''sleep''")
    case True
    then have k: "k = Suc 0" "tgt = False" using op wrapped_operators by (fastforce simp: list_all_iff)+
    then show ?thesis using True assms(2) wrapped_read unfolding parser k by simp
  next
    case False
    then show ?thesis unfolding parser using op_node_parse_read [OF assms(2)] by simp
  qed
qed

section \<open>Expressions: the parser inverts the code\<close>

lemma args_read:
  assumes "\<And>e r. e \<in> set es \<Longrightarrow> T (expr_code e @ r, m) = Inr (Some (t e), (r, m))"
  shows "parse_args (length es) T (concat (map expr_code es) @ r, m) = Inr (Some (map t es), (r, m))"
  using assms by (induction es) simp_all

lemma elements_read:
  assumes "\<And>e r. e \<in> set es \<Longrightarrow> p s (c e @ r, m) = Inr (Some (t e), (r, m), s)"
    and "\<And>e. e \<in> set es \<Longrightarrow> c e \<noteq> [] \<and> node_op (t e) \<noteq> op_dead_scope"
  shows "length (concat (map c es)) < n \<Longrightarrow> parse_list n p s (concat (map c es), m) = Inr (Some (map t es), ([], m), s)"
  using assms
proof (induction es arbitrary: n)
  case Nil
  then show ?case by (cases n) auto
next
  case (Cons e es)
  obtain k where n: "n = Suc k" using Cons.prems(1) by (cases n) auto
  have "0 < length (c e)" using Cons.prems(3) [of e] by simp
  then have "length (concat (map c es)) < k" using Cons.prems(1) n by (simp del: length_greater_0_conv)
  then have "parse_list k p s (concat (map c es), m) = Inr (Some (map t es), ([], m), s)"
    using Cons.prems(2,3) by (intro Cons.IH) simp_all
  then show ?case using Cons.prems(2) [of e "concat (map c es)"] Cons.prems(3) [of e] n by simp
qed

lemma data_tree_alive: "is_data_expr e \<Longrightarrow> node_op (expr_tree ns e) \<noteq> op_dead_scope"
  by (cases e) (simp_all add: is_data_expr_def opcode_defs)

lemma member_length: "e \<in> set es \<Longrightarrow> length (c e) \<le> length (concat (map c es))"
  by (induction es) auto

lemma target_read:
  assumes "t \<noteq> T_none" "target_wf ns t"
    and S: "t \<noteq> T_null \<Longrightarrow> S (target_code t @ r, m) = Inr (target_tree ns t, (r, m))"
  shows "parse_target S (target_code t @ r, m) = Inr (target_tree ns t, (r, m))"
proof (cases t)
  case T_null
  then show ?thesis by (simp add: parse_target_def make_simple_node_def)
next
  case (T_slot c)
  then show ?thesis using assms slot_bytes(2) by (auto simp: parse_target_def)
next
  case (T_name n)
  obtain c d where "name_code n = c # d" "is_name_string_start c" using name_code_start assms(2) T_name by auto
  moreover from this have "c \<noteq> 0"
    by (auto simp: is_name_string_start_def root_char_def parent_prefix_char_def dual_name_path_start_def
        multi_name_path_start_def is_lead_name_char_def)
  ultimately show ?thesis using T_name S by (simp add: parse_target_def)
next
  case (T_index a b t)
  have "hd (op_code op_index) \<noteq> 0" "op_code op_index \<noteq> []" by (simp_all add: op_code_def opcode_defs is_extended_def)
  then obtain c d where "op_code op_index = c # d" "c \<noteq> 0" by (cases "op_code op_index") auto
  then show ?thesis using T_index S by (simp add: parse_target_def)
qed (use assms in simp)

text \<open>Data objects, one step of the recursion.\<close>

lemma data_op:
  assumes "op \<in> {op_zero, op_one, op_ones, op_byte, op_word, op_dword, op_qword, op_string, op_buffer, op_package}"
  shows "opcode_ok op" "is_data_object op" "\<not> is_arg_or_local (hd (op_code op))" "\<not> is_name_string_start (hd (op_code op))"
    "ucast (hd (op_code op)) = op"
  using data_bytes assms by auto

lemma data_op_read:
  assumes "op \<in> {op_zero, op_one, op_ones, op_byte, op_word, op_dword, op_qword, op_string, op_buffer, op_package}"
  shows "consume_opcode (op_code op @ r, m) = Inr (op, (r, m))"
  using data_op(1) [OF assms] by (rule consume_op)

lemma string_read:
  assumes "0 \<notin> set s" "length s + 1 < 2 ^ 32"
  shows "parse_string (s @ 0 # r, m) = Inr (Some (N_text op_string s), (r, m))"
proof -
  have "unat (of_nat (length s + 1) :: u32) = length (s @ [0])" using assms(2) by (simp add: unat_of_nat del: of_nat_add of_nat_Suc)
  then show ?thesis
    using consume_n_append [of "s @ [0]" r m] string_length_text [OF assms(1), of "r @ m"]
    by (simp add: parse_string_def make_text_node_def opcode_defs)
qed

lemma buffer_read:
  assumes "\<And>d m. T (expr_code e @ d, m) = Inr (Some (expr_tree ns e), (d, m))" "length (expr_code e @ d) + 3 < 2 ^ 20"
  shows "parse_buffer T (package (expr_code e @ d) @ r, m) = Inr (Some (N_buffer (Some (expr_tree ns e)) d), (r, m))"
  using package_read [OF assms(2), of r m] assms(1) [of d "r @ m"] by (simp add: parse_buffer_def)

lemma package_element_read:
  assumes "if is_data_expr e then expr_wf ns e else is_package_name e"
    and D: "is_data_expr e \<Longrightarrow> D (expr_code e @ r, m) = Inr (Some (expr_tree ns e), (r, m))"
    and start: "is_data_expr e \<Longrightarrow> \<exists>c d. expr_code e = c # d \<and> \<not> is_name_string_start c"
  shows "package_element D (expr_code e @ r, m) =
    Inr (Some (case e of X_name n \<Rightarrow> N_text op_package_element (name_text n) | _ \<Rightarrow> expr_tree ns e), (r, m))"
proof (cases "is_data_expr e")
  case True
  then obtain c d where "expr_code e = c # d" "\<not> is_name_string_start c" using start by blast
  then show ?thesis using D True by (cases e) (auto simp: package_element_def is_data_expr_def)
next
  case False
  then obtain n where n: "e = X_name n" "name_wf n" "n \<noteq> Name [] []"
    using assms(1) by (cases e) (auto simp: is_package_name_def)
  obtain c d where "name_code n = c # d" "is_name_string_start c" using name_code_start n by blast
  then show ?thesis using n name_read [OF n(2), of r m]
    by (simp add: package_element_def parse_name_node_def make_text_node_def opcode_defs)
qed

lemma data_code_start:
  "is_data_expr e \<Longrightarrow>
    \<exists>c d. expr_code e = c # d \<and> \<not> is_name_string_start c \<and> is_data_object (ucast c) \<and> \<not> is_arg_or_local c"
proof -
  have start: "\<exists>c d. op_code op @ x = c # d \<and> \<not> is_name_string_start c \<and> is_data_object (ucast c) \<and> \<not> is_arg_or_local c"
    if "op \<in> {op_zero, op_one, op_ones, op_byte, op_word, op_dword, op_qword, op_string, op_buffer, op_package}" for op x
    using data_op [OF that] op_code_Cons [of op] by (metis append_Cons)
  show "is_data_expr e \<Longrightarrow> ?thesis"
    using start [of op_zero "[]"] start [of op_one "[]"] start [of op_ones "[]"] start
    by (cases e) (simp_all add: is_data_expr_def)
qed

text \<open>Data objects: \<open>T\<close> and \<open>D\<close> read what they contain.\<close>

lemma data_object_read:
  assumes wf: "expr_wf ns e" "is_data_expr e"
    and T: "\<And>a r m. expr_wf ns a \<Longrightarrow> length (expr_code a) < length (expr_code e) \<Longrightarrow> T (expr_code a @ r, m) = Inr (Some (expr_tree ns a), (r, m))"
    and D: "\<And>a r m. expr_wf ns a \<Longrightarrow> is_data_expr a \<Longrightarrow> length (expr_code a) < length (expr_code e) \<Longrightarrow>
      D (expr_code a @ r, m) = Inr (Some (expr_tree ns a), (r, m))"
  shows "data_object_with T D (expr_code e @ r, m) = Inr (Some (expr_tree ns e), (r, m))"
proof (cases e)
  case (X_buffer a d)
  have "length (expr_code a) < length (expr_code e)" by (simp add: X_buffer op_code_def package_def)
  then have "parse_buffer T (package (expr_code a @ d) @ r, m) = Inr (Some (expr_tree ns e), (r, m))"
    using buffer_read [of T a ns d r m] T wf X_buffer by simp
  then show ?thesis using data_op_read [of op_buffer] data_op(2) [of op_buffer] X_buffer
    by (simp add: data_object_with_def) (simp add: opcode_defs)
next
  case (X_package es)
  let ?b = "of_nat (length es) # concat (map expr_code es)"
  let ?t = "\<lambda>e. case e of X_name n \<Rightarrow> N_text op_package_element (name_text n) | _ \<Rightarrow> expr_tree ns e"
  have wfs: "if is_data_expr a then expr_wf ns a else is_package_name a" if "a \<in> set es" for a
    using wf(1) that unfolding X_package by (simp add: list_all_iff)
  have shorter: "length (expr_code a) < length (expr_code e)" if "a \<in> set es" for a
    using member_length [OF that, of expr_code] by (simp add: X_package op_code_def package_def)
  have element: "package_element D (expr_code a @ q, m') = Inr (Some (?t a), (q, m'))" if "a \<in> set es" for a q m'
    using wfs [OF that] D [OF _ _ shorter [OF that]]
    by (intro package_element_read) (auto split: if_splits dest: data_code_start)
  have alive: "expr_code a \<noteq> [] \<and> node_op (?t a) \<noteq> op_dead_scope" if "a \<in> set es" for a
  proof (cases "is_data_expr a")
    case True
    then show ?thesis using data_code_start [OF True] data_tree_alive [OF True, of ns] by (cases a) (auto simp: is_data_expr_def)
  next
    case False
    then show ?thesis using wfs [OF that] by (cases a) (auto simp: is_package_name_def opcode_defs elim!: name_code_start)
  qed
  have list: "parse_list (Suc (length (concat (map expr_code es)))) (\<lambda>_ v. andThen (package_element D v) (\<lambda>(n, v1). Inr (n, v1, ()))) ()
      (concat (map expr_code es), r @ m) = Inr (Some (map ?t es), ([], r @ m), ())"
    by (rule elements_read) (use element alive in auto)
  have "adjust_with_pkg_length (package ?b @ r, m) = Inr ((?b, r @ m), (r, m))"
    using wf(1) X_package by (intro package_read) simp
  then have "parse_package D (package ?b @ r, m) = Inr (Some (expr_tree ns e), (r, m))"
    using list wf(1) X_package by (simp add: parse_package_def unat_of_nat del: parse_list.simps)
  then show ?thesis using data_op_read [of op_package] data_op(2) [of op_package] X_package
    by (simp add: data_object_with_def) (simp add: opcode_defs)
next
  case (X_string s)
  then show ?thesis using data_op_read [of op_string] data_op(2) [of op_string] string_read [of s r m] wf
    by (simp add: data_object_with_def) (simp add: opcode_defs)
next
  case (X_byte b)
  then show ?thesis using data_op_read [of op_byte] data_op(2) [of op_byte]
    by (simp add: data_object_with_def make_const_node8_def) (simp add: opcode_defs)
next
  case (X_word b)
  then show ?thesis using data_op_read [of op_word] data_op(2) [of op_word]
    by (simp add: data_object_with_def make_const_node16_def) (simp add: opcode_defs)
next
  case (X_dword b)
  then show ?thesis using data_op_read [of op_dword] data_op(2) [of op_dword]
    by (simp add: data_object_with_def make_const_node32_def) (simp add: opcode_defs)
next
  case (X_qword b)
  then show ?thesis using data_op_read [of op_qword] data_op(2) [of op_qword]
    by (simp add: data_object_with_def make_const_node64_def) (simp add: opcode_defs)
next
  case X_zero
  then show ?thesis using data_op_read [of op_zero] data_op(2) [of op_zero]
    by (simp add: data_object_with_def make_const_node8_def)
next
  case X_one
  then show ?thesis using data_op_read [of op_one] data_op(2) [of op_one]
    by (simp add: data_object_with_def make_const_node8_def) (simp add: opcode_defs)
next
  case X_ones
  then show ?thesis using data_op_read [of op_ones] data_op(2) [of op_ones]
    by (simp add: data_object_with_def make_const_node8_def) (simp add: opcode_defs)
qed (use wf in \<open>simp_all add: is_data_expr_def\<close>)

text \<open>Expressions and targets, one step of the recursion.\<close>

definition reads_expr :: "name_space \<Rightarrow> nat \<Rightarrow> node_parser \<Rightarrow> bool" where
  "reads_expr ns k T \<longleftrightarrow>
     (\<forall>e r m. expr_wf ns e \<longrightarrow> length (expr_code e) \<le> k \<longrightarrow> T (expr_code e @ r, m) = Inr (Some (expr_tree ns e), (r, m)))"

definition reads_data :: "name_space \<Rightarrow> nat \<Rightarrow> node_parser \<Rightarrow> bool" where
  "reads_data ns k D \<longleftrightarrow>
     (\<forall>e r m. expr_wf ns e \<longrightarrow> is_data_expr e \<longrightarrow> length (expr_code e) \<le> k \<longrightarrow>
       D (expr_code e @ r, m) = Inr (Some (expr_tree ns e), (r, m)))"

definition reads_target :: "name_space \<Rightarrow> nat \<Rightarrow> node_parser \<Rightarrow> bool" where
  "reads_target ns k S \<longleftrightarrow>
     (\<forall>t r m. target_wf ns t \<longrightarrow> t \<noteq> T_none \<longrightarrow> t \<noteq> T_null \<longrightarrow> length (target_code t) \<le> k \<longrightarrow>
       S (target_code t @ r, m) = Inr (target_tree ns t, (r, m)))"

lemma args_in_bounds:
  assumes "reads_expr ns k T" "list_all (expr_wf ns) es" "length (concat (map expr_code es)) \<le> k"
  shows "parse_args (length es) T (concat (map expr_code es) @ r, m) = Inr (Some (map (expr_tree ns) es), (r, m))"
  using assms member_length [of _ es expr_code]
  by (intro args_read) (fastforce simp: reads_expr_def list_all_iff)

lemma target_in_bounds:
  assumes "reads_target ns k S" "target_wf ns t" "t \<noteq> T_none" "length (target_code t) \<le> k"
  shows "parse_target S (target_code t @ r, m) = Inr (target_tree ns t, (r, m))"
  using assms by (intro target_read) (auto simp: reads_target_def)

lemma operator_result_read:
  assumes "reads_target ns k S" "target_wf ns t" "t = T_none \<longleftrightarrow> \<not> tgt" "length (target_code t) \<le> k"
  shows "operator_result S j name tgt as (target_code t @ r, m) =
    Inr (Some (N_op j (ascii name) (map Some as @ [target_tree ns t])), (r, m))"
  using assms target_in_bounds [OF assms(1,2) _ assms(4)] by (cases tgt) (auto simp: operator_result_def)

lemma invocation_read:
  assumes "reads_expr ns k T" "expr_wf ns e" "length (expr_code e) \<le> Suc k" "e = X_name n \<or> e = X_call n es"
  shows "parse_method_invocation ns T (expr_code e @ r, m) = Inr (Some (expr_tree ns e), (r, m))"
proof -
  have wf: "name_wf n" using assms(2,4) by auto
  have visible: "name_code n \<noteq> []" by (cases "n = Name [] []") (auto elim!: name_code_start [OF wf])
  from assms(4) show ?thesis
  proof
    assume e: "e = X_name n"
    then show ?thesis using assms(2) name_read [OF wf, of r m]
      by (auto simp: parse_method_invocation_def make_text_node_def opcode_defs split: sum.splits option.splits aml_node.splits)
  next
    assume e: "e = X_call n es"
    then have "0 < length (name_code n)" using visible by simp
    then have "length (concat (map expr_code es)) \<le> k" using assms(3) e by (simp del: length_greater_0_conv)
    then have "parse_args (length es) T (concat (map expr_code es) @ r, m) = Inr (Some (map (expr_tree ns) es), (r, m))"
      using assms(1,2) e by (intro args_in_bounds) auto
    then show ?thesis using e assms(2) name_read [OF wf, of "concat (map expr_code es) @ r" m]
      by (auto simp: parse_method_invocation_def method_of_def split: sum.splits option.splits aml_node.splits)
  qed
qed

lemma not_logical_read:
  assumes "reads_expr ns k T" "expr_wf ns (X_not_logical op a b)" "length (expr_code a @ expr_code b) \<le> k"
  shows "type2_operator T S op_lnot (op_code op @ expr_code a @ expr_code b @ r, m) =
    Inr (Some (expr_tree ns (X_not_logical op a b)), (r, m))"
proof -
  have op: "op = op_lequal \<or> op = op_lgreater \<or> op = op_lless" using assms(2) by (auto simp: not_operators_def)
  have one: "op_code op = [ucast op]" using op by (auto simp: op_code_def opcode_defs is_extended_def)
  have peek: "peek_opcode (op_code op @ q, m) = Inr op" for q using op lnot_bytes by (intro peek_op) (auto simp: not_operators_def)
  have args: "parse_args 2 T (expr_code a @ expr_code b @ r, m) = Inr (Some [expr_tree ns a, expr_tree ns b], (r, m))"
    using args_in_bounds [OF assms(1), of "[a, b]" r m] assms(2,3) by (simp add: eval_nat_numeral)
  show ?thesis
    using op peek [of "expr_code a @ expr_code b @ r"] op_node_parse_read [OF args, of _ False S] one
    by (auto simp: type2_operator_def parse_lnot_def parse_logical_op_def operator_result_def not_operators_def opcode_defs)
qed

lemma term_arg_step:
  assumes T: "reads_expr ns k T" and S: "reads_target ns k S" and D: "reads_data ns k D"
  shows "reads_expr ns (Suc k) (term_arg_with ns T S D)"
  unfolding reads_expr_def
proof (intro allI impI)
  fix e r m assume wf: "expr_wf ns e" and len: "length (expr_code e) \<le> Suc k"
  have type2: "term_arg_with ns T S D (op_code op @ q, m) = type2_operator T S op (q, m)"
    if "opcode_ok op" "is_type2_opcode op" "plain_byte (hd (op_code op))" for op q
  proof -
    obtain c d where c: "op_code op = c # d" using op_code_Cons by blast
    then show ?thesis using that consume_op [OF that(1), of q m] by (simp add: term_arg_with_def type2_with_def plain_byte_def)
  qed
  have named: "term_arg_with ns T S D (expr_code e @ r, m) = parse_method_invocation ns T (expr_code e @ r, m)"
    if "expr_code e = c # d" "is_name_string_start c" for c d
    using that name_start_bytes [OF that(2)] by (simp add: term_arg_with_def type2_with_def)
  have slot: "parse_arg_or_local (c # r, m) = Inr (Some (N_simple (ucast c)), (r, m))" if "is_arg_or_local c" for c
    using slot_bytes [OF that] consume_op [of "ucast c" r m] that
    by (simp add: parse_arg_or_local_def byte_opcode make_simple_node_def)
  show "term_arg_with ns T S D (expr_code e @ r, m) = Inr (Some (expr_tree ns e), (r, m))"
  proof (cases "is_data_expr e")
    case True
    then obtain c d where c: "expr_code e = c # d" "is_data_object (ucast c)" "\<not> is_arg_or_local c"
      using data_code_start by blast
    have "data_object_with T D (expr_code e @ r, m) = Inr (Some (expr_tree ns e), (r, m))"
      using wf True T D len by (intro data_object_read) (auto simp: reads_expr_def reads_data_def)
    then show ?thesis using c by (simp add: term_arg_with_def)
  next
    case False
    then consider c where "e = X_slot c" | op es t where "e = X_op op es t" | op a b where "e = X_not_logical op a b"
      | n where "e = X_name n" | n es where "e = X_call n es"
      by (cases e) (simp_all add: is_data_expr_def)
    then show ?thesis
    proof cases
      case 1
      then show ?thesis using slot wf by (simp add: term_arg_with_def)
    next
      case (2 op es t)
      obtain name tgt where op: "map_of operators op = Some (name, length es, tgt)" "t = T_none \<longleftrightarrow> \<not> tgt"
        and subs: "list_all (expr_wf ns) es" "target_wf ns t"
        using wf 2 by (auto split: option.splits)
      have "op \<in> fst ` set operators" using map_of_SomeD [OF op(1)] by force
      note bytes = operator_bytes [OF this]
      have "0 < length (op_code op)" by (simp add: op_code_def)
      then have shorter: "length (concat (map expr_code es)) \<le> k" "length (target_code t) \<le> k"
        using len 2 by (simp_all del: length_greater_0_conv)
      have "type2_operator T S op (concat (map expr_code es) @ target_code t @ r, m) =
          operator_result S (length es) name tgt (map (expr_tree ns) es) (target_code t @ r, m)"
        by (rule operator_read [OF op(1) args_in_bounds [OF T subs(1) shorter(1)]])
      then show ?thesis
        using operator_result_read [OF S subs(2) op(2) shorter(2)] type2 [OF bytes(1,2,4)] 2 op(1) by (simp add: comp_def)
    next
      case (3 op a b)
      have "length (expr_code a @ expr_code b) \<le> k" using len 3 by (simp add: op_code_def split: if_splits)
      then show ?thesis using not_logical_read [OF T, of op a b S r m] wf type2 [of op_lnot] lnot_bytes 3 by simp
    next
      case (4 n)
      then have "n \<noteq> Name [] []" "name_wf n" using wf by (auto simp: lookup_binding_def)
      then obtain c d where "expr_code e = c # d" "is_name_string_start c" using name_code_start 4 by (metis expr_code.simps(14))
      then show ?thesis using named invocation_read [OF T wf len disjI1 [OF 4]] by metis
    next
      case (5 n es)
      then have "n \<noteq> Name [] []" "name_wf n" using wf by (auto simp: lookup_binding_def)
      then obtain c d where "name_code n = c # d" "is_name_string_start c" using name_code_start by blast
      then show ?thesis using named [of c "d @ concat (map expr_code es)"] invocation_read [OF T wf len disjI2 [OF 5]] 5 by simp
    qed
  qed
qed

lemma super_name_step:
  assumes T: "reads_expr ns k T" and S: "reads_target ns k S"
  shows "reads_target ns (Suc k) (super_name_with T S)"
  unfolding reads_target_def
proof (intro allI impI)
  fix t r m assume wf: "target_wf ns t" "t \<noteq> T_none" "t \<noteq> T_null" and len: "length (target_code t) \<le> Suc k"
  then consider c where "t = T_slot c" | n where "t = T_name n" | a b u where "t = T_index a b u" by (cases t) auto
  then show "super_name_with T S (target_code t @ r, m) = Inr (target_tree ns t, (r, m))"
  proof cases
    case (1 c)
    then have "is_arg_or_local c" using wf by simp
    then show ?thesis using 1 slot_bytes [of c] consume_op [of "ucast c" r m]
      by (simp add: super_name_with_def parse_arg_or_local_def byte_opcode make_simple_node_def)
  next
    case (2 n)
    then obtain c d where c: "name_code n = c # d" "is_name_string_start c" using name_code_start wf by auto
    then show ?thesis using 2 wf name_read [of n r m] name_start_bytes [OF c(2)]
      by (simp add: super_name_with_def parse_name_node_def make_text_node_def opcode_defs)
  next
    case (3 a b u)
    have code: "op_code op_index = [0x88]" by (simp add: op_code_def opcode_defs is_extended_def)
    have ok: "opcode_ok op_index" by (simp add: opcode_ok_def opcode_defs is_extended_def)
    have args: "parse_args 2 T (expr_code a @ expr_code b @ target_code u @ r, m) =
        Inr (Some [expr_tree ns a, expr_tree ns b], (target_code u @ r, m))"
      using args_in_bounds [OF T, of "[a, b]" "target_code u @ r" m] wf len 3 code by (simp add: eval_nat_numeral)
    have "parse_index T S (expr_code a @ expr_code b @ target_code u @ r, m) = Inr (target_tree ns t, (r, m))"
      using op_node_parse_read [OF args, of "''index''" True S] operator_result_read [OF S, of u True 2 "''index''"] wf len 3 code
      by (simp add: parse_index_def parse_binary_op_def)
    then show ?thesis
      using 3 consume_op [OF ok, of "expr_code a @ expr_code b @ target_code u @ r" m] code
      by (simp add: super_name_with_def parse_type6_opcode_def is_type6_opcode_def opcode_defs is_arg_or_local_def is_name_string_start_def
        root_char_def parent_prefix_char_def dual_name_path_start_def multi_name_path_start_def is_lead_name_char_def)
  qed
qed

lemma data_object_step:
  "reads_expr ns k T \<Longrightarrow> reads_data ns k D \<Longrightarrow> reads_data ns (Suc k) (data_object_with T D)"
  unfolding reads_data_def [of ns "Suc k"]
  by (intro allI impI data_object_read) (auto simp: reads_expr_def reads_data_def)

lemma name_code_nonempty: "name_wf n \<Longrightarrow> name_code n \<noteq> []"
  by (cases "n = Name [] []") (auto elim!: name_code_start)

lemma expr_code_nonempty: "expr_wf ns e \<Longrightarrow> expr_code e \<noteq> []"
  by (cases e) (auto simp: op_code_def name_code_nonempty)

lemma target_code_nonempty: "target_wf ns t \<Longrightarrow> t \<noteq> T_none \<Longrightarrow> target_code t \<noteq> []"
  by (cases t) (auto simp: op_code_def name_code_nonempty)

text \<open>Fuel for the bytes of the code is enough.\<close>

lemma expressions_read:
  "reads_expr ns k (term_arg_n k ns) \<and> reads_target ns k (super_name_n k ns) \<and> reads_data ns k (data_object_n k ns)"
proof (induction k)
  case 0
  then show ?case
    using expr_code_nonempty target_code_nonempty by (fastforce simp: reads_expr_def reads_target_def reads_data_def)
next
  case (Suc k)
  have step: "term_arg_n (Suc k) ns = term_arg_with ns (term_arg_n k ns) (super_name_n k ns) (data_object_n k ns)"
    "super_name_n (Suc k) ns = super_name_with (term_arg_n k ns) (super_name_n k ns)"
    "data_object_n (Suc k) ns = data_object_with (term_arg_n k ns) (data_object_n k ns)"
    by (rule ext, simp)+
  show ?case unfolding step using Suc term_arg_step super_name_step data_object_step by blast
qed

lemma term_arg_n_mono:
  assumes "expr_wf ns e" "length (expr_code e) \<le> k"
  shows "term_arg_n k ns (expr_code e @ r, m) = Inr (Some (expr_tree ns e), (r, m))"
  using expressions_read [of ns k] assms by (simp add: reads_expr_def)

lemma term_arg_read: "expr_wf ns e \<Longrightarrow> parse_term_arg ns (expr_code e @ r, m) = Inr (Some (expr_tree ns e), (r, m))"
  unfolding parse_term_arg_def by (rule term_arg_n_mono) simp_all

lemma super_name_read:
  "target_wf ns t \<Longrightarrow> t \<noteq> T_none \<Longrightarrow> t \<noteq> T_null \<Longrightarrow>
    parse_super_name ns (target_code t @ r, m) = Inr (target_tree ns t, (r, m))"
  unfolding parse_super_name_def
  using expressions_read [of ns "Suc (length (target_code t @ r))"] by (simp add: reads_target_def del: super_name_n.simps)

lemma data_object_code_read:
  "expr_wf ns e \<Longrightarrow> is_data_expr e \<Longrightarrow> parse_data_object ns (expr_code e @ r, m) = Inr (Some (expr_tree ns e), (r, m))"
  unfolding parse_data_object_def
  using expressions_read [of ns "Suc (length (expr_code e @ r))"] by (simp add: reads_data_def del: data_object_n.simps)

text \<open>C31: The parser inverts the code of expressions: for every expression that can be written down, with names as the name space
  has them, reading its code gives its tree, whatever comes after it, and leaves off exactly where the code ends.\<close>

theorem aml_expression_round_trip:
  assumes "expr_wf ns e"
  shows "parse_term_arg ns (expr_code e @ rest, behind) = Inr (Some (expr_tree ns e), (rest, behind))"
  using assms by (rule term_arg_read)

definition demo_expr :: expr where
  "demo_expr = X_op op_add [X_op op_index [X_slot 0x68, X_byte 3] T_null, X_not_logical op_lless (X_word 500) X_ones] (T_slot 0x60)"

lemma aml_expression_round_trip_witness:
  "parse_term_arg ns_new (expr_code demo_expr @ [0xa4], []) = Inr (Some (expr_tree ns_new demo_expr), ([0xa4], []))"
proof -
  have "expr_wf ns_new demo_expr"
    by (simp add: demo_expr_def operators_def not_operators_def opcode_defs is_arg_or_local_def)
  then show ?thesis by (rule aml_expression_round_trip)
qed

end
