(* ===== verification/AmlDevices.thy ===== *)
theory AmlDevices
  imports AmlCode
begin

text \<open>
  Tables that declare devices, each with the number that identifies it, and what the program \<open>exp/aml/aml.cpp\<close> prints for them:
  reading, the name space, evaluation and printing together.
\<close>

section \<open>Tables of devices\<close>

type_synonym device = "bytes \<times> u32"

definition hid :: bytes where "hid = ascii ''_HID''"

definition hid_code :: "u32 \<Rightarrow> bytes" where
  "hid_code num = op_code op_name @ hid @ expr_code (X_dword num)"

fun device_code :: "device \<Rightarrow> bytes" where
  "device_code (seg, num) = op_code op_device @ package (seg @ hid_code num)"

definition table_code :: "device list \<Rightarrow> bytes" where "table_code ds = concat (map device_code ds)"

definition hid_node :: "u32 \<Rightarrow> aml_node" where "hid_node num = N_name hid (N_const (ucast num) 4)"

fun device_node :: "device \<Rightarrow> aml_node" where
  "device_node (seg, num) = N_container op_device (Some seg) [hid_node num]"

definition add_binding :: "bytes \<Rightarrow> aml_node \<Rightarrow> name_space \<Rightarrow> name_space" where
  "add_binding s n ns =
     ns\<lparr>ns_bindings := ns_bindings ns @ [(s, n)], ns_capacity := ensure_room (length (ns_bindings ns) + 1) (ns_capacity ns)\<rparr>"

fun add_device :: "device \<Rightarrow> name_space \<Rightarrow> name_space" where
  "add_device (seg, num) ns = add_binding seg (device_node (seg, num)) (add_binding (seg @ hid) (hid_node num) ns)"

lemma hid_seg: "seg_ok hid"
  by (simp add: seg_ok_def hid_def ascii_def is_name_char_def is_lead_name_char_def)

lemma seg_read: "seg_ok s \<Longrightarrow> parse_name_string (s @ r, m) = Inr (s, (r, m))"
  using name_read [of "Name [] [s]" r m] by simp

lemma open_seg:
  assumes "seg_ok s"
  shows "open_scope s ns = Inr (ns_cur ns, ns\<lparr>ns_cur := ns_cur ns @ s\<rparr>)"
proof -
  obtain c a b d where "s = [c, a, b, d]" "is_lead_name_char c" using assms by (rule seg_okE)
  then show ?thesis using lead_char [of c] by (simp add: open_scope_def)
qed

lemma add_binding_cur: "add_binding s n (ns\<lparr>ns_cur := c\<rparr>) = (add_binding s n ns)\<lparr>ns_cur := c\<rparr>"
  by (cases ns) (simp add: add_binding_def)

lemma add_binding_simps [simp]:
  "ns_cur (add_binding s n ns) = ns_cur ns" "ns_merged (add_binding s n ns) = ns_merged ns"
  "ns_bindings (add_binding s n ns) = ns_bindings ns @ [(s, n)]"
  by (simp_all add: add_binding_def)

lemma provide_new:
  assumes "s \<notin> fst ` set (ns_bindings ns)"
  shows "provide (ns_cur ns) n (ns\<lparr>ns_cur := s\<rparr>) = Inr (add_binding s n ns)"
  using assms unfolding provide_def
  by (simp add: find_binding_None add_binding_def)

lemma declaration_ops:
  "opcode_ok op_name" "opcode_ok op_device" "\<not> is_type2_opcode op_name" "\<not> is_type2_opcode op_device"
  by (simp_all add: opcode_ok_def is_extended_def is_type2_opcode_def opcode_defs is_name_string_start_def root_char_def parent_prefix_char_def
    dual_name_path_start_def multi_name_path_start_def is_lead_name_char_def)

lemma switch_ops: "term_obj_switch L op_name = obj_name" "term_obj_switch L op_device = obj_device L"
  by (simp_all add: term_obj_switch_def opcode_defs)

lemma declaration_read:
  assumes "op = op_name \<or> op = op_device"
  shows "term_obj_n (Suc k) ns (op_code op @ r, m) = term_obj_switch (\<lambda>ns v. parse_list (Suc (length (fst v))) (term_obj_n k) ns v) op ns (r, m)"
  using assms declaration_ops peek_op [of op r m] consume_op [of op r m] by (auto simp: term_obj_with_def)

lemma hid_read:
  assumes "ns_cur ns @ hid \<notin> fst ` set (ns_bindings ns)"
  shows "term_obj_n (Suc k) ns (hid_code num @ r, m) = Inr (Some (hid_node num), (r, m), add_binding (ns_cur ns @ hid) (hid_node num) ns)"
proof -
  have "parse_data_object ns1 (expr_code (X_dword num) @ r, m) = Inr (Some (N_const (ucast num) 4), (r, m))" for ns1
    by (subst data_object_code_read) (simp_all add: is_data_expr_def)
  then show ?thesis
    using declaration_read [of op_name k ns "hid @ expr_code (X_dword num) @ r" m] seg_read [OF hid_seg, of "expr_code (X_dword num) @ r" m]
      open_seg [OF hid_seg, of ns] provide_new [OF assms, of "hid_node num"]
    by (simp add: hid_code_def switch_ops obj_name_def parse_data_ref_object_def hid_node_def del: expr_code.simps)
qed

definition device_fresh :: "device \<Rightarrow> name_space \<Rightarrow> bool" where
  "device_fresh d ns \<longleftrightarrow> seg_ok (fst d) \<and> fst d \<notin> fst ` set (ns_bindings ns) \<and> fst d @ hid \<notin> fst ` set (ns_bindings ns)"

lemma device_read:
  assumes "ns_cur ns = []" "device_fresh d ns"
  shows "term_obj_n (Suc (Suc k)) ns (device_code d @ r, m) = Inr (Some (device_node d), (r, m), add_device d ns)"
proof (cases d)
  case (Pair seg num)
  let ?ns1 = "ns\<lparr>ns_cur := seg\<rparr>"
  let ?L = "\<lambda>ns v. parse_list (Suc (length (fst v))) (term_obj_n (Suc k)) ns v"
  have fresh: "seg_ok seg" "seg \<notin> fst ` set (ns_bindings ns)" "seg @ hid \<notin> fst ` set (ns_bindings ns)"
    using assms(2) Pair by (simp_all add: device_fresh_def)
  have "seg @ hid \<noteq> seg" by (simp add: hid_def ascii_def)
  have inner: "term_obj_n (Suc k) ?ns1 (hid_code num, r @ m) = Inr (Some (hid_node num), ([], r @ m), add_binding (seg @ hid) (hid_node num) ?ns1)"
    using hid_read [of ?ns1 k num "[]" "r @ m"] fresh(3) by simp
  have "hid_code num \<noteq> []" "node_op (hid_node num) \<noteq> op_dead_scope" by (simp_all add: hid_code_def op_code_def hid_node_def opcode_defs)
  then have list: "?L ?ns1 (hid_code num, r @ m) = Inr (Some [hid_node num], ([], r @ m), add_binding (seg @ hid) (hid_node num) ?ns1)"
    using inner by (cases "length (hid_code num)") simp_all
  have "length (seg @ hid_code num) + 3 < 2 ^ 20"
    using fresh(1) by (simp add: hid_code_def op_code_def hid_def ascii_def seg_ok_def)
  then have pkg: "adjust_with_pkg_length (package (seg @ hid_code num) @ r, m) = Inr ((seg @ hid_code num, r @ m), (r, m))"
    by (rule package_read)
  have bind: "provide [] (device_node d) (add_binding (seg @ hid) (hid_node num) ?ns1) = Inr (add_device d ns)"
    using provide_new [of seg "add_binding (seg @ hid) (hid_node num) ns" "device_node d"] fresh(2) assms(1) \<open>seg @ hid \<noteq> seg\<close> Pair
    by (simp add: add_binding_cur)
  show ?thesis
    using declaration_read [of op_device "Suc k" ns "package (seg @ hid_code num) @ r" m] pkg list bind
      seg_read [OF fresh(1), of "hid_code num" "r @ m"] open_seg [OF fresh(1), of ns] assms(1) Pair
    by (simp add: switch_ops obj_device_def obj_container_def close_container_def add_binding_cur Let_def
      del: parse_list.simps term_obj_n.simps)
qed

definition add_devices :: "device list \<Rightarrow> name_space \<Rightarrow> name_space" where
  "add_devices ds ns = fold add_device ds ns"

definition devices_fresh :: "device list \<Rightarrow> name_space \<Rightarrow> bool" where
  "devices_fresh ds ns \<longleftrightarrow> distinct (map fst ds) \<and> (\<forall>d \<in> set ds. device_fresh d ns)"

lemma device_fresh_add:
  assumes "device_fresh e ns" "seg_ok (fst d)" "fst e \<noteq> fst d"
  shows "device_fresh e (add_device d ns)"
proof -
  have "length (fst e) = 4" "length (fst d) = 4" "length hid = 4"
    using assms(1,2) by (simp_all add: device_fresh_def seg_ok_def hid_def ascii_def)
  then have "fst e \<noteq> fst d @ hid" "fst e @ hid \<noteq> fst d" "fst e @ hid \<noteq> fst d @ hid"
    using assms(3) by (auto dest: arg_cong [where f = length])
  then show ?thesis using assms by (cases d) (auto simp: device_fresh_def)
qed

lemma add_device_cur [simp]: "ns_cur (add_device d ns) = ns_cur ns" by (cases d) simp

lemma devices_read:
  "ns_cur ns = [] \<Longrightarrow> devices_fresh ds ns \<Longrightarrow> length (table_code ds) < n \<Longrightarrow>
    parse_list n parse_term_obj ns (table_code ds, m) = Inr (Some (map device_node ds), ([], m), add_devices ds ns)"
proof (induction ds arbitrary: ns n)
  case Nil
  then show ?case by (cases n) (auto simp: table_code_def add_devices_def)
next
  case (Cons d ds)
  have d: "device_fresh d ns" using Cons.prems(2) by (simp add: devices_fresh_def)
  have "devices_fresh ds (add_device d ns)"
    unfolding devices_fresh_def
  proof (intro conjI ballI)
    show "distinct (map fst ds)" using Cons.prems(2) by (simp add: devices_fresh_def)
    fix e assume e: "e \<in> set ds"
    then have "fst e \<noteq> fst d" using Cons.prems(2) by (auto simp: devices_fresh_def image_iff)
    then show "device_fresh e (add_device d ns)"
      using Cons.prems(2) e d by (intro device_fresh_add) (auto simp: devices_fresh_def device_fresh_def)
  qed
  moreover have two: "2 \<le> length (device_code d)" by (cases d) (simp add: op_code_def opcode_defs is_extended_def)
  moreover obtain k where n: "n = Suc k" using Cons.prems(3) by (cases n) auto
  ultimately have rest: "parse_list k parse_term_obj (add_device d ns) (table_code ds, m) =
      Inr (Some (map device_node ds), ([], m), add_devices ds (add_device d ns))"
    using Cons.prems(1,3) by (intro Cons.IH) (simp_all add: table_code_def)
  obtain j where "length (device_code d @ table_code ds) = Suc j" using two by (cases "length (device_code d @ table_code ds)") auto
  then have "parse_term_obj ns (device_code d @ table_code ds, m) = Inr (Some (device_node d), (table_code ds, m), add_device d ns)"
    unfolding parse_term_obj_def using device_read [OF Cons.prems(1) d, of j "table_code ds" m] by (simp del: term_obj_n.simps)
  moreover have "device_code d \<noteq> []" using two by auto
  moreover have "node_op (device_node d) \<noteq> op_dead_scope" by (cases d) (simp add: opcode_defs)
  ultimately show ?case using rest by (simp add: n table_code_def add_devices_def)
qed

section \<open>The list of devices\<close>

text \<open>The number as it is printed: three letters of 5 bits each, then four digits.\<close>

fun device_line :: "device \<Rightarrow> bytes res" where
  "device_line (seg, num) = andThen (put_eisa_id (ucast num)) (\<lambda>s. Inr (seg @ hid @ put_char 32 @ s @ put_char 10))"

lemma find_distinct:
  "distinct (map fst xs) \<Longrightarrow> (s, n) \<in> set xs \<Longrightarrow> find (\<lambda>b. fst b = s) xs = Some (s, n)"
  by (induction xs) force+

lemma hid_property:
  assumes "ns_cur ns = []" "distinct (map fst (ns_bindings ns))" "seg_ok seg" "(seg @ hid, hid_node num) \<in> set (ns_bindings ns)"
  shows "print_property ns seg ''_HID'' =
    andThen (put_eisa_id (ucast num)) (\<lambda>s. Inr (True, seg @ hid @ put_char 32 @ s @ put_char 10, ns))"
proof -
  obtain c a b d where seg: "seg = [c, a, b, d]" "is_lead_name_char c" using assms(3) by (rule seg_okE)
  have "find_binding ns (seg @ hid) = Some (seg @ hid, hid_node num)"
    unfolding find_binding_def by (rule find_distinct [OF assms(2,4)])
  then have lookup: "lookup_node ns (seg @ ascii ''_HID'') = Inr (Some (seg @ hid, hid_node num))"
    using lead_char [OF seg(2)] seg(1) by (simp add: lookup_node_def lookup_binding_def hid_def ascii_def)
  have scope: "open_scope (seg @ ascii ''_HID'') ns = Inr ([], ns\<lparr>ns_cur := seg @ hid\<rparr>)"
    using lead_char [OF seg(2)] seg(1) assms(1) by (simp add: open_scope_def hid_def ascii_def)
  have closed: "mark_dead [] (ns\<lparr>ns_cur := seg @ hid\<rparr>) = ns" using assms(1) by (simp add: mark_dead_def)
  show ?thesis
    unfolding print_property_def Let_def lookup scope
    using closed by (simp add: hid_node_def put_property_def as_uint_def hid_def)
qed

fun device_bindings :: "device \<Rightarrow> (bytes \<times> aml_node) list" where
  "device_bindings (seg, num) = [(seg @ hid, hid_node num), (seg, device_node (seg, num))]"

lemma bindings_add: "ns_bindings (add_devices ds ns) = ns_bindings ns @ concat (map device_bindings ds)"
  unfolding add_devices_def by (induction ds arbitrary: ns) (auto split: prod.splits)

lemma add_devices_cur [simp]: "ns_cur (add_devices ds ns) = ns_cur ns"
  unfolding add_devices_def by (induction ds arbitrary: ns) auto

lemma devices_print:
  assumes "ns_cur ns = []" "distinct (map fst (ns_bindings ns))"
  shows "\<forall>d \<in> set ds. seg_ok (fst d) \<and> set (device_bindings d) \<subseteq> set (ns_bindings ns) \<Longrightarrow>
    print_devices (ns_capacity ns) (concat (map device_bindings ds)) ns = put_all (map device_line ds)"
proof (induction ds)
  case (Cons d ds)
  obtain seg num where d: "d = (seg, num)" by (cases d)
  have "print_property ns seg ''_HID'' =
      andThen (put_eisa_id (ucast num)) (\<lambda>s. Inr (True, seg @ hid @ put_char 32 @ s @ put_char 10, ns))"
    using assms Cons.prems d by (intro hid_property) auto
  then have "print_device ns seg = andThen (device_line d) (\<lambda>s. Inr (s, ns))"
    by (simp add: print_device_def d andThen_assoc)
  moreover have "node_op (hid_node num) \<noteq> op_device" "node_op (device_node (seg, num)) = op_device"
    by (simp_all add: hid_node_def opcode_defs)
  ultimately show ?case using Cons by (simp add: d andThen_assoc del: device_line.simps device_node.simps)
qed simp

lemma initial_names_eq:
  "initial_names = Inr \<lparr>ns_cur = [],
     ns_bindings = [(ascii ''_OS_'', N_text op_string os_name), (ascii ''_OSI'', N_method osi_name 1 ([], []))],
     ns_capacity = 10, ns_merged = []\<rparr>"
  by (simp add: initial_names_def make_text_node_def opcode_defs open_scope_def os_name_def osi_name_def ascii_def ns_new_def provide_def
    find_binding_def ensure_room_def parent_prefix_char_def root_char_def)


section \<open>Identification numbers\<close>

text \<open>The number that a vendor's three letters (from 1 for A) and a product number have: five bits for each letter, the first
  letter highest, and both halves with their high byte first.\<close>

definition eisa_letters :: "u8 \<Rightarrow> u8 \<Rightarrow> u8 \<Rightarrow> u16" where
  "eisa_letters a b c = push_bit 10 (ucast a) OR push_bit 5 (ucast b) OR ucast c"

definition eisa_number :: "u8 \<Rightarrow> u8 \<Rightarrow> u8 \<Rightarrow> u16 \<Rightarrow> u32" where
  "eisa_number a b c product =
     ucast (swap16 (ucast (eisa_letters a b c))) OR push_bit 16 (ucast (swap16 (ucast product)))"

lemma swap16_bits: "swap16 v = push_bit 8 (ucast (take_bit 8 v)) OR ucast (take_bit 8 (drop_bit 8 v))"
proof -
  have "drop_bit 8 (v AND 0xff00) = drop_bit 8 v AND 0xff" by simp
  moreover have "w AND 0xff = take_bit 8 w" for w :: u64 by (simp add: take_bit_eq_mask mask_eq_exp_minus_1)
  ultimately show ?thesis
    unfolding swap16_def by (intro bit_word_eqI) (auto simp: bit_simps)
qed

lemma swap16_swap:
  "swap16 (ucast (ucast (swap16 (ucast x)) OR push_bit 16 y :: u32)) = x"
  "swap16 (drop_bit 16 (ucast (ucast (z :: u16) OR push_bit 16 (ucast (swap16 (ucast x))) :: u32))) = x"
  unfolding swap16_bits by (rule bit_word_eqI; auto simp: bit_simps dest: bit_imp_le_length)+

lemma letters_back:
  assumes "a < 32" "b < 32" "c < 32"
  shows "ucast (eisa_letters a b c AND 0x1f) = c" "ucast (drop_bit 5 (eisa_letters a b c) AND 0x1f) = b"
    "ucast (drop_bit 10 (eisa_letters a b c) AND 0x1f) = a"
proof -
  have small: "take_bit 5 x = x" if "x < 32" for x :: u8
    using that by (simp add: word_unat_eq_iff unsigned_take_bit_eq take_bit_nat_eq_self word_less_nat_alt)
  have bits: "x < 32 \<Longrightarrow> bit x n \<Longrightarrow> n < 5" for x :: u8 and n by (metis small bit_take_bit_iff)
  have mask: "w AND 0x1f = take_bit 5 w" for w :: u16 by (simp add: take_bit_eq_mask mask_eq_exp_minus_1)
  show "ucast (eisa_letters a b c AND 0x1f) = c" "ucast (drop_bit 5 (eisa_letters a b c) AND 0x1f) = b"
    "ucast (drop_bit 10 (eisa_letters a b c) AND 0x1f) = a"
    using assms bits
    unfolding mask eisa_letters_def by (intro bit_word_eqI; fastforce simp: bit_simps)+
qed

lemma eisa_id_text:
  assumes "a < 32" "b < 32" "c < 32"
  shows "put_eisa_id (ucast (eisa_number a b c product)) =
    andThen (put_hex_width 4 2 (ucast product)) (\<lambda>digits. Inr ([64 + c, 64 + b, 64 + a] @ digits))"
proof -
  have "swap16 (ucast (eisa_number a b c product)) = eisa_letters a b c"
    "swap16 (drop_bit 16 (ucast (eisa_number a b c product))) = product"
    unfolding eisa_number_def by (rule swap16_swap)+
  then show ?thesis
    using letters_back [OF assms] by (simp add: put_eisa_id_def Let_def put_char_def andThen_assoc)
qed

text \<open>C39: The letters of a device's identification are printed in reverse order: the number of the vendor with the letters
  \<open>a\<close>, \<open>b\<close> and \<open>c\<close> is printed as \<open>c\<close>, \<open>b\<close>, \<open>a\<close>. For the vendor PNP, the same from both sides, this does not show.\<close>

theorem eisa_letters_reversed:
  assumes "a < 32" "b < 32" "c < 32" "put_hex_width 4 2 (ucast product) = Inr digits"
  shows "put_eisa_id (ucast (eisa_number a b c product)) = Inr ([64 + c, 64 + b, 64 + a] @ digits)"
  using eisa_id_text [OF assms(1-3), of product] assms(4) by simp

text \<open>The device INT0800 is printed as TNI0800.\<close>

lemma eisa_letters_reversed_witness:
  "put_eisa_id (ucast (eisa_number 9 14 20 0x0800)) = Inr (ascii ''TNI0800'')"
proof -
  have "put_hex_width 4 2 (ucast (0x0800 :: u16)) = Inr (ascii ''0800'')" by code_simp
  then show ?thesis using eisa_letters_reversed [of 9 14 20 "0x0800" "ascii ''0800''"] by (simp add: ascii_def)
qed

definition demo_table :: "device list" where
  "demo_table = [(ascii ''PCI0'', 0x030ad041), (ascii ''COM1'', 0x0105d041)]"


end
