(* ===== verification/Spec2Isabelle.thy ===== *)
theory Spec2Isabelle
  imports Containers PageTables Dhcp TftpTransfer TextScreen Ps2 Pci I825x Ata DebugInfo ProcessTree Acpi Boot AmlDevices
begin

text \<open>
  A verification library for attos, a small 64 bit operating system in C++.

  \<^bold>\<open>The program.\<close> The kernel (\<open>src/kernel\<close>) runs on one processor. Its support library (\<open>src/attos\<close>) holds memory
  allocation, containers, text output, the network stack and a TFTP client; some of that code also runs on the host
  in the tools of \<open>src/exp\<close>. The kernel keeps its address ranges in an intrusive tree and its page tables in physical
  memory, takes memory from a heap, prints to a text console, reads the keyboard, finds devices on the PCI bus, drives an
  Ethernet card, and runs user processes.

  \<^bold>\<open>How code becomes definitions.\<close> A class or struct is a record, an enum a datatype or constants, an integer a word of its
  width. An operation is a function on explicit state with a result in \<open>fault + 'a\<close>: \<open>Fatal\<close> is a failed \<open>REQUIRE\<close>, which
  stops the machine; \<open>Wild\<close> is an access outside of the object, undefined in C++ and visible here; \<open>No_return\<close> is a loop
  whose fuel is used up. Pointers are addresses of an explicit store where the code mutates shared memory (the heap,
  the tree, page tables), and lists of the bytes from the pointer on where it only reads them. What the machine or the
  other side supplies (ports, arriving interrupts and frames, devices behind the PCI ports) is an argument.

  \<^bold>\<open>The theories.\<close>
  \<^item> \<open>Prelude\<close>: words, outcomes, counted loops, \<open>round_up\<close>. \<open>Bytes\<close>: strings (\<open>attos/string.h\<close>) and integers in memory.
  \<^item> \<open>Allocator\<close>: what an allocator promises, a locale; \<open>SimpleHeap\<close>: the heap of \<open>attos/mem.h\<close> with its list of free
    blocks, and the default heap; the locale is interpreted on both. Every operation keeps the heap's invariant, live
    blocks never overlap, allocation and release always end, and a drained heap can be destroyed.
  \<^item> \<open>Containers\<close>: \<open>kvector\<close> over any allocator, with proofs inside the locale; the properties use its interpretation.
  \<^item> \<open>IntrusiveTree\<close>: the search tree of \<open>attos/tree.h\<close> with its parent pointers; a locale for ordered collections.
  \<^item> \<open>MemTypes\<close>, \<open>PageTables\<close>: addresses, memory types, and the memory manager of \<open>kernel/mm.cpp\<close>: four levels of page
    tables in physical memory; mapping a range makes exactly its addresses translate, unmapping undoes it.
  \<^item> \<open>OutStream\<close>: number formatting and \<open>hexdump\<close> (\<open>attos/out_stream.h\<close>); what is printed reads back.
  \<^item> \<open>NetTypes\<close>, \<open>NetStack\<close>: headers, checksums, and the IPv4 device of \<open>attos/net/tftp.cpp\<close> with ARP, ICMP and UDP.
  \<^item> \<open>Dhcp\<close>: the DHCP client. \<open>Tftp\<close>: the TFTP client. \<open>TftpServer\<close>: the server \<open>exp/tftp/tftps.cpp\<close>. \<open>TftpTransfer\<close>: both
    joined by a lossless link; reads and writes deliver the file.
  \<^item> \<open>TextScreen\<close>: the console; it refines a terminal that keeps all lines. \<open>Ps2\<close>: the keyboard; the ring buffer
    refines a bounded queue under all interleavings of interrupts and reads; \<open>BoundedQueue\<close> is the locale of such queues. \<open>Pci\<close>: the search for devices.
  \<^item> \<open>I825x\<close>: the Ethernet driver. The card is a parameter; its receive ring is a second interpretation of \<open>BoundedQueue\<close>, and in
    every run packets are handed over once and in order.
  \<^item> \<open>Ports\<close>: the I/O ports. \<open>Ata\<close>: the disk driver reads the sector that it is asked for. \<open>Cpu\<close>: segments, system call
    registers and the switch between contexts (\<open>attos/cpu.h\<close>, \<open>kernel/cpu_manager.cpp\<close>). \<open>Isr\<close>: the stubs generated as machine
    code, the interrupt controllers, and the invariant that open lines and handlers agree (\<open>kernel/isr.cpp\<close>).
  \<^item> \<open>Pe\<close>: executables (\<open>attos/pe.h\<close>) and the unwinder (\<open>attos/pe.cpp\<close>): a trace shows every chain of calls. \<open>DebugInfo\<close>: the symbol
    table and the report of an unhandled interrupt (\<open>kernel/isr.cpp\<close>).
  \<^item> \<open>Processes\<close>: user processes, their handles and the system calls (\<open>kernel/kernel.cpp\<close>), on the address spaces of \<open>PageTables\<close>.
    \<open>ProcessTree\<close>: processes own each other as a tree, and wait for each other as a stack; every system call keeps both.
  \<^item> \<open>Acpi\<close>: the tables of the firmware (\<open>kernel/kernel.cpp\<close>): the search for the root pointer finds the first one, and the
    table of interrupt controllers is accepted exactly when its entries are well formed. \<open>Boot\<close>: the start of the kernel, where
    the first memory manager gets its memory, the timer and debug output.
  \<^item> \<open>Aml\<close>, \<open>AmlParser\<close>, \<open>AmlProcess\<close>: the interpreter of the ACPI machine language (\<open>exp/aml/aml.cpp\<close>): the name space, the
    parser, printing and evaluation. \<open>AmlTyped\<close>: for every input it ends, and what it builds is well typed. \<open>AmlCode\<close>: the
    parser inverts the code of expressions. \<open>AmlDevices\<close>: tables of devices are listed; the letters of their numbers are reversed.

  \<^bold>\<open>Fuel and bounds.\<close> Loops over lists of free blocks take the number of cells as fuel, which the invariant shows to be
  enough. Loops that wait for the outside world run over a list of what it supplies and end with \<open>No_return\<close> when that is
  used up. The search of the PCI bus takes the depth of nested bridges as fuel. The parser of the machine
  language takes one more than the bytes that are left, which is enough for every input. Everything else ends by structure or by
  a measure that is proved.

  \<^bold>\<open>Not modelled.\<close> The boot loader and the interrupt and switching stubs (assembly), the tools that build disk images and
  run the virtual machine, the experiment with disassembly, the vendored test framework, messages
  for debugging except where they are the subject, and the destruction of objects at shutdown.
\<close>

end
